(* ===== verification/HWFQ_Prelude.thy ===== *)
theory HWFQ_Prelude
  imports Main "HOL-Library.Word" "HOL-Library.Monad_Syntax"
begin

unbundle bit_operations_syntax

text \<open>
  What the components share.

  A C function is a HOL function from the objects behind its pointer arguments to an
  \<^typ>\<open>'a option\<close>: \<^term>\<open>None\<close> is undefined behaviour (a read or write outside an array,
  a NULL or dangling pointer, a shift by the width or more, a builtin called outside its
  domain) or a loop that never ends, and \<open>Some\<close> holds the results.  A total theorem
  \<open>\<exists>r. f s = Some r\<close> is therefore memory safety and termination at once.  Guards of the
  form \<open>handle == NULL\<close> on the object itself, and those on out-pointers, have no counterpart,
  because the argument of the HOL function is that object and its result what is written; every
  other guard and early return is a branch.

  Fixed-width integers are words.  The error codes of \<^verbatim>\<open>include/hwfq.h\<close> are a datatype, and a
  function that returns a code and writes an out-parameter returns \<open>hwfq_error + 'a\<close>.
\<close>

section \<open>Machine types and error codes\<close>

type_synonym u32 = "32 word"
type_synonym u64 = "64 word"

abbreviation UINT64_MAX :: u64 where "UINT64_MAX \<equiv> - 1"
abbreviation UINT32_MAX :: u32 where "UINT32_MAX \<equiv> - 1"

datatype hwfq_error =
    HWFQ_ERR_INVALID_ARG
  | HWFQ_ERR_NO_MEMORY
  | HWFQ_ERR_NOT_FOUND
  | HWFQ_ERR_ALREADY_EXIST
  | HWFQ_ERR_OVERBOOKED
  | HWFQ_ERR_NO_WORK
  | HWFQ_ERR_TENANT_HAS_BACKLOG
  | HWFQ_ERR_INTERNAL

text \<open>The codes of the header; \<open>HWFQ_SUCCESS = 0\<close> is \<open>Inr\<close>.\<close>

fun error_code :: "hwfq_error \<Rightarrow> int" where
  "error_code HWFQ_ERR_INVALID_ARG = -1"
| "error_code HWFQ_ERR_NO_MEMORY = -2"
| "error_code HWFQ_ERR_NOT_FOUND = -3"
| "error_code HWFQ_ERR_ALREADY_EXIST = -4"
| "error_code HWFQ_ERR_OVERBOOKED = -5"
| "error_code HWFQ_ERR_NO_WORK = -6"
| "error_code HWFQ_ERR_TENANT_HAS_BACKLOG = -7"
| "error_code HWFQ_ERR_INTERNAL = -99"

section \<open>Checked memory access and shifts\<close>

definition arr_get :: "'a list \<Rightarrow> nat \<Rightarrow> 'a option" where
  "arr_get xs i = (if i < length xs then Some (xs ! i) else None)"

definition arr_set :: "'a list \<Rightarrow> nat \<Rightarrow> 'a \<Rightarrow> 'a list option" where
  "arr_set xs i v = (if i < length xs then Some (xs[i := v]) else None)"

text \<open>\<open>1ULL << n\<close>, undefined from the width on.\<close>

definition shl1 :: "u32 \<Rightarrow> u64 option" where
  "shl1 n = (if n < 64 then Some (push_bit (unat n) 1) else None)"

lemma arr_get_simps [simp]:
  "i < length xs \<Longrightarrow> arr_get xs i = Some (xs ! i)"
  "\<not> i < length xs \<Longrightarrow> arr_get xs i = None"
  by (simp_all add: arr_get_def)

lemma arr_set_simps [simp]:
  "i < length xs \<Longrightarrow> arr_set xs i v = Some (xs[i := v])"
  "\<not> i < length xs \<Longrightarrow> arr_set xs i v = None"
  by (simp_all add: arr_set_def)

lemma arr_get_Some_iff: "arr_get xs i = Some x \<longleftrightarrow> i < length xs \<and> xs ! i = x"
  by (auto simp: arr_get_def)

lemma arr_set_Some_iff: "arr_set xs i v = Some ys \<longleftrightarrow> i < length xs \<and> ys = xs[i := v]"
  by (auto simp: arr_set_def)

lemma bind_Some_iff: "(m \<bind> f) = Some y \<longleftrightarrow> (\<exists>x. m = Some x \<and> f x = Some y)"
  by (cases m) auto

section \<open>Words as numbers\<close>

named_theorems word_nat \<open>word comparisons and operations read as natural numbers\<close>

lemmas [word_nat] = word_less_nat_alt word_le_nat_alt unat_div unat_mod

lemma unat_inject [simp]: "unat a = unat b \<longleftrightarrow> a = b" for a b :: "'a::len word"
  by (simp add: word_unat_eq_iff)

lemma unat_add_no_wrap:
  fixes a b :: "'a::len word"
  shows "unat a + unat b < 2 ^ LENGTH('a) \<Longrightarrow> unat (a + b) = unat a + unat b"
  by (simp add: unat_word_ariths)

lemma unat_mult_no_wrap:
  fixes a b :: "'a::len word"
  shows "unat a * unat b < 2 ^ LENGTH('a) \<Longrightarrow> unat (a * b) = unat a * unat b"
  by (simp add: unat_word_ariths)

lemma unat_sub_le: "(b :: 'a::len word) \<le> a \<Longrightarrow> unat (a - b) = unat a - unat b"
  by (rule unat_sub)

lemma unat_max_word: "unat (- 1 :: 'a::len word) = 2 ^ LENGTH('a) - 1"
  by (simp add: unsigned_minus_1_eq_mask mask_eq_exp_minus_1)

lemma unat_lt_2p: "unat (w :: 'a::len word) < 2 ^ LENGTH('a)"
  by simp

lemma unat_u32_bound: "unat (w :: u32) < 4294967296"
  using unat_lt_2p [of w] by simp

lemma unat_u64_bound: "unat (w :: u64) < 18446744073709551616"
  using unat_lt_2p [of w] by simp

lemma word_le_max [simp]: "(w :: 'a::len word) \<le> - 1"
  by simp

lemma word_less_max: "(w :: 'a::len word) < - 1 \<longleftrightarrow> w \<noteq> - 1"
  by (simp add: order.strict_iff_order)

lemma not_max_less [simp]: "\<not> - 1 < (w :: 'a::len word)"
  by (simp add: not_less)

end
