(* ===== verification/Bit_Arrays.thy ===== *)
theory Bit_Arrays
  imports HWFQ_Prelude
begin

text \<open>
  The compiler builtins the code scans bitmaps with, and bitmaps stored as arrays of words.

  \<^item> \<open>builtin_ctz\<close>, \<open>builtin_clzll\<close>, \<open>builtin_ffsll\<close>: GCC's builtins, undefined at 0 where the
    compiler says so.
  \<^item> \<open>abit xs i\<close>: bit \<open>i\<close> of the bitmap that the word array \<open>xs\<close> stores, and what setting and
    clearing one bit does to it.
  \<^item> \<open>for_bits\<close>: the loop \<open>while (w != 0) { b = ctz(w); body; w &= ~(1U << b); }\<close>, which visits
    the set bits of \<open>w\<close> in ascending order (lemma \<open>for_bits_eq\<close>).
\<close>

section \<open>Builtins\<close>

definition ctz :: "'a::len word \<Rightarrow> nat" where
  "ctz w = length (takeWhile (\<lambda>i. \<not> bit w i) [0..<LENGTH('a)])"

definition builtin_ctz :: "'a::len word \<Rightarrow> nat option" where
  "builtin_ctz w = (if w = 0 then None else Some (ctz w))"

definition builtin_ffsll :: "u64 \<Rightarrow> nat" where
  "builtin_ffsll w = (if w = 0 then 0 else ctz w + 1)"

definition clz :: "u64 \<Rightarrow> nat" where
  "clz w = length (takeWhile (\<lambda>i. \<not> bit w i) (rev [0..<64]))"

definition builtin_clzll :: "u64 \<Rightarrow> nat option" where
  "builtin_clzll w = (if w = 0 then None else Some (clz w))"

lemma word_neq_0_bit: "w \<noteq> 0 \<longleftrightarrow> (\<exists>i < LENGTH('a). bit w i)" for w :: "'a::len word"
  using bit_imp_le_length by (auto simp: bit_eq_iff)

lemma word_neq_max_bit: "w \<noteq> - 1 \<longleftrightarrow> (\<exists>i < LENGTH('a). \<not> bit w i)" for w :: "'a::len word"
  by (auto simp: bit_eq_iff)

lemma ctz_spec:
  fixes w :: "'a::len word"
  assumes "w \<noteq> 0"
  shows "bit w (ctz w)" "ctz w < LENGTH('a)" "\<And>j. j < ctz w \<Longrightarrow> \<not> bit w j"
proof -
  let ?P = "\<lambda>i. \<not> bit w i" and ?xs = "[0..<LENGTH('a)]"
  have ex: "\<exists>i \<in> set ?xs. \<not> ?P i"
    using assms by (auto simp: word_neq_0_bit)
  then have "length (takeWhile ?P ?xs) < length ?xs"
    by (metis length_takeWhile_le nat_less_le takeWhile_eq_all_conv takeWhile_eq_take take_all_iff)
  then show lt: "ctz w < LENGTH('a)" by (simp add: ctz_def)
  show "bit w (ctz w)"
    using nth_length_takeWhile [of ?P ?xs] lt by (simp add: ctz_def)
  show "\<not> bit w j" if "j < ctz w" for j
  proof -
    have "takeWhile ?P ?xs ! j \<in> set (takeWhile ?P ?xs)"
      using that by (simp add: ctz_def)
    moreover have "takeWhile ?P ?xs ! j = j"
      using that lt takeWhile_nth [of j ?P ?xs] by (simp add: ctz_def)
    ultimately show ?thesis by (metis set_takeWhileD)
  qed
qed

lemma ctz_unique:
  "bit w i \<Longrightarrow> (\<And>j. j < i \<Longrightarrow> \<not> bit w j) \<Longrightarrow> ctz w = i" for w :: "'a::len word"
  using ctz_spec [of w] by (metis bit_0_eq bot_apply linorder_neqE_nat bot_bool_def)

lemma builtin_ctz_Some [simp]: "w \<noteq> 0 \<Longrightarrow> builtin_ctz w = Some (ctz w)"
  by (simp add: builtin_ctz_def)

lemma clz_spec:
  assumes "w \<noteq> 0"
  shows "clz w < 64" "bit w (63 - clz w)" "\<And>j. 63 - clz w < j \<Longrightarrow> \<not> bit w j"
proof -
  let ?P = "\<lambda>i. \<not> bit w i" and ?xs = "rev [0..<64]"
  have ex: "\<exists>i \<in> set ?xs. \<not> ?P i"
    using assms by (auto simp: word_neq_0_bit)
  then have "length (takeWhile ?P ?xs) < length ?xs"
    by (metis length_takeWhile_le nat_less_le takeWhile_eq_all_conv takeWhile_eq_take take_all_iff)
  then show lt: "clz w < 64" by (simp add: clz_def)
  have nth: "?xs ! k = 63 - k" if "k < 64" for k
    using that by (simp add: rev_nth)
  have "\<not> ?P (?xs ! length (takeWhile ?P ?xs))"
    using nth_length_takeWhile [of ?P ?xs] lt by (simp add: clz_def)
  then show "bit w (63 - clz w)" using lt nth by (simp add: clz_def)
  show "\<not> bit w j" if "63 - clz w < j" for j
  proof (cases "j < 64")
    case True
    let ?k = "63 - j"
    have k: "?k < clz w" "?xs ! ?k = j" using that lt True nth [of ?k] by auto
    then have "takeWhile ?P ?xs ! ?k = j"
      using takeWhile_nth [of ?k ?P ?xs] by (simp add: clz_def)
    then have "j \<in> set (takeWhile ?P ?xs)"
      using k(1) unfolding clz_def by (metis nth_mem)
    then show ?thesis by (metis set_takeWhileD)
  next
    case False
    then show ?thesis using bit_imp_le_length [of w j] by auto
  qed
qed

text \<open>\<open>63 - clz w\<close> is the binary logarithm, rounded down.\<close>

lemma clz_log2:
  assumes "w \<noteq> 0"
  shows "2 ^ (63 - clz w) \<le> unat w" "unat w < 2 ^ (64 - clz w)"
proof -
  let ?k = "63 - clz w"
  note s = clz_spec [OF assms]
  have b: "bit (unat w) j = bit w j" for j
    by (simp add: bit_unsigned_iff)
  have "drop_bit (Suc ?k) (unat w) = 0"
    using s(3) by (auto simp: bit_eq_iff bit_drop_bit_eq b)
  then have "unat w div 2 ^ Suc ?k = 0" by (simp only: drop_bit_eq_div)
  then have "unat w < 2 ^ Suc ?k" by (simp add: div_eq_0_iff)
  moreover have "Suc ?k = 64 - clz w" using s(1) by simp
  ultimately show "unat w < 2 ^ (64 - clz w)" by simp
  show "2 ^ ?k \<le> unat w"
  proof (rule ccontr)
    assume "\<not> 2 ^ ?k \<le> unat w"
    then have "unat w div 2 ^ ?k = 0" by simp
    then have "\<not> bit (unat w) ?k" by (simp add: bit_iff_odd)
    then show False using s(2) b by simp
  qed
qed

section \<open>Bitmaps in word arrays\<close>

definition abit :: "'a::len word list \<Rightarrow> nat \<Rightarrow> bool" where
  "abit xs i \<longleftrightarrow> i div LENGTH('a) < length xs \<and> bit (xs ! (i div LENGTH('a))) (i mod LENGTH('a))"

definition set_abit :: "nat \<Rightarrow> 'a::len word list \<Rightarrow> 'a word list" where
  "set_abit i xs = xs[i div LENGTH('a) := xs ! (i div LENGTH('a)) OR push_bit (i mod LENGTH('a)) 1]"

definition clear_abit :: "nat \<Rightarrow> 'a::len word list \<Rightarrow> 'a word list" where
  "clear_abit i xs =
     xs[i div LENGTH('a) := xs ! (i div LENGTH('a)) AND NOT (push_bit (i mod LENGTH('a)) 1)]"

lemma length_set_abit [simp]: "length (set_abit i xs) = length xs"
  by (simp add: set_abit_def)

lemma length_clear_abit [simp]: "length (clear_abit i xs) = length xs"
  by (simp add: clear_abit_def)

text \<open>The simplifier writes \<open>1 << n\<close> as \<open>2 ^ n\<close>, so the bit facts speak of \<open>2 ^ n\<close>.\<close>

lemma bit_or_one: "bit (w OR 2 ^ n) j \<longleftrightarrow> bit w j \<or> (j = n \<and> n < LENGTH('a))"
  for w :: "'a::len word"
  by (auto simp: bit_simps)

lemma bit_andnot_one: "bit (w AND NOT (2 ^ n)) j \<longleftrightarrow> bit w j \<and> j \<noteq> n"
  for w :: "'a::len word"
  using bit_imp_le_length [of w j] by (auto simp: bit_simps)

lemma div_mod_eq_iff: "(i::nat) div n = j div n \<and> i mod n = j mod n \<longleftrightarrow> i = j"
  by (metis div_mult_mod_eq)

lemma abit_set_abit [simp]:
  fixes xs :: "'a::len word list"
  assumes "i div LENGTH('a) < length xs"
  shows "abit (set_abit i xs) j \<longleftrightarrow> abit xs j \<or> j = i"
  using assms div_mod_eq_iff [of i "LENGTH('a)" j]
  by (auto simp: abit_def set_abit_def nth_list_update bit_or_one)

lemma abit_clear_abit [simp]:
  fixes xs :: "'a::len word list"
  shows "abit (clear_abit i xs) j \<longleftrightarrow> abit xs j \<and> j \<noteq> i"
  using div_mod_eq_iff [of i "LENGTH('a)" j]
  by (cases "i div LENGTH('a) < length xs")
    (auto simp: abit_def clear_abit_def nth_list_update bit_andnot_one list_update_beyond)

lemma abit_word:
  fixes xs :: "'a::len word list"
  shows "k < length xs \<Longrightarrow> n < LENGTH('a) \<Longrightarrow> abit xs (k * LENGTH('a) + n) = bit (xs ! k) n"
  by (simp add: abit_def)

lemma word_zero_abit:
  fixes xs :: "'a::len word list"
  assumes "k < length xs"
  shows "xs ! k = 0 \<longleftrightarrow> (\<forall>i. i div LENGTH('a) = k \<longrightarrow> \<not> abit xs i)"
proof
  assume "xs ! k = 0"
  then show "\<forall>i. i div LENGTH('a) = k \<longrightarrow> \<not> abit xs i" by (auto simp: abit_def)
next
  assume h: "\<forall>i. i div LENGTH('a) = k \<longrightarrow> \<not> abit xs i"
  show "xs ! k = 0"
  proof (rule ccontr)
    assume "xs ! k \<noteq> 0"
    then obtain n where n: "n < LENGTH('a)" "bit (xs ! k) n" by (auto simp: word_neq_0_bit)
    have "abit xs (k * LENGTH('a) + n)" using assms n by (simp add: abit_word)
    with h n show False by auto
  qed
qed

lemma word_max_abit:
  fixes xs :: "'a::len word list"
  assumes "k < length xs"
  shows "xs ! k = - 1 \<longleftrightarrow> (\<forall>i. i div LENGTH('a) = k \<longrightarrow> abit xs i)"
proof
  assume "xs ! k = - 1"
  with assms show "\<forall>i. i div LENGTH('a) = k \<longrightarrow> abit xs i" by (auto simp: abit_def)
next
  assume h: "\<forall>i. i div LENGTH('a) = k \<longrightarrow> abit xs i"
  show "xs ! k = - 1"
  proof (rule ccontr)
    assume "xs ! k \<noteq> - 1"
    then obtain n where n: "n < LENGTH('a)" "\<not> bit (xs ! k) n" by (auto simp: word_neq_max_bit)
    have "\<not> abit xs (k * LENGTH('a) + n)" using assms n by (simp add: abit_word)
    with h n show False by auto
  qed
qed

lemma abit_replicate_0 [simp]: "\<not> abit (replicate n 0) i"
  by (auto simp: abit_def)

lemma abit_replicate_max [simp]:
  "abit (replicate n (- 1 :: 'a::len word)) i \<longleftrightarrow> i div LENGTH('a) < n"
  by (auto simp: abit_def)

section \<open>The loop over the set bits of a word\<close>

lemma and_not_bit_less:
  fixes w :: "'a::len word"
  assumes "bit w n"
  shows "w AND NOT (2 ^ n) < w"
proof -
  have "w AND NOT (2 ^ n) \<le> w" by (rule word_and_le2)
  moreover have "w AND NOT (2 ^ n) \<noteq> w"
    using assms bit_andnot_one [of w n n] by metis
  ultimately show ?thesis by simp
qed

function for_bits :: "'a::len word \<Rightarrow> (nat \<Rightarrow> 's \<Rightarrow> 's option) \<Rightarrow> 's \<Rightarrow> 's option" where
  "for_bits w body s =
     (if w = 0 then Some s
      else do {
        b \<leftarrow> builtin_ctz w;
        s' \<leftarrow> body b s;
        for_bits (w AND NOT (push_bit b 1)) body s'
      })"
  by pat_completeness auto
termination
proof (relation "measure (\<lambda>(w, body, s). unat w)", goal_cases)
  case (2 w body s b s')
  then have "bit w b" using ctz_spec(1) [of w] by (auto simp: builtin_ctz_def)
  then show ?case using and_not_bit_less by (simp add: word_less_nat_alt)
qed simp

declare for_bits.simps [simp del]

fun foldM :: "('b \<Rightarrow> 's \<Rightarrow> 's option) \<Rightarrow> 'b list \<Rightarrow> 's \<Rightarrow> 's option" where
  "foldM f [] s = Some s"
| "foldM f (x # xs) s = do { s' \<leftarrow> f x s; foldM f xs s' }"

lemma foldM_append: "foldM f (xs @ ys) s = do { s' \<leftarrow> foldM f xs s; foldM f ys s' }"
  by (induction xs arbitrary: s) (auto intro: Option.bind_cong)

lemma foldM_total:
  "(\<And>x s. x \<in> set xs \<Longrightarrow> f x s = Some (g x s)) \<Longrightarrow> foldM f xs s = Some (fold g xs s)"
  by (induction xs arbitrary: s) auto

lemma foldM_cong:
  "(\<And>x s. x \<in> set xs \<Longrightarrow> f x s = g x s) \<Longrightarrow> foldM f xs s = foldM g xs s"
  by (induction xs arbitrary: s) (auto intro!: Option.bind_cong)

definition set_bits :: "'a::len word \<Rightarrow> nat list" where
  "set_bits w = filter (bit w) [0..<LENGTH('a)]"

lemma set_set_bits [simp]: "i \<in> set (set_bits w) \<longleftrightarrow> bit w i"
  using bit_imp_le_length by (auto simp: set_bits_def)

lemma set_bits_0 [simp]: "set_bits 0 = []"
  by (simp add: set_bits_def)

lemma set_bits_step:
  fixes w :: "'a::len word"
  assumes "w \<noteq> 0"
  shows "set_bits w = ctz w # set_bits (w AND NOT (2 ^ ctz w))"
proof -
  note s = ctz_spec [OF assms]
  let ?w = "w AND NOT (2 ^ ctz w)"
  have split: "[0..<LENGTH('a)] = [0..<ctz w] @ ctz w # [Suc (ctz w)..<LENGTH('a)]"
    using s(2) by (metis less_imp_le_nat upt_add_eq_append upt_conv_Cons le_add_diff_inverse zero_le)
  have "filter (bit v) [0..<ctz w] = []" if "v = w \<or> v = ?w" for v
    using s(3) that by (auto simp: filter_empty_conv bit_andnot_one)
  moreover have "filter (bit w) [Suc (ctz w)..<LENGTH('a)] = filter (bit ?w) [Suc (ctz w)..<LENGTH('a)]"
    by (rule filter_cong) (auto simp: bit_andnot_one)
  ultimately show ?thesis
    using s(1) by (simp add: set_bits_def split bit_andnot_one)
qed

lemma for_bits_eq: "for_bits w body s = foldM body (set_bits w) s"
proof (induction w body s rule: for_bits.induct)
  case (1 w body s)
  show ?case
  proof (cases "w = 0")
    case True
    then show ?thesis by (simp add: for_bits.simps)
  next
    case False
    have "for_bits (w AND NOT (2 ^ ctz w)) body a = foldM body (set_bits (w AND NOT (2 ^ ctz w))) a"
      if "body (ctz w) s = Some a" for a
      using 1 [of "ctz w" a] False that by simp
    then show ?thesis
      by (subst for_bits.simps, subst set_bits_step [OF False])
        (use False in \<open>auto intro!: Option.bind_cong\<close>)
  qed
qed

end
