(* ===== verification/Id_Allocator.thy ===== *)
theory Id_Allocator
  imports HWFQ_Prelude
begin

text \<open>
  The contract of an ID allocator: what the flow trie (\<^verbatim>\<open>hwfq_flow_trie.c\<close>) and the chunked entry
  storage (\<^verbatim>\<open>hwfq_chunked_entries.c\<close>) both promise to the configuration code that calls them.
  \<open>alloc\<close> may depend on what the memory allocator answers (the argument of type \<open>'m\<close>).
  A client is a list of requests; it keeps the IDs it was given and frees only those.
\<close>

datatype 'm id_request = Alloc 'm | Free u32

fun client_step ::
  "('m \<Rightarrow> 's \<Rightarrow> ((hwfq_error + u32) \<times> 's) option) \<Rightarrow> (u32 \<Rightarrow> 's \<Rightarrow> 's option) \<Rightarrow>
   'm id_request \<Rightarrow> u32 list \<times> 's \<Rightarrow> (u32 list \<times> 's) option" where
  "client_step alloc free (Alloc m) (held, s) =
     do { (r, s') \<leftarrow> alloc m s;
          Some (case r of Inl _ \<Rightarrow> held | Inr i \<Rightarrow> i # held, s') }"
| "client_step alloc free (Free i) (held, s) =
     (if i \<in> set held then do { s' \<leftarrow> free i s; Some (remove1 i held, s') } else Some (held, s))"

fun client_run ::
  "('m \<Rightarrow> 's \<Rightarrow> ((hwfq_error + u32) \<times> 's) option) \<Rightarrow> (u32 \<Rightarrow> 's \<Rightarrow> 's option) \<Rightarrow>
   'm id_request list \<Rightarrow> u32 list \<times> 's \<Rightarrow> (u32 list \<times> 's) option" where
  "client_run alloc free [] c = Some c"
| "client_run alloc free (r # rs) c =
     do { c' \<leftarrow> client_step alloc free r c; client_run alloc free rs c' }"

locale id_allocator =
  fixes alloc :: "'m \<Rightarrow> 's \<Rightarrow> ((hwfq_error + u32) \<times> 's) option"
    and free :: "u32 \<Rightarrow> 's \<Rightarrow> 's option"
    and live :: "'s \<Rightarrow> u32 set"
    and usable :: "'s \<Rightarrow> u32 set"
    and inv :: "'s \<Rightarrow> bool"
  assumes alloc_defined: "inv s \<Longrightarrow> alloc m s \<noteq> None"
    and alloc_err: "inv s \<Longrightarrow> alloc m s = Some (Inl e, s') \<Longrightarrow>
      inv s' \<and> live s' = live s \<and> usable s' = usable s"
    and alloc_ok: "inv s \<Longrightarrow> alloc m s = Some (Inr i, s') \<Longrightarrow>
      inv s' \<and> i \<notin> live s \<and> i \<in> usable s \<and> live s' = insert i (live s) \<and> usable s' = usable s"
    and free_live: "inv s \<Longrightarrow> i \<in> live s \<Longrightarrow>
      \<exists>s'. free i s = Some s' \<and> inv s' \<and> live s' = live s - {i} \<and> usable s' = usable s"
begin

text \<open>What holds of a client between two requests: it holds each live ID once and no other.\<close>

lemma client_step_ok:
  assumes "inv s" "distinct held" "set held = live s" "live s \<subseteq> usable s"
  shows "\<exists>held' s'. client_step alloc free r (held, s) = Some (held', s') \<and> inv s' \<and>
    distinct held' \<and> set held' = live s' \<and> live s' \<subseteq> usable s' \<and> usable s' = usable s"
proof (cases r)
  case (Alloc m)
  obtain x s' where a: "alloc m s = Some (x, s')"
    using alloc_defined [OF assms(1)] by (metis not_None_eq surj_pair)
  show ?thesis
  proof (cases x)
    case (Inl e)
    then show ?thesis using a alloc_err [OF assms(1), of m e s'] assms(2-4) Alloc by auto
  next
    case (Inr i)
    then show ?thesis using a alloc_ok [OF assms(1), of m i s'] assms(2-4) Alloc by auto
  qed
next
  case (Free i)
  show ?thesis
  proof (cases "i \<in> set held")
    case True
    then obtain s' where "free i s = Some s'" "inv s'" "live s' = live s - {i}" "usable s' = usable s"
      using free_live [OF assms(1)] assms(3) by blast
    then show ?thesis using True Free assms(2-4) by auto
  next
    case False
    then show ?thesis using Free assms by auto
  qed
qed

lemma client_run_ok:
  assumes "inv s" "distinct held" "set held = live s" "live s \<subseteq> usable s"
  shows "\<exists>held' s'. client_run alloc free rs (held, s) = Some (held', s') \<and> inv s' \<and>
    distinct held' \<and> set held' = live s' \<and> set held' \<subseteq> usable s"
  using assms
proof (induction rs arbitrary: held s)
  case Nil
  then show ?case by auto
next
  case (Cons r rs)
  obtain held1 s1 where step: "client_step alloc free r (held, s) = Some (held1, s1)"
      "inv s1" "distinct held1" "set held1 = live s1" "live s1 \<subseteq> usable s1" "usable s1 = usable s"
    using client_step_ok [OF Cons.prems] by blast
  with Cons.IH [OF step(2-5)] show ?case by auto
qed

end

end
