(* ===== verification/Flow_Trie.thy ===== *)
theory Flow_Trie
  imports Bit_Arrays Id_Allocator
begin

text \<open>
  \<^verbatim>\<open>src/hwfq_flow_trie.c\<close>: the four-level bitmap that hands out flow IDs.

  \<open>leaf\<close> has one bit per flow (1 = allocated); a bit of \<open>level0\<close>, \<open>level1\<close>, \<open>level2\<close> says that the
  word below it still has a free flow.  An array pointer is the list behind it, \<open>[]\<close> for NULL, so
  an access through a NULL array is undefined like any other out-of-range access.  What the memory
  allocator answers to the three requests of \<open>hwfq_flow_trie_init\<close> is an argument.

  The invariant \<open>trie_inv\<close> ties the levels together; \<open>trie_ids\<close> is the abstract set of allocated
  IDs.  Allocation returns the least free ID below \<open>2 ^ 24\<close>, whatever the capacity.
\<close>

section \<open>State\<close>

record flow_trie =
  level2 :: u64
  level1 :: "u64 list"
  level0 :: "u64 list"
  leaf :: "u64 list"
  level1_size :: u32
  level0_size :: u32
  leaf_size :: u32
  max_flows :: u32
  allocated_count :: u32
  alloc_hint :: u32

section \<open>Bit helpers\<close>

definition find_first_set_bit64 :: "u64 \<Rightarrow> u32" where
  "find_first_set_bit64 value = (if value = 0 then 0 else of_nat (builtin_ffsll value))"

definition find_first_zero_bit64 :: "u64 \<Rightarrow> u32" where
  "find_first_zero_bit64 value = find_first_set_bit64 (NOT value)"

definition trie_set_bit :: "u64 list \<Rightarrow> u32 \<Rightarrow> u64 list option" where
  "trie_set_bit array bit_index =
     (let word_index = unat (bit_index div 64); bit_offset = unat (bit_index mod 64) in do {
        w \<leftarrow> arr_get array word_index;
        arr_set array word_index (w OR push_bit bit_offset 1)
      })"

definition trie_clear_bit :: "u64 list \<Rightarrow> u32 \<Rightarrow> u64 list option" where
  "trie_clear_bit array bit_index =
     (let word_index = unat (bit_index div 64); bit_offset = unat (bit_index mod 64) in do {
        w \<leftarrow> arr_get array word_index;
        arr_set array word_index (w AND NOT (push_bit bit_offset 1))
      })"

definition trie_test_bit :: "u64 list \<Rightarrow> u32 \<Rightarrow> bool option" where
  "trie_test_bit array bit_index =
     (let word_index = unat (bit_index div 64); bit_offset = unat (bit_index mod 64) in do {
        w \<leftarrow> arr_get array word_index;
        Some (w AND push_bit bit_offset 1 \<noteq> 0)
      })"

definition bits_to_words :: "u32 \<Rightarrow> u32" where
  "bits_to_words num_bits = (num_bits + 63) div 64"

definition calculate_level_sizes :: "u32 \<Rightarrow> u32 \<times> u32 \<times> u32" where
  "calculate_level_sizes n =
     (let leaf_sz = bits_to_words n;
          level0_sz = bits_to_words leaf_sz;
          level1_sz = bits_to_words level0_sz
      in (leaf_sz, level0_sz, level1_sz))"

section \<open>Operations\<close>

text \<open>Setting or masking the last word of a level by the number of bits used in it.\<close>

definition update_last :: "(u64 \<Rightarrow> u64 \<Rightarrow> u64) \<Rightarrow> u64 list \<Rightarrow> u32 \<Rightarrow> u32 \<Rightarrow> u64 list option" where
  "update_last f array sz used =
     (if used \<noteq> 0 then do {
        one \<leftarrow> shl1 used;
        w \<leftarrow> arr_get array (unat (sz - 1));
        arr_set array (unat (sz - 1)) (f w (one - 1))
      } else Some array)"

text \<open>Reserving flow ID 0 and carrying a full leaf word 0 upwards.\<close>

definition reserve_flow_0 :: "flow_trie \<Rightarrow> flow_trie option" where
  "reserve_flow_0 t = do {
     w \<leftarrow> arr_get (leaf t) 0;
     leaf' \<leftarrow> arr_set (leaf t) 0 (w OR 1);
     let t = t\<lparr>leaf := leaf', allocated_count := 1\<rparr>;
     w \<leftarrow> arr_get (leaf t) 0;
     if w = UINT64_MAX then do {
       level0' \<leftarrow> trie_clear_bit (level0 t) 0;
       let t = t\<lparr>level0 := level0'\<rparr>;
       w0 \<leftarrow> arr_get (level0 t) 0;
       if w0 = 0 then do {
         level1' \<leftarrow> trie_clear_bit (level1 t) 0;
         let t = t\<lparr>level1 := level1'\<rparr>;
         w1 \<leftarrow> arr_get (level1 t) 0;
         Some (if w1 = 0 then t\<lparr>level2 := level2 t AND NOT 1\<rparr> else t)
       } else Some t
     } else Some t
   }"

definition hwfq_flow_trie_init ::
  "bool \<Rightarrow> bool \<Rightarrow> bool \<Rightarrow> u32 \<Rightarrow> flow_trie \<Rightarrow> ((hwfq_error + unit) \<times> flow_trie) option" where
  "hwfq_flow_trie_init leaf_ok level0_ok level1_ok n t =
     (if n = 0 then Some (Inl HWFQ_ERR_INVALID_ARG, t)
      else
        let (leaf_sz, level0_sz, level1_sz) = calculate_level_sizes n;
            t = t\<lparr>leaf_size := leaf_sz, level0_size := level0_sz, level1_size := level1_sz,
                   max_flows := n, allocated_count := 0, alloc_hint := 0\<rparr>
        in if \<not> leaf_ok then Some (Inl HWFQ_ERR_NO_MEMORY, t\<lparr>leaf := []\<rparr>)
        else if \<not> level0_ok then Some (Inl HWFQ_ERR_NO_MEMORY, t\<lparr>leaf := [], level0 := []\<rparr>)
        else if \<not> level1_ok then
          Some (Inl HWFQ_ERR_NO_MEMORY, t\<lparr>leaf := [], level0 := [], level1 := []\<rparr>)
        else do {
          leaf' \<leftarrow> update_last (\<lambda>w m. w OR NOT m) (replicate (unat leaf_sz) 0) leaf_sz (n mod 64);
          level0' \<leftarrow> update_last (\<lambda>w m. w AND m)
            (replicate (unat level0_sz) UINT64_MAX) level0_sz (leaf_sz mod 64);
          level1' \<leftarrow> update_last (\<lambda>w m. w AND m)
            (replicate (unat level1_sz) UINT64_MAX) level1_sz (level0_sz mod 64);
          level2' \<leftarrow> (if level1_sz < 64 then do { one \<leftarrow> shl1 level1_sz; Some (UINT64_MAX AND (one - 1)) }
                      else Some UINT64_MAX);
          t' \<leftarrow> reserve_flow_0
            (t\<lparr>leaf := leaf', level0 := level0', level1 := level1', level2 := level2'\<rparr>);
          Some (Inr (), t')
        })"

definition hwfq_flow_trie_destroy :: "flow_trie \<Rightarrow> flow_trie" where
  "hwfq_flow_trie_destroy t =
     t\<lparr>leaf := [], level0 := [], level1 := [], level2 := 0, max_flows := 0, allocated_count := 0\<rparr>"

definition hwfq_flow_trie_alloc :: "flow_trie \<Rightarrow> ((hwfq_error + u32) \<times> flow_trie) option" where
  "hwfq_flow_trie_alloc t =
     (if level2 t = 0 then Some (Inl HWFQ_ERR_NO_MEMORY, t)
      else
        let l2_bit = find_first_set_bit64 (level2 t) in
        if l2_bit = 0 then Some (Inl HWFQ_ERR_NO_MEMORY, t)
        else do {
          let l1_word_idx = l2_bit - 1;
          w1 \<leftarrow> arr_get (level1 t) (unat l1_word_idx);
          let l1_bit = find_first_set_bit64 w1;
          if l1_bit = 0 then Some (Inl HWFQ_ERR_INTERNAL, t)
          else do {
            let l0_word_idx = l1_word_idx * 64 + (l1_bit - 1);
            w0 \<leftarrow> arr_get (level0 t) (unat l0_word_idx);
            let l0_bit = find_first_set_bit64 w0;
            if l0_bit = 0 then Some (Inl HWFQ_ERR_INTERNAL, t)
            else do {
              let leaf_word_idx = l0_word_idx * 64 + (l0_bit - 1);
              w \<leftarrow> arr_get (leaf t) (unat leaf_word_idx);
              let leaf_bit = find_first_zero_bit64 w;
              if leaf_bit = 0 then Some (Inl HWFQ_ERR_INTERNAL, t)
              else do {
                let flow_id = leaf_word_idx * 64 + (leaf_bit - 1);
                if max_flows t \<le> flow_id then Some (Inl HWFQ_ERR_NO_MEMORY, t)
                else do {
                  leaf' \<leftarrow> trie_set_bit (leaf t) flow_id;
                  let t = t\<lparr>leaf := leaf', allocated_count := allocated_count t + 1\<rparr>;
                  w \<leftarrow> arr_get (leaf t) (unat leaf_word_idx);
                  if w = UINT64_MAX then do {
                    level0' \<leftarrow> trie_clear_bit (level0 t) leaf_word_idx;
                    let t = t\<lparr>level0 := level0'\<rparr>;
                    w0 \<leftarrow> arr_get (level0 t) (unat l0_word_idx);
                    if w0 = 0 then do {
                      level1' \<leftarrow> trie_clear_bit (level1 t) l0_word_idx;
                      let t = t\<lparr>level1 := level1'\<rparr>;
                      w1 \<leftarrow> arr_get (level1 t) (unat l1_word_idx);
                      if w1 = 0 then do {
                        one \<leftarrow> shl1 l1_word_idx;
                        Some (Inr flow_id, t\<lparr>level2 := level2 t AND NOT one\<rparr>)
                      } else Some (Inr flow_id, t)
                    } else Some (Inr flow_id, t)
                  } else Some (Inr flow_id, t)
                }
              }
            }
          }
        })"

definition hwfq_flow_trie_free :: "u32 \<Rightarrow> flow_trie \<Rightarrow> flow_trie option" where
  "hwfq_flow_trie_free flow_id t =
     (if flow_id = 0 \<or> max_flows t \<le> flow_id then Some t
      else do {
        allocated \<leftarrow> trie_test_bit (leaf t) flow_id;
        if \<not> allocated then Some t
        else do {
          let leaf_word_idx = flow_id div 64;
          let l0_word_idx = leaf_word_idx div 64;
          let l1_word_idx = l0_word_idx div 64;
          w \<leftarrow> arr_get (leaf t) (unat leaf_word_idx);
          let was_full = (w = UINT64_MAX);
          leaf' \<leftarrow> trie_clear_bit (leaf t) flow_id;
          let t = t\<lparr>leaf := leaf', allocated_count := allocated_count t - 1\<rparr>;
          if was_full then do {
            level0' \<leftarrow> trie_set_bit (level0 t) leaf_word_idx;
            let t = t\<lparr>level0 := level0'\<rparr>;
            w0 \<leftarrow> arr_get (level0 t) (unat l0_word_idx);
            if w0 = push_bit (unat (leaf_word_idx mod 64)) 1 then do {
              level1' \<leftarrow> trie_set_bit (level1 t) l0_word_idx;
              let t = t\<lparr>level1 := level1'\<rparr>;
              w1 \<leftarrow> arr_get (level1 t) (unat l1_word_idx);
              if w1 = push_bit (unat (l0_word_idx mod 64)) 1 then do {
                one \<leftarrow> shl1 l1_word_idx;
                Some (t\<lparr>level2 := level2 t OR one\<rparr>)
              } else Some t
            } else Some t
          } else Some t
        }
      })"

definition hwfq_flow_trie_is_allocated :: "flow_trie \<Rightarrow> u32 \<Rightarrow> bool option" where
  "hwfq_flow_trie_is_allocated t flow_id =
     (if max_flows t \<le> flow_id then Some False else trie_test_bit (leaf t) flow_id)"

definition hwfq_flow_trie_allocated_count :: "flow_trie \<Rightarrow> u32" where
  "hwfq_flow_trie_allocated_count t = allocated_count t"

definition hwfq_flow_trie_free_count :: "flow_trie \<Rightarrow> u32" where
  "hwfq_flow_trie_free_count t = max_flows t - allocated_count t"

definition hwfq_flow_trie_capacity :: "flow_trie \<Rightarrow> u32" where
  "hwfq_flow_trie_capacity t = max_flows t"

section \<open>Summaries of bitmaps\<close>

text \<open>\<open>ys\<close> has a bit per word of \<open>xs\<close>, set exactly when the word is not 0.\<close>

definition summary :: "u64 list \<Rightarrow> u64 list \<Rightarrow> bool" where
  "summary xs ys \<longleftrightarrow> (\<forall>k. abit ys k \<longleftrightarrow> k < length xs \<and> xs ! k \<noteq> 0)"

definition least_bit :: "(nat \<Rightarrow> bool) \<Rightarrow> nat \<Rightarrow> bool" where
  "least_bit P i \<longleftrightarrow> P i \<and> (\<forall>j < i. \<not> P j)"

lemma nonzero_step:
  fixes xs :: "u64 list"
  assumes "least_bit (\<lambda>k. k < length xs \<and> xs ! k \<noteq> 0) k"
  shows "least_bit (abit xs) (k * 64 + ctz (xs ! k))"
proof -
  have k: "k < length xs" "xs ! k \<noteq> 0"
    using assms by (auto simp: least_bit_def)
  note c = ctz_spec [OF k(2)]
  show ?thesis
    unfolding least_bit_def
  proof (intro conjI allI impI)
    show "abit xs (k * 64 + ctz (xs ! k))"
      using abit_word [of k xs "ctz (xs ! k)"] c k by simp
    fix j assume j: "j < k * 64 + ctz (xs ! k)"
    show "\<not> abit xs j"
    proof
      assume a: "abit xs j"
      then have "j div 64 < length xs" "xs ! (j div 64) \<noteq> 0"
        by (auto simp: abit_def)
      then have "k \<le> j div 64" using assms by (auto simp: least_bit_def not_less [symmetric])
      moreover have "j div 64 \<le> k" using j c(2) by simp
      ultimately have eq: "j div 64 = k" by simp
      then have "j mod 64 < ctz (xs ! k)" using j by presburger
      then show False using a eq c(3) by (auto simp: abit_def)
    qed
  qed
qed

lemma summary_step:
  assumes "summary xs ys" "least_bit (abit ys) k"
  shows "k < length xs" "xs ! k \<noteq> 0" "least_bit (abit xs) (k * 64 + ctz (xs ! k))"
  using assms nonzero_step [of xs k] by (auto simp: summary_def least_bit_def)

lemma summary_update:
  assumes "summary xs ys" "k < length xs"
    and "\<And>j. abit ys' j \<longleftrightarrow> (if j = k then w \<noteq> 0 else abit ys j)"
  shows "summary (xs[k := w]) ys'"
  using assms by (auto simp: summary_def nth_list_update)

lemma summary_clear:
  assumes "summary xs ys" "i div 64 < length xs"
  shows "summary (clear_abit i xs)
    (if clear_abit i xs ! (i div 64) = 0 then clear_abit (i div 64) ys else ys)"
proof -
  have "abit ys (i div 64)" if nz: "clear_abit i xs ! (i div 64) \<noteq> 0"
  proof -
    obtain j where "j div 64 = i div 64" "abit xs j"
      using nz assms(2) by (auto simp: word_zero_abit)
    then have "xs ! (i div 64) \<noteq> 0" using assms(2) word_zero_abit [of "i div 64" xs] by auto
    with assms show ?thesis by (simp add: summary_def)
  qed
  moreover obtain w where "w = clear_abit i xs ! (i div 64)" "clear_abit i xs = xs[i div 64 := w]"
    using assms(2) by (simp add: clear_abit_def)
  moreover have "summary (xs[i div 64 := w]) (if w = 0 then clear_abit (i div 64) ys else ys)"
    if "w \<noteq> 0 \<Longrightarrow> abit ys (i div 64)" for w
    by (rule summary_update [OF assms]) (use that in auto)
  ultimately show ?thesis by metis
qed

lemma set_abit_nonzero:
  "i div 64 < length xs \<Longrightarrow> set_abit i (xs :: u64 list) ! (i div 64) \<noteq> 0"
  using word_zero_abit [of "i div 64" "set_abit i xs"] abit_set_abit [of i xs i] by auto

lemma set_abit_update:
  "\<exists>w. w \<noteq> 0 \<and> set_abit i (xs :: u64 list) = xs[i div 64 := w]" if "i div 64 < length xs"
  using set_abit_nonzero [OF that] that by (auto simp: set_abit_def)

lemma summary_set:
  assumes "summary xs ys" "i div 64 < length xs" "i div 64 div 64 < length ys"
  shows "summary (set_abit i xs) (set_abit (i div 64) ys)"
proof -
  obtain w where "w \<noteq> 0" "set_abit i xs = xs[i div 64 := w]"
    using set_abit_update [OF assms(2)] by blast
  then show ?thesis
    using summary_update [OF assms(1,2), of "set_abit (i div 64) ys" w] assms(3) by simp
qed

lemma summary_set_same:
  assumes "summary xs ys" "i div 64 < length xs" "xs ! (i div 64) \<noteq> 0"
  shows "summary (set_abit i xs) ys"
proof -
  obtain w where "w \<noteq> 0" "set_abit i xs = xs[i div 64 := w]"
    using set_abit_update [OF assms(2)] by blast
  moreover have "summary (xs[i div 64 := w]) ys" if "w \<noteq> 0"
    by (rule summary_update [OF assms(1,2)]) (use assms that in \<open>auto simp: summary_def\<close>)
  ultimately show ?thesis by simp
qed

text \<open>The word after setting a bit is a single bit exactly when it was 0 or that bit before.\<close>

lemma set_abit_single:
  assumes "i div 64 < length xs" "set_abit i xs ! (i div 64) \<noteq> 2 ^ (i mod 64)"
  shows "(xs :: u64 list) ! (i div 64) \<noteq> 0"
proof
  assume "xs ! (i div 64) = 0"
  then have "set_abit i xs ! (i div 64) = 2 ^ (i mod 64)"
    using assms(1) by (simp add: set_abit_def)
  with assms(2) show False by contradiction
qed

section \<open>The invariant\<close>

text \<open>The abstract state: the allocated IDs (with the reserved ID 0).\<close>

definition trie_ids :: "flow_trie \<Rightarrow> u32 set" where
  "trie_ids t = {i. i < max_flows t \<and> abit (leaf t) (unat i)}"

text \<open>How the four levels depend on each other.\<close>

definition trie_levels :: "flow_trie \<Rightarrow> bool" where
  "trie_levels t \<longleftrightarrow>
     length (level0 t) = (length (leaf t) + 63) div 64 \<and>
     length (level1 t) = (length (level0 t) + 63) div 64 \<and>
     summary (map (\<lambda>w. NOT w) (leaf t)) (level0 t) \<and>
     summary (level0 t) (level1 t) \<and>
     (\<forall>k < 64. bit (level2 t) k \<longleftrightarrow> k < length (level1 t) \<and> level1 t ! k \<noteq> 0)"

definition trie_inv :: "flow_trie \<Rightarrow> bool" where
  "trie_inv t \<longleftrightarrow>
     0 < max_flows t \<and>
     length (leaf t) = (unat (max_flows t) + 63) div 64 \<and>
     trie_levels t \<and>
     abit (leaf t) 0 \<and>
     (\<forall>i. abit (leaf t) i \<longrightarrow> i < 2 ^ 24 \<or> unat (max_flows t) \<le> i) \<and>
     (\<forall>i. unat (max_flows t) \<le> i \<longrightarrow> i div 64 < length (leaf t) \<longrightarrow> abit (leaf t) i) \<and>
     unat (allocated_count t) = card (trie_ids t)"

lemma trie_invD:
  assumes "trie_inv t"
  shows "0 < max_flows t" "length (leaf t) = (unat (max_flows t) + 63) div 64" "trie_levels t"
    "abit (leaf t) 0" "\<And>i. abit (leaf t) i \<Longrightarrow> i < 2 ^ 24 \<or> unat (max_flows t) \<le> i"
    "\<And>i. unat (max_flows t) \<le> i \<Longrightarrow> i div 64 < length (leaf t) \<Longrightarrow> abit (leaf t) i"
    "unat (allocated_count t) = card (trie_ids t)"
  using assms by (auto simp: trie_inv_def)

lemma trie_levelsD:
  assumes "trie_levels t"
  shows "length (level0 t) = (length (leaf t) + 63) div 64"
    "length (level1 t) = (length (level0 t) + 63) div 64"
    "summary (map (\<lambda>w. NOT w) (leaf t)) (level0 t)" "summary (level0 t) (level1 t)"
    "\<And>k. k < 64 \<Longrightarrow> bit (level2 t) k \<longleftrightarrow> k < length (level1 t) \<and> level1 t ! k \<noteq> 0"
  using assms by (auto simp: trie_levels_def)

section \<open>The operations on the abstract bitmaps\<close>

lemma trie_bit_ops:
  assumes "unat i div 64 < length xs"
  shows "trie_set_bit xs i = Some (set_abit (unat i) xs)"
    "trie_clear_bit xs i = Some (clear_abit (unat i) xs)"
    "trie_test_bit xs i = Some (abit xs (unat i))"
proof -
  have 1: "unat (i div 64) = unat i div 64" "unat (i mod 64) = unat i mod 64"
    by (simp_all add: unat_div unat_mod)
  show "trie_set_bit xs i = Some (set_abit (unat i) xs)"
    "trie_clear_bit xs i = Some (clear_abit (unat i) xs)"
    using assms unfolding trie_set_bit_def trie_clear_bit_def set_abit_def clear_abit_def Let_def 1
    by simp_all
  show "trie_test_bit xs i = Some (abit xs (unat i))"
    using assms unfolding trie_test_bit_def abit_def Let_def 1
    by (simp add: bit_iff_and_push_bit_not_eq_0)
qed

lemma find_first_set_bit64_eq:
  assumes "w \<noteq> 0"
  shows "find_first_set_bit64 w \<noteq> 0" "unat (find_first_set_bit64 w - 1) = ctz w"
proof -
  have c: "ctz w < 64" using ctz_spec(2) [OF assms] by simp
  have e: "find_first_set_bit64 w = of_nat (ctz w + 1)"
    using assms by (simp add: find_first_set_bit64_def builtin_ffsll_def)
  have "unat (find_first_set_bit64 w) = ctz w + 1"
    unfolding e by (subst unat_of_nat) (use c in simp)
  then show "find_first_set_bit64 w \<noteq> 0" by auto
  have "find_first_set_bit64 w - 1 = of_nat (ctz w)" unfolding e by simp
  then show "unat (find_first_set_bit64 w - 1) = ctz w"
    by (simp add: unat_of_nat) (use c in simp)
qed

lemma next_level_index:
  fixes k b :: u32
  assumes "unat b < 64" "unat k < 2 ^ 25"
  shows "unat (k * 64 + b) = unat k * 64 + unat b"
proof -
  have "unat (k * 64) = unat k * 64"
    by (subst unat_mult_no_wrap) (use assms in auto)
  then show ?thesis by (subst unat_add_no_wrap) (use assms in auto)
qed

lemma map_not_set_abit:
  "i div 64 < length xs \<Longrightarrow>
   map (\<lambda>w. NOT w) (set_abit i xs) = clear_abit i (map (\<lambda>w. NOT w) xs)" for xs :: "u64 list"
  by (simp add: set_abit_def clear_abit_def map_update)

lemma map_not_clear_abit:
  "i div 64 < length xs \<Longrightarrow>
   map (\<lambda>w. NOT w) (clear_abit i xs) = set_abit i (map (\<lambda>w. NOT w) xs)" for xs :: "u64 list"
  by (simp add: set_abit_def clear_abit_def map_update)

lemma word_not_eq_0_iff: "NOT w = 0 \<longleftrightarrow> w = - 1" for w :: "'a::len word"
  by (metis bit.double_compl bit.compl_zero)

lemma abit_map_not:
  "abit (map (\<lambda>w. NOT w) xs) i \<longleftrightarrow> i div 64 < length xs \<and> \<not> abit xs i" for xs :: "u64 list"
  by (auto simp: abit_def bit_not_iff)

text \<open>
  Taking ID \<open>i\<close>, as both the allocation and the reservation of ID 0 do: set its leaf bit and clear
  one bit of every level above whose word has just become empty.
\<close>

definition claim :: "nat \<Rightarrow> flow_trie \<Rightarrow> flow_trie" where
  "claim i t =
     (let t1 = t\<lparr>leaf := set_abit i (leaf t)\<rparr> in
      if leaf t1 ! (i div 64) \<noteq> - 1 then t1 else
      let t2 = t1\<lparr>level0 := clear_abit (i div 64) (level0 t1)\<rparr> in
      if level0 t2 ! (i div 64 div 64) \<noteq> 0 then t2 else
      let t3 = t2\<lparr>level1 := clear_abit (i div 64 div 64) (level1 t2)\<rparr> in
      if level1 t3 ! (i div 64 div 64 div 64) \<noteq> 0 then t3
      else t3\<lparr>level2 := level2 t3 AND NOT (2 ^ (i div 64 div 64 div 64))\<rparr>)"

lemma claim_simps [simp]:
  "leaf (claim i t) = set_abit i (leaf t)" "max_flows (claim i t) = max_flows t"
  "allocated_count (claim i t) = allocated_count t"
  by (simp_all add: claim_def Let_def)

lemma trie_levels_bounds:
  assumes "trie_levels t" "i div 64 < length (leaf t)"
  shows "i div 64 div 64 < length (level0 t)" "i div 64 div 64 div 64 < length (level1 t)"
  using assms by (auto simp: trie_levels_def)

text \<open>The levels above a full leaf word: the case where a bit of \<open>level0\<close> is cleared.\<close>

lemma trie_levels_clear:
  assumes t: "trie_levels t" and k: "k div 64 < length (level0 t)" "k < 2 ^ 18"
    and lf: "length lf = length (leaf t)"
      "summary (map (\<lambda>w. NOT w) lf) (clear_abit k (level0 t))"
  defines "l0 \<equiv> clear_abit k (level0 t)"
  defines "l1 \<equiv> if l0 ! (k div 64) = 0 then clear_abit (k div 64) (level1 t) else level1 t"
  shows "trie_levels (t\<lparr>leaf := lf, level0 := l0, level1 := l1,
    level2 := if l0 ! (k div 64) = 0 \<and> l1 ! (k div 64 div 64) = 0
              then level2 t AND NOT (2 ^ (k div 64 div 64)) else level2 t\<rparr>)"
proof -
  note d = trie_levelsD [OF t]
  have s: "summary l0 l1"
    unfolding l0_def l1_def by (rule summary_clear) (use d k in auto)
  have l1: "k div 64 div 64 < length (level1 t)" using k d(2) by simp
  have off: "l1 ! j = level1 t ! j" if "j \<noteq> k div 64 div 64" for j
    using that by (simp add: l1_def clear_abit_def)
  have same: "level1 t ! (k div 64 div 64) \<noteq> 0" if nz: "l1 ! (k div 64 div 64) \<noteq> 0"
  proof -
    have "length l1 = length (level1 t)" by (simp add: l1_def)
    then obtain j where "j div 64 = k div 64 div 64" "abit l1 j"
      using nz l1 by (auto simp: word_zero_abit)
    then have "abit (level1 t) j" by (simp add: l1_def split: if_splits)
    with \<open>j div 64 = _\<close> l1 show ?thesis by (auto simp: word_zero_abit)
  qed
  have "bit (if l0 ! (k div 64) = 0 \<and> l1 ! (k div 64 div 64) = 0
      then level2 t AND NOT (2 ^ (k div 64 div 64)) else level2 t) j \<longleftrightarrow>
      j < length l1 \<and> l1 ! j \<noteq> 0" if "j < 64" for j
  proof (cases "j = k div 64 div 64")
    case True
    then show ?thesis using d(5) [OF that] same l1
      by (cases "l0 ! (k div 64) = 0") (auto simp: bit_andnot_one l1_def)
  next
    case False
    then show ?thesis using d(5) [OF that] off l1
      by (auto simp: bit_andnot_one) (auto simp: l1_def split: if_splits)
  qed
  then show ?thesis
    using s d(1,2) lf by (simp add: trie_levels_def l0_def l1_def)
qed

lemma claim_levels:
  assumes t: "trie_levels t" and i: "i div 64 < length (leaf t)" "i < 2 ^ 24"
  shows "trie_levels (claim i t)"
proof -
  let ?lf = "set_abit i (leaf t)" and ?k = "i div 64"
  note d = trie_levelsD [OF t]
  have not_full: "?lf ! ?k = - 1 \<longleftrightarrow> clear_abit i (map (\<lambda>w. NOT w) (leaf t)) ! ?k = 0"
    using i map_not_set_abit [OF i(1)] word_not_eq_0_iff [of "?lf ! ?k"]
    by (metis length_set_abit nth_map)
  have s: "summary (map (\<lambda>w. NOT w) ?lf)
      (if ?lf ! ?k = - 1 then clear_abit ?k (level0 t) else level0 t)"
    using summary_clear [OF d(3), of i] i not_full by (simp add: map_not_set_abit)
  show ?thesis
  proof (cases "?lf ! ?k = - 1")
    case False
    then show ?thesis using s d by (simp add: trie_levels_def claim_def)
  next
    case True
    have "trie_levels (t\<lparr>leaf := ?lf, level0 := clear_abit ?k (level0 t),
      level1 := if clear_abit ?k (level0 t) ! (?k div 64) = 0
        then clear_abit (?k div 64) (level1 t) else level1 t,
      level2 := if clear_abit ?k (level0 t) ! (?k div 64) = 0 \<and>
          (if clear_abit ?k (level0 t) ! (?k div 64) = 0
           then clear_abit (?k div 64) (level1 t) else level1 t) ! (?k div 64 div 64) = 0
        then level2 t AND NOT (2 ^ (?k div 64 div 64)) else level2 t\<rparr>)"
      by (rule trie_levels_clear [OF t]) (use i d True s in auto)
    also have "(t\<lparr>leaf := ?lf, level0 := clear_abit ?k (level0 t),
      level1 := if clear_abit ?k (level0 t) ! (?k div 64) = 0
        then clear_abit (?k div 64) (level1 t) else level1 t,
      level2 := if clear_abit ?k (level0 t) ! (?k div 64) = 0 \<and>
          (if clear_abit ?k (level0 t) ! (?k div 64) = 0
           then clear_abit (?k div 64) (level1 t) else level1 t) ! (?k div 64 div 64) = 0
        then level2 t AND NOT (2 ^ (?k div 64 div 64)) else level2 t\<rparr>) = claim i t"
      using True by (simp add: claim_def)
    finally show ?thesis .
  qed
qed

lemma reserve_flow_0_eq:
  assumes "leaf t \<noteq> []" "trie_levels t"
  shows "reserve_flow_0 t = Some ((claim 0 t)\<lparr>allocated_count := 1\<rparr>)"
proof -
  have l: "0 < length (leaf t)" "0 < length (level0 t)" "0 < length (level1 t)"
    using assms trie_levels_bounds [OF assms(2), of 0] by auto
  have "set_abit 0 (leaf t) = (leaf t)[0 := leaf t ! 0 OR 1]"
    by (simp add: set_abit_def)
  then show ?thesis
    using l by (simp add: reserve_flow_0_def claim_def trie_bit_ops Let_def)
qed

subsection \<open>Initialisation\<close>

lemma div_ceil: "k < ((n::nat) + 63) div 64 \<longleftrightarrow> 64 * k < n"
  using less_eq_div_iff_mult_less_eq [of 64 "Suc k" "n + 63"] by auto

lemma full_summary:
  fixes xs ys :: "u64 list"
  assumes "\<And>i. abit xs i \<longleftrightarrow> i < n" "length xs = (n + 63) div 64"
    "\<And>k. abit ys k \<longleftrightarrow> k < length xs"
  shows "summary xs ys"
  unfolding summary_def
proof (intro allI)
  fix k
  have "xs ! k \<noteq> 0" if "k < length xs"
  proof -
    have "abit xs (64 * k)" using that assms(1,2) by (simp add: div_ceil)
    then show ?thesis by (auto simp: abit_def)
  qed
  then show "abit ys k \<longleftrightarrow> k < length xs \<and> xs ! k \<noteq> 0" using assms(3) by blast
qed

lemma update_last_eq:
  assumes "0 < m" "used < 64"
  shows "update_last f (replicate (unat m) c) m used =
    Some (if used = 0 then replicate (unat m) c
          else (replicate (unat m) c)[unat m - 1 := f c (mask (unat used))])"
proof -
  have "unat (m - 1) = unat m - 1" by (rule unat_minus_one) (use assms in auto)
  moreover have "0 < unat m" using assms by (simp add: unat_gt_0)
  ultimately show ?thesis
    using assms by (simp add: update_last_def shl1_def mask_eq_exp_minus_1)
qed

lemma div_ceil_cases:
  fixes n :: nat
  shows "(n + 63) div 64 = (if n mod 64 = 0 then n div 64 else n div 64 + 1)"
proof -
  define q r where "q = n div 64" and "r = n mod 64"
  then have n: "n = 64 * q + r" "r < 64" by auto
  have "(n + 63) div 64 = (if r = 0 then q else q + 1)"
    by (rule div_nat_eqI) (use n in auto)
  then show ?thesis by (simp add: q_def r_def)
qed

lemma less_div_mod:
  fixes n i :: nat
  shows "i < n \<longleftrightarrow> i div 64 < n div 64 \<or> (i div 64 = n div 64 \<and> i mod 64 < n mod 64)"
proof -
  define q r where "q = n div 64" and "r = n mod 64"
  define a b where "a = i div 64" and "b = i mod 64"
  have n: "n = 64 * q + r" "r < 64" and i: "i = 64 * a + b" "b < 64"
    by (auto simp: q_def r_def a_def b_def)
  have "i < n \<longleftrightarrow> a < q \<or> (a = q \<and> b < r)"
    using n i by (cases a q rule: linorder_cases) auto
  then show ?thesis by (simp add: a_def b_def q_def r_def)
qed

lemma last_word_index:
  fixes n i :: nat
  assumes "0 < n" "m = (n + 63) div 64"
  shows "i < n \<longleftrightarrow>
    i div 64 < m \<and> (n mod 64 \<noteq> 0 \<longrightarrow> i div 64 = m - 1 \<longrightarrow> i mod 64 < n mod 64)"
  unfolding assms(2) div_ceil_cases less_div_mod [of i n] by auto

text \<open>The bitmap of \<open>n\<close> ones that a level starts with, the bits past the end cleared.\<close>

definition ones :: "nat \<Rightarrow> u64 list" where
  "ones n = (let m = (n + 63) div 64 in
     if n mod 64 = 0 then replicate m (- 1) else (replicate m (- 1))[m - 1 := mask (n mod 64)])"

lemma length_ones [simp]: "length (ones n) = (n + 63) div 64"
  by (simp add: ones_def Let_def)

lemma abit_ones: "0 < n \<Longrightarrow> abit (ones n) i \<longleftrightarrow> i < n"
  unfolding last_word_index [of n "(n + 63) div 64" i, OF _ refl]
  by (auto simp: ones_def Let_def abit_def nth_list_update bit_mask_iff)

lemma map_not_ones:
  "map (\<lambda>w. NOT w) (if n mod 64 = 0 then replicate ((n + 63) div 64) 0
     else (replicate ((n + 63) div 64) 0)[(n + 63) div 64 - 1 := NOT (mask (n mod 64))]) = ones n"
  by (simp add: ones_def Let_def map_update)

lemma summary_ones:
  assumes "0 < n"
  shows "summary (ones n) (ones ((n + 63) div 64))"
  by (rule full_summary [of _ n]) (use assms in \<open>auto simp: abit_ones\<close>)

lemma bits_to_words_nat:
  "unat n + 63 < 2 ^ 32 \<Longrightarrow> unat (bits_to_words n) = (unat n + 63) div 64"
  by (simp add: bits_to_words_def unat_div unat_add_no_wrap)

lemma tail_bits:
  fixes n :: u32
  shows "n mod 64 < 64" "unat (n mod 64) = unat n mod 64" "n mod 64 = 0 \<longleftrightarrow> unat n mod 64 = 0"
proof -
  show 1: "unat (n mod 64) = unat n mod 64" by (simp add: unat_mod)
  then show "n mod 64 < 64" by (simp add: word_less_nat_alt)
  have "n mod 64 = 0 \<longleftrightarrow> unat (n mod 64) = 0" by (rule unat_eq_0 [symmetric])
  then show "n mod 64 = 0 \<longleftrightarrow> unat n mod 64 = 0" unfolding 1 .
qed

lemma update_last_tail:
  assumes "0 < n" "unat m = (unat n + 63) div 64"
  shows "update_last f (replicate (unat m) c) m (n mod 64) =
    Some (let k = (unat n + 63) div 64 in if unat n mod 64 = 0 then replicate k c
          else (replicate k c)[k - 1 := f c (mask (unat n mod 64))])"
proof -
  have "0 < unat n" using assms(1) by (simp add: unat_gt_0)
  then have "0 < unat m" unfolding assms(2) by (simp add: div_greater_zero_iff)
  then have "0 < m" by (simp add: unat_gt_0 word_neq_0_conv)
  from update_last_eq [OF this tail_bits(1), of f c n] show ?thesis
    unfolding tail_bits(2,3) assms(2) Let_def .
qed

lemma update_last_and:
  assumes "0 < n" "unat m = (unat n + 63) div 64"
  shows "update_last (\<lambda>w m. w AND m) (replicate (unat m) UINT64_MAX) m (n mod 64) = Some (ones (unat n))"
  unfolding update_last_tail [OF assms] ones_def and.left_neutral ..

lemma update_last_or:
  assumes "0 < n" "unat m = (unat n + 63) div 64"
  obtains lf where "update_last (\<lambda>w m. w OR NOT m) (replicate (unat m) 0) m (n mod 64) = Some lf"
    "map (\<lambda>w. NOT w) lf = ones (unat n)"
  using map_not_ones [of "unat n"] unfolding update_last_tail [OF assms] or.left_neutral Let_def
  by simp

lemma trie_init_levels:
  assumes n: "0 < n" "unat n + 63 < 2 ^ 32"
    and sizes: "calculate_level_sizes n = (ls, l0s, l1s)"
  shows "unat ls = (unat n + 63) div 64" "unat l0s = (unat ls + 63) div 64"
    "unat l1s = (unat l0s + 63) div 64" "0 < ls" "0 < l0s" "0 < l1s"
proof -
  have e: "ls = bits_to_words n" "l0s = bits_to_words ls" "l1s = bits_to_words l0s"
    using sizes by (auto simp: calculate_level_sizes_def Let_def)
  show 1: "unat ls = (unat n + 63) div 64" unfolding e by (rule bits_to_words_nat [OF n(2)])
  show 2: "unat l0s = (unat ls + 63) div 64"
    unfolding e(2) by (rule bits_to_words_nat) (use 1 n in simp)
  show 3: "unat l1s = (unat l0s + 63) div 64"
    unfolding e(3) by (rule bits_to_words_nat) (use 1 2 n in simp)
  have "0 < unat n" using n(1) by (simp add: unat_gt_0)
  then have "0 < unat ls" "0 < unat l0s" "0 < unat l1s"
    using 1 2 3 by (auto simp: div_greater_zero_iff)
  then show "0 < ls" "0 < l0s" "0 < l1s" by (simp_all add: unat_gt_0 word_neq_0_conv)
qed

lemma trie_levels_ones:
  assumes n: "0 < n" and l0: "l0 = ones ((n + 63) div 64)"
    and l1: "l1 = ones (((n + 63) div 64 + 63) div 64)"
    and lf: "map (\<lambda>w. NOT w) lf = ones n"
    and l2: "\<And>k. k < 64 \<Longrightarrow> bit l2 k \<longleftrightarrow> k < length l1"
  shows "trie_levels (t\<lparr>leaf := lf, level0 := l0, level1 := l1, level2 := l2\<rparr>)"
proof -
  have len: "length lf = (n + 63) div 64" by (metis lf length_map length_ones)
  have pos: "0 < (n + 63) div 64" "0 < ((n + 63) div 64 + 63) div 64"
    using n by (auto simp: div_greater_zero_iff)
  have "l1 ! k \<noteq> 0" if "k < length l1" for k
    using summary_ones [OF pos(2)] that l1 pos(2)
    by (simp add: summary_def abit_ones) blast
  then show ?thesis
    using len lf l2 summary_ones [OF n] summary_ones [OF pos(1)]
    by (auto simp: trie_levels_def l0 l1)
qed

lemma hwfq_flow_trie_init_ok:
  assumes n: "0 < n" "unat n + 63 < 2 ^ 32"
  shows "\<exists>t'. hwfq_flow_trie_init True True True n t = Some (Inr (), t') \<and>
    trie_inv t' \<and> max_flows t' = n \<and> trie_ids t' = {0}"
proof -
  obtain ls l0s l1s where sz: "calculate_level_sizes n = (ls, l0s, l1s)"
    by (metis prod_cases3)
  note z = trie_init_levels [OF n sz]
  obtain lf where lf: "update_last (\<lambda>w m. w OR NOT m) (replicate (unat ls) 0) ls (n mod 64) = Some lf"
      "map (\<lambda>w. NOT w) lf = ones (unat n)"
    by (rule update_last_or [OF n(1) z(1)])
  note l0 = update_last_and [OF z(4) z(2)] and l1 = update_last_and [OF z(5) z(3)]
  define l2 where "l2 = (if l1s < 64 then mask (unat l1s) else UINT64_MAX)"
  have l2: "(if l1s < 64 then do { one \<leftarrow> shl1 l1s; Some (UINT64_MAX AND (one - 1)) }
      else Some UINT64_MAX) = Some l2"
    by (simp add: l2_def shl1_def mask_eq_exp_minus_1)
  have b2: "bit l2 k \<longleftrightarrow> k < length (ones (unat l0s))" if "k < 64" for k
    using that z(3) by (auto simp: l2_def bit_mask_iff word_less_nat_alt)
  define t0 where "t0 = t\<lparr>leaf_size := ls, level0_size := l0s, level1_size := l1s,
    max_flows := n, allocated_count := 0, alloc_hint := 0,
    leaf := lf, level0 := ones (unat ls), level1 := ones (unat l0s), level2 := l2\<rparr>"
  have N: "0 < unat n" using n(1) by (simp add: unat_gt_0)
  have lev: "trie_levels t0"
    unfolding t0_def by (rule trie_levels_ones [OF N]) (use z lf b2 in auto)
  have len: "length lf = (unat n + 63) div 64" by (metis lf(2) length_map length_ones)
  have "0 < unat ls" using z(4) by (simp add: word_less_nat_alt)
  then have ne: "leaf t0 \<noteq> []" using len z(1) by (auto simp: t0_def)
  let ?t = "(claim 0 t0)\<lparr>allocated_count := 1\<rparr>"
  have run: "hwfq_flow_trie_init True True True n t = Some (Inr (), ?t)"
  proof -
    have "n \<noteq> 0" using n(1) by auto
    note res = reserve_flow_0_eq [OF ne lev, unfolded t0_def]
    show ?thesis
      using \<open>n \<noteq> 0\<close>
      by (simp only: hwfq_flow_trie_init_def sz Let_def prod.case not_True_eq_False if_False
          lf(1) l0 l1 l2 Option.bind.bind_lunit res t0_def flow_trie.simps)
  qed
  have lf_bits: "abit lf i \<longleftrightarrow> i div 64 < length lf \<and> \<not> i < unat n" for i
    using abit_map_not [of lf i] lf(2) abit_ones [OF N, of i] len
    by (auto simp: div_less_iff_less_mult abit_def)
  have "0 div 64 < length lf" using ne by (simp add: t0_def)
  then have "abit (set_abit 0 lf) i \<longleftrightarrow> abit lf i \<or> i = 0" for i
    by (simp del: div_0)
  then have bits: "abit (leaf ?t) i \<longleftrightarrow> i = 0 \<or> i div 64 < length lf \<and> unat n \<le> i" for i
    unfolding lf_bits by (simp add: t0_def not_less) blast
  have ids: "trie_ids ?t = {0}"
    using N unfolding trie_ids_def bits by (auto simp: t0_def word_less_nat_alt unat_eq_0)
  have "trie_levels ?t"
    using claim_levels [OF lev, of 0] ne by (simp add: trie_levels_def)
  then have "trie_inv ?t"
    using n(1) len ids unfolding trie_inv_def bits by (simp add: t0_def)
  then show ?thesis using run ids by (auto simp: t0_def)
qed

subsection \<open>Allocation\<close>

text \<open>The path that the search follows: the least ID whose leaf bit is clear.\<close>

definition first_free :: "flow_trie \<Rightarrow> nat" where
  "first_free t =
     (let k1 = ctz (level2 t); k0 = k1 * 64 + ctz (level1 t ! k1);
          k = k0 * 64 + ctz (level0 t ! k0)
      in k * 64 + ctz (NOT (leaf t ! k)))"

lemma first_free_path:
  assumes t: "trie_levels t" "level2 t \<noteq> 0"
  defines "k1 \<equiv> ctz (level2 t)"
  defines "k0 \<equiv> k1 * 64 + ctz (level1 t ! k1)"
  defines "k \<equiv> k0 * 64 + ctz (level0 t ! k0)"
  shows "k1 < length (level1 t)" "level1 t ! k1 \<noteq> 0" "k0 < length (level0 t)" "level0 t ! k0 \<noteq> 0"
    "k < length (leaf t)" "leaf t ! k \<noteq> - 1" "k1 < 64" "k0 < 2 ^ 12" "k < 2 ^ 18"
    "first_free t = k * 64 + ctz (NOT (leaf t ! k))" "first_free t < 2 ^ 24"
    "k0 div 64 = k1" "k div 64 = k0" "first_free t div 64 = k"
    "least_bit (\<lambda>i. i div 64 < length (leaf t) \<and> \<not> abit (leaf t) i) (first_free t)"
proof -
  note d = trie_levelsD [OF t(1)]
  note c2 = ctz_spec [OF t(2), folded k1_def]
  show k1: "k1 < 64" using c2 by simp
  show 1: "k1 < length (level1 t)" "level1 t ! k1 \<noteq> 0" using d(5) [OF k1] c2(1) by auto
  have "least_bit (\<lambda>j. j < length (level1 t) \<and> level1 t ! j \<noteq> 0) k1"
    using 1 k1 c2(3) d(5) by (auto simp: least_bit_def)
  from nonzero_step [OF this] have l0: "least_bit (abit (level1 t)) k0" by (simp add: k0_def)
  show 0: "k0 < length (level0 t)" "level0 t ! k0 \<noteq> 0"
    using summary_step [OF d(4) l0] by auto
  from summary_step(3) [OF d(4) l0] have l: "least_bit (abit (level0 t)) k" by (simp add: k_def)
  show w: "k < length (leaf t)" "leaf t ! k \<noteq> - 1"
    using summary_step(1,2) [OF d(3) l] by (auto simp: word_not_eq_0_iff)
  show f: "first_free t = k * 64 + ctz (NOT (leaf t ! k))"
    by (simp add: first_free_def k_def k0_def k1_def Let_def)
  show "least_bit (\<lambda>i. i div 64 < length (leaf t) \<and> \<not> abit (leaf t) i) (first_free t)"
    using summary_step(3) [OF d(3) l] w(1) unfolding abit_map_not [abs_def] f by simp
  have c: "ctz (level1 t ! k1) < 64" "ctz (level0 t ! k0) < 64" "ctz (NOT (leaf t ! k)) < 64"
    using ctz_spec(2) [OF 1(2)] ctz_spec(2) [OF 0(2)] ctz_spec(2) [of "NOT (leaf t ! k)"] w(2)
    by (auto simp: word_not_eq_0_iff)
  show k0: "k0 < 2 ^ 12" "k0 div 64 = k1" using k1 c by (auto simp: k0_def)
  show k: "k < 2 ^ 18" "k div 64 = k0" using k0 c by (auto simp: k_def)
  show "first_free t < 2 ^ 24" "first_free t div 64 = k" using k c by (auto simp: f)
qed

text \<open>No free bit at the top: every ID the top level covers is taken.\<close>

lemma level2_zero_full:
  assumes t: "trie_levels t" "level2 t = 0" and i: "i < 2 ^ 24" "i div 64 < length (leaf t)"
  shows "abit (leaf t) i"
proof (rule ccontr)
  assume "\<not> abit (leaf t) i"
  note d = trie_levelsD [OF t(1)] and b = trie_levels_bounds [OF t(1) i(2)]
  have "abit (map (\<lambda>w. NOT w) (leaf t)) i" using i \<open>\<not> abit (leaf t) i\<close> by (simp add: abit_map_not)
  then have "map (\<lambda>w. NOT w) (leaf t) ! (i div 64) \<noteq> 0" by (auto simp: abit_def)
  then have "abit (level0 t) (i div 64)" using d(3) i by (simp add: summary_def)
  then have "level0 t ! (i div 64 div 64) \<noteq> 0" by (auto simp: abit_def)
  then have "abit (level1 t) (i div 64 div 64)" using d(4) b by (simp add: summary_def)
  then have "level1 t ! (i div 64 div 64 div 64) \<noteq> 0" by (auto simp: abit_def)
  moreover have "i div 64 div 64 div 64 < 64" using i by simp
  ultimately have "bit (level2 t) (i div 64 div 64 div 64)" using d(5) b by blast
  then show False using t(2) by simp
qed

lemma hwfq_flow_trie_alloc_None_free:
  "level2 t = 0 \<Longrightarrow> hwfq_flow_trie_alloc t = Some (Inl HWFQ_ERR_NO_MEMORY, t)"
  by (simp add: hwfq_flow_trie_alloc_def)

lemma unat_step:
  assumes "unat a = k" "unat b = c" "c < 64" "k < 2 ^ 18"
  shows "unat (a * 64 + b :: u32) = k * 64 + c"
  using next_level_index [of b a] assms by simp

lemma hwfq_flow_trie_alloc_eq:
  assumes t: "trie_inv t" and nz: "level2 t \<noteq> 0"
  shows "hwfq_flow_trie_alloc t = Some (Inr (of_nat (first_free t)),
    (claim (first_free t) t)\<lparr>allocated_count := allocated_count t + 1\<rparr>)"
proof -
  note inv = trie_invD [OF t] and ffs = find_first_set_bit64_eq
  define k1 where "k1 = ctz (level2 t)"
  define k0 where "k0 = k1 * 64 + ctz (level1 t ! k1)"
  define k where "k = k0 * 64 + ctz (level0 t ! k0)"
  note p = first_free_path [OF inv(3) nz, folded k1_def, folded k0_def, folded k_def]
  have nz': "NOT (leaf t ! k) \<noteq> 0" using p(6) by (simp add: word_not_eq_0_iff)
  define a b c d where "a = find_first_set_bit64 (level2 t) - 1"
    and "b = find_first_set_bit64 (level1 t ! k1) - 1"
    and "c = find_first_set_bit64 (level0 t ! k0) - 1"
    and "d = find_first_zero_bit64 (leaf t ! k) - 1"
  define w0 where "w0 = a * 64 + b"
  define w where "w = w0 * 64 + c"
  define flow where "flow = w * 64 + d"
  have ua: "unat a = k1" using ffs(2) [OF nz] by (simp add: k1_def a_def)
  have u0: "unat w0 = k0"
    unfolding k0_def w0_def b_def
    by (rule unat_step [OF ua ffs(2) [OF p(2)]]) (use ctz_spec(2) [OF p(2)] p(7) in auto)
  have u: "unat w = k"
    unfolding k_def w_def c_def
    by (rule unat_step [OF u0 ffs(2) [OF p(4)]]) (use ctz_spec(2) [OF p(4)] p(8) in auto)
  have uid: "unat flow = first_free t"
    unfolding p(10) flow_def d_def find_first_zero_bit64_def
    by (rule unat_step [OF u ffs(2) [OF nz']]) (use ctz_spec(2) [OF nz'] p(9) in auto)
  have "\<not> abit (leaf t) (first_free t)" using p(15) by (simp add: least_bit_def)
  then have lt: "first_free t < unat (max_flows t)" using inv(6) p(5,14) not_less by blast
  then have ok: "\<not> max_flows t \<le> flow" by (simp add: word_le_nat_alt uid)
  have sh: "shl1 a = Some (2 ^ k1)" using p(7) ua by (simp add: shl1_def word_less_nat_alt)
  have ne: "find_first_set_bit64 (level2 t) \<noteq> 0" "find_first_set_bit64 (level1 t ! k1) \<noteq> 0"
      "find_first_set_bit64 (level0 t ! k0) \<noteq> 0" "find_first_zero_bit64 (leaf t ! k) \<noteq> 0"
    using ffs(1) nz p(2,4) nz' unfolding find_first_zero_bit64_def by blast+
  have len: "unat flow div 64 < length (leaf t)" "unat w div 64 < length (level0 t)"
      "unat w0 div 64 < length (level1 t)"
    using p(1,3,5,12-14) u0 u uid by simp_all
  note ops = trie_bit_ops(1) [OF len(1)] trie_bit_ops(2) [OF len(2)] trie_bit_ops(2) [OF len(3)]
  have "hwfq_flow_trie_alloc t = Some (Inr flow,
    (claim (first_free t) t)\<lparr>allocated_count := allocated_count t + 1\<rparr>)"
    using nz ne ok p(1,3,5)
    by (simp add: hwfq_flow_trie_alloc_def Let_def a_def [symmetric] b_def [symmetric] c_def [symmetric]
        d_def [symmetric] w0_def [symmetric] w_def [symmetric] flow_def [symmetric]
        ua u0 u uid ops sh claim_def p(12-14))
  then show ?thesis by (simp add: uid [symmetric])
qed

text \<open>The allocated IDs are IDs below the capacity.\<close>

lemma card_u32_below: "card {i :: u32. i < m} = unat m"
proof -
  have "bij_betw unat {i :: u32. i < m} {..< unat m}"
    by (rule bij_betw_byWitness [where f' = of_nat])
      (auto simp: word_less_nat_alt unat_of_nat mod_less [OF order.strict_trans [OF _ unat_u32_bound]])
  then show ?thesis using bij_betw_same_card by fastforce
qed

lemma card_ids_insert:
  fixes c :: u32
  assumes "ids \<subseteq> {i :: u32. i < m}" "i < m" "i \<notin> ids" "unat c = card ids"
  shows "unat (c + 1) = card (insert i ids)"
proof -
  have "card (insert i ids) \<le> card {i :: u32. i < m}"
    by (rule card_mono) (use assms in auto)
  also have "\<dots> < 2 ^ 32" by (simp add: card_u32_below) (use unat_u32_bound in auto)
  finally have "card ids + 1 < 2 ^ 32" using assms(3) by simp
  then show ?thesis using assms by (subst unat_add_no_wrap) auto
qed

lemma card_ids_remove:
  assumes "i \<in> ids" "unat (c :: u32) = card (ids :: u32 set)"
  shows "unat (c - 1) = card (ids - {i})"
proof -
  have "0 < card ids" using assms(1) card_gt_0_iff [of ids] by auto
  then have "c \<noteq> 0" using assms(2) by auto
  then show ?thesis using assms by (simp add: unat_minus_one)
qed

lemma trie_claim_inv:
  assumes t: "trie_inv t" and i: "i < unat (max_flows t)" "i < 2 ^ 24" "\<not> abit (leaf t) i"
  defines "t' \<equiv> (claim i t)\<lparr>allocated_count := allocated_count t + 1\<rparr>"
  shows "trie_inv t'" "trie_ids t' = insert (of_nat i) (trie_ids t)"
proof -
  note inv = trie_invD [OF t]
  have iw: "i div 64 < length (leaf t)"
    using i(1) inv(2) last_word_index [of "unat (max_flows t)" _ i] by simp
  have u: "unat (of_nat i :: u32) = i" using i by (simp add: unat_of_nat)
  have bits: "abit (set_abit i (leaf t)) j \<longleftrightarrow> abit (leaf t) j \<or> j = i" for j
    using iw by simp
  have eq: "unat j = i \<longleftrightarrow> j = of_nat i" for j :: u32 using u by auto
  have lt: "of_nat i < max_flows t" using u i(1) by (simp add: word_less_nat_alt)
  show ids: "trie_ids t' = insert (of_nat i) (trie_ids t)"
    unfolding trie_ids_def t'_def by (rule set_eqI) (use lt in \<open>simp add: bits eq, blast\<close>)
  have "unat (allocated_count t + 1) = card (insert (of_nat i) (trie_ids t))"
    by (rule card_ids_insert [of _ "max_flows t"])
      (use lt i(3) u inv(7) in \<open>auto simp: trie_ids_def\<close>)
  moreover have "trie_levels t'"
    using claim_levels [OF inv(3) iw i(2)] by (simp add: t'_def trie_levels_def)
  ultimately show "trie_inv t'"
    using inv ids i unfolding trie_inv_def by (simp add: t'_def bits)
qed

section \<open>Freeing\<close>

text \<open>
  Giving ID \<open>i\<close> back: clear its leaf bit and set the bit above every word that had no free flow.
\<close>

definition release :: "nat \<Rightarrow> flow_trie \<Rightarrow> flow_trie" where
  "release i t =
     (let t1 = t\<lparr>leaf := clear_abit i (leaf t)\<rparr> in
      if leaf t ! (i div 64) \<noteq> - 1 then t1 else
      let t2 = t1\<lparr>level0 := set_abit (i div 64) (level0 t1)\<rparr> in
      if level0 t2 ! (i div 64 div 64) \<noteq> 2 ^ (i div 64 mod 64) then t2 else
      let t3 = t2\<lparr>level1 := set_abit (i div 64 div 64) (level1 t2)\<rparr> in
      if level1 t3 ! (i div 64 div 64 div 64) \<noteq> 2 ^ (i div 64 div 64 mod 64) then t3
      else t3\<lparr>level2 := level2 t3 OR 2 ^ (i div 64 div 64 div 64)\<rparr>)"

lemma release_simps [simp]:
  "leaf (release i t) = clear_abit i (leaf t)" "max_flows (release i t) = max_flows t"
  "allocated_count (release i t) = allocated_count t"
  by (simp_all add: release_def Let_def)

lemma release_levels:
  assumes t: "trie_levels t" and i: "i div 64 < length (leaf t)" "i < 2 ^ 24"
  shows "trie_levels (release i t)"
proof -
  let ?F = "map (\<lambda>w. NOT w) (leaf t)" and ?k = "i div 64"
  note d = trie_levelsD [OF t] and bd = trie_levels_bounds [OF t i(1)]
  have F: "map (\<lambda>w. NOT w) (clear_abit i (leaf t)) = set_abit i ?F"
    by (rule map_not_clear_abit [OF i(1)])
  have top: "?k div 64 div 64 < 64" using i(2) by simp
  consider (a) "leaf t ! ?k \<noteq> - 1"
    | (b) "leaf t ! ?k = - 1" "set_abit ?k (level0 t) ! (?k div 64) \<noteq> 2 ^ (?k mod 64)"
    | (c) "leaf t ! ?k = - 1" "set_abit ?k (level0 t) ! (?k div 64) = 2 ^ (?k mod 64)"
    by blast
  then show ?thesis
  proof cases
    case a
    have "summary (set_abit i ?F) (level0 t)"
      by (rule summary_set_same [OF d(3)]) (use i a in \<open>auto simp: word_not_eq_0_iff\<close>)
    then show ?thesis using a d by (simp add: trie_levels_def release_def F)
  next
    case b
    have "summary (set_abit i ?F) (set_abit ?k (level0 t))"
      by (rule summary_set [OF d(3)]) (use i bd in auto)
    moreover have "summary (set_abit ?k (level0 t)) (level1 t)"
      by (rule summary_set_same [OF d(4)])
        (use bd set_abit_single [OF _ b(2)] in auto)
    ultimately show ?thesis using b d by (simp add: trie_levels_def release_def F)
  next
    case c
    let ?l1 = "set_abit (?k div 64) (level1 t)" and ?m = "?k div 64 div 64"
    have s0: "summary (set_abit i ?F) (set_abit ?k (level0 t))"
      by (rule summary_set [OF d(3)]) (use i bd in auto)
    have s1: "summary (set_abit ?k (level0 t)) ?l1"
      by (rule summary_set [OF d(4)]) (use bd in auto)
    have off: "?l1 ! j = level1 t ! j" if "j \<noteq> ?m" for j
      using that by (simp add: set_abit_def)
    have on: "?l1 ! ?m \<noteq> 0" using set_abit_nonzero bd(2) by blast
    let ?l2 = "if ?l1 ! ?m = 2 ^ (?k div 64 mod 64) then level2 t OR 2 ^ ?m else level2 t"
    have "bit ?l2 j \<longleftrightarrow> j < length ?l1 \<and> ?l1 ! j \<noteq> 0" if "j < 64" for j
    proof (cases "j = ?m")
      case True
      then show ?thesis
        using d(5) [OF that] on bd(2) top set_abit_single [of "?k div 64" "level1 t"]
        by (auto simp: bit_or_one)
    next
      case False
      then show ?thesis using d(5) [OF that] off by (auto simp: bit_or_one)
    qed
    then have "trie_levels (t\<lparr>leaf := clear_abit i (leaf t), level0 := set_abit ?k (level0 t),
        level1 := ?l1, level2 := ?l2\<rparr>)"
      using s0 s1 d(1,2) by (simp add: trie_levels_def F)
    moreover have "release i t = t\<lparr>leaf := clear_abit i (leaf t), level0 := set_abit ?k (level0 t),
        level1 := ?l1, level2 := ?l2\<rparr>"
      using c by (simp add: release_def)
    ultimately show ?thesis by simp
  qed
qed

lemma hwfq_flow_trie_free_eq:
  assumes t: "trie_inv t" and i: "i \<noteq> 0" "i \<in> trie_ids t"
  shows "hwfq_flow_trie_free i t =
    Some ((release (unat i) t)\<lparr>allocated_count := allocated_count t - 1\<rparr>)"
proof -
  note inv = trie_invD [OF t]
  have lt: "i < max_flows t" and a: "abit (leaf t) (unat i)" using i(2) by (auto simp: trie_ids_def)
  have 24: "unat i < 2 ^ 24" using inv(5) [OF a] lt by (auto simp: word_less_nat_alt)
  have l: "unat i div 64 < length (leaf t)" using a by (simp add: abit_def)
  note bd = trie_levels_bounds [OF inv(3) l]
  define w where "w = i div 64"
  define w0 where "w0 = w div 64"
  define w1 where "w1 = w0 div 64"
  have u: "unat w = unat i div 64" "unat w0 = unat i div 64 div 64"
      "unat w1 = unat i div 64 div 64 div 64" "unat (w mod 64) = unat i div 64 mod 64"
      "unat (w0 mod 64) = unat i div 64 div 64 mod 64"
    by (simp_all only: w_def w0_def w1_def unat_div unat_mod unat_numeral) simp_all
  have sh: "shl1 w1 = Some (2 ^ unat w1)" using 24 by (simp add: shl1_def word_less_nat_alt u)
  note ops = trie_bit_ops(2,3) [OF l] trie_bit_ops(1) [of w] trie_bit_ops(1) [of w0]
  show ?thesis
    using i(1) lt l bd a
    by (simp add: hwfq_flow_trie_free_def Let_def ops w_def [symmetric] w0_def [symmetric]
        w1_def [symmetric] u sh release_def)
qed

lemma trie_release_inv:
  assumes t: "trie_inv t" and i: "i \<noteq> 0" "i \<in> trie_ids t"
  defines "t' \<equiv> (release (unat i) t)\<lparr>allocated_count := allocated_count t - 1\<rparr>"
  shows "trie_inv t'" "trie_ids t' = trie_ids t - {i}"
proof -
  note inv = trie_invD [OF t]
  have lt: "i < max_flows t" and a: "abit (leaf t) (unat i)" using i(2) by (auto simp: trie_ids_def)
  have 24: "unat i < 2 ^ 24" using inv(5) [OF a] lt by (auto simp: word_less_nat_alt)
  have l: "unat i div 64 < length (leaf t)" using a by (simp add: abit_def)
  show ids: "trie_ids t' = trie_ids t - {i}"
    unfolding trie_ids_def t'_def by auto
  have "trie_levels t'"
    using release_levels [OF inv(3) l 24] by (simp add: t'_def trie_levels_def)
  moreover have "unat (allocated_count t - 1) = card (trie_ids t - {i})"
    by (rule card_ids_remove [OF i(2) inv(7)])
  moreover have "unat i \<noteq> 0" using i(1) by (simp add: unat_eq_0)
  moreover have "unat i < unat (max_flows t)" using lt by (simp add: word_less_nat_alt)
  ultimately show "trie_inv t'"
    using inv ids unfolding trie_inv_def by (simp add: t'_def)
qed

section \<open>The trie as an ID allocator\<close>

text \<open>ID 0 is never handed out, so a client's IDs are the allocated ones without it.\<close>

lemma trie_inv_0: "trie_inv t \<Longrightarrow> 0 \<in> trie_ids t"
  by (simp add: trie_inv_def trie_ids_def)

lemma hwfq_flow_trie_alloc_cases:
  assumes "trie_inv t"
  obtains (full) "hwfq_flow_trie_alloc t = Some (Inl HWFQ_ERR_NO_MEMORY, t)"
      "\<And>j. j < max_flows t \<Longrightarrow> j < 2 ^ 24 \<Longrightarrow> j \<in> trie_ids t"
    | (id) i t' where "hwfq_flow_trie_alloc t = Some (Inr i, t')" "trie_inv t'"
      "i \<notin> trie_ids t" "i < max_flows t" "i < 2 ^ 24" "\<And>j. j < i \<Longrightarrow> j \<in> trie_ids t"
      "trie_ids t' = insert i (trie_ids t)" "max_flows t' = max_flows t"
      "t' = (claim (unat i) t)\<lparr>allocated_count := allocated_count t + 1\<rparr>"
proof (cases "level2 t = 0")
  case True
  note inv = trie_invD [OF assms]
  have "j \<in> trie_ids t" if "j < max_flows t" "j < 2 ^ 24" for j
  proof -
    have "unat j < unat (max_flows t)" "unat j < 2 ^ 24" using that by (auto simp: word_less_nat_alt)
    moreover from this have "unat j div 64 < length (leaf t)"
      using inv(2) last_word_index [of "unat (max_flows t)" _ "unat j"] by simp
    ultimately have "abit (leaf t) (unat j)" using level2_zero_full [OF inv(3) True] by blast
    then show ?thesis using that by (simp add: trie_ids_def)
  qed
  then show ?thesis using hwfq_flow_trie_alloc_None_free [OF True] full by blast
next
  case False
  note inv = trie_invD [OF assms] and eq = hwfq_flow_trie_alloc_eq [OF assms False]
  note p = first_free_path(5,11,14,15) [OF trie_invD(3) [OF assms] False]
  have least: "\<not> abit (leaf t) (first_free t)" "first_free t div 64 < length (leaf t)"
      "\<And>j. j < first_free t \<Longrightarrow> j div 64 < length (leaf t) \<Longrightarrow> abit (leaf t) j"
    using p(4) by (auto simp: least_bit_def)
  then have lt: "first_free t < unat (max_flows t)" using inv(6) not_less by blast
  define i :: u32 where "i = of_nat (first_free t)"
  have u: "unat i = first_free t" using p(2) by (simp add: i_def unat_of_nat)
  have below: "j \<in> trie_ids t" if "j < i" for j
  proof -
    have "unat j < first_free t" using that u by (simp add: word_less_nat_alt)
    moreover from this have "unat j div 64 < length (leaf t)"
      using div_le_mono [of "unat j" "first_free t" 64] least(2) by simp
    ultimately show ?thesis using least(3) lt by (simp add: trie_ids_def word_less_nat_alt)
  qed
  show ?thesis
  proof (rule id [OF eq [folded i_def]])
    show "trie_inv ((claim (first_free t) t)\<lparr>allocated_count := allocated_count t + 1\<rparr>)"
      "trie_ids ((claim (first_free t) t)\<lparr>allocated_count := allocated_count t + 1\<rparr>) =
       insert i (trie_ids t)"
      using trie_claim_inv [OF assms lt p(2) least(1)] by (simp_all add: i_def)
    show "i \<notin> trie_ids t" using least(1) u by (simp add: trie_ids_def)
    show "i < max_flows t" "i < 2 ^ 24" using lt p(2) u by (simp_all add: word_less_nat_alt)
    show "j \<in> trie_ids t" if "j < i" for j using below [OF that] .
  qed (simp_all add: u)
qed

interpretation trie: id_allocator "\<lambda>_ :: unit. hwfq_flow_trie_alloc" hwfq_flow_trie_free
  "\<lambda>t. trie_ids t - {0}" "\<lambda>t. {i. 0 < i \<and> i < max_flows t \<and> i < 2 ^ 24}" trie_inv
proof (unfold_locales, goal_cases)
  case (1 t m)
  then show ?case by (cases rule: hwfq_flow_trie_alloc_cases) auto
next
  case (2 t m e t')
  then show ?case by (cases rule: hwfq_flow_trie_alloc_cases [OF 2(1)]) auto
next
  case (3 t m i t')
  then show ?case
    using trie_inv_0 [of t]
    by (cases rule: hwfq_flow_trie_alloc_cases [OF 3(1)]) (auto simp: word_neq_0_conv [symmetric])
next
  case (4 t i)
  then show ?case
    using hwfq_flow_trie_free_eq [of t i] trie_release_inv [of t i] by auto
qed

section \<open>The levels are determined by the leaves\<close>

lemma abit_eqI:
  fixes xs ys :: "u64 list"
  assumes "length xs = length ys" "\<And>i. abit xs i \<longleftrightarrow> abit ys i"
  shows "xs = ys"
proof (rule nth_equalityI [OF assms(1)])
  fix k assume "k < length xs"
  then have "bit (xs ! k) n = bit (ys ! k) n" if "n < 64" for n
    using assms abit_word [of k xs n] abit_word [of k ys n] that by simp
  then show "xs ! k = ys ! k" by (auto intro!: bit_word_eqI)
qed

lemma trie_levels_unique:
  assumes t: "trie_levels t" "trie_levels t'" and "leaf t = leaf t'"
  shows "level0 t = level0 t'" "level1 t = level1 t'" "level2 t = level2 t'"
proof -
  note d = trie_levelsD [OF t(1)] and d' = trie_levelsD [OF t(2)]
  show 0: "level0 t = level0 t'"
    by (rule abit_eqI) (use d(1,3) d'(1,3) assms(3) in \<open>auto simp: summary_def\<close>)
  show 1: "level1 t = level1 t'"
    by (rule abit_eqI) (use d(2,4) d'(2,4) 0 in \<open>auto simp: summary_def\<close>)
  show "level2 t = level2 t'"
    by (rule bit_word_eqI) (use d(5) d'(5) 1 in auto)
qed

lemma claim_release_fields:
  "level1_size (claim i t) = level1_size t" "level0_size (claim i t) = level0_size t"
  "leaf_size (claim i t) = leaf_size t" "alloc_hint (claim i t) = alloc_hint t"
  "level1_size (release i t) = level1_size t" "level0_size (release i t) = level0_size t"
  "leaf_size (release i t) = leaf_size t" "alloc_hint (release i t) = alloc_hint t"
  by (simp_all add: claim_def release_def Let_def)

section \<open>Properties\<close>

text \<open>
  A concrete trie for 100 flows, as the initialisation leaves it, and one for 64 flows in which
  every ID is taken: the states that the examples below run on.
\<close>

definition trie_100 :: flow_trie where
  "trie_100 = \<lparr>level2 = 1, level1 = [1], level0 = [3],
     leaf = [1, 0xFFFFFFF000000000], level1_size = 1, level0_size = 1, leaf_size = 2,
     max_flows = 100, allocated_count = 1, alloc_hint = 0\<rparr>"

lemma trie_100_init: "hwfq_flow_trie_init True True True 100 trie_100 = Some (Inr (), trie_100)"
  by code_simp

lemma trie_100_inv: "trie_inv trie_100" "trie_ids trie_100 = {0}"
  using hwfq_flow_trie_init_ok [of 100 trie_100] trie_100_init by auto

text \<open>
  C26. Allocation always succeeds or reports a full trie, never touches memory outside its arrays
  and never reports an internal error.  It hands out the least free ID, wherever the last allocation
  was (the hint the header mentions is never read), adds exactly that ID to the allocated set and
  keeps the invariant; it fails only when every ID below both the capacity and \<open>2 ^ 24\<close> is taken,
  and then changes nothing.
\<close>

theorem trie_alloc_least_free:
  assumes "trie_inv t"
  shows "case hwfq_flow_trie_alloc t of
      None \<Rightarrow> False
    | Some (Inl e, t') \<Rightarrow> e = HWFQ_ERR_NO_MEMORY \<and> t' = t \<and>
        {j. j < max_flows t \<and> j < 2 ^ 24} \<subseteq> trie_ids t
    | Some (Inr i, t') \<Rightarrow> trie_inv t' \<and> max_flows t' = max_flows t \<and>
        i < max_flows t \<and> i \<notin> trie_ids t \<and> {j. j < i} \<subseteq> trie_ids t \<and>
        trie_ids t' = insert i (trie_ids t)"
  by (cases rule: hwfq_flow_trie_alloc_cases [OF assms]) auto

theorem trie_alloc_least_free_witness:
  "trie_inv trie_100 \<and> (case hwfq_flow_trie_alloc trie_100 of
      None \<Rightarrow> False
    | Some (Inl e, t') \<Rightarrow> e = HWFQ_ERR_NO_MEMORY \<and> t' = trie_100 \<and>
        {j. j < max_flows trie_100 \<and> j < 2 ^ 24} \<subseteq> trie_ids trie_100
    | Some (Inr i, t') \<Rightarrow> trie_inv t' \<and> max_flows t' = max_flows trie_100 \<and>
        i < max_flows trie_100 \<and> i \<notin> trie_ids trie_100 \<and> {j. j < i} \<subseteq> trie_ids trie_100 \<and>
        trie_ids t' = insert i (trie_ids trie_100))"
  using trie_alloc_least_free [OF trie_100_inv(1)] trie_100_inv(1) by (rule conjI [rotated])

text \<open>
  C27. Freeing an allocated ID removes exactly that ID; the reserved ID 0, an ID past the capacity
  and an ID that is already free are left alone.  The invariant is kept in every case.
\<close>

theorem trie_free_removes:
  assumes "trie_inv t"
  shows "\<exists>t'. hwfq_flow_trie_free i t = Some t' \<and> trie_inv t' \<and> max_flows t' = max_flows t \<and>
    trie_ids t' = (if i = 0 then trie_ids t else trie_ids t - {i}) \<and>
    (i = 0 \<or> i \<notin> trie_ids t \<longrightarrow> t' = t)"
proof (cases "i \<noteq> 0 \<and> i \<in> trie_ids t")
  case True
  then show ?thesis
    using hwfq_flow_trie_free_eq [OF assms, of i] trie_release_inv [OF assms, of i] by simp
next
  case False
  have "unat i div 64 < length (leaf t)" if "i < max_flows t"
    using trie_invD(2) [OF assms] last_word_index [of "unat (max_flows t)" _ "unat i"] that
    by (simp add: word_less_nat_alt)
  then have "hwfq_flow_trie_free i t = Some t"
    using False trie_bit_ops(3) [of i "leaf t"]
    by (auto simp: hwfq_flow_trie_free_def trie_ids_def not_le)
  then show ?thesis using assms False by auto
qed

text \<open>The same trie with the ID 1 handed out.\<close>

abbreviation trie_held :: flow_trie where
  "trie_held \<equiv> trie_100\<lparr>leaf := [3, 0xFFFFFFF000000000], allocated_count := 2\<rparr>"

lemma trie_held_run: "hwfq_flow_trie_alloc trie_100 = Some (Inr 1, trie_held)"
  by code_simp

lemma trie_held_inv: "trie_inv trie_held" "trie_ids trie_held = {0, 1}"
proof -
  have "trie_inv trie_held \<and> trie_ids trie_held = {0, 1}"
    by (cases rule: hwfq_flow_trie_alloc_cases [OF trie_100_inv(1), case_names full id])
      (use trie_held_run trie_100_inv(2) in auto)
  then show "trie_inv trie_held" "trie_ids trie_held = {0, 1}" by simp_all
qed

theorem trie_free_removes_witness:
  "\<exists>t'. hwfq_flow_trie_free 1 trie_held = Some t' \<and> trie_inv t' \<and> trie_ids t' = {0}"
  using trie_free_removes [OF trie_held_inv(1), of 1] by (auto simp: trie_held_inv(2))

text \<open>
  Initialisation for \<open>n\<close> flows, when memory is available: it establishes the invariant, with ID
  0 reserved and every other ID free, for every capacity up to \<open>2 ^ 32 - 64\<close>.
\<close>

theorem trie_init_invariant:
  assumes "0 < n" "unat n + 63 < 2 ^ 32"
  shows "\<exists>t'. hwfq_flow_trie_init True True True n t = Some (Inr (), t') \<and>
    trie_inv t' \<and> max_flows t' = n \<and> trie_ids t' = {0}"
  by (rule hwfq_flow_trie_init_ok [OF assms])

theorem trie_init_invariant_witness:
  "\<exists>t'. hwfq_flow_trie_init True True True 1000000 trie_100 = Some (Inr (), t') \<and>
    trie_inv t' \<and> max_flows t' = 1000000 \<and> trie_ids t' = {0}"
  by (rule trie_init_invariant) simp_all

text \<open>
  C28. Round trip: freeing the ID that an allocation has just handed out restores the whole trie,
  every level and the counter included.
\<close>

theorem trie_alloc_free_roundtrip:
  assumes "trie_inv t" "hwfq_flow_trie_alloc t = Some (Inr i, t')"
  shows "hwfq_flow_trie_free i t' = Some t"
proof (cases rule: hwfq_flow_trie_alloc_cases [OF assms(1), case_names full id])
  case full
  then show ?thesis using assms(2) by simp
next
  case (id j s)
  then have j: "j = i" "s = t'" using assms(2) by auto
  have i: "i \<noteq> 0" "i \<in> trie_ids t'" using id trie_inv_0 [OF assms(1)] j by auto
  define u where "u = (release (unat i) t')\<lparr>allocated_count := allocated_count t' - 1\<rparr>"
  have free: "hwfq_flow_trie_free i t' = Some u"
    unfolding u_def by (rule hwfq_flow_trie_free_eq) (use id(2) i j in auto)
  have inv: "trie_inv u" unfolding u_def by (rule trie_release_inv) (use id(2) i j in auto)
  have "\<not> abit (leaf t) (unat i)" using id(3,4) j by (simp add: trie_ids_def)
  moreover have "abit (leaf t') (unat i)" using i(2) by (simp add: trie_ids_def)
  then have "unat i div 64 < length (leaf t)" using id(9) j by (simp add: abit_def)
  ultimately have "leaf u = leaf t"
    using id(9) j by (intro abit_eqI) (auto simp: u_def)
  then have "level0 u = level0 t" "level1 u = level1 t" "level2 u = level2 t"
    using trie_levels_unique [of u t] trie_invD(3) inv assms(1) by blast+
  moreover have "max_flows u = max_flows t" "allocated_count u = allocated_count t"
    "level1_size u = level1_size t" "level0_size u = level0_size t" "leaf_size u = leaf_size t"
    "alloc_hint u = alloc_hint t"
    using id(9) j by (simp_all add: u_def claim_release_fields)
  ultimately have "u = t" using \<open>leaf u = leaf t\<close> by (intro flow_trie.equality) simp_all
  then show ?thesis using free by simp
qed

theorem trie_alloc_free_roundtrip_witness:
  "hwfq_flow_trie_free 1 trie_held = Some trie_100"
  by (rule trie_alloc_free_roundtrip [OF trie_100_inv(1) trie_held_run])

text \<open>
  The counters are right: the allocated count is the number of allocated IDs (with ID 0), and
  the free count the number of IDs below the capacity that are not allocated.
\<close>

theorem trie_counts:
  assumes "trie_inv t"
  shows "unat (hwfq_flow_trie_allocated_count t) = card (trie_ids t) \<and>
    unat (hwfq_flow_trie_free_count t) =
      card {i. i < hwfq_flow_trie_capacity t \<and> hwfq_flow_trie_is_allocated t i = Some False}"
proof (rule conjI)
  note inv = trie_invD [OF assms]
  show 1: "unat (hwfq_flow_trie_allocated_count t) = card (trie_ids t)"
    by (simp add: hwfq_flow_trie_allocated_count_def inv(7))
  have sub: "trie_ids t \<subseteq> {i. i < max_flows t}" by (auto simp: trie_ids_def)
  have le: "unat (allocated_count t) \<le> unat (max_flows t)"
    using card_mono [OF _ sub] inv(7) by (simp add: card_u32_below)
  have "hwfq_flow_trie_is_allocated t i = Some (i \<in> trie_ids t)" if "i < max_flows t" for i
  proof -
    have "unat i div 64 < length (leaf t)"
      using that inv(2) last_word_index [of "unat (max_flows t)" _ "unat i"]
      by (simp add: word_less_nat_alt)
    moreover have "\<not> max_flows t \<le> i" using that by simp
    ultimately show ?thesis
      using that trie_bit_ops(3) [of i "leaf t"]
      by (simp add: hwfq_flow_trie_is_allocated_def trie_ids_def)
  qed
  then have "{i. i < hwfq_flow_trie_capacity t \<and> hwfq_flow_trie_is_allocated t i = Some False} =
      {i. i < max_flows t} - trie_ids t"
    by (auto simp: hwfq_flow_trie_capacity_def)
  then have "card {i. i < hwfq_flow_trie_capacity t \<and> hwfq_flow_trie_is_allocated t i = Some False} =
      unat (max_flows t) - unat (allocated_count t)"
    by (simp add: card_Diff_subset [OF _ sub] card_u32_below inv(7))
  then show "unat (hwfq_flow_trie_free_count t) =
      card {i. i < hwfq_flow_trie_capacity t \<and> hwfq_flow_trie_is_allocated t i = Some False}"
    using le by (simp add: hwfq_flow_trie_free_count_def unat_sub word_le_nat_alt)
qed

theorem trie_counts_witness:
  "unat (hwfq_flow_trie_allocated_count trie_100) = card (trie_ids trie_100) \<and>
   unat (hwfq_flow_trie_free_count trie_100) =
     card {i. i < hwfq_flow_trie_capacity trie_100 \<and>
       hwfq_flow_trie_is_allocated trie_100 i = Some False}"
  by (rule trie_counts [OF trie_100_inv(1)])

text \<open>
  C29. No ID is ever handed out while a client still holds it: whatever requests a client makes,
  starting from a fresh trie for at most \<open>2 ^ 32 - 64\<close> flows, every request is served without undefined behaviour, and the IDs the
  client holds are distinct, different from the reserved ID 0 and below the capacity.
\<close>

theorem trie_client_ids_distinct:
  assumes "0 < n" "unat n + 63 < 2 ^ 32"
    and "hwfq_flow_trie_init True True True n t0 = Some (Inr (), t)"
  shows "\<exists>held t'. client_run (\<lambda>_ :: unit. hwfq_flow_trie_alloc) hwfq_flow_trie_free rs ([], t) =
      Some (held, t') \<and> distinct held \<and> set held = trie_ids t' - {0} \<and>
      (\<forall>i \<in> set held. 0 < i \<and> i < n)"
proof -
  have "trie_inv t" "max_flows t = n" "trie_ids t = {0}"
    using hwfq_flow_trie_init_ok [OF assms(1,2), of t0] assms(3) by auto
  then show ?thesis using trie.client_run_ok [of t "[]" rs] by fastforce
qed

theorem trie_client_ids_distinct_witness:
  "\<exists>held t'. client_run (\<lambda>_ :: unit. hwfq_flow_trie_alloc) hwfq_flow_trie_free
      [Alloc (), Alloc (), Free 1, Alloc ()] ([], trie_100) = Some (held, t') \<and>
      distinct held \<and> set held = trie_ids t' - {0} \<and> (\<forall>i \<in> set held. 0 < i \<and> i < 100)"
  by (rule trie_client_ids_distinct [OF _ _ trie_100_init]) simp_all

text \<open>
  The capacity that can be used ends at \<open>2 ^ 24\<close>: no allocation ever returns a larger ID,
  although the README promises up to 64M of them and larger capacities are accepted.
\<close>

theorem trie_ids_below_16M:
  assumes "trie_inv t" "hwfq_flow_trie_alloc t = Some (Inr i, t')"
  shows "i < 16777216"
  using assms(2) by (cases rule: hwfq_flow_trie_alloc_cases [OF assms(1)]) auto

theorem trie_ids_below_16M_witness: "(1::u32) < 16777216"
  by (rule trie_ids_below_16M [OF trie_100_inv(1),
      where t' = "trie_100\<lparr>leaf := [3, 0xFFFFFFF000000000], allocated_count := 2\<rparr>"]) code_simp

text \<open>
  C30. The size computation wraps for the 63 largest capacities: the leaf level then has no word and
  the initialisation writes outside it, undefined behaviour instead of an error code.
\<close>

theorem trie_init_size_overflow:
  assumes "2 ^ 32 \<le> unat n + 63"
  shows "hwfq_flow_trie_init True True True n t = None"
proof -
  have "unat (n + 63) = unat n + 63 - 2 ^ 32"
    using assms unat_u32_bound [of n] by (simp add: unat_word_ariths mod_if)
  then have "unat (n + 63) < 64" using unat_u32_bound [of n] by simp
  then have "unat (bits_to_words n) = 0" by (simp add: bits_to_words_def unat_div)
  then have z: "bits_to_words n = 0" by (simp add: unat_eq_0)
  have "unat n mod 64 \<noteq> 0"
  proof
    assume "unat n mod 64 = 0"
    then obtain k where "unat n = 64 * k" by auto
    then show False using assms unat_u32_bound [of n] by simp
  qed
  then have u: "n mod 64 \<noteq> 0" "n mod 64 < 64" using tail_bits [of n] by auto
  then have "n \<noteq> 0" by auto
  then show ?thesis
    using u by (simp add: hwfq_flow_trie_init_def calculate_level_sizes_def z Let_def
        update_last_def shl1_def)
qed

theorem trie_init_size_overflow_witness:
  "hwfq_flow_trie_init True True True UINT32_MAX trie_100 = None"
  by (rule trie_init_size_overflow) (simp add: unat_max_word)

text \<open>
  After destruction every operation is harmless: allocation reports a full trie, freeing does
  nothing and no ID counts as allocated, whatever the trie was before.
\<close>

theorem trie_destroyed_is_inert:
  "hwfq_flow_trie_alloc (hwfq_flow_trie_destroy t) =
     Some (Inl HWFQ_ERR_NO_MEMORY, hwfq_flow_trie_destroy t) \<and>
   hwfq_flow_trie_free i (hwfq_flow_trie_destroy t) = Some (hwfq_flow_trie_destroy t) \<and>
   hwfq_flow_trie_is_allocated (hwfq_flow_trie_destroy t) i = Some False"
  by (simp_all add: hwfq_flow_trie_destroy_def hwfq_flow_trie_alloc_def hwfq_flow_trie_free_def
      hwfq_flow_trie_is_allocated_def)

end
