(* ===== verification/HWFQ_Types.thy ===== *)
theory HWFQ_Types
  imports HWFQ_Prelude
begin

text \<open>
  The data of \<^verbatim>\<open>include/hwfq.h\<close> and of the entry storage.

  \<^item> \<open>hwfq_allocation\<close> is the tagged union \<open>hwfq_allocation_t\<close>; an enum value that is neither of the
    two tags is \<open>Invalid_Allocation\<close> with the 64 bits of the union.
  \<^item> The two statistics structures \<open>hwfq_tenant_stats_t\<close> and \<open>hwfq_flow_stats_t\<close> have the same
    fields and share a record, as do the two rate-tracking structures.
  \<^item> A \<open>double\<close> is kept as the expression that computes it, on its integer operands: no claim of the
    development depends on how floating point rounds.
\<close>

datatype hwfq_allocation =
    Weight u32
  | Rate u64
  | Invalid_Allocation u64

text \<open>Reading the union as a weight (its low half, as on the little-endian targets).\<close>

fun allocation_weight :: "hwfq_allocation \<Rightarrow> u32" where
  "allocation_weight (Weight w) = w"
| "allocation_weight (Rate r) = ucast r"
| "allocation_weight (Invalid_Allocation b) = ucast b"

datatype double_expr =
    Double_zero
  | Double_rate u64 u64 \<comment> \<open>\<open>(double)units * 1000000000.0 / (double)elapsed\<close>\<close>
  | Double_percent u64 u64 \<comment> \<open>\<open>(double)part / (double)whole * 100.0\<close>\<close>

record hwfq_stats =
  work_units_processed :: u64
  operations_completed :: u64
  total_wait_time_ns :: u64
  total_service_time_ns :: u64
  current_backlog :: u32
  effective_rate :: double_expr

record rate_tracking =
  window_start_ns :: u64
  window_work_units :: u64

definition zero_stats :: hwfq_stats where
  "zero_stats = \<lparr>work_units_processed = 0, operations_completed = 0, total_wait_time_ns = 0,
     total_service_time_ns = 0, current_backlog = 0, effective_rate = Double_zero\<rparr>"

definition zero_tracking :: rate_tracking where
  "zero_tracking = \<lparr>window_start_ns = 0, window_work_units = 0\<rparr>"

text \<open>
  \<open>entry_config_t\<close>.  Entries never move once their chunk is allocated, so the pointer to an entry
  is the ID that selects its chunk and slot.
\<close>

record entry_config =
  entry_id :: u32
  configured :: bool
  allocation :: hwfq_allocation
  calculated_rate :: u64
  last_finish_time :: u64
  next_configured :: "u32 option"
  stats :: hwfq_stats
  tracking :: rate_tracking

definition zero_entry :: entry_config where
  "zero_entry = \<lparr>entry_id = 0, configured = False, allocation = Weight 0, calculated_rate = 0,
     last_finish_time = 0, next_configured = None, stats = zero_stats, tracking = zero_tracking\<rparr>"

end
