(* ===== verification/Chunked_Entries.thy ===== *)
theory Chunked_Entries
  imports HWFQ_Types Id_Allocator
begin

text \<open>
  \<^verbatim>\<open>src/hwfq_chunked_entries.c\<close> and the inline functions of its header: entry storage in chunks of
  1024 slots that grow on demand, with a free list threaded through the \<open>entry_id\<close> fields of the
  free entries.

  \<open>chunks\<close> is the pointer array: \<open>[]\<close> while it is NULL, \<open>None\<close> for a chunk not yet allocated.
  The two answers of the memory allocator (for the pointer array and for a chunk) are an argument.
  \<open>ce_inv\<close> is the invariant, \<open>live_ids\<close> the abstract set of entries in use.
\<close>

record chunked_entries =
  chunks :: "entry_config list option list"
  num_chunks :: u32
  num_allocated :: u32
  num_configured :: u32
  free_head :: u32
  max_entries :: u32

abbreviation HWFQ_CHUNK_SIZE :: u32 where "HWFQ_CHUNK_SIZE \<equiv> 1024"
abbreviation HWFQ_CHUNK_MASK :: u32 where "HWFQ_CHUNK_MASK \<equiv> 1023"
abbreviation HWFQ_MAX_CHUNKS :: u32 where "HWFQ_MAX_CHUNKS \<equiv> 0x100000"
abbreviation HWFQ_ENTRY_NONE :: u32 where "HWFQ_ENTRY_NONE \<equiv> UINT32_MAX"

section \<open>Operations\<close>

definition hwfq_chunked_decode :: "u32 \<Rightarrow> u32 \<times> u32" where
  "hwfq_chunked_decode i = (drop_bit 10 i, i AND HWFQ_CHUNK_MASK)"

definition hwfq_chunked_encode :: "u32 \<Rightarrow> u32 \<Rightarrow> u32" where
  "hwfq_chunked_encode chunk slot = push_bit 10 chunk OR slot"

text \<open>Reading and writing \<open>ce->chunks[chunk][slot]\<close> for the chunk and slot of an ID.\<close>

definition entry_load :: "chunked_entries \<Rightarrow> u32 \<Rightarrow> entry_config option" where
  "entry_load ce p =
     (let (chunk, slot) = hwfq_chunked_decode p in do {
        c \<leftarrow> arr_get (chunks ce) (unat chunk);
        es \<leftarrow> c;
        arr_get es (unat slot)
      })"

definition entry_store :: "u32 \<Rightarrow> entry_config \<Rightarrow> chunked_entries \<Rightarrow> chunked_entries option" where
  "entry_store p e ce =
     (let (chunk, slot) = hwfq_chunked_decode p in do {
        c \<leftarrow> arr_get (chunks ce) (unat chunk);
        es \<leftarrow> c;
        es' \<leftarrow> arr_set es (unat slot) e;
        cs \<leftarrow> arr_set (chunks ce) (unat chunk) (Some es');
        Some (ce\<lparr>chunks := cs\<rparr>)
      })"

text \<open>The result \<open>Some None\<close> is the NULL pointer.\<close>

definition hwfq_chunked_get :: "chunked_entries \<Rightarrow> u32 \<Rightarrow> u32 option option" where
  "hwfq_chunked_get ce i =
     (let (chunk, slot) = hwfq_chunked_decode i in
      if num_chunks ce \<le> chunk then Some None
      else do {
        c \<leftarrow> arr_get (chunks ce) (unat chunk);
        Some (case c of None \<Rightarrow> None | Some es \<Rightarrow> Some i)
      })"

definition hwfq_chunked_entries_init :: "u32 \<Rightarrow> chunked_entries" where
  "hwfq_chunked_entries_init n =
     \<lparr>chunks = [], num_chunks = 0, num_allocated = 0, num_configured = 0,
      free_head = HWFQ_ENTRY_NONE, max_entries = n\<rparr>"

definition hwfq_chunked_entries_destroy :: "chunked_entries \<Rightarrow> chunked_entries" where
  "hwfq_chunked_entries_destroy ce =
     \<lparr>chunks = [], num_chunks = 0, num_allocated = 0, num_configured = 0,
      free_head = HWFQ_ENTRY_NONE, max_entries = 0\<rparr>"

text \<open>\<open>while (alloc_chunks < new_num_chunks) alloc_chunks *= 2;\<close>\<close>

partial_function (option) double_until :: "u32 \<Rightarrow> u32 \<Rightarrow> u32 option" where
  "double_until alloc_chunks new_num_chunks =
     (if alloc_chunks < new_num_chunks then double_until (alloc_chunks * 2) new_num_chunks
      else Some alloc_chunks)"

definition allocate_chunk ::
  "bool \<times> bool \<Rightarrow> u32 \<Rightarrow> chunked_entries \<Rightarrow> ((hwfq_error + unit) \<times> chunked_entries) option" where
  "allocate_chunk mem chunk_index ce =
     (let (array_ok, chunk_ok) = mem in
      if HWFQ_MAX_CHUNKS \<le> chunk_index then Some (Inl HWFQ_ERR_NO_MEMORY, ce)
      else do {
        (grown, ce) \<leftarrow>
          (if num_chunks ce \<le> chunk_index then do {
             let new_num_chunks = chunk_index + 1;
             alloc_chunks \<leftarrow> double_until 1 new_num_chunks;
             let alloc_chunks = (if HWFQ_MAX_CHUNKS < alloc_chunks then HWFQ_MAX_CHUNKS else alloc_chunks);
             if \<not> array_ok then Some (False, ce)
             else if length (chunks ce) < unat (num_chunks ce) then None
             else
               let kept = take (unat (num_chunks ce)) (chunks ce);
                   fresh = replicate (unat alloc_chunks - unat (num_chunks ce)) None
               in Some (True, ce\<lparr>chunks := kept @ fresh, num_chunks := alloc_chunks\<rparr>)
           } else Some (True, ce));
        if \<not> grown then Some (Inl HWFQ_ERR_NO_MEMORY, ce)
        else do {
          c \<leftarrow> arr_get (chunks ce) (unat chunk_index);
          case c of
            Some es \<Rightarrow> Some (Inr (), ce)
          | None \<Rightarrow>
              if \<not> chunk_ok then Some (Inl HWFQ_ERR_NO_MEMORY, ce)
              else do {
                cs \<leftarrow> arr_set (chunks ce) (unat chunk_index)
                  (Some (replicate (unat HWFQ_CHUNK_SIZE) zero_entry));
                Some (Inr (), ce\<lparr>chunks := cs\<rparr>)
              }
        }
      })"

definition max_ids :: "chunked_entries \<Rightarrow> u32" where
  "max_ids ce = (if 0 < max_entries ce then max_entries ce else HWFQ_MAX_CHUNKS * HWFQ_CHUNK_SIZE)"

text \<open>Taking the head of the free list, if there is one.\<close>

definition alloc_from_free_list ::
  "chunked_entries \<Rightarrow> (u32 option \<times> chunked_entries) option" where
  "alloc_from_free_list ce =
     (if free_head ce \<noteq> HWFQ_ENTRY_NONE then do {
        let i = free_head ce;
        entry \<leftarrow> hwfq_chunked_get ce i;
        case entry of
          Some p \<Rightarrow> do {
            e \<leftarrow> entry_load ce p;
            ce' \<leftarrow> entry_store p (e\<lparr>entry_id := i, configured := False\<rparr>) ce;
            Some (Some i, ce'\<lparr>free_head := entry_id e, num_configured := num_configured ce + 1\<rparr>)
          }
        | None \<Rightarrow> Some (None, ce\<lparr>free_head := HWFQ_ENTRY_NONE\<rparr>)
      } else Some (None, ce))"

definition hwfq_chunked_entries_alloc ::
  "bool \<times> bool \<Rightarrow> chunked_entries \<Rightarrow> ((hwfq_error + u32) \<times> chunked_entries) option" where
  "hwfq_chunked_entries_alloc mem ce =
     (if max_ids ce \<le> num_configured ce then Some (Inl HWFQ_ERR_NO_MEMORY, ce)
      else do {
        (reused, ce) \<leftarrow> alloc_from_free_list ce;
        case reused of
          Some i \<Rightarrow> Some (Inr i, ce)
        | None \<Rightarrow> do {
            let (chunk_index, slot) = hwfq_chunked_decode (num_allocated ce);
            (ret, ce) \<leftarrow> allocate_chunk mem chunk_index ce;
            case ret of
              Inl err \<Rightarrow> Some (Inl err, ce)
            | Inr _ \<Rightarrow> do {
                let i = hwfq_chunked_encode chunk_index slot;
                ce' \<leftarrow> entry_store i (zero_entry\<lparr>entry_id := i, configured := False\<rparr>) ce;
                Some (Inr i, ce'\<lparr>num_allocated := num_allocated ce + 1,
                                 num_configured := num_configured ce + 1\<rparr>)
              }
          }
      })"

definition hwfq_chunked_entries_free :: "u32 \<Rightarrow> chunked_entries \<Rightarrow> chunked_entries option" where
  "hwfq_chunked_entries_free i ce = do {
     entry \<leftarrow> hwfq_chunked_get ce i;
     case entry of
       None \<Rightarrow> Some ce
     | Some p \<Rightarrow> do {
         e \<leftarrow> entry_load ce p;
         ce' \<leftarrow> entry_store p (e\<lparr>configured := False, entry_id := free_head ce\<rparr>) ce;
         let ce' = ce'\<lparr>free_head := i\<rparr>;
         Some (if 0 < num_configured ce' then ce'\<lparr>num_configured := num_configured ce' - 1\<rparr> else ce')
       }
   }"

definition hwfq_chunked_entries_count :: "chunked_entries \<Rightarrow> u32" where
  "hwfq_chunked_entries_count ce = num_configured ce"

definition hwfq_chunked_entries_has_capacity :: "chunked_entries \<Rightarrow> bool" where
  "hwfq_chunked_entries_has_capacity ce \<longleftrightarrow>
     (if free_head ce \<noteq> HWFQ_ENTRY_NONE then True else num_allocated ce < max_ids ce)"

section \<open>IDs, chunks and slots\<close>

lemma decode_nat:
  "hwfq_chunked_decode i = (c, s) \<Longrightarrow> unat c = unat i div 1024 \<and> unat s = unat i mod 1024"
proof -
  assume d: "hwfq_chunked_decode i = (c, s)"
  have "(1023 :: u32) = mask 10" by (simp add: mask_eq_exp_minus_1)
  then have "unat s = unat (take_bit 10 i)" using d by (simp add: hwfq_chunked_decode_def take_bit_eq_mask)
  then show ?thesis
    using d by (auto simp: hwfq_chunked_decode_def unat_drop_bit_eq drop_bit_eq_div
        unsigned_take_bit_eq take_bit_eq_mod unat_div unat_mod)
qed

lemma encode_decode: "(case hwfq_chunked_decode i of (c, s) \<Rightarrow> hwfq_chunked_encode c s) = i"
proof -
  have "(1023 :: u32) = mask 10" by (simp add: mask_eq_exp_minus_1)
  then have "hwfq_chunked_decode i = (drop_bit 10 i, take_bit 10 i)"
    by (simp add: hwfq_chunked_decode_def take_bit_eq_mask)
  moreover have "push_bit 10 (drop_bit 10 i) OR take_bit 10 i = i"
    by (rule bit_word_eqI) (auto simp: bit_simps)
  ultimately show ?thesis by (simp add: hwfq_chunked_encode_def)
qed

lemma decode_inj: "hwfq_chunked_decode i = hwfq_chunked_decode j \<longleftrightarrow> i = j"
  by (metis encode_decode)

text \<open>The entry at a natural-number index, and the two accesses through it.\<close>

definition slot_of :: "chunked_entries \<Rightarrow> nat \<Rightarrow> entry_config option" where
  "slot_of ce k = do { c \<leftarrow> arr_get (chunks ce) (k div 1024); es \<leftarrow> c; arr_get es (k mod 1024) }"

lemma entry_load_slot: "entry_load ce i = slot_of ce (unat i)"
  using decode_nat [of i] by (simp add: entry_load_def slot_of_def split: prod.split)

definition put_slot :: "nat \<Rightarrow> entry_config \<Rightarrow> chunked_entries \<Rightarrow> chunked_entries" where
  "put_slot k e ce =
     ce\<lparr>chunks := (chunks ce)[k div 1024 := map_option (\<lambda>es. es[k mod 1024 := e]) (chunks ce ! (k div 1024))]\<rparr>"

lemma entry_store_put:
  "entry_load ce i = Some e0 \<Longrightarrow> entry_store i e ce = Some (put_slot (unat i) e ce)"
  using decode_nat [of i]
  by (auto simp: entry_load_def entry_store_def put_slot_def bind_Some_iff arr_get_Some_iff
      split: prod.splits)

lemma slot_of_put:
  assumes "slot_of ce k \<noteq> None"
  shows "slot_of (put_slot k e ce) j = (if j = k then Some e else slot_of ce j)"
proof -
  obtain es where es: "k div 1024 < length (chunks ce)" "chunks ce ! (k div 1024) = Some es"
      "k mod 1024 < length es"
    using assms by (auto simp: slot_of_def bind_Some_iff arr_get_Some_iff split: bind_splits)
  have "j = k \<longleftrightarrow> j div 1024 = k div 1024 \<and> j mod 1024 = k mod 1024"
    by (metis div_mult_mod_eq)
  then show ?thesis
    using es by (auto simp: slot_of_def put_slot_def arr_get_def nth_list_update)
qed

lemma put_slot_fields [simp]:
  "num_chunks (put_slot k e ce) = num_chunks ce" "num_allocated (put_slot k e ce) = num_allocated ce"
  "num_configured (put_slot k e ce) = num_configured ce" "free_head (put_slot k e ce) = free_head ce"
  "max_entries (put_slot k e ce) = max_entries ce" "length (chunks (put_slot k e ce)) = length (chunks ce)"
  "max_ids (put_slot k e ce) = max_ids ce"
  by (simp_all add: put_slot_def max_ids_def)

lemma slot_of_fields [simp]:
  "slot_of (ce\<lparr>free_head := h\<rparr>) = slot_of ce" "slot_of (ce\<lparr>num_configured := n\<rparr>) = slot_of ce"
  "slot_of (ce\<lparr>num_allocated := n\<rparr>) = slot_of ce"
  by (simp_all add: slot_of_def fun_eq_iff)

section \<open>The invariant\<close>

text \<open>The free list from \<open>h\<close>: the IDs reached through the \<open>entry_id\<close> fields.\<close>

fun free_chain :: "chunked_entries \<Rightarrow> u32 \<Rightarrow> u32 list \<Rightarrow> bool" where
  "free_chain ce h [] \<longleftrightarrow> h = HWFQ_ENTRY_NONE"
| "free_chain ce h (i # is) \<longleftrightarrow>
     h = i \<and> i \<noteq> HWFQ_ENTRY_NONE \<and>
     (case slot_of ce (unat i) of None \<Rightarrow> False | Some e \<Rightarrow> free_chain ce (entry_id e) is)"

definition free_ids :: "chunked_entries \<Rightarrow> u32 set" where
  "free_ids ce = {i. \<exists>fl. free_chain ce (free_head ce) fl \<and> i \<in> set fl}"

definition live_ids :: "chunked_entries \<Rightarrow> u32 set" where
  "live_ids ce = {i. i < num_allocated ce} - free_ids ce"

text \<open>The pointer array has its recorded length, at most \<open>2 ^ 20\<close>, and chunks have 1024 slots.\<close>

definition ce_shape :: "chunked_entries \<Rightarrow> bool" where
  "ce_shape ce \<longleftrightarrow>
     length (chunks ce) = unat (num_chunks ce) \<and> num_chunks ce \<le> HWFQ_MAX_CHUNKS \<and>
     (\<forall>es. Some es \<in> set (chunks ce) \<longrightarrow> length es = 1024)"

definition ce_inv :: "chunked_entries \<Rightarrow> bool" where
  "ce_inv ce \<longleftrightarrow>
     ce_shape ce \<and>
     num_allocated ce \<le> max_ids ce \<and> num_allocated ce \<le> 2 ^ 30 \<and>
     (\<forall>k < unat (num_allocated ce). slot_of ce k \<noteq> None) \<and>
     (\<forall>i e. slot_of ce (unat i) = Some e \<longrightarrow> configured e \<longrightarrow> i \<in> live_ids ce) \<and>
     (\<exists>fl. free_chain ce (free_head ce) fl \<and> distinct fl \<and> set fl \<subseteq> {i. i < num_allocated ce} \<and>
       length fl + unat (num_configured ce) = unat (num_allocated ce))"

lemma free_chain_unique:
  "free_chain ce h xs \<Longrightarrow> free_chain ce h ys \<Longrightarrow> xs = ys"
proof (induction xs arbitrary: h ys)
  case Nil
  then show ?case by (cases ys) auto
next
  case (Cons i "is")
  then show ?case by (cases ys) (auto split: option.splits)
qed

lemma free_ids_chain: "free_chain ce (free_head ce) fl \<Longrightarrow> free_ids ce = set fl"
  unfolding free_ids_def using free_chain_unique [of ce "free_head ce" fl] by blast

lemma free_chain_cong:
  "(\<And>i. i \<in> set fl \<Longrightarrow> slot_of ce' (unat i) = slot_of ce (unat i)) \<Longrightarrow>
   free_chain ce' h fl = free_chain ce h fl"
  by (induction fl arbitrary: h) (auto split: option.splits)

lemma ce_invE:
  assumes "ce_inv ce"
  obtains fl where "free_chain ce (free_head ce) fl" "distinct fl"
    "set fl \<subseteq> {i. i < num_allocated ce}" "free_ids ce = set fl"
    "length fl + unat (num_configured ce) = unat (num_allocated ce)"
  using assms free_ids_chain by (auto simp: ce_inv_def)

lemma ce_invD:
  assumes "ce_inv ce"
  shows "ce_shape ce" "num_allocated ce \<le> max_ids ce" "num_allocated ce \<le> 2 ^ 30"
    "\<And>k. k < unat (num_allocated ce) \<Longrightarrow> slot_of ce k \<noteq> None"
    "\<And>i e. slot_of ce (unat i) = Some e \<Longrightarrow> configured e \<Longrightarrow> i \<in> live_ids ce"
  using assms by (auto simp: ce_inv_def)

lemma slot_of_bound:
  assumes "ce_shape ce" "slot_of ce k = Some e"
  shows "k div 1024 < unat (num_chunks ce)"
  using assms by (auto simp: ce_shape_def slot_of_def bind_Some_iff arr_get_Some_iff split: bind_splits)

lemma hwfq_chunked_get_eq:
  assumes "ce_shape ce"
  shows "hwfq_chunked_get ce i = Some (if slot_of ce (unat i) = None then None else Some i)"
proof -
  obtain c s where d: "hwfq_chunked_decode i = (c, s)" by fastforce
  note n = decode_nat [OF d]
  have "s < 1024" using n by (simp add: word_less_nat_alt)
  show ?thesis
  proof (cases "num_chunks ce \<le> c")
    case True
    then have "slot_of ce (unat i) = None"
      using slot_of_bound [OF assms] n by (fastforce simp: word_le_nat_alt)
    with True show ?thesis by (simp add: hwfq_chunked_get_def d)
  next
    case False
    then have "unat c < length (chunks ce)" using assms by (simp add: ce_shape_def word_le_nat_alt not_le)
    moreover have "length es = 1024" if "chunks ce ! unat c = Some es" for es
      using that assms calculation by (metis ce_shape_def nth_mem)
    ultimately show ?thesis
      using False n by (auto simp: hwfq_chunked_get_def d slot_of_def arr_get_def split: option.splits)
  qed
qed

lemma live_slot:
  assumes "ce_inv ce" "i \<in> live_ids ce"
  obtains e where "slot_of ce (unat i) = Some e"
  using assms ce_invD(4) [OF assms(1), of "unat i"] by (auto simp: live_ids_def word_less_nat_alt)

lemma ce_shape_put: "ce_shape ce \<Longrightarrow> ce_shape (put_slot k e ce)"
proof -
  assume a: "ce_shape ce"
  have len: "length es = 1024" if "j < length (chunks ce)" "chunks ce ! j = Some es" for j es
    using a that by (metis ce_shape_def nth_mem)
  have "length es = 1024" if es: "Some es \<in> set (chunks (put_slot k e ce))" for es
  proof -
    obtain j where "j < length (chunks ce)" "chunks (put_slot k e ce) ! j = Some es"
      using es by (auto simp: in_set_conv_nth)
    then show ?thesis using len [of j] by (cases "j = k div 1024") (auto simp: put_slot_def)
  qed
  then show ?thesis using a by (simp add: ce_shape_def)
qed

text \<open>
  Writing the entry of a live ID: what the owners of the storage do between allocations.  The free
  list and the set of live IDs stay.
\<close>

lemma ce_put_live:
  assumes inv: "ce_inv ce" and i: "i \<in> live_ids ce"
  shows "ce_inv (put_slot (unat i) e ce)" "live_ids (put_slot (unat i) e ce) = live_ids ce"
    "free_ids (put_slot (unat i) e ce) = free_ids ce"
proof -
  let ?ce = "put_slot (unat i) e ce"
  obtain e0 where e0: "slot_of ce (unat i) = Some e0" using live_slot [OF inv i] .
  obtain fl where fl: "free_chain ce (free_head ce) fl" "distinct fl"
      "set fl \<subseteq> {i. i < num_allocated ce}" "free_ids ce = set fl"
      "length fl + unat (num_configured ce) = unat (num_allocated ce)"
    using ce_invE [OF inv] .
  have slot: "slot_of ?ce k = (if k = unat i then Some e else slot_of ce k)" for k
    using slot_of_put e0 by simp
  have "i \<notin> set fl" using i fl(4) by (simp add: live_ids_def)
  then have "free_chain ?ce h fl = free_chain ce h fl" for h
    by (intro free_chain_cong) (use slot in auto)
  then have chain: "free_chain ?ce (free_head ce) fl" using fl(1) by blast
  then show fr: "free_ids ?ce = free_ids ce" using free_ids_chain [of ?ce fl] fl(4) by simp
  then show live: "live_ids ?ce = live_ids ce" by (simp add: live_ids_def)
  show "ce_inv ?ce"
    unfolding ce_inv_def live
  proof (intro conjI allI impI)
    show "\<exists>fl. free_chain ?ce (free_head ?ce) fl \<and> distinct fl \<and> set fl \<subseteq> {i. i < num_allocated ?ce} \<and>
        length fl + unat (num_configured ?ce) = unat (num_allocated ?ce)"
      using chain fl by auto
    show "j \<in> live_ids ce" if "slot_of ?ce (unat j) = Some e'" "configured e'" for j e'
      using that i ce_invD(5) [OF inv] by (auto simp: slot split: if_splits)
  qed (use ce_invD [OF inv] ce_shape_put slot in auto)
qed

section \<open>Growing the storage\<close>

text \<open>The doubling loop ends: \<open>2 ^ 20\<close> bounds the request, so 20 doublings are enough.\<close>

lemma double_until_ends:
  assumes "n \<le> 2 ^ 20" "k \<le> 20"
  shows "\<exists>r. double_until (2 ^ k) n = Some r \<and> n \<le> r"
  using assms(2)
proof (induction "20 - k" arbitrary: k)
  case 0
  then have "k = 20" by simp
  then have le: "\<not> (2 ^ k :: u32) < n" using assms(1) by (simp add: not_less)
  then have "double_until (2 ^ k) n = Some (2 ^ k)" using double_until.simps [of "2 ^ k" n] by simp
  then show ?case using le by (simp add: not_less)
next
  case (Suc d)
  show ?case
  proof (cases "(2 ^ k :: u32) < n")
    case True
    have "\<exists>r. double_until (2 ^ Suc k) n = Some r \<and> n \<le> r"
      by (rule Suc.hyps(1)) (use Suc.hyps(2) in auto)
    moreover have "double_until (2 ^ k) n = double_until (2 ^ Suc k) n"
      using True double_until.simps [of "2 ^ k" n] by (simp add: mult.commute)
    ultimately show ?thesis by simp
  next
    case False
    then have "double_until (2 ^ k) n = Some (2 ^ k)" using double_until.simps [of "2 ^ k" n] by simp
    then show ?thesis using False by (simp add: not_less)
  qed
qed

lemma slot_of_zero_chunk:
  assumes "k div 1024 = c" "c < length cs" "cs ! c = Some (replicate 1024 zero_entry)" "chunks ce = cs"
  shows "slot_of ce k = Some zero_entry"
  using assms by (simp add: slot_of_def)

text \<open>What making room in one chunk does: entries that existed stay, new ones are zero.\<close>

definition grows :: "chunked_entries \<Rightarrow> chunked_entries \<Rightarrow> bool" where
  "grows ce ce' \<longleftrightarrow>
     ce_shape ce' \<and>
     num_allocated ce' = num_allocated ce \<and> num_configured ce' = num_configured ce \<and>
     free_head ce' = free_head ce \<and> max_entries ce' = max_entries ce \<and>
     (\<forall>k. slot_of ce' k = slot_of ce k \<or> slot_of ce k = None \<and> slot_of ce' k = Some zero_entry)"

lemma growsD:
  assumes "grows ce ce'"
  shows "ce_shape ce'" "num_allocated ce' = num_allocated ce" "num_configured ce' = num_configured ce"
    "free_head ce' = free_head ce" "max_entries ce' = max_entries ce" "max_ids ce' = max_ids ce"
    "\<And>k. slot_of ce' k = slot_of ce k \<or> slot_of ce k = None \<and> slot_of ce' k = Some zero_entry"
  using assms by (auto simp: grows_def max_ids_def)

lemma grows_refl: "ce_shape ce \<Longrightarrow> grows ce ce"
  by (simp add: grows_def)

lemma grows_pointer_array:
  assumes "ce_shape ce" "num_chunks ce \<le> m" "m \<le> HWFQ_MAX_CHUNKS"
  shows "grows ce (ce\<lparr>chunks := take (unat (num_chunks ce)) (chunks ce) @
      replicate (unat m - unat (num_chunks ce)) None, num_chunks := m\<rparr>)"
proof -
  have "unat (num_chunks ce) \<le> unat m" using assms(2) by (simp add: word_le_nat_alt)
  then show ?thesis
    using assms by (auto simp: grows_def ce_shape_def slot_of_def arr_get_def nth_append)
qed

lemma grows_chunk:
  assumes "ce_shape ce" "c < length (chunks ce)" "chunks ce ! c = None"
  shows "grows ce (ce\<lparr>chunks := (chunks ce)[c := Some (replicate 1024 zero_entry)]\<rparr>)"
proof -
  have "length es = 1024"
    if es: "Some es \<in> set ((chunks ce)[c := Some (replicate 1024 zero_entry)])" for es
  proof -
    obtain j where j: "j < length (chunks ce)"
        "(chunks ce)[c := Some (replicate 1024 zero_entry)] ! j = Some es"
      using es by (auto simp: in_set_conv_nth)
    show ?thesis
    proof (cases "j = c")
      case True
      then show ?thesis using j assms(2) by auto
    next
      case False
      then show ?thesis using j assms(1) by (metis ce_shape_def nth_list_update_neq nth_mem)
    qed
  qed
  then show ?thesis
    using assms by (auto simp: grows_def ce_shape_def slot_of_def arr_get_def nth_list_update)
qed

lemma grows_trans: "grows a b \<Longrightarrow> grows b c \<Longrightarrow> grows a c"
  unfolding grows_def by metis

lemma allocate_chunk_result:
  assumes ce: "ce_shape ce"
  obtains (full) "HWFQ_MAX_CHUNKS \<le> c" "allocate_chunk mem c ce = Some (Inl HWFQ_ERR_NO_MEMORY, ce)"
    | (oom) ce' where "mem \<noteq> (True, True)"
      "allocate_chunk mem c ce = Some (Inl HWFQ_ERR_NO_MEMORY, ce')" "grows ce ce'"
    | (ok) ce' where "c < HWFQ_MAX_CHUNKS" "allocate_chunk mem c ce = Some (Inr (), ce')" "grows ce ce'"
      "unat c < length (chunks ce')" "chunks ce' ! unat c \<noteq> None"
proof (cases "HWFQ_MAX_CHUNKS \<le> c")
  case True
  then show ?thesis by (intro full) (simp_all add: allocate_chunk_def split: prod.split)
next
  case False
  obtain a b where mem: "mem = (a, b)" by fastforce
  have c: "unat c < 2 ^ 20" using False by (simp add: word_le_nat_alt not_le)
  have "c + 1 \<le> 2 ^ 20" using c by (simp add: word_le_nat_alt unat_add_no_wrap)
  then obtain r where r: "double_until 1 (c + 1) = Some r" "c + 1 \<le> r"
    using double_until_ends [of "c + 1" 0] by auto
  define m where "m = (if HWFQ_MAX_CHUNKS < r then HWFQ_MAX_CHUNKS else r)"
  have m: "unat c < unat m" "m \<le> HWFQ_MAX_CHUNKS"
    using r(2) c by (auto simp: m_def word_le_nat_alt word_less_nat_alt not_less unat_add_no_wrap)
  define ce1 where "ce1 = (if num_chunks ce \<le> c
    then ce\<lparr>chunks := take (unat (num_chunks ce)) (chunks ce) @
      replicate (unat m - unat (num_chunks ce)) None, num_chunks := m\<rparr> else ce)"
  have g1: "grows ce ce1" "unat c < length (chunks ce1)"
    using ce m grows_pointer_array [OF ce, of m] grows_refl [OF ce]
    by (auto simp: ce1_def ce_shape_def word_le_nat_alt not_le)
  show ?thesis
  proof (cases "a \<or> \<not> num_chunks ce \<le> c")
    case False
    then have "allocate_chunk mem c ce = Some (Inl HWFQ_ERR_NO_MEMORY, ce)"
      using \<open>\<not> HWFQ_MAX_CHUNKS \<le> c\<close> r(1) by (simp add: allocate_chunk_def mem)
    then show ?thesis using False oom [of ce] grows_refl [OF ce] mem by auto
  next
    case True
    have step: "allocate_chunk mem c ce = (case chunks ce1 ! unat c of
        Some es \<Rightarrow> Some (Inr (), ce1)
      | None \<Rightarrow> if \<not> b then Some (Inl HWFQ_ERR_NO_MEMORY, ce1)
          else Some (Inr (), ce1\<lparr>chunks := (chunks ce1)[unat c := Some (replicate 1024 zero_entry)]\<rparr>))"
      using \<open>\<not> HWFQ_MAX_CHUNKS \<le> c\<close> r(1) True g1(2) ce
      by (cases "num_chunks ce \<le> c")
        (auto simp: allocate_chunk_def mem ce1_def m_def ce_shape_def Let_def split: option.splits)
    show ?thesis
    proof (cases "chunks ce1 ! unat c")
      case None
      have g2: "grows ce (ce1\<lparr>chunks := (chunks ce1)[unat c := Some (replicate 1024 zero_entry)]\<rparr>)"
        using grows_trans [OF g1(1) grows_chunk [OF growsD(1) [OF g1(1)] g1(2) None]] .
      show ?thesis
      proof (cases b)
        case True
        then show ?thesis
          using step None g1(2) \<open>\<not> HWFQ_MAX_CHUNKS \<le> c\<close> by (intro ok [OF _ _ g2]) auto
      next
        case False
        then show ?thesis using step None g1 mem by (intro oom) auto
      qed
    next
      case (Some es)
      then show ?thesis using step g1 \<open>\<not> HWFQ_MAX_CHUNKS \<le> c\<close> by (intro ok) auto
    qed
  qed
qed

section \<open>Allocation and release\<close>

lemma grows_inv:
  assumes inv: "ce_inv ce" and g: "grows ce ce'"
  shows "ce_inv ce'" "live_ids ce' = live_ids ce" "free_ids ce' = free_ids ce"
proof -
  obtain fl where fl: "free_chain ce (free_head ce) fl" "distinct fl"
      "set fl \<subseteq> {i. i < num_allocated ce}" "free_ids ce = set fl"
      "length fl + unat (num_configured ce) = unat (num_allocated ce)"
    using ce_invE [OF inv] .
  have same: "slot_of ce' k = slot_of ce k" if "k < unat (num_allocated ce)" for k
    using that ce_invD(4) [OF inv that] growsD(7) [OF g, of k] by auto
  have "free_chain ce' (free_head ce) fl = free_chain ce (free_head ce) fl"
    by (rule free_chain_cong) (use fl(3) same in \<open>auto simp: word_less_nat_alt\<close>)
  then have chain: "free_chain ce' (free_head ce') fl" using fl(1) growsD(4) [OF g] by simp
  then show fr: "free_ids ce' = free_ids ce" using free_ids_chain [of ce' fl] fl(4) by simp
  then show live: "live_ids ce' = live_ids ce" by (simp add: live_ids_def growsD(2) [OF g])
  show "ce_inv ce'"
    unfolding ce_inv_def live
  proof (intro conjI allI impI)
    show "\<exists>fl. free_chain ce' (free_head ce') fl \<and> distinct fl \<and> set fl \<subseteq> {i. i < num_allocated ce'} \<and>
        length fl + unat (num_configured ce') = unat (num_allocated ce')"
      using chain fl growsD(2,3) [OF g] by auto
    show "j \<in> live_ids ce" if "slot_of ce' (unat j) = Some e'" "configured e'" for j e'
      using that ce_invD(5) [OF inv, of j e'] growsD(7) [OF g, of "unat j"] by (auto simp: zero_entry_def)
  qed (use ce_invD [OF inv] growsD [OF g] same in auto)
qed

text \<open>Taking the head of the free list.\<close>

lemma alloc_from_free_list_inv:
  assumes inv: "ce_inv ce"
  obtains (empty) "free_head ce = HWFQ_ENTRY_NONE" "free_ids ce = {}"
      "alloc_from_free_list ce = Some (None, ce)"
    | (reuse) e ce' where "free_head ce \<in> free_ids ce" "slot_of ce (unat (free_head ce)) = Some e"
      "ce' = (put_slot (unat (free_head ce)) (e\<lparr>entry_id := free_head ce, configured := False\<rparr>) ce)
         \<lparr>free_head := entry_id e, num_configured := num_configured ce + 1\<rparr>"
      "alloc_from_free_list ce = Some (Some (free_head ce), ce')"
proof -
  obtain fl where fl: "free_chain ce (free_head ce) fl" "free_ids ce = set fl"
    using ce_invE [OF inv] .
  show ?thesis
  proof (cases fl)
    case Nil
    then show ?thesis using fl empty by (simp add: alloc_from_free_list_def)
  next
    case (Cons i "is")
    then have i: "free_head ce = i" "i \<noteq> HWFQ_ENTRY_NONE" using fl by auto
    obtain e where e: "slot_of ce (unat i) = Some e" using fl Cons by (auto split: option.splits)
    show ?thesis
    proof (rule reuse [OF _ _ refl])
      show "free_head ce \<in> free_ids ce" using fl Cons i by simp
      show "slot_of ce (unat (free_head ce)) = Some e" using e i by simp
      show "alloc_from_free_list ce = Some (Some (free_head ce),
          (put_slot (unat (free_head ce)) (e\<lparr>entry_id := free_head ce, configured := False\<rparr>) ce)
            \<lparr>free_head := entry_id e, num_configured := num_configured ce + 1\<rparr>)"
        using i e ce_invD(1) [OF inv] entry_store_put [of ce i e]
        by (simp add: alloc_from_free_list_def hwfq_chunked_get_eq entry_load_slot)
    qed
  qed
qed

text \<open>Putting the entry at the head of the free list back into use keeps the invariant.\<close>

lemma reuse_inv:
  assumes inv: "ce_inv ce" and h: "free_head ce \<in> free_ids ce"
    and e: "slot_of ce (unat (free_head ce)) = Some e" and conf: "configured e' = False"
  defines "ce' \<equiv> (put_slot (unat (free_head ce)) e' ce)
      \<lparr>free_head := entry_id e, num_configured := num_configured ce + 1\<rparr>"
  shows "ce_inv ce'" "live_ids ce' = insert (free_head ce) (live_ids ce)"
    "free_head ce \<notin> live_ids ce"
proof -
  let ?h = "free_head ce"
  obtain fl where fl: "free_chain ce ?h fl" "distinct fl" "set fl \<subseteq> {i. i < num_allocated ce}"
      "free_ids ce = set fl" "length fl + unat (num_configured ce) = unat (num_allocated ce)"
    using ce_invE [OF inv] .
  obtain tl where tl: "fl = ?h # tl" "free_chain ce (entry_id e) tl" "?h \<notin> set tl"
    using fl h e by (cases fl) auto
  have slot: "slot_of ce' k = (if k = unat ?h then Some e' else slot_of ce k)" for k
    using slot_of_put [of ce "unat ?h"] e by (simp add: ce'_def)
  have fields: "num_allocated ce' = num_allocated ce" "free_head ce' = entry_id e"
      "max_ids ce' = max_ids ce" "num_configured ce' = num_configured ce + 1"
    by (simp_all add: ce'_def max_ids_def)
  have "free_chain ce' (entry_id e) tl = free_chain ce (entry_id e) tl"
    by (rule free_chain_cong) (use tl slot in auto)
  then have chain: "free_chain ce' (free_head ce') tl" using tl fields by simp
  then have fr: "free_ids ce' = set tl" using free_ids_chain by blast
  show live: "live_ids ce' = insert ?h (live_ids ce)"
    using fr fl tl by (auto simp: live_ids_def fields)
  show "?h \<notin> live_ids ce" using h by (simp add: live_ids_def)
  have "unat (num_configured ce') = unat (num_configured ce) + 1"
    using fl(5) tl(1) unat_u32_bound [of "num_allocated ce"] by (simp add: fields unat_add_no_wrap)
  then have ghost: "free_chain ce' (free_head ce') tl \<and> distinct tl \<and>
      set tl \<subseteq> {i. i < num_allocated ce'} \<and>
      length tl + unat (num_configured ce') = unat (num_allocated ce')"
    using chain fl tl by (auto simp: fields)
  show "ce_inv ce'"
    unfolding ce_inv_def live
  proof (intro conjI allI impI)
    show "\<exists>fl. free_chain ce' (free_head ce') fl \<and> distinct fl \<and> set fl \<subseteq> {i. i < num_allocated ce'} \<and>
        length fl + unat (num_configured ce') = unat (num_allocated ce')"
      using ghost by blast
    show "ce_shape ce'" using ce_shape_put [OF ce_invD(1) [OF inv]] by (simp add: ce'_def ce_shape_def)
    show "j \<in> insert ?h (live_ids ce)" if "slot_of ce' (unat j) = Some x" "configured x" for j x
      using that ce_invD(5) [OF inv] conf by (auto simp: slot split: if_splits)
  qed (use ce_invD [OF inv] slot in \<open>auto simp: fields\<close>)
qed

text \<open>Extending the used prefix by one entry, once its chunk exists.\<close>

lemma extend_inv:
  assumes inv: "ce_inv ce" and empty: "free_head ce = HWFQ_ENTRY_NONE"
    and room: "num_allocated ce < max_ids ce" "unat (num_allocated ce) < 2 ^ 30"
    and e0: "slot_of ce (unat (num_allocated ce)) = Some e0" and conf: "configured e = False"
  defines "ce' \<equiv> (put_slot (unat (num_allocated ce)) e ce)
      \<lparr>num_allocated := num_allocated ce + 1, num_configured := num_configured ce + 1\<rparr>"
  shows "ce_inv ce'" "live_ids ce' = insert (num_allocated ce) (live_ids ce)"
    "num_allocated ce \<notin> live_ids ce"
proof -
  let ?n = "num_allocated ce"
  have none: "fl = []" if "free_chain ce (free_head ce) fl" for fl using that empty by (cases fl) auto
  obtain fl where fl: "free_chain ce (free_head ce) fl" "free_ids ce = set fl"
      "length fl + unat (num_configured ce) = unat (num_allocated ce)"
    using ce_invE [OF inv] .
  have free0: "free_ids ce = {}" and cfg: "num_configured ce = ?n"
    using fl none [OF fl(1)] by auto
  have slot: "slot_of ce' k = (if k = unat ?n then Some e else slot_of ce k)" for k
    using slot_of_put [of ce "unat ?n"] e0 by (simp add: ce'_def)
  have fields: "num_allocated ce' = ?n + 1" "free_head ce' = HWFQ_ENTRY_NONE"
      "max_ids ce' = max_ids ce" "num_configured ce' = ?n + 1"
    by (simp_all add: ce'_def max_ids_def empty cfg)
  have n1: "unat (?n + 1) = unat ?n + 1" using room(2) by (simp add: unat_add_no_wrap)
  have fr: "free_ids ce' = {}" using free_ids_chain [of ce' "[]"] by (simp add: fields)
  have less: "i < ?n + 1 \<longleftrightarrow> i = ?n \<or> i < ?n" for i
    using n1 by (auto simp: word_less_nat_alt less_Suc_eq)
  show live: "live_ids ce' = insert ?n (live_ids ce)"
    using fr free0 less by (auto simp: live_ids_def fields)
  show "?n \<notin> live_ids ce" by (simp add: live_ids_def)
  show "ce_inv ce'"
    unfolding ce_inv_def live
  proof (intro conjI allI impI)
    show "\<exists>fl. free_chain ce' (free_head ce') fl \<and> distinct fl \<and> set fl \<subseteq> {i. i < num_allocated ce'} \<and>
        length fl + unat (num_configured ce') = unat (num_allocated ce')"
      by (intro exI [of _ "[]"]) (simp add: fields)
    show "ce_shape ce'" using ce_shape_put [OF ce_invD(1) [OF inv]] by (simp add: ce'_def ce_shape_def)
    show "j \<in> insert ?n (live_ids ce)" if "slot_of ce' (unat j) = Some x" "configured x" for j x
      using that ce_invD(5) [OF inv] conf by (auto simp: slot split: if_splits)
    show "slot_of ce' k \<noteq> None" if "k < unat (num_allocated ce')" for k
      using that ce_invD(4) [OF inv, of k] n1 by (auto simp: slot fields)
    show "num_allocated ce' \<le> max_ids ce'" using room n1 by (simp add: fields word_nat)
    show "num_allocated ce' \<le> 2 ^ 30" using room n1 by (simp add: fields word_nat)
  qed
qed

text \<open>What \<open>alloc\<close> does, on every branch.\<close>

lemma hwfq_chunked_entries_alloc_cases:
  assumes inv: "ce_inv ce"
  obtains (err) ce' where "hwfq_chunked_entries_alloc mem ce = Some (Inl HWFQ_ERR_NO_MEMORY, ce')"
      "grows ce ce'"
      "mem \<noteq> (True, True) \<or> unat (num_configured ce) = min (unat (max_ids ce)) (2 ^ 30)"
    | (ok) i e ce' where "hwfq_chunked_entries_alloc mem ce = Some (Inr i, ce')"
      "ce_inv ce'" "i \<notin> live_ids ce" "live_ids ce' = insert i (live_ids ce)"
      "slot_of ce' (unat i) = Some e" "entry_id e = i" "\<not> configured e"
      "\<And>j. j \<in> live_ids ce \<Longrightarrow> slot_of ce' (unat j) = slot_of ce (unat j)"
      "num_configured ce' = num_configured ce + 1" "max_entries ce' = max_entries ce"
      "unat (num_configured ce) < min (unat (max_ids ce)) (2 ^ 30)" "i < max_ids ce" "i < 2 ^ 30"
proof -
  obtain fl where fl: "free_chain ce (free_head ce) fl" "distinct fl"
      "set fl \<subseteq> {i. i < num_allocated ce}" "free_ids ce = set fl"
      "length fl + unat (num_configured ce) = unat (num_allocated ce)"
    using ce_invE [OF inv] .
  have bound: "num_configured ce \<le> max_ids ce" "unat (num_configured ce) \<le> 2 ^ 30"
    using fl(5) ce_invD(2,3) [OF inv] by (auto simp: word_nat)
  show ?thesis
  proof (cases "max_ids ce \<le> num_configured ce")
    case True
    then have "hwfq_chunked_entries_alloc mem ce = Some (Inl HWFQ_ERR_NO_MEMORY, ce)"
      by (simp add: hwfq_chunked_entries_alloc_def)
    then show ?thesis
      using err [of ce] True bound grows_refl [OF ce_invD(1) [OF inv]] by (auto simp: word_nat)
  next
    case False
    then have lt: "num_configured ce < max_ids ce" by simp
    from inv show ?thesis
    proof (cases rule: alloc_from_free_list_inv)
      case (reuse e ce')
      let ?e = "e\<lparr>entry_id := free_head ce, configured := False\<rparr>"
      have run: "hwfq_chunked_entries_alloc mem ce = Some (Inr (free_head ce), ce')"
        using False reuse(4) by (simp add: hwfq_chunked_entries_alloc_def)
      note r = reuse_inv [OF inv reuse(1,2), of ?e, simplified, folded reuse(3)]
      have h: "free_head ce < num_allocated ce" using reuse(1) fl by auto
      have slot: "slot_of ce' k = (if k = unat (free_head ce) then Some ?e else slot_of ce k)" for k
        using slot_of_put [of ce "unat (free_head ce)"] reuse(2,3) by simp
      have "0 < length fl" using reuse(1) fl(4) by auto
      moreover have "unat (num_allocated ce) \<le> 2 ^ 30" using ce_invD(3) [OF inv] by (simp add: word_nat)
      ultimately have "unat (num_configured ce) < 2 ^ 30" using fl(5) by linarith
      have keep: "slot_of ce' (unat j) = slot_of ce (unat j)" if "j \<in> live_ids ce" for j
        using that r(3) by (auto simp: slot)
      show ?thesis
        by (rule ok [OF run r(1,3,2), of ?e])
          (use \<open>unat (num_configured ce) < 2 ^ 30\<close> slot keep h lt ce_invD(2,3) [OF inv] in
            \<open>auto simp: reuse(3) word_nat\<close>)
    next
      case empty
      have cfg: "num_configured ce = num_allocated ce" using fl empty by (cases fl) auto
      obtain c s where d: "hwfq_chunked_decode (num_allocated ce) = (c, s)" by fastforce
      note n = decode_nat [OF d]
      have i: "hwfq_chunked_encode c s = num_allocated ce" using encode_decode [of "num_allocated ce"] d by simp
      from ce_invD(1) [OF inv] show ?thesis
      proof (cases rule: allocate_chunk_result [where c = c and mem = mem])
        case full
        have "hwfq_chunked_entries_alloc mem ce = Some (Inl HWFQ_ERR_NO_MEMORY, ce)"
          using False empty(3) d full(2) by (simp add: hwfq_chunked_entries_alloc_def)
        moreover have "unat (num_configured ce) = 2 ^ 30"
          using full(1) n bound(2) cfg by (simp add: word_nat)
        ultimately show ?thesis
          using err [of ce] lt grows_refl [OF ce_invD(1) [OF inv]] by (simp add: word_nat)
      next
        case (oom ce')
        have "hwfq_chunked_entries_alloc mem ce = Some (Inl HWFQ_ERR_NO_MEMORY, ce')"
          using False empty(3) d oom(2) by (simp add: hwfq_chunked_entries_alloc_def)
        then show ?thesis using err oom by blast
      next
        case (ok ce1)
        note g = growsD [OF ok(3)] and gi = grows_inv [OF inv ok(3)]
        let ?e = "zero_entry\<lparr>entry_id := num_allocated ce, configured := False\<rparr>"
        let ?ce = "(put_slot (unat (num_allocated ce)) ?e ce1)
          \<lparr>num_allocated := num_allocated ce + 1, num_configured := num_configured ce + 1\<rparr>"
        obtain es where es: "chunks ce1 ! unat c = Some es" using ok(5) by blast
        have "length es = 1024" using g(1) es ok(4) by (metis ce_shape_def nth_mem)
        then obtain e0 where e0: "slot_of ce1 (unat (num_allocated ce)) = Some e0"
          using es ok(4) n by (auto simp: slot_of_def)
        have run: "hwfq_chunked_entries_alloc mem ce = Some (Inr (num_allocated ce), ?ce)"
          using False empty(3) d ok(2) i e0 g(2,3) entry_store_put [of ce1 "num_allocated ce" e0]
          by (simp add: hwfq_chunked_entries_alloc_def entry_load_slot Let_def)
        have lt30: "unat (num_allocated ce) < 2 ^ 30"
          using ok(1) n by (simp add: word_nat)
        have "free_head ce1 = HWFQ_ENTRY_NONE" "num_allocated ce1 < max_ids ce1"
            "unat (num_allocated ce1) < 2 ^ 30" "slot_of ce1 (unat (num_allocated ce1)) = Some e0"
            "configured ?e = False"
          using empty(1) lt cfg lt30 e0 by (simp_all add: g)
        note x = extend_inv [OF gi(1) this]
        have slot: "slot_of (put_slot (unat (num_allocated ce)) ?e ce1) k =
            (if k = unat (num_allocated ce) then Some ?e else slot_of ce1 k)" for k
          using slot_of_put [of ce1] e0 by simp
        have keep: "slot_of ?ce (unat j) = slot_of ce (unat j)" if "j \<in> live_ids ce" for j
        proof -
          have "j < num_allocated ce" using that by (simp add: live_ids_def)
          then show ?thesis
            using ce_invD(4) [OF inv, of "unat j"] g(7) [of "unat j"] by (auto simp: slot word_less_nat_alt)
        qed
        show ?thesis
          by (rule that(2) [OF run])
            (use x g(2-5) gi(2) slot keep lt lt30 cfg in \<open>auto simp: word_nat\<close>)
      qed
    qed
  qed
qed

lemma card_word_less: "card {i. i < n} = unat n" for n :: "'a::len word"
proof -
  have "unat ` {i. i < n} = {..< unat n}"
  proof (intro equalityI subsetI)
    fix k assume "k \<in> {..< unat n}"
    then have "k < unat n" by simp
    moreover have "k < 2 ^ LENGTH('a)" using \<open>k < unat n\<close> unat_lt_2p [of n] by linarith
    then have "unat (word_of_nat k :: 'a word) = k" by (simp add: unsigned_of_nat take_bit_nat_eq_self)
    ultimately show "k \<in> unat ` {i. i < n}"
      by (intro image_eqI [of _ _ "word_of_nat k"]) (auto simp: word_less_nat_alt)
  qed (auto simp: word_less_nat_alt)
  moreover have "inj_on (unat :: 'a word \<Rightarrow> nat) {i. i < n}" by (rule inj_onI) simp
  ultimately show ?thesis by (metis card_image card_lessThan)
qed

text \<open>What \<open>free\<close> does to a live ID.\<close>

lemma hwfq_chunked_entries_free_live:
  assumes inv: "ce_inv ce" and i: "i \<in> live_ids ce"
  obtains e ce' where "hwfq_chunked_entries_free i ce = Some ce'" "slot_of ce (unat i) = Some e"
    "ce_inv ce'" "live_ids ce' = live_ids ce - {i}"
    "num_configured ce = num_configured ce' + 1" "max_entries ce' = max_entries ce"
    "\<And>k. slot_of ce' k = (if k = unat i then Some (e\<lparr>configured := False, entry_id := free_head ce\<rparr>)
       else slot_of ce k)"
proof -
  obtain e where e: "slot_of ce (unat i) = Some e" using live_slot [OF inv i] .
  obtain fl where fl: "free_chain ce (free_head ce) fl" "distinct fl"
      "set fl \<subseteq> {i. i < num_allocated ce}" "free_ids ce = set fl"
      "length fl + unat (num_configured ce) = unat (num_allocated ce)"
    using ce_invE [OF inv] .
  have i': "i < num_allocated ce" "i \<notin> set fl" using i fl(4) by (auto simp: live_ids_def)
  have "insert i (set fl) \<subseteq> {j. j < num_allocated ce}" using i' fl(3) by auto
  moreover have "finite {j. j < num_allocated ce}" by simp
  ultimately have "card (insert i (set fl)) \<le> card {j. j < num_allocated ce}" by (rule card_mono [rotated])
  moreover have "card {j. j < num_allocated ce} = unat (num_allocated ce)"
    by (rule card_word_less)
  ultimately have pos: "0 < unat (num_configured ce)"
    using i'(2) fl(5) distinct_card [OF fl(2)] by simp
  then have npos: "0 < num_configured ce" by (simp add: word_less_nat_alt)
  define e' where "e' = e\<lparr>configured := False, entry_id := free_head ce\<rparr>"
  define ce' where "ce' = (put_slot (unat i) e' ce)\<lparr>free_head := i, num_configured := num_configured ce - 1\<rparr>"
  have run: "hwfq_chunked_entries_free i ce = Some ce'"
    using e npos entry_store_put [of ce i e] ce_invD(1) [OF inv]
    by (simp add: hwfq_chunked_entries_free_def hwfq_chunked_get_eq entry_load_slot ce'_def e'_def Let_def)
  have slot: "slot_of ce' k = (if k = unat i then Some e' else slot_of ce k)" for k
    using slot_of_put [of ce "unat i" e'] e by (simp add: ce'_def)
  have fields: "num_allocated ce' = num_allocated ce" "free_head ce' = i" "max_ids ce' = max_ids ce"
      "num_configured ce' = num_configured ce - 1" "max_entries ce' = max_entries ce"
    by (simp_all add: ce'_def max_ids_def)
  have "i \<le> 2 ^ 30" using i'(1) ce_invD(3) [OF inv] by simp
  then have "i \<noteq> HWFQ_ENTRY_NONE" by (auto simp: word_le_nat_alt unat_max_word)
  moreover have "free_chain ce' (free_head ce) fl = free_chain ce (free_head ce) fl"
    by (rule free_chain_cong) (use i' slot in auto)
  ultimately have chain: "free_chain ce' (free_head ce') (i # fl)"
    using fl(1) slot by (simp add: fields e'_def)
  then have fr: "free_ids ce' = insert i (set fl)" using free_ids_chain [OF chain] by simp
  have live: "live_ids ce' = live_ids ce - {i}"
    using fr fl(4) by (auto simp: live_ids_def fields)
  have cfg: "unat (num_configured ce') = unat (num_configured ce) - 1"
    using pos by (simp add: fields unat_sub_le word_le_nat_alt)
  have inv': "ce_inv ce'"
    unfolding ce_inv_def live
  proof (intro conjI allI impI)
    show "\<exists>fl. free_chain ce' (free_head ce') fl \<and> distinct fl \<and> set fl \<subseteq> {i. i < num_allocated ce'} \<and>
        length fl + unat (num_configured ce') = unat (num_allocated ce')"
      by (rule exI [of _ "i # fl"]) (use chain fl i' cfg pos fields(1) in auto)
    show "ce_shape ce'" using ce_shape_put [OF ce_invD(1) [OF inv]] by (simp add: ce'_def ce_shape_def)
    show "j \<in> live_ids ce - {i}" if "slot_of ce' (unat j) = Some x" "configured x" for j x
      using that ce_invD(5) [OF inv] by (auto simp: slot e'_def split: if_splits)
  qed (use ce_invD [OF inv] slot in \<open>auto simp: fields\<close>)
  show ?thesis
    by (rule that [OF run e inv' live]) (simp_all add: fields slot e'_def)
qed

text \<open>The empty storage.\<close>

lemma ce_init_inv:
  "ce_inv (hwfq_chunked_entries_init n)" "live_ids (hwfq_chunked_entries_init n) = {}"
proof -
  have "slot_of (hwfq_chunked_entries_init n) k = None" for k
    by (simp add: slot_of_def hwfq_chunked_entries_init_def)
  then show "ce_inv (hwfq_chunked_entries_init n)"
    by (auto simp: ce_inv_def ce_shape_def hwfq_chunked_entries_init_def intro!: exI [of _ "[]"])
  show "live_ids (hwfq_chunked_entries_init n) = {}"
    by (simp add: live_ids_def hwfq_chunked_entries_init_def)
qed

lemma live_card: "ce_inv ce \<Longrightarrow> card (live_ids ce) = unat (num_configured ce)"
proof -
  assume inv: "ce_inv ce"
  obtain fl where fl: "distinct fl" "set fl \<subseteq> {i. i < num_allocated ce}" "free_ids ce = set fl"
      "length fl + unat (num_configured ce) = unat (num_allocated ce)"
    using ce_invE [OF inv] .
  have "card (live_ids ce) = card {i. i < num_allocated ce} - card (set fl)"
    unfolding live_ids_def fl(3) using fl(2) by (intro card_Diff_subset) auto
  then show ?thesis using fl(4) distinct_card [OF fl(1)] by (simp add: card_word_less)
qed

interpretation entries: id_allocator hwfq_chunked_entries_alloc hwfq_chunked_entries_free
  live_ids "\<lambda>ce. {i. i < max_ids ce \<and> i < 2 ^ 30}" ce_inv
proof (unfold_locales, goal_cases)
  case (1 ce m)
  then show ?case by (rule hwfq_chunked_entries_alloc_cases [where mem = m]) auto
next
  case (2 ce m e ce')
  show ?case
  proof (cases rule: hwfq_chunked_entries_alloc_cases [OF 2(1), of m, case_names err ok])
    case (err ce1)
    then have "ce1 = ce'" using 2(2) by simp
    then show ?thesis using grows_inv [OF 2(1) err(2)] growsD(6) [OF err(2)] by simp
  next
    case ok
    then show ?thesis using 2(2) by simp
  qed
next
  case (3 ce m i ce')
  show ?case
  proof (cases rule: hwfq_chunked_entries_alloc_cases [OF 3(1), of m, case_names err ok])
    case err
    then show ?thesis using 3(2) by simp
  next
    case (ok j e ce1)
    then have "j = i" "ce1 = ce'" using 3(2) by simp_all
    then show ?thesis using ok(2-4,10,12,13) by (simp add: max_ids_def)
  qed
next
  case (4 ce i)
  show ?case
  proof (rule hwfq_chunked_entries_free_live [OF 4])
    fix e ce'
    assume "hwfq_chunked_entries_free i ce = Some ce'" "ce_inv ce'" "live_ids ce' = live_ids ce - {i}"
      "max_entries ce' = max_entries ce"
    then show ?thesis by (simp add: max_ids_def)
  qed
qed

section \<open>Properties\<close>

text \<open>The storage of an owner with room for ten entries, one of which is in use: the examples' state.\<close>

definition one_entry :: chunked_entries where
  "one_entry = (hwfq_chunked_entries_init 10)
     \<lparr>chunks := [Some ((replicate 1024 zero_entry)[0 := zero_entry\<lparr>entry_id := 0, configured := False\<rparr>])],
      num_chunks := 1, num_allocated := 1, num_configured := 1\<rparr>"

lemma one_entry_alloc:
  "hwfq_chunked_entries_alloc (True, True) (hwfq_chunked_entries_init 10) = Some (Inr 0, one_entry)"
proof -
  have "hwfq_chunked_entries_alloc (True, True) (hwfq_chunked_entries_init 10) = Some (Inr 0,
      (hwfq_chunked_entries_init 10)
      \<lparr>chunks := [Some ((replicate 1024 zero_entry)[0 := zero_entry\<lparr>entry_id := 0, configured := False\<rparr>])],
      num_chunks := 1, num_allocated := 1, num_configured := 1\<rparr>)"
    using double_until.simps [of 1 1]
    by (simp add: hwfq_chunked_entries_alloc_def hwfq_chunked_entries_init_def max_ids_def
        alloc_from_free_list_def hwfq_chunked_decode_def hwfq_chunked_encode_def allocate_chunk_def
        entry_store_def Let_def)
  then show ?thesis by (simp add: one_entry_def)
qed

lemma one_entry_inv: "ce_inv one_entry" "live_ids one_entry = {0}"
  using entries.alloc_ok [OF ce_init_inv(1) one_entry_alloc] ce_init_inv(2) by auto

text \<open>
  C23. Allocating an entry never leaves the storage and never reports an internal error.  On success
  the ID was not in use and is below both limits, it is the only one added, its entry carries that ID
  and is not configured, and every other live entry is untouched.  On failure the live entries are
  untouched, and with memory available failure means that the limit is reached.
\<close>

theorem entries_alloc_fresh:
  assumes "ce_inv ce"
  shows "case hwfq_chunked_entries_alloc mem ce of
      None \<Rightarrow> False
    | Some (Inl e, ce') \<Rightarrow> e = HWFQ_ERR_NO_MEMORY \<and> ce_inv ce' \<and> live_ids ce' = live_ids ce \<and>
        (\<forall>i \<in> live_ids ce. slot_of ce' (unat i) = slot_of ce (unat i)) \<and>
        (mem = (True, True) \<longrightarrow> card (live_ids ce) = min (unat (max_ids ce)) (2 ^ 30))
    | Some (Inr i, ce') \<Rightarrow> ce_inv ce' \<and> i \<notin> live_ids ce \<and> i < max_ids ce \<and> i < 2 ^ 30 \<and>
        live_ids ce' = insert i (live_ids ce) \<and>
        (\<exists>e. slot_of ce' (unat i) = Some e \<and> entry_id e = i \<and> \<not> configured e) \<and>
        (\<forall>j \<in> live_ids ce. slot_of ce' (unat j) = slot_of ce (unat j))"
proof (cases rule: hwfq_chunked_entries_alloc_cases [OF assms, of mem, case_names err ok])
  case (err ce')
  have "slot_of ce' (unat i) = slot_of ce (unat i)" if "i \<in> live_ids ce" for i
    using live_slot [OF assms that] growsD(7) [OF err(2), of "unat i"] by (metis option.distinct(1))
  then show ?thesis using err grows_inv [OF assms err(2)] live_card [OF assms] by auto
next
  case (ok i e ce')
  then show ?thesis by simp
qed

theorem entries_alloc_fresh_witness:
  "ce_inv one_entry \<and> (case hwfq_chunked_entries_alloc (True, True) one_entry of
      None \<Rightarrow> False
    | Some (Inl e, ce') \<Rightarrow> e = HWFQ_ERR_NO_MEMORY \<and> ce_inv ce' \<and> live_ids ce' = live_ids one_entry \<and>
        (\<forall>i \<in> live_ids one_entry. slot_of ce' (unat i) = slot_of one_entry (unat i)) \<and>
        ((True, True) = (True, True) \<longrightarrow> card (live_ids one_entry) = min (unat (max_ids one_entry)) (2 ^ 30))
    | Some (Inr i, ce') \<Rightarrow> ce_inv ce' \<and> i \<notin> live_ids one_entry \<and> i < max_ids one_entry \<and> i < 2 ^ 30 \<and>
        live_ids ce' = insert i (live_ids one_entry) \<and>
        (\<exists>e. slot_of ce' (unat i) = Some e \<and> entry_id e = i \<and> \<not> configured e) \<and>
        (\<forall>j \<in> live_ids one_entry. slot_of ce' (unat j) = slot_of one_entry (unat j)))"
  using entries_alloc_fresh [OF one_entry_inv(1), of "(True, True)"] one_entry_inv(1) by (rule conjI [rotated])

text \<open>
  C24. A freed ID is the next one to be handed out, whether or not memory is available, and its entry
  comes back with everything but its ID and its \<open>configured\<close> flag as it was: the statistics of the
  previous user included.
\<close>

theorem entries_free_recycles:
  assumes "ce_inv ce" "i \<in> live_ids ce"
  shows "\<exists>e ce1 ce2. slot_of ce (unat i) = Some e \<and>
    hwfq_chunked_entries_free i ce = Some ce1 \<and> ce_inv ce1 \<and> live_ids ce1 = live_ids ce - {i} \<and>
    hwfq_chunked_entries_alloc mem ce1 = Some (Inr i, ce2) \<and> ce_inv ce2 \<and> live_ids ce2 = live_ids ce \<and>
    slot_of ce2 (unat i) = Some (e\<lparr>entry_id := i, configured := False\<rparr>)"
proof (rule hwfq_chunked_entries_free_live [OF assms])
  fix e ce1
  assume free: "hwfq_chunked_entries_free i ce = Some ce1" and e: "slot_of ce (unat i) = Some e"
    and inv1: "ce_inv ce1" and live1: "live_ids ce1 = live_ids ce - {i}"
    and cfg: "num_configured ce = num_configured ce1 + 1" and mx: "max_entries ce1 = max_entries ce"
    and slot: "\<And>k. slot_of ce1 k = (if k = unat i
      then Some (e\<lparr>configured := False, entry_id := free_head ce\<rparr>) else slot_of ce k)"
  have head: "free_head ce1 = i"
    using free e ce_invD(1) [OF assms(1)] entry_store_put [of ce i e]
    by (auto simp: hwfq_chunked_entries_free_def hwfq_chunked_get_eq entry_load_slot Let_def)
  have i: "i < num_allocated ce" using assms(2) by (simp add: live_ids_def)
  then have "i \<le> 2 ^ 30" using ce_invD(3) [OF assms(1)] by simp
  then have nn: "i \<noteq> HWFQ_ENTRY_NONE" by (auto simp: word_le_nat_alt unat_max_word)
  have "0 < card (live_ids ce)" using assms(2) by (auto simp: card_gt_0_iff)
  then have "unat (num_configured ce1) < unat (num_configured ce)"
    using live_card [OF inv1] live_card [OF assms(1)] live1 assms(2) by simp
  moreover have "num_configured ce \<le> num_allocated ce"
    using ce_invE [OF assms(1)] by (metis le_add2 word_le_nat_alt)
  then have "unat (num_configured ce) \<le> unat (max_ids ce1)"
    using ce_invD(2) [OF assms(1)] mx by (auto simp: max_ids_def word_nat split: if_splits)
  ultimately have room: "\<not> max_ids ce1 \<le> num_configured ce1" by (simp add: word_le_nat_alt)
  show ?thesis
  proof (cases rule: alloc_from_free_list_inv [OF inv1, case_names empty reuse])
    case empty
    then show ?thesis using head nn by simp
  next
    case (reuse e1 ce2)
    let ?e = "e1\<lparr>entry_id := free_head ce1, configured := False\<rparr>"
    have run: "hwfq_chunked_entries_alloc mem ce1 = Some (Inr i, ce2)"
      using room reuse(4) head by (simp add: hwfq_chunked_entries_alloc_def)
    note r = reuse_inv [OF inv1 reuse(1,2), of ?e, simplified, folded reuse(3)]
    have "e1 = e\<lparr>configured := False, entry_id := free_head ce\<rparr>" using reuse(2) slot head by simp
    moreover have "slot_of ce2 (unat i) = Some ?e"
      using slot_of_put [of ce1 "unat i" ?e] reuse(2,3) head by simp
    ultimately have "slot_of ce2 (unat i) = Some (e\<lparr>entry_id := i, configured := False\<rparr>)"
      using head by simp
    moreover have "live_ids ce2 = live_ids ce" using r(2) live1 head assms(2) by auto
    ultimately show ?thesis using e free inv1 live1 run r(1) by blast
  qed
qed

theorem entries_free_recycles_witness:
  "\<exists>e ce1 ce2. slot_of one_entry (unat (0::u32)) = Some e \<and>
    hwfq_chunked_entries_free 0 one_entry = Some ce1 \<and> ce_inv ce1 \<and> live_ids ce1 = live_ids one_entry - {0} \<and>
    hwfq_chunked_entries_alloc (False, False) ce1 = Some (Inr 0, ce2) \<and> ce_inv ce2 \<and>
    live_ids ce2 = live_ids one_entry \<and>
    slot_of ce2 (unat (0::u32)) = Some (e\<lparr>entry_id := 0, configured := False\<rparr>)"
  by (rule entries_free_recycles) (simp_all add: one_entry_inv)

text \<open>
  C25. No entry is shared: whatever requests a client makes of a fresh storage, and whatever the
  memory allocator answers, every request is served inside the storage, the IDs held are distinct
  and below the owner's limit, and they are exactly the live ones.
\<close>

theorem entries_client_ids_distinct:
  assumes "0 < n"
  shows "\<exists>held ce. client_run hwfq_chunked_entries_alloc hwfq_chunked_entries_free rs
      ([], hwfq_chunked_entries_init n) = Some (held, ce) \<and>
    distinct held \<and> set held = live_ids ce \<and> length held = unat (hwfq_chunked_entries_count ce) \<and>
    (\<forall>i \<in> set held. i < n)"
proof -
  have max: "max_ids (hwfq_chunked_entries_init n) = n"
    using assms by (simp add: max_ids_def hwfq_chunked_entries_init_def)
  obtain held ce where run: "client_run hwfq_chunked_entries_alloc hwfq_chunked_entries_free rs
        ([], hwfq_chunked_entries_init n) = Some (held, ce)"
      "ce_inv ce" "distinct held" "set held = live_ids ce" "set held \<subseteq> {i. i < n \<and> i < 2 ^ 30}"
    using entries.client_run_ok [of "hwfq_chunked_entries_init n" "[]" rs] ce_init_inv max by auto
  moreover have "length held = unat (num_configured ce)"
    using live_card [OF run(2)] distinct_card [OF run(3)] run(4) by simp
  ultimately show ?thesis by (auto simp: hwfq_chunked_entries_count_def)
qed

theorem entries_client_ids_distinct_witness:
  "\<exists>held ce. client_run hwfq_chunked_entries_alloc hwfq_chunked_entries_free
      [Alloc (True, True), Alloc (False, False), Free 0, Free 7, Alloc (True, True)]
      ([], hwfq_chunked_entries_init 10) = Some (held, ce) \<and>
    distinct held \<and> set held = live_ids ce \<and> length held = unat (hwfq_chunked_entries_count ce) \<and>
    (\<forall>i \<in> set held. i < 10)"
  by (rule entries_client_ids_distinct) simp

text \<open>
  \<open>hwfq_chunked_entries_has_capacity\<close> is exact for every limit up to \<open>2 ^ 30\<close>: it holds just
  when an allocation succeeds, given memory.
\<close>

theorem entries_has_capacity_exact:
  assumes "ce_inv ce" "max_ids ce \<le> 2 ^ 30"
  shows "hwfq_chunked_entries_has_capacity ce \<longleftrightarrow>
    (\<exists>i ce'. hwfq_chunked_entries_alloc (True, True) ce = Some (Inr i, ce'))"
proof -
  obtain fl where fl: "free_chain ce (free_head ce) fl"
      "length fl + unat (num_configured ce) = unat (num_allocated ce)"
    using ce_invE [OF assms(1)] .
  have le: "unat (num_allocated ce) \<le> unat (max_ids ce)"
    using ce_invD(2) [OF assms(1)] by (simp add: word_nat)
  have "hwfq_chunked_entries_has_capacity ce \<longleftrightarrow> unat (num_configured ce) < unat (max_ids ce)"
    using fl le by (cases fl) (auto simp: hwfq_chunked_entries_has_capacity_def word_nat)
  moreover have "min (unat (max_ids ce)) (2 ^ 30) = unat (max_ids ce)"
    using assms(2) by (simp add: word_nat)
  ultimately show ?thesis
    by (cases rule: hwfq_chunked_entries_alloc_cases [OF assms(1), of "(True, True)"]) auto
qed

theorem entries_has_capacity_exact_witness:
  "hwfq_chunked_entries_has_capacity one_entry \<longleftrightarrow>
    (\<exists>i ce'. hwfq_chunked_entries_alloc (True, True) one_entry = Some (Inr i, ce'))"
  by (rule entries_has_capacity_exact [OF one_entry_inv(1)])
    (simp add: one_entry_def max_ids_def hwfq_chunked_entries_init_def)

end
