(* ===== verification/Session_Lists.thy ===== *)
theory Session_Lists
  imports Chunked_Entries
begin

text \<open>
  The sessions of a group scheduler and the list of each calendar bin: the structures of
  \<^verbatim>\<open>src/hwfq_group_scheduler_internal.h\<close> and the section "Bin Linked List Operations" of
  \<^verbatim>\<open>src/hwfq_group_calendar.c\<close>.

  Sessions are heap objects linked through \<open>bin_next\<close> and \<open>bin_prev\<close>: the state of a scheduler holds
  the map \<open>sessions\<close> from addresses to the session objects allocated for it, and an access through
  an address that is not in the map is undefined.  \<open>'u\<close> is the type of the objects behind
  \<open>user_data\<close>, \<open>'f\<close> that of the cleanup callbacks.  \<open>bin_list\<close> says which addresses a list holds.
\<close>

section \<open>Data\<close>

type_synonym addr = nat

record ('u, 'f) session_state =
  sess_entry_id :: u32
  start_time :: u64
  finish_time :: u64
  service_interval :: u64
  group_index :: u32
  bin_index :: u32
  user_data :: "'u option"
  work_size :: u64
  bin_next :: "addr option"
  bin_prev :: "addr option"
  enqueue_time_ns :: u64
  cleanup_fn :: "'f option"

type_synonym ('u, 'f) session_heap = "addr \<Rightarrow> ('u, 'f) session_state option"

text \<open>
  The scheduler.  \<open>entries\<close> is the storage that the C pointer of that name refers to; \<open>sessions\<close> is
  the part of the heap that holds this scheduler's sessions.  The mutex and the pointer to the
  parent, which only serves to reach the allocator, have no counterpart.
\<close>

record ('u, 'f) group_scheduler =
  bin_bitfield :: "u32 list"
  bin_heads :: "addr option list"
  group_bitfield :: "u32 list"
  entries :: chunked_entries
  gs_max_entries :: u32
  configured_entries_head :: "u32 option"
  allocated_rate_capacity :: u64
  total_weight :: u32
  num_groups :: u32
  bins_per_group :: u32
  num_bins :: u32
  bin_bitfield_size :: u32
  base_interval :: u64
  total_capacity :: u64
  virtual_time :: u64
  active_session_count :: u32
  min_finish_time :: u64
  min_start_time :: u64
  min_session :: "addr option"
  sessions :: "('u, 'f) session_heap"

section \<open>Operations\<close>

text \<open>Writing fields of the object at an address.\<close>

definition modify_session ::
  "addr \<Rightarrow> (('u, 'f) session_state \<Rightarrow> ('u, 'f) session_state) \<Rightarrow> ('u, 'f) session_heap \<Rightarrow>
   ('u, 'f) session_heap option" where
  "modify_session a f H = do { s \<leftarrow> H a; Some (H(a \<mapsto> f s)) }"

definition session_less :: "('u, 'f) session_state \<Rightarrow> ('u, 'f) session_state \<Rightarrow> bool" where
  "session_less a b \<longleftrightarrow>
     (if finish_time a \<noteq> finish_time b then finish_time a < finish_time b
      else start_time a < start_time b)"

text \<open>The loop of \<open>bin_list_insert\<close> that walks to the insertion point; it returns \<open>(prev, current)\<close>.\<close>

partial_function (option) insert_position ::
  "('u, 'f) session_heap \<Rightarrow> addr \<Rightarrow> addr option \<Rightarrow> addr option \<Rightarrow> (addr option \<times> addr option) option" where
  "insert_position H session prev current =
     (case current of
        None \<Rightarrow> Some (prev, None)
      | Some c \<Rightarrow> do {
          sc \<leftarrow> H c;
          ss \<leftarrow> H session;
          if session_less sc ss then insert_position H session current (bin_next sc)
          else Some (prev, current)
        })"

definition bin_list_insert ::
  "u32 \<Rightarrow> addr \<Rightarrow> ('u, 'f) group_scheduler \<Rightarrow> ('u, 'f) group_scheduler option" where
  "bin_list_insert idx session gs = do {
     head \<leftarrow> arr_get (bin_heads gs) (unat idx);
     H \<leftarrow> modify_session session (\<lambda>s. s\<lparr>bin_next := None, bin_prev := None\<rparr>) (sessions gs);
     case head of
       None \<Rightarrow> do {
         heads \<leftarrow> arr_set (bin_heads gs) (unat idx) (Some session);
         Some (gs\<lparr>sessions := H, bin_heads := heads\<rparr>)
       }
     | Some h \<Rightarrow> do {
         (prev, current) \<leftarrow> insert_position H session None head;
         case prev of
           None \<Rightarrow> do {
             H \<leftarrow> modify_session session (\<lambda>s. s\<lparr>bin_next := head\<rparr>) H;
             H \<leftarrow> modify_session h (\<lambda>s. s\<lparr>bin_prev := Some session\<rparr>) H;
             heads \<leftarrow> arr_set (bin_heads gs) (unat idx) (Some session);
             Some (gs\<lparr>sessions := H, bin_heads := heads\<rparr>)
           }
         | Some p \<Rightarrow> do {
             H \<leftarrow> modify_session session (\<lambda>s. s\<lparr>bin_prev := prev\<rparr>) H;
             H \<leftarrow> modify_session session (\<lambda>s. s\<lparr>bin_next := current\<rparr>) H;
             H \<leftarrow> modify_session p (\<lambda>s. s\<lparr>bin_next := Some session\<rparr>) H;
             H \<leftarrow> (case current of None \<Rightarrow> Some H
               | Some c \<Rightarrow> modify_session c (\<lambda>s. s\<lparr>bin_prev := Some session\<rparr>) H);
             Some (gs\<lparr>sessions := H\<rparr>)
           }
       }
   }"

definition bin_list_remove ::
  "u32 \<Rightarrow> addr \<Rightarrow> ('u, 'f) group_scheduler \<Rightarrow> ('u, 'f) group_scheduler option" where
  "bin_list_remove idx session gs = do {
     s \<leftarrow> sessions gs session;
     (H, heads) \<leftarrow> (case bin_prev s of
         Some p \<Rightarrow> do {
           H \<leftarrow> modify_session p (\<lambda>r. r\<lparr>bin_next := bin_next s\<rparr>) (sessions gs);
           Some (H, bin_heads gs)
         }
       | None \<Rightarrow> do {
           heads \<leftarrow> arr_set (bin_heads gs) (unat idx) (bin_next s);
           Some (sessions gs, heads)
         });
     s \<leftarrow> H session;
     H \<leftarrow> (case bin_next s of
         Some n \<Rightarrow> modify_session n (\<lambda>r. r\<lparr>bin_prev := bin_prev s\<rparr>) H
       | None \<Rightarrow> Some H);
     H \<leftarrow> modify_session session (\<lambda>s. s\<lparr>bin_next := None, bin_prev := None\<rparr>) H;
     Some (gs\<lparr>sessions := H, bin_heads := heads\<rparr>)
   }"

definition bin_list_is_empty :: "u32 \<Rightarrow> ('u, 'f) group_scheduler \<Rightarrow> bool option" where
  "bin_list_is_empty idx gs = do { head \<leftarrow> arr_get (bin_heads gs) (unat idx); Some (head = None) }"

section \<open>List segments\<close>

text \<open>
  \<open>seg H p h xs n l\<close>: starting at the pointer \<open>h\<close> and ending at \<open>n\<close>, the heap links the objects
  \<open>xs\<close>; the object before them is \<open>p\<close>, the last of them (or \<open>p\<close>) is \<open>l\<close>.
\<close>

fun seg :: "('u, 'f) session_heap \<Rightarrow> addr option \<Rightarrow> addr option \<Rightarrow> addr list \<Rightarrow>
    addr option \<Rightarrow> addr option \<Rightarrow> bool" where
  "seg H p h [] n l \<longleftrightarrow> h = n \<and> l = p"
| "seg H p h (a # as) n l \<longleftrightarrow>
     h = Some a \<and>
     (case H a of None \<Rightarrow> False | Some s \<Rightarrow> bin_prev s = p \<and> seg H (Some a) (bin_next s) as n l)"

lemma seg_append:
  "seg H p h (xs @ ys) n l \<longleftrightarrow> (\<exists>m q. seg H p h xs m q \<and> seg H q m ys n l)"
  by (induction xs arbitrary: p h) (auto split: option.splits)

definition links :: "('u, 'f) session_state \<Rightarrow> addr option \<times> addr option" where
  "links s = (bin_prev s, bin_next s)"

lemma seg_cong:
  "(\<And>a. a \<in> set xs \<Longrightarrow> map_option links (H' a) = map_option links (H a)) \<Longrightarrow>
   seg H' p h xs n l = seg H p h xs n l"
proof (induction xs arbitrary: p h)
  case (Cons a xs)
  have "map_option links (H' a) = map_option links (H a)" using Cons.prems by simp
  then show ?case
    using Cons.IH Cons.prems by (cases "H a"; cases "H' a") (auto simp: links_def)
qed simp

lemma seg_defined: "seg H p h xs n l \<Longrightarrow> a \<in> set xs \<Longrightarrow> \<exists>s. H a = Some s"
  by (induction xs arbitrary: p h) (auto split: option.splits)

lemma seg_unique: "seg H p h xs None l \<Longrightarrow> seg H p h ys None m \<Longrightarrow> xs = ys"
proof (induction xs arbitrary: p h ys)
  case Nil
  then show ?case by (cases ys) auto
next
  case (Cons a xs)
  then show ?case by (cases ys) (auto split: option.splits)
qed

lemma seg_last: "seg H p h (xs @ [a]) n l \<Longrightarrow> l = Some a"
  by (auto simp: seg_append split: option.splits)

text \<open>The list that starts at a head pointer, and the list of a bin.\<close>

definition dll :: "('u, 'f) session_heap \<Rightarrow> addr option \<Rightarrow> addr list \<Rightarrow> bool" where
  "dll H h xs \<longleftrightarrow> (\<exists>l. seg H None h xs None l)"

lemma dll_cong:
  "(\<And>a. a \<in> set xs \<Longrightarrow> map_option links (H' a) = map_option links (H a)) \<Longrightarrow> dll H' h xs = dll H h xs"
  unfolding dll_def using seg_cong by metis

lemma dll_defined: "dll H h xs \<Longrightarrow> a \<in> set xs \<Longrightarrow> \<exists>s. H a = Some s"
  by (auto simp: dll_def dest: seg_defined)

lemma dll_unique: "dll H h xs \<Longrightarrow> dll H h ys \<Longrightarrow> xs = ys"
  by (auto simp: dll_def dest: seg_unique)

lemma dll_Nil [simp]: "dll H h [] \<longleftrightarrow> h = None"
  by (simp add: dll_def)

lemma dll_head: "dll H h xs \<Longrightarrow> h = None \<longleftrightarrow> xs = []"
  by (cases xs) (auto simp: dll_def)

text \<open>Rewriting one pointer at either end of a segment.\<close>

lemma seg_set_prev:
  assumes "seg H p h (a # as) n l" "H a = Some s" "a \<notin> set as"
  shows "seg (H(a \<mapsto> s\<lparr>bin_prev := p'\<rparr>)) p' h (a # as) n l"
proof -
  have "seg (H(a \<mapsto> s\<lparr>bin_prev := p'\<rparr>)) (Some a) (bin_next s) as n l = seg H (Some a) (bin_next s) as n l"
    by (rule seg_cong) (use assms(3) in auto)
  then show ?thesis using assms by simp
qed

lemma seg_set_next:
  assumes "seg H p h (xs @ [a]) n l" "H a = Some s" "a \<notin> set xs"
  shows "seg (H(a \<mapsto> s\<lparr>bin_next := m\<rparr>)) p h (xs @ [a]) m (Some a)"
proof -
  obtain q where q: "seg H p h xs (Some a) q" "bin_prev s = q"
    using assms(1,2) by (auto simp: seg_append)
  have "seg (H(a \<mapsto> s\<lparr>bin_next := m\<rparr>)) p h xs (Some a) q = seg H p h xs (Some a) q"
    by (rule seg_cong) (use assms(3) in auto)
  then show ?thesis using q by (auto simp: seg_append)
qed

section \<open>Insertion\<close>

text \<open>What the list operations leave alone: every field of a session but its two links.\<close>

definition unlinked :: "('u, 'f) session_state \<Rightarrow> ('u, 'f) session_state" where
  "unlinked s = s\<lparr>bin_next := None, bin_prev := None\<rparr>"

definition same_data :: "('u, 'f) session_heap \<Rightarrow> ('u, 'f) session_heap \<Rightarrow> bool" where
  "same_data H' H \<longleftrightarrow> (\<forall>a. map_option unlinked (H' a) = map_option unlinked (H a))"

lemma unlinked_update [simp]:
  "unlinked (s\<lparr>bin_next := x\<rparr>) = unlinked s" "unlinked (s\<lparr>bin_prev := x\<rparr>) = unlinked s"
  by (simp_all add: unlinked_def)

lemma same_data_refl [simp]: "same_data H H"
  by (simp add: same_data_def)

lemma same_data_upd:
  "same_data H' H \<Longrightarrow> H' a = Some s \<Longrightarrow> unlinked s' = unlinked s \<Longrightarrow> same_data (H'(a \<mapsto> s')) H"
  unfolding same_data_def by (metis map_upd_Some_unfold fun_upd_apply option.simps(9))

lemma unlinked_fields:
  assumes "unlinked s' = unlinked s"
  shows "start_time s' = start_time s" "finish_time s' = finish_time s" "bin_index s' = bin_index s"
    "sess_entry_id s' = sess_entry_id s" "work_size s' = work_size s" "user_data s' = user_data s"
    "cleanup_fn s' = cleanup_fn s" "group_index s' = group_index s"
    "service_interval s' = service_interval s" "enqueue_time_ns s' = enqueue_time_ns s"
  using assms by (cases s; cases s'; simp add: unlinked_def)+

lemma same_data_dom: "same_data H' H \<Longrightarrow> (H' a = None) = (H a = None)"
  unfolding same_data_def by (metis option.map_disc_iff)

lemma same_dataE:
  assumes "same_data H' H" "H a = Some s"
  obtains s' where "H' a = Some s'" "unlinked s' = unlinked s"
  using assms unfolding same_data_def by (metis map_option_eq_Some option.simps(9))

lemma insert_position_eq:
  assumes "seg H p h xs None l" "H a = Some s"
  shows "insert_position H a p h =
    (let less = (\<lambda>c. session_less (the (H c)) s);
         ys = takeWhile less xs; zs = dropWhile less xs
     in Some (if ys = [] then p else Some (last ys), if zs = [] then None else Some (hd zs)))"
  using assms(1)
proof (induction xs arbitrary: p h)
  case Nil
  then show ?case using insert_position.simps [of H a p h] by simp
next
  case (Cons c xs)
  then obtain sc where sc: "h = Some c" "H c = Some sc" "seg H (Some c) (bin_next sc) xs None l"
    by (auto split: option.splits)
  have step: "insert_position H a p h =
      (if session_less sc s then insert_position H a (Some c) (bin_next sc) else Some (p, Some c))"
    using insert_position.simps [of H a p h] sc assms(2) by simp
  show ?case
  proof (cases "session_less sc s")
    case True
    then show ?thesis using step Cons.IH [OF sc(3)] sc by (simp add: Let_def)
  next
    case False
    then show ?thesis using step sc by simp
  qed
qed

text \<open>
  The list that \<open>bin_list_insert\<close> builds: the new session goes before the first one that is not
  less than it.
\<close>

definition insert_at :: "('u, 'f) session_heap \<Rightarrow> addr \<Rightarrow> ('u, 'f) session_state \<Rightarrow> addr list \<Rightarrow> addr list" where
  "insert_at H a s xs =
     takeWhile (\<lambda>c. session_less (the (H c)) s) xs @ a # dropWhile (\<lambda>c. session_less (the (H c)) s) xs"

lemma insert_at_split:
  obtains ys zs where "insert_at H a s xs = ys @ a # zs" "xs = ys @ zs"
    "\<forall>c \<in> set ys. session_less (the (H c)) s" "zs = [] \<or> \<not> session_less (the (H (hd zs))) s"
proof (rule that)
  let ?P = "\<lambda>c. session_less (the (H c)) s"
  show "insert_at H a s xs = takeWhile ?P xs @ a # dropWhile ?P xs" by (simp add: insert_at_def)
  show "xs = takeWhile ?P xs @ dropWhile ?P xs" by simp
  show "\<forall>c \<in> set (takeWhile ?P xs). ?P c" using set_takeWhileD by fast
  show "dropWhile ?P xs = [] \<or> \<not> ?P (hd (dropWhile ?P xs))" using hd_dropWhile by blast
qed

lemma set_insert_at [simp]: "set (insert_at H a s xs) = insert a (set xs)"
  by (rule insert_at_split [of H a s xs]) auto

lemma distinct_insert_at [simp]: "distinct (insert_at H a s xs) \<longleftrightarrow> a \<notin> set xs \<and> distinct xs"
  by (rule insert_at_split [of H a s xs]) auto

lemma insert_position_insert_at:
  assumes "seg H None h xs None l" "a \<notin> set xs" "H a = Some s"
    "xs = ys @ zs" "\<forall>c \<in> set ys. session_less (the (H c)) s"
    "zs = [] \<or> \<not> session_less (the (H (hd zs))) s"
  shows "insert_position (H(a \<mapsto> unlinked s)) a None h =
    Some (if ys = [] then None else Some (last ys), if zs = [] then None else Some (hd zs))"
proof -
  let ?H = "H(a \<mapsto> unlinked s)"
  have seg: "seg ?H None h xs None l" using assms(1) by (subst seg_cong [of xs ?H H]) (use assms(2) in auto)
  have less: "session_less (the (?H c)) (unlinked s) = session_less (the (H c)) s" if "c \<in> set xs" for c
    using that assms(2) by (auto simp: session_less_def unlinked_def)
  have z: "zs = [] \<or> \<not> session_less (the (?H (hd zs))) (unlinked s)"
    using assms(4,6) less by (cases zs) auto
  have y: "\<forall>c \<in> set ys. session_less (the (?H c)) (unlinked s)" using assms(4,5) less by simp
  have tw: "takeWhile (\<lambda>c. session_less (the (?H c)) (unlinked s)) xs = ys"
    using y z unfolding assms(4) by (cases zs) (auto simp: takeWhile_append2)
  have dw: "dropWhile (\<lambda>c. session_less (the (?H c)) (unlinked s)) xs = zs"
    using y z unfolding assms(4) by (cases zs) (auto simp: dropWhile_append2)
  show ?thesis
    using insert_position_eq [OF seg, of a "unlinked s"] by (simp only: Let_def tw dw fun_upd_same)
qed

lemma modify_session_Some [simp]: "H a = Some s \<Longrightarrow> modify_session a f H = Some (H(a \<mapsto> f s))"
  by (simp add: modify_session_def)

text \<open>The heap with the session linked in between the sessions \<open>ys\<close> and \<open>zs\<close>.\<close>

definition link_in ::
  "addr \<Rightarrow> ('u, 'f) session_state \<Rightarrow> addr list \<Rightarrow> addr list \<Rightarrow> ('u, 'f) session_heap \<Rightarrow> ('u, 'f) session_heap" where
  "link_in a s ys zs H =
     (let H = H(a \<mapsto> (unlinked s)\<lparr>bin_prev := (if ys = [] then None else Some (last ys)),
            bin_next := (if zs = [] then None else Some (hd zs))\<rparr>);
          H = (if ys = [] then H else H(last ys \<mapsto> (the (H (last ys)))\<lparr>bin_next := Some a\<rparr>))
      in if zs = [] then H else H(hd zs \<mapsto> (the (H (hd zs)))\<lparr>bin_prev := Some a\<rparr>))"

lemma link_in_other:
  assumes "c \<notin> insert a (set ys \<union> set zs)"
  shows "link_in a s ys zs H c = H c"
proof -
  have "c \<noteq> a" "ys \<noteq> [] \<Longrightarrow> c \<noteq> last ys" "zs \<noteq> [] \<Longrightarrow> c \<noteq> hd zs" using assms by auto
  then show ?thesis by (simp add: link_in_def Let_def)
qed

lemma unlinked_again: "s\<lparr>bin_next := None, bin_prev := None\<rparr> = s\<lparr>bin_prev := None, bin_next := None\<rparr>"
  by simp

lemma same_data_touch:
  assumes "same_data K H" "K b \<noteq> None" "\<And>r. unlinked (f r) = unlinked r"
  shows "same_data (K(b \<mapsto> f (the (K b)))) H"
  using assms by (auto intro: same_data_upd)

lemma same_data_link_in:
  fixes H :: "('u, 'f) session_heap"
  assumes a: "H a = Some s" and d: "\<And>c. c \<in> set ys \<union> set zs \<Longrightarrow> H c \<noteq> None"
  shows "same_data (link_in a s ys zs H) H"
proof -
  define G where "G = H(a \<mapsto> (unlinked s)\<lparr>bin_prev := (if ys = [] then None else Some (last ys)),
    bin_next := (if zs = [] then None else Some (hd zs))\<rparr>)"
  define K where "K = (if ys = [] then G else G(last ys \<mapsto> (the (G (last ys)))\<lparr>bin_next := Some a\<rparr>))"
  have "same_data G H"
    unfolding G_def by (rule same_data_upd [where H' = H and s = s]) (use a in \<open>simp_all add: unlinked_def\<close>)
  moreover have "ys \<noteq> [] \<Longrightarrow> G (last ys) \<noteq> None" using d [of "last ys"] by (simp add: G_def)
  ultimately have "same_data K H"
    unfolding K_def using same_data_touch [of G H "last ys" "\<lambda>r. r\<lparr>bin_next := Some a\<rparr>"] by simp
  moreover have "zs \<noteq> [] \<Longrightarrow> K (hd zs) \<noteq> None" using d [of "hd zs"] by (cases "ys = []") (simp_all add: K_def G_def)
  ultimately show ?thesis
    unfolding link_in_def Let_def G_def [symmetric] K_def [symmetric]
    using same_data_touch [of K H "hd zs" "\<lambda>r. r\<lparr>bin_prev := Some a\<rparr>"] by simp
qed

lemma dll_other: "a \<notin> set xs \<Longrightarrow> dll (H(a \<mapsto> s)) h xs \<longleftrightarrow> dll H h xs"
  by (rule dll_cong) auto

lemma dll_segD: "dll H h xs \<Longrightarrow> \<exists>l. seg H None h xs None l"
  by (simp add: dll_def)

lemma seg_dllI: "seg H None h xs None l \<Longrightarrow> dll H h xs"
  by (auto simp: dll_def)

text \<open>Linking a session before the first, after the last, and between two sessions of a list.\<close>

lemma dll_link_first:
  assumes "dll H (Some c) (c # cs)" "distinct (c # cs)" "a \<notin> set (c # cs)" "H a = Some r" "links r = (None, Some c)" "H c = Some s"
  shows "dll (H(c \<mapsto> s\<lparr>bin_prev := Some a\<rparr>)) (Some a) (a # c # cs)"
proof -
  obtain l where "seg H None (Some c) (c # cs) None l" using dll_segD [OF assms(1)] by blast
  then have "seg (H(c \<mapsto> s\<lparr>bin_prev := Some a\<rparr>)) (Some a) (Some c) (c # cs) None l"
    by (rule seg_set_prev) (use assms(2,6) in auto)
  then show ?thesis using assms(3-5) by (intro seg_dllI) (auto simp: links_def)
qed

lemma dll_link_last:
  assumes "dll H h (ys @ [p])" "p \<notin> set ys" "a \<notin> set (ys @ [p])" "H a = Some r" "links r = (Some p, None)" "H p = Some s"
  shows "dll (H(p \<mapsto> s\<lparr>bin_next := Some a\<rparr>)) h (ys @ [p, a])"
proof -
  let ?K = "H(p \<mapsto> s\<lparr>bin_next := Some a\<rparr>)"
  obtain l where "seg H None h (ys @ [p]) None l" using dll_segD [OF assms(1)] by blast
  then have "seg ?K None h (ys @ [p]) (Some a) (Some p)" by (rule seg_set_next) (use assms(2,6) in auto)
  moreover have "seg ?K (Some p) (Some a) [a] None (Some a)" using assms(3-5) by (auto simp: links_def)
  ultimately have "seg ?K None h ((ys @ [p]) @ [a]) None (Some a)" unfolding seg_append [of _ _ _ "ys @ [p]"] by blast
  then show ?thesis by (intro seg_dllI) simp
qed

lemma dll_link_between:
  assumes l: "dll H h (ys @ p # d # ds)" "distinct (ys @ p # d # ds)" and a: "a \<notin> set (ys @ p # d # ds)"
    and r: "H a = Some r" "links r = (Some p, Some d)" and e: "H p = Some s" "H d = Some u"
  shows "dll (H(p \<mapsto> s\<lparr>bin_next := Some a\<rparr>, d \<mapsto> u\<lparr>bin_prev := Some a\<rparr>)) h (ys @ p # a # d # ds)"
proof -
  let ?K = "H(p \<mapsto> s\<lparr>bin_next := Some a\<rparr>)" and ?J = "H(p \<mapsto> s\<lparr>bin_next := Some a\<rparr>, d \<mapsto> u\<lparr>bin_prev := Some a\<rparr>)"
  obtain n m k where s: "seg H None h (ys @ [p]) n m" "seg H m n (d # ds) None k"
    using dll_segD [OF l(1)] seg_append [of H None h "ys @ [p]" "d # ds"] by auto
  have "seg ?K None h (ys @ [p]) (Some a) (Some p)" by (rule seg_set_next [OF s(1) e(1)]) (use l(2) in auto)
  then have left: "seg ?J None h (ys @ [p]) (Some a) (Some p)" using l(2) by (subst seg_cong [of _ _ ?K]) auto
  have "n = Some d" using s(2) by simp
  then have "seg ?K m (Some d) (d # ds) None k" using s(2) l(2) by (subst seg_cong [of _ _ H]) auto
  then have "seg ?J (Some a) (Some d) (d # ds) None k" by (rule seg_set_prev) (use l(2) e(2) in auto)
  then have "seg ?J (Some p) (Some a) (a # d # ds) None k" using r a by (auto simp: links_def)
  with left have "seg ?J None h ((ys @ [p]) @ a # d # ds) None k" unfolding seg_append [of _ _ _ "ys @ [p]"] by blast
  then show ?thesis by (intro seg_dllI) simp
qed

lemma dll_link_in:
  assumes l: "dll H h (ys @ zs)" "distinct (ys @ zs)" and a: "a \<notin> set (ys @ zs)"
  shows "dll (link_in a s ys zs H) (if ys = [] then Some a else h) (ys @ a # zs)"
proof -
  define r where "r = (unlinked s)\<lparr>bin_prev := (if ys = [] then None else Some (last ys)),
    bin_next := (if zs = [] then None else Some (hd zs))\<rparr>"
  have K: "dll (H(a \<mapsto> r)) h (ys @ zs)" using l(1) dll_other [OF a] by blast
  show ?thesis
  proof (cases ys rule: rev_cases; cases zs)
    assume "ys = []" "zs = []"
    then show ?thesis by (simp add: link_in_def dll_def unlinked_def)
  next
    fix c cs assume e: "ys = []" "zs = c # cs"
    then have "h = Some c" using l(1) by (auto simp: dll_def)
    moreover obtain u where "H c = Some u" using dll_defined [OF l(1), of c] e by auto
    ultimately show ?thesis using dll_link_first [of "H(a \<mapsto> r)" c cs a r u] K l(2) a e
      by (auto simp: link_in_def Let_def r_def links_def)
  next
    fix ps p assume e: "ys = ps @ [p]" "zs = []"
    obtain u where "H p = Some u" using dll_defined [OF l(1), of p] e by auto
    then show ?thesis using dll_link_last [of "H(a \<mapsto> r)" h ps p a r u] K l(2) a e
      by (auto simp: link_in_def Let_def r_def links_def)
  next
    fix ps p d ds assume e: "ys = ps @ [p]" "zs = d # ds"
    obtain u v where "H p = Some u" "H d = Some v" using dll_defined [OF l(1), of p] dll_defined [OF l(1), of d] e by auto
    then show ?thesis using dll_link_between [of "H(a \<mapsto> r)" h ps p d ds a r u v] K l(2) a e
      by (auto simp: link_in_def Let_def r_def links_def)
  qed
qed

lemma bin_list_insert_eq:
  assumes idx: "unat idx < length (bin_heads gs)" and a: "sessions gs a = Some s" "a \<notin> set (ys @ zs)"
    and l: "dll (sessions gs) (bin_heads gs ! unat idx) (ys @ zs)" "distinct (ys @ zs)"
    and pos: "insert_position ((sessions gs)(a \<mapsto> unlinked s)) a None (bin_heads gs ! unat idx) =
      Some (if ys = [] then None else Some (last ys), if zs = [] then None else Some (hd zs))"
  shows "bin_list_insert idx a gs = Some (gs\<lparr>sessions := link_in a s ys zs (sessions gs),
    bin_heads := (bin_heads gs)[unat idx := if ys = [] then Some a else bin_heads gs ! unat idx]\<rparr>)"
proof (cases "ys @ zs = []")
  case True
  then show ?thesis using idx a(1) l(1) by (simp add: bin_list_insert_def link_in_def unlinked_def unlinked_again)
next
  case False
  let ?h = "bin_heads gs ! unat idx"
  have h: "?h = Some (hd (ys @ zs))" using dll_segD [OF l(1)] False by (cases "ys @ zs") auto
  have ends: "ys \<noteq> [] \<Longrightarrow> \<exists>r. sessions gs (last ys) = Some r" "zs \<noteq> [] \<Longrightarrow> \<exists>r. sessions gs (hd zs) = Some r"
    "ys \<noteq> [] \<Longrightarrow> last ys \<noteq> a" "zs \<noteq> [] \<Longrightarrow> hd zs \<noteq> a"
    using a(2) dll_defined [OF l(1), of "last ys"] dll_defined [OF l(1), of "hd zs"]
    by (force simp: last_in_set hd_in_set)+
  moreover have "hd zs \<noteq> last ys" if "ys \<noteq> []" "zs \<noteq> []"
    using l(2) last_in_set [OF that(1)] hd_in_set [OF that(2)] by auto
  moreover have "(bin_heads gs)[unat idx := Some (hd ys)] = bin_heads gs" if "ys \<noteq> []"
    using h that list_update_id [of "bin_heads gs" "unat idx"] by simp
  ultimately show ?thesis
    using idx a(1) h pos False by (auto simp: bin_list_insert_def link_in_def Let_def unlinked_def)
qed

lemma bin_list_insert_ok:
  fixes gs :: "('u, 'f) group_scheduler"
  assumes idx: "unat idx < length (bin_heads gs)"
    and xs: "dll (sessions gs) (bin_heads gs ! unat idx) xs" "distinct xs"
    and a: "a \<notin> set xs" "sessions gs a = Some s"
  obtains H' h' where
    "bin_list_insert idx a gs = Some (gs\<lparr>sessions := H', bin_heads := (bin_heads gs)[unat idx := h']\<rparr>)"
    "dll H' h' (insert_at (sessions gs) a s xs)" "same_data H' (sessions gs)"
    "\<And>c. c \<notin> insert a (set xs) \<Longrightarrow> H' c = sessions gs c"
proof -
  let ?H = "sessions gs" and ?h = "bin_heads gs ! unat idx"
  obtain l where l: "seg ?H None ?h xs None l" using dll_segD [OF xs(1)] by blast
  obtain ys zs where yz: "insert_at ?H a s xs = ys @ a # zs" "xs = ys @ zs"
      "\<forall>c \<in> set ys. session_less (the (?H c)) s" "zs = [] \<or> \<not> session_less (the (?H (hd zs))) s"
    by (rule insert_at_split [of ?H a s xs])
  note pos = insert_position_insert_at [OF l a yz(2-4)]
  show thesis
  proof (rule that)
    show "bin_list_insert idx a gs = Some (gs\<lparr>sessions := link_in a s ys zs ?H,
        bin_heads := (bin_heads gs)[unat idx := if ys = [] then Some a else ?h]\<rparr>)"
      by (rule bin_list_insert_eq [OF idx a(2) a(1) [unfolded yz(2)] xs [unfolded yz(2)] pos])
    show "dll (link_in a s ys zs ?H) (if ys = [] then Some a else ?h) (insert_at ?H a s xs)"
      unfolding yz(1) by (rule dll_link_in [OF xs [unfolded yz(2)] a(1) [unfolded yz(2)]])
    show "same_data (link_in a s ys zs ?H) ?H"
      by (rule same_data_link_in) (use a yz(2) dll_defined [OF xs(1)] in auto)
    show "link_in a s ys zs ?H c = ?H c" if "c \<notin> insert a (set xs)" for c
      using that yz(2) by (intro link_in_other) auto
  qed
qed

section \<open>Removal\<close>

text \<open>The link that leads to a session skips it, and the one that leads back to it.\<close>

lemma skip_next:
  assumes idx: "idx < length hs" and seg: "seg H None (hs ! idx) ys (Some a) q" "distinct ys"
  obtains G h where
    "(case q of
         Some p \<Rightarrow> do { H \<leftarrow> modify_session p (\<lambda>r. r\<lparr>bin_next := n\<rparr>) H; Some (H, hs) }
       | None \<Rightarrow> do { hs \<leftarrow> arr_set hs idx n; Some (H, hs) }) = Some (G, hs[idx := h])"
    "seg G None h ys n q" "same_data G H" "\<And>c. c \<notin> set ys \<Longrightarrow> G c = H c"
proof (cases ys rule: rev_cases)
  case Nil
  then show ?thesis using that [of H n] seg(1) idx by simp
next
  case (snoc ys' p)
  obtain sp where sp: "H p = Some sp" using seg(1) snoc seg_defined by fastforce
  have q: "q = Some p" using seg(1) snoc seg_last by metis
  show ?thesis
  proof (rule that)
    show "seg (H(p \<mapsto> sp\<lparr>bin_next := n\<rparr>)) None (hs ! idx) ys n q"
      unfolding snoc q by (rule seg_set_next) (use seg snoc sp in auto)
    show "same_data (H(p \<mapsto> sp\<lparr>bin_next := n\<rparr>)) H"
      by (rule same_data_upd [where H' = H and s = sp]) (use sp in auto)
    show "(H(p \<mapsto> sp\<lparr>bin_next := n\<rparr>)) c = H c" if "c \<notin> set ys" for c using that snoc by auto
  qed (use q sp idx in simp)
qed

lemma skip_prev:
  assumes seg: "seg H p n zs None l" "distinct zs"
  obtains K m where "(case n of Some d \<Rightarrow> modify_session d (\<lambda>r. r\<lparr>bin_prev := q\<rparr>) H | None \<Rightarrow> Some H) = Some K"
    "seg K q n zs None m" "same_data K H" "\<And>c. c \<notin> set zs \<Longrightarrow> K c = H c"
proof (cases zs)
  case Nil
  then show ?thesis using that [of H q] seg(1) by simp
next
  case (Cons d ds)
  then obtain sd where sd: "H d = Some sd" "n = Some d" using seg(1) by (auto split: option.splits)
  show ?thesis
  proof (rule that)
    show "seg (H(d \<mapsto> sd\<lparr>bin_prev := q\<rparr>)) q n zs None l"
      unfolding Cons sd(2) by (rule seg_set_prev [OF seg(1) [unfolded Cons sd(2)] sd(1)]) (use seg(2) Cons in auto)
    show "same_data (H(d \<mapsto> sd\<lparr>bin_prev := q\<rparr>)) H" by (rule same_data_upd [where H' = H and s = sd]) (use sd(1) in simp_all)
    show "(H(d \<mapsto> sd\<lparr>bin_prev := q\<rparr>)) c = H c" if "c \<notin> set zs" for c using that Cons by auto
  qed (use sd in simp)
qed

lemma same_data_trans: "same_data K G \<Longrightarrow> same_data G H \<Longrightarrow> same_data K H"
  by (simp add: same_data_def)

lemma bin_list_remove_ok:
  fixes gs :: "('u, 'f) group_scheduler"
  assumes idx: "unat idx < length (bin_heads gs)"
    and xs: "dll (sessions gs) (bin_heads gs ! unat idx) xs" "distinct xs"
    and a: "a \<in> set xs"
  obtains H' h' where
    "bin_list_remove idx a gs = Some (gs\<lparr>sessions := H', bin_heads := (bin_heads gs)[unat idx := h']\<rparr>)"
    "dll H' h' (remove1 a xs)" "same_data H' (sessions gs)"
    "\<And>c. c \<notin> set xs \<Longrightarrow> H' c = sessions gs c"
proof -
  let ?H = "sessions gs" and ?h = "bin_heads gs ! unat idx"
  obtain ys zs where split: "xs = ys @ a # zs" using a by (auto simp: in_set_conv_decomp)
  have rem: "remove1 a xs = ys @ zs" using xs(2) split by (simp add: remove1_append)
  have an: "a \<notin> set ys" "a \<notin> set zs" and dn: "distinct ys" "distinct zs" "set ys \<inter> set zs = {}"
    using xs(2) split by auto
  obtain l where l: "seg ?H None ?h xs None l" using dll_segD [OF xs(1)] by blast
  obtain s where s: "?H a = Some s" "seg ?H None ?h ys (Some a) (bin_prev s)" "seg ?H (Some a) (bin_next s) zs None l"
    using l split by (auto simp: seg_append split: option.splits)
  obtain G h1 where G: "(case bin_prev s of
         Some p \<Rightarrow> do { H \<leftarrow> modify_session p (\<lambda>r. r\<lparr>bin_next := bin_next s\<rparr>) ?H; Some (H, bin_heads gs) }
       | None \<Rightarrow> do { heads \<leftarrow> arr_set (bin_heads gs) (unat idx) (bin_next s); Some (?H, heads) }) =
       Some (G, (bin_heads gs)[unat idx := h1])"
      "seg G None h1 ys (bin_next s) (bin_prev s)" "same_data G ?H" "\<And>c. c \<notin> set ys \<Longrightarrow> G c = ?H c"
    by (rule skip_next [OF idx s(2) dn(1), of "bin_next s"]) (rule that)
  have "G c = ?H c" if "c \<in> set zs" for c using that dn(3) by (intro G(4)) auto
  then have "seg G (Some a) (bin_next s) zs None l" using s(3) by (subst seg_cong [of _ _ ?H]) simp_all
  then obtain K m where K: "(case bin_next s of Some n \<Rightarrow> modify_session n (\<lambda>r. r\<lparr>bin_prev := bin_prev s\<rparr>) G | None \<Rightarrow> Some G) = Some K"
      "seg K (bin_prev s) (bin_next s) zs None m" "same_data K G" "\<And>c. c \<notin> set zs \<Longrightarrow> K c = G c"
    by (rule skip_prev [OF _ dn(2), where q = "bin_prev s"]) (rule that)
  define J where "J = K(a \<mapsto> unlinked s)"
  have Ka: "G a = Some s" "K a = Some s" using K(4) G(4) s(1) an by simp_all
  have "seg J (bin_prev s) (bin_next s) zs None m" using K(2) an by (subst seg_cong [of _ _ K]) (auto simp: J_def)
  moreover have "seg J None h1 ys (bin_next s) (bin_prev s)"
    using G(2) an dn(3) by (subst seg_cong [of _ _ G]) (auto simp: J_def K(4) disjoint_iff)
  ultimately have list: "dll J h1 (remove1 a xs)" unfolding rem dll_def by (metis seg_append)
  show ?thesis
  proof (rule that [OF _ list])
    show "bin_list_remove idx a gs = Some (gs\<lparr>sessions := J, bin_heads := (bin_heads gs)[unat idx := h1]\<rparr>)"
      using s(1) G(1) Ka K(1) by (simp add: bin_list_remove_def J_def unlinked_def)
    show "same_data J ?H"
      unfolding J_def by (rule same_data_upd [OF same_data_trans [OF K(3) G(3)] Ka(2)]) (simp add: unlinked_def)
    show "J c = ?H c" if "c \<notin> set xs" for c using that split K(4) G(4) by (simp add: J_def)
  qed
qed

section \<open>Walking a list\<close>

text \<open>\<open>while (p != NULL && ! P (*p)) p = p->bin_next;\<close>\<close>

partial_function (option) skip_while ::
  "(('u, 'f) session_state \<Rightarrow> bool) \<Rightarrow> ('u, 'f) session_heap \<Rightarrow> addr option \<Rightarrow> addr option option" where
  "skip_while P H p =
     (case p of
        None \<Rightarrow> Some None
      | Some a \<Rightarrow> do { s \<leftarrow> H a; if P s then skip_while P H (bin_next s) else Some (Some a) })"

lemma skip_while_eq:
  "seg H p h xs None l \<Longrightarrow> skip_while P H h = Some (List.find (\<lambda>a. \<not> P (the (H a))) xs)"
proof (induction xs arbitrary: p h)
  case Nil
  then show ?case using skip_while.simps [of P H h] by simp
next
  case (Cons a xs)
  then obtain s where s: "h = Some a" "H a = Some s" "seg H (Some a) (bin_next s) xs None l"
    by (auto split: option.splits)
  have "skip_while P H h = (if P s then skip_while P H (bin_next s) else Some (Some a))"
    using skip_while.simps [of P H h] s by simp
  then show ?case using Cons.IH [OF s(3)] s(2) by simp
qed

text \<open>\<open>while (p != NULL) { body; p = p->bin_next; }\<close> over an accumulator.\<close>

partial_function (option) fold_list ::
  "(('u, 'f) session_state \<Rightarrow> 'b \<Rightarrow> 'b) \<Rightarrow> ('u, 'f) session_heap \<Rightarrow> addr option \<Rightarrow> 'b \<Rightarrow> 'b option" where
  "fold_list f H p acc =
     (case p of
        None \<Rightarrow> Some acc
      | Some a \<Rightarrow> do { s \<leftarrow> H a; fold_list f H (bin_next s) (f s acc) })"

lemma fold_list_eq:
  "seg H p h xs None l \<Longrightarrow> fold_list f H h acc = Some (fold (\<lambda>a. f (the (H a))) xs acc)"
proof (induction xs arbitrary: p h acc)
  case Nil
  then show ?case using fold_list.simps [of f H h acc] by simp
next
  case (Cons a xs)
  then obtain s where s: "h = Some a" "H a = Some s" "seg H (Some a) (bin_next s) xs None l"
    by (auto split: option.splits)
  have "fold_list f H h acc = fold_list f H (bin_next s) (f s acc)"
    using fold_list.simps [of f H h acc] s by simp
  then show ?case using Cons.IH [OF s(3)] s(2) by simp
qed

end
