(* ===== verification/Session_Queue.thy ===== *)
theory Session_Queue
  imports Session_Lists
begin

text \<open>
  The contract between the calendar and the group scheduler: a set of session addresses with an
  insertion and a removal that keep the times of every session (\<open>key\<close>).  \<open>fits\<close> is what the calendar
  asks of a session before it takes it.  The laws are stated for one operation; the locale extends
  them to any sequence of them.
\<close>

datatype queue_request = Insert addr | Remove addr

fun queue_step ::
  "(addr \<Rightarrow> 's \<Rightarrow> ((hwfq_error + unit) \<times> 's) option) \<Rightarrow> (addr \<Rightarrow> 's \<Rightarrow> ((hwfq_error + unit) \<times> 's) option) \<Rightarrow>
   queue_request \<Rightarrow> 's \<Rightarrow> 's option" where
  "queue_step ins rem (Insert a) q = map_option snd (ins a q)"
| "queue_step ins rem (Remove a) q = map_option snd (rem a q)"

fun queue_run ::
  "(addr \<Rightarrow> 's \<Rightarrow> ((hwfq_error + unit) \<times> 's) option) \<Rightarrow> (addr \<Rightarrow> 's \<Rightarrow> ((hwfq_error + unit) \<times> 's) option) \<Rightarrow>
   queue_request list \<Rightarrow> 's \<Rightarrow> 's option" where
  "queue_run ins rem [] q = Some q"
| "queue_run ins rem (r # rs) q = do { q' \<leftarrow> queue_step ins rem r q; queue_run ins rem rs q' }"

text \<open>The same requests on the abstract set, and when the owner of the sessions may make them.\<close>

fun set_step :: "queue_request \<Rightarrow> addr set \<Rightarrow> addr set" where
  "set_step (Insert a) A = insert a A"
| "set_step (Remove a) A = A - {a}"

fun may_request :: "(addr \<Rightarrow> bool) \<Rightarrow> addr set \<Rightarrow> queue_request list \<Rightarrow> bool" where
  "may_request F A [] \<longleftrightarrow> True"
| "may_request F A (r # rs) \<longleftrightarrow>
     (case r of Insert a \<Rightarrow> a \<notin> A \<and> F a | Remove a \<Rightarrow> a \<in> A) \<and> may_request F (set_step r A) rs"

locale session_queue =
  fixes ins :: "addr \<Rightarrow> 's \<Rightarrow> ((hwfq_error + unit) \<times> 's) option"
    and rem :: "addr \<Rightarrow> 's \<Rightarrow> ((hwfq_error + unit) \<times> 's) option"
    and contents :: "'s \<Rightarrow> addr set"
    and fits :: "'s \<Rightarrow> addr \<Rightarrow> bool"
    and key :: "'s \<Rightarrow> addr \<Rightarrow> 'k"
    and inv :: "'s \<Rightarrow> bool"
  assumes insert_law: "inv q \<Longrightarrow> a \<notin> contents q \<Longrightarrow> fits q a \<Longrightarrow>
      \<exists>q'. ins a q = Some (Inr (), q') \<and> inv q' \<and> contents q' = insert a (contents q) \<and>
        key q' = key q \<and> fits q' = fits q"
    and remove_law: "inv q \<Longrightarrow> a \<in> contents q \<Longrightarrow>
      \<exists>q'. rem a q = Some (Inr (), q') \<and> inv q' \<and> contents q' = contents q - {a} \<and>
        key q' = key q \<and> fits q' = fits q"
begin

lemma run_refines:
  assumes "inv q" "may_request (fits q) (contents q) rs"
  shows "\<exists>q'. queue_run ins rem rs q = Some q' \<and> inv q' \<and>
    contents q' = fold set_step rs (contents q) \<and> key q' = key q \<and> fits q' = fits q"
  using assms
proof (induction rs arbitrary: q)
  case Nil
  then show ?case by simp
next
  case (Cons r rs)
  obtain q1 where q1: "queue_step ins rem r q = Some q1" "inv q1" "contents q1 = set_step r (contents q)"
      "key q1 = key q" "fits q1 = fits q"
    using insert_law [OF Cons.prems(1)] remove_law [OF Cons.prems(1)] Cons.prems(2)
    by (cases r) force+
  then show ?case using Cons.IH [OF q1(2)] Cons.prems(2) by auto
qed

text \<open>Inserting a session and removing it again leaves the contents as they were.\<close>

lemma insert_remove:
  assumes "inv q" "a \<notin> contents q" "fits q a"
  shows "\<exists>q1 q2. ins a q = Some (Inr (), q1) \<and> rem a q1 = Some (Inr (), q2) \<and> inv q2 \<and>
    contents q2 = contents q \<and> key q2 = key q"
proof -
  obtain q1 where q1: "ins a q = Some (Inr (), q1)" "inv q1" "contents q1 = insert a (contents q)" "key q1 = key q"
    using insert_law [OF assms] by blast
  then show ?thesis using remove_law [OF q1(2), of a] assms(2) by auto
qed

end

end
