(* ===== verification/Calendar.thy ===== *)
theory Calendar
  imports Session_Queue Bit_Arrays
begin

text \<open>
  \<^verbatim>\<open>src/hwfq_group_calendar.c\<close>: the calendar queue of a group scheduler.  A session is put in the bin
  that its group and its finish time select; two levels of bitmaps say which bins are not empty; the
  search follows the bitmaps and takes, among the sessions whose start time has been reached, one
  with the least finish time.

  \<open>cal_inv\<close> is the invariant that ties bins, lists and bitmaps together, \<open>queued\<close> the abstract set
  of sessions in the calendar; the lemmas about \<open>calendar_insert_session\<close>,
  \<open>calendar_remove_session\<close> and \<open>calendar_find_min_session\<close> say what they do to it.
\<close>

section \<open>Bitfield operations\<close>

definition set_bin_bit :: "u32 list \<Rightarrow> u32 \<Rightarrow> u32 list option" where
  "set_bin_bit bitfield idx =
     (let word_index = idx div 32; bit_offset = idx mod 32 in do {
        w \<leftarrow> arr_get bitfield (unat word_index);
        arr_set bitfield (unat word_index) (w OR push_bit (unat bit_offset) 1)
      })"

definition clear_bin_bit :: "u32 list \<Rightarrow> u32 \<Rightarrow> u32 list option" where
  "clear_bin_bit bitfield idx =
     (let word_index = idx div 32; bit_offset = idx mod 32 in do {
        w \<leftarrow> arr_get bitfield (unat word_index);
        arr_set bitfield (unat word_index) (w AND NOT (push_bit (unat bit_offset) 1))
      })"

definition test_bin_bit :: "u32 list \<Rightarrow> u32 \<Rightarrow> bool option" where
  "test_bin_bit bitfield idx =
     (let word_index = idx div 32; bit_offset = idx mod 32 in do {
        w \<leftarrow> arr_get bitfield (unat word_index);
        Some (w AND push_bit (unat bit_offset) 1 \<noteq> 0)
      })"

definition find_first_set_bit :: "u32 \<Rightarrow> u32" where
  "find_first_set_bit v = (if v = 0 then 32 else word_of_nat (ctz v))"

section \<open>Group and bin index\<close>

definition calculate_group_index_from_interval :: "u64 \<Rightarrow> u64 \<Rightarrow> u32 option" where
  "calculate_group_index_from_interval interval base =
     (if base = 0 then Some 0
      else if interval \<le> base then Some 0
      else do {
        let ratio = interval div base;
        z \<leftarrow> builtin_clzll ratio;
        let grp = word_of_nat (63 - z);
        Some (if 15 < grp then 15 else grp)
      })"

definition calculate_bin_index_from_finish_time :: "u64 \<Rightarrow> u32 \<Rightarrow> u32 \<Rightarrow> u64 \<Rightarrow> u32 option" where
  "calculate_bin_index_from_finish_time finish grp bins base =
     (if bins = 0 \<or> base = 0 then Some 0
      else if 64 \<le> grp + 1 then None
      else
        let span = push_bit (unat (grp + 1)) base;
            bin_size = span div ucast bins;
            bin_size = (if bin_size = 0 then 1 else bin_size)
        in
          if span = 0 then None
          else
            let offset = finish mod span;
                bin = ucast (offset div bin_size) :: u32
            in Some (if bins \<le> bin then bins - 1 else bin))"

section \<open>Queue operations\<close>

text \<open>Setting and clearing the bit of a 32-bin group.\<close>

definition set_group_bit :: "u32 \<Rightarrow> u32 list \<Rightarrow> u32 list option" where
  "set_group_bit word_idx bitfield =
     (let group_word = word_idx div 32; group_bit = word_idx mod 32 in
      if group_word < 32 then do {
        w \<leftarrow> arr_get bitfield (unat group_word);
        arr_set bitfield (unat group_word) (w OR push_bit (unat group_bit) 1)
      } else Some bitfield)"

definition clear_group_bit :: "u32 \<Rightarrow> u32 list \<Rightarrow> u32 list option" where
  "clear_group_bit word_idx bitfield =
     (let group_word = word_idx div 32; group_bit = word_idx mod 32 in
      if group_word < 32 then do {
        w \<leftarrow> arr_get bitfield (unat group_word);
        arr_set bitfield (unat group_word) (w AND NOT (push_bit (unat group_bit) 1))
      } else Some bitfield)"

definition calendar_insert_session ::
  "addr \<Rightarrow> ('u, 'f) group_scheduler \<Rightarrow> ((hwfq_error + unit) \<times> ('u, 'f) group_scheduler) option" where
  "calendar_insert_session session gs = do {
     s \<leftarrow> sessions gs session;
     bin_offset \<leftarrow> calculate_bin_index_from_finish_time
       (finish_time s) (group_index s) (bins_per_group gs) (base_interval gs);
     let idx = group_index s * bins_per_group gs + bin_offset;
     if num_bins gs \<le> idx then Some (Inl HWFQ_ERR_INTERNAL, gs)
     else do {
       H \<leftarrow> modify_session session (\<lambda>s. s\<lparr>bin_index := idx\<rparr>) (sessions gs);
       gs \<leftarrow> bin_list_insert idx session (gs\<lparr>sessions := H\<rparr>);
       bits \<leftarrow> set_bin_bit (bin_bitfield gs) idx;
       groups \<leftarrow> set_group_bit (idx div 32) (group_bitfield gs);
       let gs = gs\<lparr>bin_bitfield := bits, group_bitfield := groups\<rparr>;
       let gs = (if finish_time s < min_finish_time gs
         then gs\<lparr>min_finish_time := finish_time s, min_session := Some session\<rparr> else gs);
       let gs = (if start_time s < min_start_time gs
         then gs\<lparr>min_start_time := start_time s\<rparr> else gs);
       Some (Inr (), gs)
     }
   }"

text \<open>
  The loop over the bits of a word that may \<open>break\<close>: the body also says whether to go on.
\<close>

function for_bits_break :: "'a::len word \<Rightarrow> (nat \<Rightarrow> 's \<Rightarrow> ('s \<times> bool) option) \<Rightarrow> 's \<Rightarrow> 's option" where
  "for_bits_break w body s =
     (if w = 0 then Some s
      else do {
        b \<leftarrow> builtin_ctz w;
        (s', go_on) \<leftarrow> body b s;
        if go_on then for_bits_break (w AND NOT (push_bit b 1)) body s' else Some s'
      })"
  by pat_completeness auto
termination
proof (relation "measure (\<lambda>(w, body, s). unat w)", goal_cases)
  case (2 w body s b s')
  then have "bit w b" using ctz_spec(1) [of w] by (auto simp: builtin_ctz_def)
  then show ?case using and_not_bit_less by (simp add: word_less_nat_alt)
qed simp

declare for_bits_break.simps [simp del]

text \<open>
  \<open>find_eligible_min_bitfield\<close>, whose state is the best session so far with its finish time: one
  bin, one word of the bin bitmap, one word of the group bitmap, all words.
\<close>

definition scan_bin ::
  "('u, 'f) group_scheduler \<Rightarrow> u64 \<Rightarrow> u32 \<Rightarrow> addr option \<times> u64 \<Rightarrow> (addr option \<times> u64) option" where
  "scan_bin gs now idx best = (case best of (eligible_min, min_eligible_finish) \<Rightarrow> do {
     head \<leftarrow> arr_get (bin_heads gs) (unat idx);
     cand \<leftarrow> skip_while (\<lambda>s. now < start_time s) (sessions gs) head;
     case cand of
       None \<Rightarrow> Some best
     | Some c \<Rightarrow> do {
         s \<leftarrow> sessions gs c;
         Some (if finish_time s < min_eligible_finish then (cand, finish_time s) else best)
       }
   })"

definition scan_word ::
  "('u, 'f) group_scheduler \<Rightarrow> u64 \<Rightarrow> u32 \<Rightarrow> addr option \<times> u64 \<Rightarrow> (addr option \<times> u64) option" where
  "scan_word gs now bin_group_idx best =
     (let bin_start = bin_group_idx * 32;
          bin_end = bin_start + 32;
          bin_end = (if num_bins gs < bin_end then num_bins gs else bin_end);
          word_idx = bin_start div 32
      in do {
        bin_bits \<leftarrow> arr_get (bin_bitfield gs) (unat word_idx);
        for_bits_break bin_bits (\<lambda>bit_pos best.
          let bin_idx = word_idx * 32 + word_of_nat bit_pos in
          if bin_end \<le> bin_idx then Some (best, False)
          else do { best \<leftarrow> scan_bin gs now bin_idx best; Some (best, True) }) best
      })"

definition find_eligible_min_bitfield ::
  "('u, 'f) group_scheduler \<Rightarrow> u64 \<Rightarrow> addr option option" where
  "find_eligible_min_bitfield gs now = do {
     (eligible_min, _) \<leftarrow> foldM (\<lambda>gword best. do {
         group_bits \<leftarrow> arr_get (group_bitfield gs) gword;
         if group_bits = 0 then Some best
         else for_bits group_bits (\<lambda>group_bit best.
           scan_word gs now (word_of_nat gword * 32 + word_of_nat group_bit) best) best
       }) [0..<32] (None, UINT64_MAX);
     Some eligible_min
   }"

definition calendar_find_min_session ::
  "('u, 'f) group_scheduler \<Rightarrow> (addr option \<times> ('u, 'f) group_scheduler) option" where
  "calendar_find_min_session gs =
     (if active_session_count gs = 0 then Some (None, gs)
      else do {
        eligible_min \<leftarrow> find_eligible_min_bitfield gs (virtual_time gs);
        (eligible_min, gs) \<leftarrow>
          (if eligible_min = None \<and> min_start_time gs \<noteq> UINT64_MAX then do {
             let (now, gs) = (if virtual_time gs < min_start_time gs
               then (min_start_time gs, gs\<lparr>virtual_time := min_start_time gs\<rparr>)
               else (virtual_time gs, gs));
             eligible_min \<leftarrow> find_eligible_min_bitfield gs now;
             Some (eligible_min, gs)
           } else Some (eligible_min, gs));
        case eligible_min of
          None \<Rightarrow> Some (None, gs)
        | Some a \<Rightarrow> do { s \<leftarrow> sessions gs a; Some (Some a, gs\<lparr>min_finish_time := finish_time s\<rparr>) }
      })"

text \<open>The recomputation of \<open>min_start_time\<close> over all bins, in the same three levels.\<close>

definition min_start_bin :: "('u, 'f) group_scheduler \<Rightarrow> u32 \<Rightarrow> u64 \<Rightarrow> u64 option" where
  "min_start_bin gs idx least =
     (if idx < num_bins gs then do {
        head \<leftarrow> arr_get (bin_heads gs) (unat idx);
        fold_list (\<lambda>s least. if start_time s < least then start_time s else least) (sessions gs) head least
      } else Some least)"

definition min_start_word :: "('u, 'f) group_scheduler \<Rightarrow> u32 \<Rightarrow> u64 \<Rightarrow> u64 option" where
  "min_start_word gs word_idx least =
     (if word_idx < bin_bitfield_size gs then do {
        bin_bits \<leftarrow> arr_get (bin_bitfield gs) (unat word_idx);
        for_bits bin_bits (\<lambda>bit_pos least.
          min_start_bin gs (word_idx * 32 + word_of_nat bit_pos) least) least
      } else Some least)"

definition recompute_min_start :: "('u, 'f) group_scheduler \<Rightarrow> u64 option" where
  "recompute_min_start gs =
     foldM (\<lambda>gword least. do {
         group_bits \<leftarrow> arr_get (group_bitfield gs) gword;
         if group_bits = 0 then Some least
         else for_bits group_bits (\<lambda>group_bit least.
           min_start_word gs (word_of_nat gword * 32 + word_of_nat group_bit) least) least
       }) [0..<32] UINT64_MAX"

definition calendar_remove_session ::
  "addr \<Rightarrow> ('u, 'f) group_scheduler \<Rightarrow> ((hwfq_error + unit) \<times> ('u, 'f) group_scheduler) option" where
  "calendar_remove_session session gs = do {
     s \<leftarrow> sessions gs session;
     let idx = bin_index s;
     if num_bins gs \<le> idx then Some (Inl HWFQ_ERR_INTERNAL, gs)
     else do {
       gs \<leftarrow> bin_list_remove idx session gs;
       empty \<leftarrow> bin_list_is_empty idx gs;
       gs \<leftarrow> (if empty then do {
           bits \<leftarrow> clear_bin_bit (bin_bitfield gs) idx;
           let gs = gs\<lparr>bin_bitfield := bits\<rparr>;
           let word_idx = idx div 32;
           word_empty \<leftarrow> (if word_idx < bin_bitfield_size gs
             then do { w \<leftarrow> arr_get (bin_bitfield gs) (unat word_idx); Some (w = 0) }
             else Some False);
           if word_empty then do {
             groups \<leftarrow> clear_group_bit word_idx (group_bitfield gs);
             Some (gs\<lparr>group_bitfield := groups\<rparr>)
           } else Some gs
         } else Some gs);
       let gs = (if Some session = min_session gs
         then gs\<lparr>min_session := None, min_finish_time := UINT64_MAX\<rparr> else gs);
       gs \<leftarrow> (if start_time s = min_start_time gs then do {
           least \<leftarrow> recompute_min_start (gs\<lparr>min_start_time := UINT64_MAX\<rparr>);
           Some (gs\<lparr>min_start_time := least\<rparr>)
         } else Some gs);
       Some (Inr (), gs)
     }
   }"

section \<open>The bitmaps as sets of bins\<close>

lemma bin_bit_ops:
  assumes "unat i div 32 < length xs"
  shows "set_bin_bit xs i = Some (set_abit (unat i) xs)"
    "clear_bin_bit xs i = Some (clear_abit (unat i) xs)"
    "test_bin_bit xs i = Some (abit xs (unat i))"
proof -
  show "test_bin_bit xs i = Some (abit xs (unat i))"
    using assms by (simp add: test_bin_bit_def abit_def unat_div unat_mod and_exp_eq_0_iff_not_bit)
qed (use assms in \<open>simp_all add: set_bin_bit_def clear_bin_bit_def set_abit_def clear_abit_def unat_div unat_mod\<close>)

lemma group_bit_ops:
  assumes "length xs = 32" "unat i < 1024"
  shows "set_group_bit i xs = Some (set_abit (unat i) xs)"
    "clear_group_bit i xs = Some (clear_abit (unat i) xs)"
proof -
  have "unat i div 32 < 32" using assms(2) by (simp add: less_mult_imp_div_less)
  then show "set_group_bit i xs = Some (set_abit (unat i) xs)"
    "clear_group_bit i xs = Some (clear_abit (unat i) xs)"
    using assms by (simp_all add: set_group_bit_def clear_group_bit_def set_abit_def clear_abit_def
      unat_div unat_mod word_less_nat_alt Let_def)
qed

lemma for_bits_break_all:
  assumes "\<And>b s. bit w b \<Longrightarrow> body b s = map_option (\<lambda>s'. (s', True)) (f b s)"
  shows "for_bits_break w body s = foldM f (set_bits w) s"
  using assms
proof (induction w body s rule: for_bits_break.induct)
  case (1 w body s)
  show ?case
  proof (cases "w = 0")
    case True
    then show ?thesis by (simp add: for_bits_break.simps)
  next
    case False
    note c = ctz_spec(1) [OF False]
    show ?thesis
    proof (cases "f (ctz w) s")
      case None
      then show ?thesis
        using 1(2) [OF c] False by (simp add: for_bits_break.simps [of w] set_bits_step [OF False])
    next
      case (Some s')
      have "for_bits_break (w AND NOT (push_bit (ctz w) 1)) body s' =
          foldM f (set_bits (w AND NOT (push_bit (ctz w) 1))) s'"
        by (rule 1(1) [of "ctz w" "(s', True)" s' True])
          (use False Some 1(2) c in \<open>auto simp: bit_andnot_one\<close>)
      then show ?thesis
        using 1(2) [OF c] False Some by (simp add: for_bits_break.simps [of w] set_bits_step [OF False])
    qed
  qed
qed

lemma foldM_concat: "foldM (\<lambda>x. foldM f (g x)) xs s = foldM f (concat (map g xs)) s"
  by (induction xs arbitrary: s) (auto simp: foldM_append intro: Option.bind_cong)

lemma foldM_map: "foldM f (map h xs) s = foldM (\<lambda>x. f (h x)) xs s"
  by (induction xs arbitrary: s) (auto intro: Option.bind_cong)

text \<open>The bins in the order in which the two bitmaps lead to them.\<close>

definition active_bins :: "('u, 'f) group_scheduler \<Rightarrow> nat list" where
  "active_bins gs = concat (map (\<lambda>gw. concat (map (\<lambda>gb.
      map (\<lambda>b. (gw * 32 + gb) * 32 + b) (set_bits (bin_bitfield gs ! (gw * 32 + gb))))
    (set_bits (group_bitfield gs ! gw)))) [0..<32])"

definition cal_shape :: "('u, 'f) group_scheduler \<Rightarrow> bool" where
  "cal_shape gs \<longleftrightarrow>
     length (bin_heads gs) = unat (num_bins gs) \<and> unat (num_bins gs) \<le> 32768 \<and>
     length (bin_bitfield gs) = unat (bin_bitfield_size gs) \<and>
     unat (bin_bitfield_size gs) = (unat (num_bins gs) + 31) div 32 \<and>
     length (group_bitfield gs) = 32"

text \<open>Bits stand for the non-empty bins, group bits for the words that have a bit.\<close>

definition cal_bits :: "('u, 'f) group_scheduler \<Rightarrow> (nat \<Rightarrow> addr list) \<Rightarrow> bool" where
  "cal_bits gs L \<longleftrightarrow>
     (\<forall>i. abit (bin_bitfield gs) i \<longleftrightarrow> L i \<noteq> []) \<and>
     (\<forall>w. abit (group_bitfield gs) w \<longleftrightarrow> (\<exists>i. i div 32 = w \<and> abit (bin_bitfield gs) i))"

lemma cal_shapeD:
  assumes "cal_shape gs"
  shows "length (bin_heads gs) = unat (num_bins gs)" "unat (num_bins gs) \<le> 32768"
    "length (bin_bitfield gs) = unat (bin_bitfield_size gs)" "length (group_bitfield gs) = 32"
    "\<And>i. i < unat (num_bins gs) \<Longrightarrow> i div 32 < length (bin_bitfield gs)"
    "unat (bin_bitfield_size gs) \<le> 1024"
proof -
  show "i div 32 < length (bin_bitfield gs)" if "i < unat (num_bins gs)" for i
    using assms that by (simp add: cal_shape_def)
qed (use assms in \<open>auto simp: cal_shape_def\<close>)

lemma group_word_active:
  assumes "cal_shape gs" "cal_bits gs L" "gw < 32" "bit (group_bitfield gs ! gw) gb"
  shows "gw * 32 + gb < unat (bin_bitfield_size gs)" "gb < 32"
proof -
  show gb: "gb < 32" using bit_imp_le_length [OF assms(4)] by simp
  have "abit (group_bitfield gs) (gw * 32 + gb)"
    using assms(1,3,4) gb by (simp add: abit_def cal_shape_def)
  then obtain i where "i div 32 = gw * 32 + gb" "abit (bin_bitfield gs) i"
    using assms(2) by (auto simp: cal_bits_def)
  then show "gw * 32 + gb < unat (bin_bitfield_size gs)"
    using assms(1) by (simp add: abit_def cal_shape_def)
qed

lemma bin_word_active:
  assumes "cal_shape gs" "k < unat (bin_bitfield_size gs)" "bit (bin_bitfield gs ! k) b"
  shows "abit (bin_bitfield gs) (k * 32 + b)" "b < 32"
proof -
  show b: "b < 32" using bit_imp_le_length [OF assms(3)] by simp
  then show "abit (bin_bitfield gs) (k * 32 + b)" using assms by (simp add: abit_def cal_shape_def)
qed

lemma active_bins_iff:
  "i \<in> set (active_bins gs) \<longleftrightarrow> (\<exists>gw gb b. gw < 32 \<and> bit (group_bitfield gs ! gw) gb \<and>
     bit (bin_bitfield gs ! (gw * 32 + gb)) b \<and> i = (gw * 32 + gb) * 32 + b)"
  by (fastforce simp: active_bins_def)

lemma set_active_bins:
  assumes "cal_shape gs" "cal_bits gs L"
  shows "set (active_bins gs) = {i. L i \<noteq> []}"
proof (intro equalityI subsetI)
  fix i assume "i \<in> set (active_bins gs)"
  then obtain gw gb b where "gw < 32" "bit (group_bitfield gs ! gw) gb"
      "bit (bin_bitfield gs ! (gw * 32 + gb)) b" "i = (gw * 32 + gb) * 32 + b"
    by (auto simp: active_bins_iff)
  then have "abit (bin_bitfield gs) i"
    using group_word_active [OF assms] bin_word_active [OF assms(1)] by metis
  then show "i \<in> {i. L i \<noteq> []}" using assms(2) by (simp add: cal_bits_def)
next
  fix i assume "i \<in> {i. L i \<noteq> []}"
  then have i: "abit (bin_bitfield gs) i" using assms(2) by (simp add: cal_bits_def)
  let ?k = "i div 32"
  have "abit (group_bitfield gs) ?k" using assms(2) i by (auto simp: cal_bits_def)
  then have g: "?k div 32 < 32" "bit (group_bitfield gs ! (?k div 32)) (?k mod 32)"
    using assms(1) by (simp_all add: abit_def cal_shape_def)
  have b: "bit (bin_bitfield gs ! ?k) (i mod 32)" using i by (simp add: abit_def)
  have e: "?k div 32 * 32 + ?k mod 32 = ?k" "?k * 32 + i mod 32 = i" by simp_all
  show "i \<in> set (active_bins gs)"
    unfolding active_bins_iff
    by (intro exI [of _ "?k div 32"] exI [of _ "?k mod 32"] exI [of _ "i mod 32"]) (use g b e in simp)
qed

text \<open>Both searches are folds over the active bins.\<close>

lemma unat_of_nat_small: "n < 2 ^ 32 \<Longrightarrow> unat (word_of_nat n :: u32) = n"
  by (simp add: unsigned_of_nat take_bit_nat_eq_self)

lemma word_index_nat:
  "(word_of_nat gw * 32 + word_of_nat gb :: u32) = word_of_nat (gw * 32 + gb)"
  by simp

lemma scan_word_eq:
  assumes sh: "cal_shape gs" and bits: "cal_bits gs L" and L: "\<forall>i. L i \<noteq> [] \<longrightarrow> i < unat (num_bins gs)"
    and k: "k < unat (bin_bitfield_size gs)"
  shows "scan_word gs now (word_of_nat k) best =
    foldM (\<lambda>b. scan_bin gs now (word_of_nat (k * 32 + b))) (set_bits (bin_bitfield gs ! k)) best"
proof -
  have k1: "k < 1024" using cal_shapeD(6) [OF sh] k by simp
  define w where "w = (word_of_nat k :: u32)"
  have w: "unat w = k" using k1 by (simp add: w_def unat_of_nat_small)
  have w32: "unat (w * 32) = k * 32" using w k1 by (simp add: unat_mult_no_wrap)
  then have wi: "w * 32 div 32 = w" by (simp add: word_unat_eq_iff unat_div w)
  have we: "unat (w * 32 + 32) = k * 32 + 32" using w32 k1 by (simp add: unat_add_no_wrap)
  define e where "e = (if num_bins gs < w * 32 + 32 then num_bins gs else w * 32 + 32)"
  have go: "\<not> e \<le> w * 32 + word_of_nat b" if "bit (bin_bitfield gs ! k) b" for b
  proof -
    have b: "b < 32" "abit (bin_bitfield gs) (k * 32 + b)"
      using bin_word_active [OF sh k that] by auto
    then have "k * 32 + b < unat (num_bins gs)" using L bits by (simp add: cal_bits_def)
    moreover have "unat (w * 32 + word_of_nat b) = k * 32 + b"
      using b w32 k1 by (simp add: unat_add_no_wrap unat_of_nat_small)
    ultimately show ?thesis using b(1) we by (simp add: e_def word_nat not_le)
  qed
  have "for_bits_break (bin_bitfield gs ! k) (\<lambda>bit_pos best.
          let bin_idx = w * 32 + word_of_nat bit_pos in
          if e \<le> bin_idx then Some (best, False)
          else do { best \<leftarrow> scan_bin gs now bin_idx best; Some (best, True) }) best =
      foldM (\<lambda>b. scan_bin gs now (w * 32 + word_of_nat b)) (set_bits (bin_bitfield gs ! k)) best"
    by (rule for_bits_break_all) (simp add: go Let_def map_conv_bind_option comp_def)
  then have "scan_word gs now w best =
      foldM (\<lambda>b. scan_bin gs now (w * 32 + word_of_nat b)) (set_bits (bin_bitfield gs ! k)) best"
    using k cal_shapeD(3) [OF sh]
    unfolding scan_word_def Let_def wi w e_def [symmetric] by simp
  then show ?thesis by (simp add: w_def mult.commute)
qed

lemma find_eligible_fold:
  assumes sh: "cal_shape gs" and bits: "cal_bits gs L" and L: "\<forall>i. L i \<noteq> [] \<longrightarrow> i < unat (num_bins gs)"
  shows "find_eligible_min_bitfield gs now =
    map_option fst (foldM (\<lambda>i. scan_bin gs now (word_of_nat i)) (active_bins gs) (None, UINT64_MAX))"
proof -
  have word: "(do { group_bits \<leftarrow> arr_get (group_bitfield gs) gw;
         if group_bits = 0 then Some best
         else for_bits group_bits (\<lambda>group_bit best.
           scan_word gs now (word_of_nat gw * 32 + word_of_nat group_bit) best) best }) =
      foldM (\<lambda>i. scan_bin gs now (word_of_nat i)) (concat (map (\<lambda>gb.
        map (\<lambda>b. (gw * 32 + gb) * 32 + b) (set_bits (bin_bitfield gs ! (gw * 32 + gb))))
        (set_bits (group_bitfield gs ! gw)))) best"
    if "gw \<in> set [0..<32]" for gw best
  proof -
    have gw: "gw < 32" "gw < length (group_bitfield gs)" using that cal_shapeD(4) [OF sh] by simp_all
    have "foldM (\<lambda>gb best. scan_word gs now (word_of_nat gw * 32 + word_of_nat gb) best)
          (set_bits (group_bitfield gs ! gw)) best =
        foldM (\<lambda>gb. foldM (\<lambda>i. scan_bin gs now (word_of_nat i))
          (map (\<lambda>b. (gw * 32 + gb) * 32 + b) (set_bits (bin_bitfield gs ! (gw * 32 + gb)))))
          (set_bits (group_bitfield gs ! gw)) best"
    proof (rule foldM_cong)
      fix gb s assume "gb \<in> set (set_bits (group_bitfield gs ! gw))"
      then have "gw * 32 + gb < unat (bin_bitfield_size gs)"
        using group_word_active(1) [OF sh bits gw(1)] by simp
      from scan_word_eq [OF sh bits L this]
      show "scan_word gs now (word_of_nat gw * 32 + word_of_nat gb) s =
          foldM (\<lambda>i. scan_bin gs now (word_of_nat i))
            (map (\<lambda>b. (gw * 32 + gb) * 32 + b) (set_bits (bin_bitfield gs ! (gw * 32 + gb)))) s"
        by (simp only: word_index_nat foldM_map)
    qed
    then show ?thesis
      using gw(2) by (simp add: for_bits_eq foldM_concat)
  qed
  show ?thesis
    unfolding find_eligible_min_bitfield_def active_bins_def foldM_concat [symmetric, of _ _ "[0..<32]"]
    by (subst foldM_cong [OF word], assumption)
      (simp add: map_option_bind map_conv_bind_option case_prod_unfold comp_def)
qed

lemma min_start_word_eq:
  assumes sh: "cal_shape gs" and k: "k < unat (bin_bitfield_size gs)"
  shows "min_start_word gs (word_of_nat k) least =
    foldM (\<lambda>b. min_start_bin gs (word_of_nat (k * 32 + b))) (set_bits (bin_bitfield gs ! k)) least"
proof -
  have k1: "k < 1024" using cal_shapeD(6) [OF sh] k by simp
  have w: "unat (word_of_nat k :: u32) = k" using k1 by (simp add: unat_of_nat_small)
  show ?thesis
    using k cal_shapeD(3) [OF sh]
    by (simp add: min_start_word_def w for_bits_eq word_less_nat_alt mult.commute)
qed

lemma recompute_min_start_fold:
  assumes sh: "cal_shape gs" and bits: "cal_bits gs L"
  shows "recompute_min_start gs =
    foldM (\<lambda>i. min_start_bin gs (word_of_nat i)) (active_bins gs) UINT64_MAX"
proof -
  have word: "(do { group_bits \<leftarrow> arr_get (group_bitfield gs) gw;
         if group_bits = 0 then Some least
         else for_bits group_bits (\<lambda>group_bit least.
           min_start_word gs (word_of_nat gw * 32 + word_of_nat group_bit) least) least }) =
      foldM (\<lambda>i. min_start_bin gs (word_of_nat i)) (concat (map (\<lambda>gb.
        map (\<lambda>b. (gw * 32 + gb) * 32 + b) (set_bits (bin_bitfield gs ! (gw * 32 + gb))))
        (set_bits (group_bitfield gs ! gw)))) least"
    if "gw \<in> set [0..<32]" for gw least
  proof -
    have gw: "gw < 32" "gw < length (group_bitfield gs)" using that cal_shapeD(4) [OF sh] by simp_all
    have "foldM (\<lambda>gb least. min_start_word gs (word_of_nat gw * 32 + word_of_nat gb) least)
          (set_bits (group_bitfield gs ! gw)) least =
        foldM (\<lambda>gb. foldM (\<lambda>i. min_start_bin gs (word_of_nat i))
          (map (\<lambda>b. (gw * 32 + gb) * 32 + b) (set_bits (bin_bitfield gs ! (gw * 32 + gb)))))
          (set_bits (group_bitfield gs ! gw)) least"
    proof (rule foldM_cong)
      fix gb s assume "gb \<in> set (set_bits (group_bitfield gs ! gw))"
      then have "gw * 32 + gb < unat (bin_bitfield_size gs)"
        using group_word_active(1) [OF sh bits gw(1)] by simp
      from min_start_word_eq [OF sh this]
      show "min_start_word gs (word_of_nat gw * 32 + word_of_nat gb) s =
          foldM (\<lambda>i. min_start_bin gs (word_of_nat i))
            (map (\<lambda>b. (gw * 32 + gb) * 32 + b) (set_bits (bin_bitfield gs ! (gw * 32 + gb)))) s"
        by (simp only: word_index_nat foldM_map)
    qed
    then show ?thesis
      using gw(2) by (simp add: for_bits_eq foldM_concat)
  qed
  show ?thesis
    unfolding recompute_min_start_def active_bins_def foldM_concat [symmetric, of _ _ "[0..<32]"]
    by (rule foldM_cong [OF word])
qed

section \<open>The invariant and the abstract queue\<close>

abbreviation start_of :: "('u, 'f) group_scheduler \<Rightarrow> addr \<Rightarrow> u64" where
  "start_of gs a \<equiv> start_time (the (sessions gs a))"

abbreviation finish_of :: "('u, 'f) group_scheduler \<Rightarrow> addr \<Rightarrow> u64" where
  "finish_of gs a \<equiv> finish_time (the (sessions gs a))"

text \<open>
  \<open>L b\<close> is the list of bin \<open>b\<close>, in ascending order of finish times; its sessions know their bin.
\<close>

definition cal_lists :: "('u, 'f) group_scheduler \<Rightarrow> (nat \<Rightarrow> addr list) \<Rightarrow> bool" where
  "cal_lists gs L \<longleftrightarrow> (\<forall>b.
     (if b < unat (num_bins gs) then dll (sessions gs) (bin_heads gs ! b) (L b) else L b = []) \<and>
     distinct (L b) \<and> sorted (map (finish_of gs) (L b)) \<and>
     (\<forall>a \<in> set (L b). \<exists>s. sessions gs a = Some s \<and> unat (bin_index s) = b))"

text \<open>The cached minimal start time is exact, and the cached session is one of the queue's.\<close>

definition cal_mins :: "('u, 'f) group_scheduler \<Rightarrow> (nat \<Rightarrow> addr list) \<Rightarrow> bool" where
  "cal_mins gs L \<longleftrightarrow>
     (\<forall>b. \<forall>a \<in> set (L b). min_start_time gs \<le> start_of gs a) \<and>
     (min_start_time gs = UINT64_MAX \<or> (\<exists>b. \<exists>a \<in> set (L b). start_of gs a = min_start_time gs)) \<and>
     (\<forall>a. min_session gs = Some a \<longrightarrow> (\<exists>b. a \<in> set (L b)))"

definition cal_wf :: "('u, 'f) group_scheduler \<Rightarrow> (nat \<Rightarrow> addr list) \<Rightarrow> bool" where
  "cal_wf gs L \<longleftrightarrow> cal_shape gs \<and> cal_lists gs L \<and> cal_bits gs L \<and> cal_mins gs L"

definition cal_inv :: "('u, 'f) group_scheduler \<Rightarrow> bool" where
  "cal_inv gs \<longleftrightarrow> (\<exists>L. cal_wf gs L)"

definition queued :: "('u, 'f) group_scheduler \<Rightarrow> addr set" where
  "queued gs = {a. \<exists>b < length (bin_heads gs). \<exists>xs. dll (sessions gs) (bin_heads gs ! b) xs \<and> a \<in> set xs}"

text \<open>
  A session is eligible when its start time has come.  The search compares strictly with
  \<open>UINT64_MAX\<close>, so that it can select only those of them whose finish time is below it.
\<close>

definition eligible :: "('u, 'f) group_scheduler \<Rightarrow> u64 \<Rightarrow> addr set" where
  "eligible gs now = {a \<in> queued gs. start_of gs a \<le> now}"

definition selectable :: "('u, 'f) group_scheduler \<Rightarrow> u64 \<Rightarrow> addr set" where
  "selectable gs now = {a \<in> queued gs. start_of gs a \<le> now \<and> finish_of gs a \<noteq> UINT64_MAX}"

lemma selectable_iff: "a \<in> selectable gs now \<longleftrightarrow> a \<in> eligible gs now \<and> finish_of gs a \<noteq> UINT64_MAX"
  by (auto simp: selectable_def eligible_def)

lemma selectable_empty: "selectable gs now = {} \<longleftrightarrow> (\<forall>c \<in> eligible gs now. finish_of gs c = UINT64_MAX)"
  by (auto simp: selectable_def eligible_def)

lemma selectable_least:
  assumes "\<And>c. c \<in> selectable gs now \<Longrightarrow> finish_of gs a \<le> finish_of gs c"
  shows "\<forall>c \<in> eligible gs now. finish_of gs a \<le> finish_of gs c"
proof
  fix c assume "c \<in> eligible gs now"
  then show "finish_of gs a \<le> finish_of gs c"
    using assms [of c] by (cases "finish_of gs c = UINT64_MAX") (simp_all add: selectable_iff)
qed

lemma cal_wfD:
  assumes "cal_wf gs L"
  shows "cal_shape gs" "cal_lists gs L" "cal_bits gs L" "cal_mins gs L"
  using assms by (simp_all add: cal_wf_def)

lemma cal_listsD:
  assumes "cal_lists gs L"
  shows "b < unat (num_bins gs) \<Longrightarrow> dll (sessions gs) (bin_heads gs ! b) (L b)"
    "L b \<noteq> [] \<Longrightarrow> b < unat (num_bins gs)" "distinct (L b)" "sorted (map (finish_of gs) (L b))"
    "a \<in> set (L b) \<Longrightarrow> \<exists>s. sessions gs a = Some s \<and> unat (bin_index s) = b"
  using assms unfolding cal_lists_def by (metis (full_types))+

lemma cal_lists_bin: "cal_lists gs L \<Longrightarrow> a \<in> set (L b) \<Longrightarrow> a \<in> set (L c) \<Longrightarrow> b = c"
  using cal_listsD(5) by (metis option.inject)

lemma queued_eq:
  assumes "cal_wf gs L"
  shows "queued gs = (\<Union>b. set (L b))"
proof (intro equalityI subsetI)
  note w = cal_wfD [OF assms]
  fix a assume "a \<in> queued gs"
  then obtain b xs where b: "b < unat (num_bins gs)" "dll (sessions gs) (bin_heads gs ! b) xs" "a \<in> set xs"
    using cal_shapeD(1) [OF w(1)] by (auto simp: queued_def)
  then have "xs = L b" using cal_listsD(1) [OF w(2)] dll_unique by blast
  then show "a \<in> (\<Union>b. set (L b))" using b(3) by blast
next
  note w = cal_wfD [OF assms]
  fix a assume "a \<in> (\<Union>b. set (L b))"
  then obtain b where b: "a \<in> set (L b)" by blast
  then have "b < unat (num_bins gs)" using cal_listsD(2) [OF w(2), of b] by (metis empty_iff empty_set)
  then show "a \<in> queued gs"
    using b cal_listsD(1) [OF w(2)] cal_shapeD(1) [OF w(1)] by (auto simp: queued_def)
qed

lemma queued_iff: "cal_wf gs L \<Longrightarrow> a \<in> queued gs \<longleftrightarrow> (\<exists>b. a \<in> set (L b))"
  by (simp add: queued_eq)

lemma queued_session:
  assumes "cal_inv gs" "a \<in> queued gs"
  obtains s where "sessions gs a = Some s" "bin_index s < num_bins gs"
proof -
  obtain L where L: "cal_wf gs L" using assms(1) by (auto simp: cal_inv_def)
  then obtain b where "a \<in> set (L b)" using assms(2) queued_iff by blast
  then show ?thesis
    using that cal_listsD(2,5) [OF cal_wfD(2) [OF L]]
    by (metis empty_iff empty_set word_less_nat_alt)
qed

section \<open>The search\<close>

lemma foldM_inv:
  assumes "P S s" "\<And>x S s. x \<in> set xs \<Longrightarrow> P S s \<Longrightarrow> \<exists>s'. f x s = Some s' \<and> P (insert x S) s'"
  shows "\<exists>s'. foldM f xs s = Some s' \<and> P (S \<union> set xs) s'"
  using assms
proof (induction xs arbitrary: S s)
  case (Cons x xs)
  obtain s1 where s1: "f x s = Some s1" "P (insert x S) s1" using Cons.prems by fastforce
  have "\<exists>s'. foldM f xs s1 = Some s' \<and> P (insert x S \<union> set xs) s'"
    by (rule Cons.IH [OF s1(2)]) (use Cons.prems(2) in auto)
  then show ?case using s1(1) by simp
qed simp

text \<open>The first session of a sorted list that may start is one with the least finish time.\<close>

lemma find_sorted_min:
  assumes "List.find P xs = Some c" "sorted (map f xs)" "d \<in> set xs" "P d"
  shows "c \<in> set xs \<and> P c \<and> f c \<le> (f d :: 'b::linorder)"
  using assms
proof (induction xs)
  case (Cons x xs)
  show ?case
  proof (cases "P x")
    case True
    then show ?thesis using Cons.prems by auto
  next
    case False
    then show ?thesis using Cons by auto
  qed
qed simp

definition best_of :: "('u, 'f) group_scheduler \<Rightarrow> u64 \<Rightarrow> addr set \<Rightarrow> addr option \<times> u64 \<Rightarrow> bool" where
  "best_of gs now A best \<longleftrightarrow> (case best of (r, m) \<Rightarrow>
     (\<forall>a \<in> A. start_of gs a \<le> now \<longrightarrow> m \<le> finish_of gs a) \<and>
     (case r of None \<Rightarrow> m = UINT64_MAX
      | Some a \<Rightarrow> a \<in> A \<and> start_of gs a \<le> now \<and> finish_of gs a = m \<and> m < UINT64_MAX))"

lemma max_le_word_iff [simp]: "- 1 \<le> w \<longleftrightarrow> w = (- 1 :: 'a::len word)"
  using antisym [of w "- 1"] by auto

lemma best_of_better:
  assumes best: "best_of gs now A (r, m)" and c: "c \<in> B" "start_of gs c \<le> now"
    and least: "\<And>d. d \<in> B \<Longrightarrow> start_of gs d \<le> now \<Longrightarrow> finish_of gs c \<le> finish_of gs d"
  shows "best_of gs now (A \<union> B) (if finish_of gs c < m then (Some c, finish_of gs c) else (r, m))"
proof -
  have A: "m \<le> finish_of gs a" if "a \<in> A" "start_of gs a \<le> now" for a
    using best that by (simp add: best_of_def)
  show ?thesis
  proof (cases "finish_of gs c < m")
    case True
    then have "finish_of gs c < UINT64_MAX" by (metis not_max_less word_less_max)
    moreover have "finish_of gs c \<le> finish_of gs a" if "a \<in> A \<union> B" "start_of gs a \<le> now" for a
      using that A [of a] least [of a] True by auto
    ultimately show ?thesis using True c by (simp add: best_of_def)
  next
    case False
    have "m \<le> finish_of gs a" if "a \<in> A \<union> B" "start_of gs a \<le> now" for a
      using that A [of a] least [of a] False by auto
    then show ?thesis using False best by (simp add: best_of_def split: option.splits)
  qed
qed

lemma scan_bin_best:
  assumes w: "cal_wf gs L" and i: "L i \<noteq> []" and best: "best_of gs now A best"
  shows "\<exists>best'. scan_bin gs now (word_of_nat i) best = Some best' \<and> best_of gs now (A \<union> set (L i)) best'"
proof -
  note wf = cal_wfD [OF w]
  have lt: "i < unat (num_bins gs)" using cal_listsD(2) [OF wf(2) i] .
  then have wi: "unat (word_of_nat i :: u32) = i"
    using cal_shapeD(2) [OF wf(1)] by (simp add: unat_of_nat_small)
  obtain r m where rm: "best = (r, m)" by fastforce
  let ?can = "\<lambda>a. start_of gs a \<le> now"
  obtain l where l: "seg (sessions gs) None (bin_heads gs ! i) (L i) None l"
    using cal_listsD(1) [OF wf(2) lt] by (auto simp: dll_def)
  have cand: "skip_while (\<lambda>s. now < start_time s) (sessions gs) (bin_heads gs ! i) =
      Some (List.find ?can (L i))"
    using skip_while_eq [OF l, of "\<lambda>s. now < start_time s"] by (simp add: not_less)
  show ?thesis
  proof (cases "List.find ?can (L i)")
    case None
    then have "\<forall>a \<in> set (L i). \<not> ?can a" by (simp add: find_None_iff)
    then have "best_of gs now (A \<union> set (L i)) best" using best by (auto simp: best_of_def split: option.splits)
    then show ?thesis
      using None cand wi lt cal_shapeD(1) [OF wf(1)] rm by (simp add: scan_bin_def)
  next
    case (Some c)
    have c: "c \<in> set (L i)" "?can c" using Some by (auto simp: find_Some_iff)
    then obtain s where s: "sessions gs c = Some s" using cal_listsD(5) [OF wf(2)] by blast
    have least: "finish_of gs c \<le> finish_of gs d" if "d \<in> set (L i)" "?can d" for d
      using find_sorted_min [OF Some cal_listsD(4) [OF wf(2)] that] by blast
    have run: "scan_bin gs now (word_of_nat i) best =
        Some (if finish_of gs c < m then (Some c, finish_of gs c) else (r, m))"
      using Some cand wi lt cal_shapeD(1) [OF wf(1)] rm s by (simp add: scan_bin_def)
    have "best_of gs now (A \<union> set (L i))
        (if finish_of gs c < m then (Some c, finish_of gs c) else (r, m))"
      by (rule best_of_better [OF best [unfolded rm] c least])
    then show ?thesis using run by blast
  qed
qed

lemma find_eligible_spec:
  assumes w: "cal_wf gs L"
  obtains r where "find_eligible_min_bitfield gs now = Some r"
    "case r of None \<Rightarrow> selectable gs now = {}
     | Some a \<Rightarrow> a \<in> selectable gs now \<and> (\<forall>c \<in> selectable gs now. finish_of gs a \<le> finish_of gs c)"
proof -
  note wf = cal_wfD [OF w]
  have act: "set (active_bins gs) = {i. L i \<noteq> []}" by (rule set_active_bins [OF wf(1,3)])
  let ?P = "\<lambda>S. best_of gs now (\<Union>i \<in> S. set (L i))"
  have "\<exists>best. foldM (\<lambda>i. scan_bin gs now (word_of_nat i)) (active_bins gs) (None, UINT64_MAX) = Some best \<and>
      ?P ({} \<union> set (active_bins gs)) best"
  proof (rule foldM_inv [where P = ?P])
    show "?P {} (None, UINT64_MAX)" by (simp add: best_of_def)
    fix x S s assume "x \<in> set (active_bins gs)" "?P S s"
    then show "\<exists>s'. scan_bin gs now (word_of_nat x) s = Some s' \<and> ?P (insert x S) s'"
      using scan_bin_best [OF w, of x now "\<Union>i \<in> S. set (L i)" s] act by (simp add: Un_commute)
  qed
  then obtain r m where f: "foldM (\<lambda>i. scan_bin gs now (word_of_nat i)) (active_bins gs) (None, UINT64_MAX) = Some (r, m)"
      "best_of gs now (\<Union>i \<in> set (active_bins gs). set (L i)) (r, m)" by auto
  have "(\<Union>i \<in> set (active_bins gs). set (L i)) = queued gs"
    unfolding queued_eq [OF w] act by force
  then have b: "best_of gs now (queued gs) (r, m)" using f(2) by simp
  show ?thesis
  proof (rule that)
    show "find_eligible_min_bitfield gs now = Some r"
      using find_eligible_fold [OF wf(1,3)] cal_listsD(2) [OF wf(2)] f(1) by simp
    show "case r of None \<Rightarrow> selectable gs now = {}
     | Some a \<Rightarrow> a \<in> selectable gs now \<and> (\<forall>c \<in> selectable gs now. finish_of gs a \<le> finish_of gs c)"
      using b by (auto simp: best_of_def selectable_def word_less_max split: option.splits)
  qed
qed

lemma min_start_bin_step:
  assumes sh: "cal_shape gs" and ls: "cal_lists gs L" and i: "L i \<noteq> []"
    and m: "\<forall>a \<in> A. m \<le> start_of gs a" "m = UINT64_MAX \<or> (\<exists>a \<in> A. start_of gs a = m)"
  shows "\<exists>m'. min_start_bin gs (word_of_nat i) m = Some m' \<and>
    (\<forall>a \<in> A \<union> set (L i). m' \<le> start_of gs a) \<and>
    (m' = UINT64_MAX \<or> (\<exists>a \<in> A \<union> set (L i). start_of gs a = m'))"
proof -
  have lt: "i < unat (num_bins gs)" using cal_listsD(2) [OF ls i] .
  then have wi: "unat (word_of_nat i :: u32) = i"
    using cal_shapeD(2) [OF sh] by (simp add: unat_of_nat_small)
  obtain l where l: "seg (sessions gs) None (bin_heads gs ! i) (L i) None l"
    using cal_listsD(1) [OF ls lt] by (auto simp: dll_def)
  let ?f = "\<lambda>a m. if start_of gs a < m then start_of gs a else m"
  have run: "min_start_bin gs (word_of_nat i) m = Some (fold ?f (L i) m)"
    using fold_list_eq [OF l] lt wi cal_shapeD(1) [OF sh] by (simp add: min_start_bin_def word_less_nat_alt)
  have "(\<forall>a \<in> A \<union> set xs. fold ?f xs m \<le> start_of gs a) \<and>
      (fold ?f xs m = UINT64_MAX \<or> (\<exists>a \<in> A \<union> set xs. start_of gs a = fold ?f xs m))" for xs
  proof (induction xs rule: rev_induct)
    case Nil
    then show ?case using m by simp
  next
    case (snoc x xs)
    then show ?case by (auto simp: not_less intro: order.trans less_imp_le)
  qed
  then show ?thesis using run by simp
qed

lemma recompute_min_start_spec:
  assumes sh: "cal_shape gs" and ls: "cal_lists gs L" and bits: "cal_bits gs L"
  obtains m where "recompute_min_start gs = Some m" "\<And>b a. a \<in> set (L b) \<Longrightarrow> m \<le> start_of gs a"
    "m = UINT64_MAX \<or> (\<exists>b. \<exists>a \<in> set (L b). start_of gs a = m)"
proof -
  have act: "set (active_bins gs) = {i. L i \<noteq> []}" by (rule set_active_bins [OF sh bits])
  let ?A = "\<lambda>S. \<Union>i \<in> S. set (L i)"
  let ?P = "\<lambda>S m. (\<forall>a \<in> ?A S. m \<le> start_of gs a) \<and> (m = UINT64_MAX \<or> (\<exists>a \<in> ?A S. start_of gs a = m))"
  have "\<exists>m. foldM (\<lambda>i. min_start_bin gs (word_of_nat i)) (active_bins gs) UINT64_MAX = Some m \<and>
      ?P ({} \<union> set (active_bins gs)) m"
  proof (rule foldM_inv [where P = ?P])
    fix x S m assume x: "x \<in> set (active_bins gs)" and P: "?P S m"
    then have "L x \<noteq> []" using act by simp
    from min_start_bin_step [OF sh ls this, of "?A S" m] P
    obtain m' where "min_start_bin gs (word_of_nat x) m = Some m'"
        "\<forall>a \<in> ?A S \<union> set (L x). m' \<le> start_of gs a"
        "m' = UINT64_MAX \<or> (\<exists>a \<in> ?A S \<union> set (L x). start_of gs a = m')" by blast
    then show "\<exists>m'. min_start_bin gs (word_of_nat x) m = Some m' \<and> ?P (insert x S) m'"
      by (simp add: Un_commute)
  qed simp
  then obtain m where m: "recompute_min_start gs = Some m" "?P (set (active_bins gs)) m"
    using recompute_min_start_fold [OF sh bits] by auto
  show ?thesis
  proof (rule that [OF m(1)])
    show "m \<le> start_of gs a" if "a \<in> set (L b)" for b a
    proof -
      have "L b \<noteq> []" using that by auto
      then show ?thesis using m(2) act that by blast
    qed
    show "m = UINT64_MAX \<or> (\<exists>b. \<exists>a \<in> set (L b). start_of gs a = m)" using m(2) by blast
  qed
qed

section \<open>Insertion and removal\<close>

text \<open>What the calendar operations may change of a scheduler.\<close>

definition cal_frame :: "('u, 'f) group_scheduler \<Rightarrow> ('u, 'f) group_scheduler \<Rightarrow> bool" where
  "cal_frame gs' gs \<longleftrightarrow>
     gs' = gs\<lparr>bin_bitfield := bin_bitfield gs', bin_heads := bin_heads gs',
       group_bitfield := group_bitfield gs', virtual_time := virtual_time gs',
       min_finish_time := min_finish_time gs', min_start_time := min_start_time gs',
       min_session := min_session gs', sessions := sessions gs'\<rparr>"

lemma cal_frameD:
  assumes "cal_frame gs' gs"
  shows "entries gs' = entries gs" "gs_max_entries gs' = gs_max_entries gs"
    "configured_entries_head gs' = configured_entries_head gs"
    "allocated_rate_capacity gs' = allocated_rate_capacity gs" "total_weight gs' = total_weight gs"
    "num_groups gs' = num_groups gs" "bins_per_group gs' = bins_per_group gs"
    "num_bins gs' = num_bins gs" "bin_bitfield_size gs' = bin_bitfield_size gs"
    "base_interval gs' = base_interval gs" "total_capacity gs' = total_capacity gs"
    "active_session_count gs' = active_session_count gs"
  by (subst assms [unfolded cal_frame_def], simp)+

lemma sorted_insert_at:
  assumes "sorted (map (\<lambda>c. finish_time (the (H c))) xs)"
    "\<And>c. c \<in> set xs \<Longrightarrow> f c = finish_time (the (H c))" "f a = finish_time s"
  shows "sorted (map f (insert_at H a s xs))"
proof (rule insert_at_split [of H a s xs])
  fix ys zs
  assume i: "insert_at H a s xs = ys @ a # zs" and x: "xs = ys @ zs"
    and y: "\<forall>c \<in> set ys. session_less (the (H c)) s"
    and z: "zs = [] \<or> \<not> session_less (the (H (hd zs))) s"
  have s: "sorted (map f (ys @ zs))"
    using assms(1,2) x by (metis (mono_tags, lifting) map_cong)
  have "f c \<le> f a" if "c \<in> set ys" for c
    using y that assms(2) [of c] x assms(3) by (auto simp: session_less_def split: if_splits)
  moreover have "f a \<le> f c" if c: "c \<in> set zs" for c
  proof -
    have "f a \<le> f (hd zs)"
      using z c assms(2) [of "hd zs"] x assms(3) by (cases zs) (auto simp: session_less_def not_less split: if_splits)
    moreover have "f (hd zs) \<le> f c" using s c by (cases zs) (auto simp: sorted_append)
    ultimately show ?thesis by simp
  qed
  ultimately show ?thesis using s unfolding i by (auto simp: sorted_append)
qed

lemma unlinked_times:
  "unlinked s' = unlinked s \<Longrightarrow> start_time s' = start_time s \<and> finish_time s' = finish_time s \<and>
    bin_index s' = bin_index s"
  using unlinked_fields by blast

text \<open>A session whose data is kept: same times and same bin.\<close>

lemma same_data_session:
  assumes "same_data H' H" "H a = Some s"
  shows "\<exists>s'. H' a = Some s' \<and> start_time s' = start_time s \<and> finish_time s' = finish_time s \<and>
    bin_index s' = bin_index s"
  using assms by (metis same_dataE unlinked_times)

lemma cal_lists_insert:
  assumes ls: "cal_lists gs L" and len: "length (bin_heads gs) = unat (num_bins gs)"
    and k: "k < unat (num_bins gs)" and a: "\<And>b. a \<notin> set (L b)"
    and H1: "H1 = (sessions gs)(a \<mapsto> s)" and bin: "unat (bin_index s) = k"
    and new: "dll H' h' (insert_at H1 a s (L k))" "same_data H' H1"
      "\<And>c. c \<notin> insert a (set (L k)) \<Longrightarrow> H' c = H1 c"
    and gs': "sessions gs' = H'" "bin_heads gs' = (bin_heads gs)[k := h']" "num_bins gs' = num_bins gs"
  shows "cal_lists gs' (L(k := insert_at H1 a s (L k)))"
    and "\<And>b c. c \<in> set (L b) \<Longrightarrow> start_of gs' c = start_of gs c"
    and "start_of gs' a = start_time s"
proof -
  have old: "\<exists>r. H' c = Some r \<and> start_time r = start_of gs c \<and> finish_time r = finish_of gs c \<and>
      unat (bin_index r) = b" if c: "c \<in> set (L b)" for b c
  proof -
    obtain r where r: "sessions gs c = Some r" "unat (bin_index r) = b" using cal_listsD(5) [OF ls c] by blast
    have "c \<noteq> a" using c a by blast
    then have "H1 c = Some r" using r H1 by simp
    from same_data_session [OF new(2) this] show ?thesis using r by auto
  qed
  have "H1 a = Some s" using H1 by simp
  from same_data_session [OF new(2) this]
  obtain sa where sa: "H' a = Some sa" "start_time sa = start_time s" "finish_time sa = finish_time s"
      "bin_index sa = bin_index s" by blast
  have fin: "finish_of gs' c = finish_of gs c" if "c \<in> set (L b)" for b c using old [OF that] gs'(1) by auto
  show "start_of gs' c = start_of gs c" if "c \<in> set (L b)" for b c using old [OF that] gs'(1) by auto
  show "start_of gs' a = start_time s" using sa gs'(1) by simp
  let ?L = "L(k := insert_at H1 a s (L k))"
  have goal: "(if b < unat (num_bins gs') then dll (sessions gs') (bin_heads gs' ! b) (?L b) else ?L b = []) \<and>
     distinct (?L b) \<and> sorted (map (finish_of gs') (?L b)) \<and>
     (\<forall>c \<in> set (?L b). \<exists>s. sessions gs' c = Some s \<and> unat (bin_index s) = b)" for b
  proof (cases "b = k")
    case True
    have H1c: "finish_time (the (H1 c)) = finish_of gs c" if "c \<in> set (L k)" for c
    proof -
      have "c \<noteq> a" using that a by blast
      then show ?thesis by (simp add: H1)
    qed
    have "sorted (map (\<lambda>c. finish_time (the (H1 c))) (L k))"
      using cal_listsD(4) [OF ls, of k] H1c by (metis (mono_tags, lifting) map_cong)
    then have "sorted (map (finish_of gs') (insert_at H1 a s (L k)))"
    proof (rule sorted_insert_at)
      show "finish_of gs' c = finish_time (the (H1 c))" if "c \<in> set (L k)" for c
        using fin [OF that] H1c [OF that] by simp
      show "finish_of gs' a = finish_time s" using sa gs'(1) by simp
    qed
    moreover have "distinct (insert_at H1 a s (L k))" using cal_listsD(3) [OF ls] a by simp
    moreover have "\<exists>r. H' c = Some r \<and> unat (bin_index r) = k" if "c \<in> insert a (set (L k))" for c
      using that old [of c k] sa(1,4) bin by (cases "c = a") auto
    ultimately show ?thesis
      using True new(1) k len by (auto simp: gs')
  next
    case False
    have keep: "H' c = sessions gs c" if "c \<in> set (L b)" for c
    proof -
      have "c \<noteq> a" using that a by blast
      moreover have "c \<notin> set (L k)" using cal_lists_bin [OF ls that] False by blast
      ultimately show ?thesis using new(3) [of c] by (simp add: H1)
    qed
    have "dll H' (bin_heads gs ! b) (L b)" if "b < unat (num_bins gs)"
      using cal_listsD(1) [OF ls that] keep by (subst dll_cong [of _ _ "sessions gs"]) auto
    moreover have "sorted (map (finish_of gs') (L b))"
      using cal_listsD(4) [OF ls, of b] fin by (metis (mono_tags, lifting) map_cong)
    moreover have "\<forall>c \<in> set (L b). \<exists>s. H' c = Some s \<and> unat (bin_index s) = b" using old by blast
    moreover have "L b = []" if "\<not> b < unat (num_bins gs)" using that cal_listsD(2) [OF ls] by blast
    ultimately show ?thesis using False cal_listsD(3) [OF ls] by (simp add: gs')
  qed
  show "cal_lists gs' ?L" unfolding cal_lists_def using goal by blast
qed

lemma cal_bits_insert:
  assumes bits: "cal_bits gs L" and k: "k div 32 < length (bin_bitfield gs)" and ne: "xs \<noteq> []"
    and g: "k div 32 div 32 < length (group_bitfield gs)"
    and gs': "bin_bitfield gs' = set_abit k (bin_bitfield gs)"
      "group_bitfield gs' = set_abit (k div 32) (group_bitfield gs)"
  shows "cal_bits gs' (L(k := xs))"
  unfolding cal_bits_def
proof (intro conjI allI)
  show b: "abit (bin_bitfield gs') i \<longleftrightarrow> (L(k := xs)) i \<noteq> []" for i
    using bits k ne by (auto simp: cal_bits_def gs')
  have "abit (bin_bitfield gs') i \<longleftrightarrow> abit (bin_bitfield gs) i \<or> i = k" for i using k by (simp add: gs')
  then show "abit (group_bitfield gs') w \<longleftrightarrow> (\<exists>i. i div 32 = w \<and> abit (bin_bitfield gs') i)" for w
    using bits g by (auto simp: cal_bits_def gs')
qed

text \<open>The steps of an insertion: the bits of the bin, and the minima.\<close>

lemma mark_bits:
  assumes sh: "cal_shape gs" and idx: "idx < num_bins gs" and k: "k = unat idx"
  shows "set_bin_bit (bin_bitfield gs) idx = Some (set_abit k (bin_bitfield gs))"
    "set_group_bit (idx div 32) (group_bitfield gs) = Some (set_abit (k div 32) (group_bitfield gs))"
proof -
  have lt: "k < unat (num_bins gs)" using idx by (simp add: k word_less_nat_alt)
  show "set_bin_bit (bin_bitfield gs) idx = Some (set_abit k (bin_bitfield gs))"
    using bin_bit_ops(1) [of idx] cal_shapeD(5) [OF sh lt] by (simp add: k)
  have "k div 32 < 1024" using lt cal_shapeD(2) [OF sh] by simp
  then show "set_group_bit (idx div 32) (group_bitfield gs) = Some (set_abit (k div 32) (group_bitfield gs))"
    using group_bit_ops(1) [OF cal_shapeD(4) [OF sh], of "idx div 32"] by (simp add: unat_div k)
qed

lemma cal_mins_insert:
  assumes mins: "cal_mins gs L" and all: "\<And>c. (\<exists>b. c \<in> set (M b)) \<longleftrightarrow> c = a \<or> (\<exists>b. c \<in> set (L b))"
    and same: "\<And>b c. c \<in> set (L b) \<Longrightarrow> start_of g c = start_of gs c" and new: "start_of g a = t"
    and least: "min_start_time g = (if t < min_start_time gs then t else min_start_time gs)"
    and chosen: "min_session g = Some a \<or> min_session g = min_session gs"
  shows "cal_mins g M"
proof -
  have "min_start_time g \<le> start_of g c" if "c \<in> set (M b)" for b c
  proof -
    have "c = a \<or> (\<exists>b. c \<in> set (L b))" using all that by blast
    then show ?thesis
      using mins same new unfolding cal_mins_def least by (auto simp: not_less intro: order.trans less_imp_le)
  qed
  moreover have "min_start_time g = UINT64_MAX \<or> (\<exists>b. \<exists>c \<in> set (M b). start_of g c = min_start_time g)"
  proof (cases "t < min_start_time gs")
    case True
    then show ?thesis using new least all [of a] by auto
  next
    case False
    then show ?thesis using mins same all least unfolding cal_mins_def by metis
  qed
  moreover have "\<exists>b. c \<in> set (M b)" if "min_session g = Some c" for c
    using that chosen mins all unfolding cal_mins_def by auto
  ultimately show ?thesis unfolding cal_mins_def by blast
qed

lemma calendar_insert_ok:
  fixes gs :: "('u, 'f) group_scheduler"
  assumes w: "cal_wf gs L" and a: "a \<notin> queued gs" and s: "sessions gs a = Some s"
    and off: "calculate_bin_index_from_finish_time (finish_time s) (group_index s)
      (bins_per_group gs) (base_interval gs) = Some off"
    and idx: "idx = group_index s * bins_per_group gs + off" "idx < num_bins gs"
  obtains gs' L' where "calendar_insert_session a gs = Some (Inr (), gs')"
    "cal_wf gs' L'" "queued gs' = insert a (queued gs)" "cal_frame gs' gs"
    "virtual_time gs' = virtual_time gs" "same_data (sessions gs') ((sessions gs)(a \<mapsto> s\<lparr>bin_index := idx\<rparr>))"
    "\<And>c. c \<notin> insert a (queued gs) \<Longrightarrow> sessions gs' c = sessions gs c"
proof -
  note wf = cal_wfD [OF w]
  have an: "a \<notin> set (L b)" for b using a queued_iff [OF w] by blast
  define k where "k = unat idx"
  have k: "k < unat (num_bins gs)" using idx(2) by (simp add: k_def word_less_nat_alt)
  define s1 where "s1 = s\<lparr>bin_index := idx\<rparr>"
  define H1 where "H1 = (sessions gs)(a \<mapsto> s1)"
  define g1 where "g1 = gs\<lparr>sessions := H1\<rparr>"
  have len: "length (bin_heads gs) = unat (num_bins gs)" using cal_shapeD(1) [OF wf(1)] .
  have "dll H1 (bin_heads gs ! k) (L k)"
    using cal_listsD(1) [OF wf(2) k] an by (subst dll_cong [of _ _ "sessions gs"]) (auto simp: H1_def)
  then have pre: "unat idx < length (bin_heads g1)" "dll (sessions g1) (bin_heads g1 ! unat idx) (L k)"
      "distinct (L k)" "a \<notin> set (L k)" "sessions g1 a = Some s1"
    using k len cal_listsD(3) [OF wf(2)] an by (simp_all add: g1_def k_def H1_def)
  obtain H' h' where ins:
      "bin_list_insert idx a g1 = Some (g1\<lparr>sessions := H', bin_heads := (bin_heads g1)[unat idx := h']\<rparr>)"
      "dll H' h' (insert_at (sessions g1) a s1 (L k))" "same_data H' (sessions g1)"
      "\<And>c. c \<notin> insert a (set (L k)) \<Longrightarrow> H' c = sessions g1 c"
    using bin_list_insert_ok [OF pre] by blast
  define g2 where "g2 = g1\<lparr>sessions := H', bin_heads := (bin_heads g1)[unat idx := h'],
      bin_bitfield := set_abit k (bin_bitfield gs),
      group_bitfield := set_abit (k div 32) (group_bitfield gs)\<rparr>"
  define g3 where "g3 = (if finish_time s < min_finish_time g2
      then g2\<lparr>min_finish_time := finish_time s, min_session := Some a\<rparr> else g2)"
  define g4 where "g4 = (if start_time s < min_start_time g3 then g3\<lparr>min_start_time := start_time s\<rparr> else g3)"
  note bits = mark_bits [OF wf(1) idx(2) k_def]
  have run: "calendar_insert_session a gs = Some (Inr (), g4)"
    using s off idx ins(1) bits
    by (simp add: calendar_insert_session_def Let_def not_le g4_def g3_def g2_def g1_def H1_def s1_def)
  have fields: "sessions g4 = H'" "bin_heads g4 = (bin_heads gs)[k := h']" "num_bins g4 = num_bins gs"
      "bin_bitfield g4 = set_abit k (bin_bitfield gs)"
      "group_bitfield g4 = set_abit (k div 32) (group_bitfield gs)"
      "bin_bitfield_size g4 = bin_bitfield_size gs" "virtual_time g4 = virtual_time gs"
      "min_start_time g4 = (if start_time s < min_start_time gs then start_time s else min_start_time gs)"
      "min_session g4 = Some a \<or> min_session g4 = min_session gs"
    by (simp_all add: g4_def g3_def g2_def g1_def k_def)
  let ?L = "L(k := insert_at H1 a s1 (L k))"
  have g1H: "sessions g1 = H1" by (simp add: g1_def)
  have "unat (bin_index s1) = k" by (simp add: s1_def k_def)
  note cl = cal_lists_insert [OF wf(2) len k an H1_def this ins(2-4) [unfolded g1H] fields(1-3)]
  have all: "(\<exists>b. c \<in> set (?L b)) \<longleftrightarrow> c = a \<or> (\<exists>b. c \<in> set (L b))" for c
    by auto
  have "cal_shape g4" using wf(1) by (simp add: cal_shape_def fields)
  moreover have "insert_at H1 a s1 (L k) \<noteq> []" by (simp add: insert_at_def)
  then have "cal_bits g4 ?L"
    by (rule cal_bits_insert [OF wf(3) cal_shapeD(5) [OF wf(1) k]]) (use k cal_shapeD(2,4) [OF wf(1)] in \<open>auto simp: fields\<close>)
  moreover have "cal_mins g4 ?L"
    by (rule cal_mins_insert [OF wf(4) all cl(2) _ fields(8,9)]) (use cl(3) in \<open>simp_all add: s1_def\<close>)
  ultimately have w4: "cal_wf g4 ?L" using cl(1) by (simp add: cal_wf_def)
  show ?thesis
  proof (rule that [OF run w4])
    show "queued g4 = insert a (queued gs)"
      using all by (auto simp: queued_iff [OF w4] queued_iff [OF w])
    show "cal_frame g4 gs" by (simp add: cal_frame_def g4_def g3_def g2_def g1_def)
    show "virtual_time g4 = virtual_time gs" by (rule fields(7))
    show "same_data (sessions g4) ((sessions gs)(a \<mapsto> s\<lparr>bin_index := idx\<rparr>))"
      using ins(3) fields(1) by (simp add: g1H H1_def s1_def)
    show "sessions g4 c = sessions gs c" if "c \<notin> insert a (queued gs)" for c
      using that ins(4) [of c] queued_iff [OF w, of c] by (auto simp: fields(1) g1H H1_def)
  qed
qed

lemma cal_lists_remove:
  assumes ls: "cal_lists gs L" and len: "length (bin_heads gs) = unat (num_bins gs)"
    and k: "k < unat (num_bins gs)"
    and new: "dll H' h' (remove1 a (L k))" "same_data H' (sessions gs)"
      "\<And>c. c \<notin> set (L k) \<Longrightarrow> H' c = sessions gs c"
    and gs': "sessions gs' = H'" "bin_heads gs' = (bin_heads gs)[k := h']" "num_bins gs' = num_bins gs"
  shows "cal_lists gs' (L(k := remove1 a (L k)))"
    and "\<And>b c. c \<in> set (L b) \<Longrightarrow> start_of gs' c = start_of gs c"
proof -
  have old: "\<exists>r. H' c = Some r \<and> start_time r = start_of gs c \<and> finish_time r = finish_of gs c \<and>
      unat (bin_index r) = b" if c: "c \<in> set (L b)" for b c
  proof -
    obtain r where r: "sessions gs c = Some r" "unat (bin_index r) = b" using cal_listsD(5) [OF ls c] by blast
    from same_data_session [OF new(2) r(1)] show ?thesis using r by auto
  qed
  have fin: "finish_of gs' c = finish_of gs c" if "c \<in> set (L b)" for b c using old [OF that] gs'(1) by auto
  show "start_of gs' c = start_of gs c" if "c \<in> set (L b)" for b c using old [OF that] gs'(1) by auto
  have sorted: "sorted (map (finish_of gs') (L b))" for b
    using cal_listsD(4) [OF ls, of b] fin by (metis (mono_tags, lifting) map_cong)
  let ?L = "L(k := remove1 a (L k))"
  have goal: "(if b < unat (num_bins gs') then dll (sessions gs') (bin_heads gs' ! b) (?L b) else ?L b = []) \<and>
     distinct (?L b) \<and> sorted (map (finish_of gs') (?L b)) \<and>
     (\<forall>c \<in> set (?L b). \<exists>s. sessions gs' c = Some s \<and> unat (bin_index s) = b)" for b
  proof (cases "b = k")
    case True
    have "sorted (map (finish_of gs') (remove1 a (L k)))" by (rule sorted_map_remove1 [OF sorted])
    moreover have "\<forall>c \<in> set (remove1 a (L k)). \<exists>r. H' c = Some r \<and> unat (bin_index r) = k"
      using old [of _ k] notin_set_remove1 by fast
    ultimately show ?thesis
      using True new(1) k len cal_listsD(3) [OF ls, of k] by (simp add: gs' distinct_remove1)
  next
    case False
    have keep: "H' c = sessions gs c" if "c \<in> set (L b)" for c
    proof -
      have "c \<notin> set (L k)" using cal_lists_bin [OF ls that] False by blast
      then show ?thesis by (rule new(3))
    qed
    have "dll H' (bin_heads gs ! b) (L b)" if "b < unat (num_bins gs)"
      using cal_listsD(1) [OF ls that] keep by (subst dll_cong [of _ _ "sessions gs"]) auto
    moreover have "\<forall>c \<in> set (L b). \<exists>s. H' c = Some s \<and> unat (bin_index s) = b" using old by blast
    moreover have "L b = []" if "\<not> b < unat (num_bins gs)" using that cal_listsD(2) [OF ls] by blast
    ultimately show ?thesis using False cal_listsD(3) [OF ls] sorted by (simp add: gs')
  qed
  show "cal_lists gs' ?L" unfolding cal_lists_def using goal by blast
qed

text \<open>The bitmaps after a bin has become shorter.\<close>

lemma cal_bits_shorter:
  assumes bits: "cal_bits gs L" and ne: "xs \<noteq> []" "L k \<noteq> []"
    and gs': "bin_bitfield gs' = bin_bitfield gs" "group_bitfield gs' = group_bitfield gs"
  shows "cal_bits gs' (L(k := xs))"
proof -
  have "(L(k := xs)) i \<noteq> [] \<longleftrightarrow> L i \<noteq> []" for i using ne by simp
  then show ?thesis using bits unfolding cal_bits_def gs' by simp
qed

lemma cal_bits_empty:
  assumes bits: "cal_bits gs L" and k: "k div 32 < length (bin_bitfield gs)"
    and gs': "bin_bitfield gs' = clear_abit k (bin_bitfield gs)"
      "group_bitfield gs' = (if clear_abit k (bin_bitfield gs) ! (k div 32) = 0
         then clear_abit (k div 32) (group_bitfield gs) else group_bitfield gs)"
  shows "cal_bits gs' (L(k := []))"
  unfolding cal_bits_def
proof (intro conjI allI)
  have b: "abit (bin_bitfield gs') i \<longleftrightarrow> abit (bin_bitfield gs) i \<and> i \<noteq> k" for i by (simp add: gs')
  show "abit (bin_bitfield gs') i \<longleftrightarrow> (L(k := [])) i \<noteq> []" for i using b bits by (auto simp: cal_bits_def)
  have g: "abit (group_bitfield gs) w \<longleftrightarrow> (\<exists>i. i div 32 = w \<and> abit (bin_bitfield gs) i)" for w
    using bits by (simp add: cal_bits_def)
  have zero: "bin_bitfield gs' ! (k div 32) = 0 \<longleftrightarrow> (\<forall>i. i div 32 = k div 32 \<longrightarrow> \<not> abit (bin_bitfield gs') i)"
    using word_zero_abit [of "k div 32" "bin_bitfield gs'"] k by (simp add: gs'(1))
  show "abit (group_bitfield gs') w \<longleftrightarrow> (\<exists>i. i div 32 = w \<and> abit (bin_bitfield gs') i)" for w
  proof (cases "w = k div 32")
    case False
    then have "abit (group_bitfield gs') w \<longleftrightarrow> abit (group_bitfield gs) w" by (simp add: gs'(2))
    moreover have "i div 32 = w \<and> abit (bin_bitfield gs) i \<longleftrightarrow> i div 32 = w \<and> abit (bin_bitfield gs') i" for i
      using b [of i] False by blast
    ultimately show ?thesis using g [of w] by simp
  next
    case True
    show ?thesis
    proof (cases "bin_bitfield gs' ! (k div 32) = 0")
      case z: True
      then have "\<not> abit (group_bitfield gs') w" using True by (simp add: gs')
      then show ?thesis using z zero True by blast
    next
      case z: False
      then have ex: "\<exists>i. i div 32 = w \<and> abit (bin_bitfield gs') i" using zero True by blast
      then have "abit (group_bitfield gs) w" using g b by blast
      then have "abit (group_bitfield gs') w" using z by (simp add: gs')
      then show ?thesis using ex by blast
    qed
  qed
qed

text \<open>Fields that the bins do not depend on.\<close>

lemma cal_shape_update [simp]:
  "cal_shape (gs\<lparr>min_start_time := m\<rparr>) = cal_shape gs"
  "cal_shape (gs\<lparr>min_finish_time := m'\<rparr>) = cal_shape gs"
  "cal_shape (gs\<lparr>virtual_time := v\<rparr>) = cal_shape gs"
  "cal_shape (gs\<lparr>active_session_count := n\<rparr>) = cal_shape gs"
  "cal_shape (gs\<lparr>entries := ce\<rparr>) = cal_shape gs"
  "cal_shape (gs\<lparr>configured_entries_head := h\<rparr>) = cal_shape gs"
  "cal_shape (gs\<lparr>allocated_rate_capacity := r\<rparr>) = cal_shape gs"
  "cal_shape (gs\<lparr>total_weight := w\<rparr>) = cal_shape gs"
  by (simp_all add: cal_shape_def cal_lists_def cal_bits_def cal_mins_def queued_def)

lemma cal_lists_update [simp]:
  "cal_lists (gs\<lparr>min_start_time := m\<rparr>) L = cal_lists gs L"
  "cal_lists (gs\<lparr>min_finish_time := m'\<rparr>) L = cal_lists gs L"
  "cal_lists (gs\<lparr>virtual_time := v\<rparr>) L = cal_lists gs L"
  "cal_lists (gs\<lparr>active_session_count := n\<rparr>) L = cal_lists gs L"
  "cal_lists (gs\<lparr>entries := ce\<rparr>) L = cal_lists gs L"
  "cal_lists (gs\<lparr>configured_entries_head := h\<rparr>) L = cal_lists gs L"
  "cal_lists (gs\<lparr>allocated_rate_capacity := r\<rparr>) L = cal_lists gs L"
  "cal_lists (gs\<lparr>total_weight := w\<rparr>) L = cal_lists gs L"
  by (simp_all add: cal_shape_def cal_lists_def cal_bits_def cal_mins_def queued_def)

lemma cal_bits_update [simp]:
  "cal_bits (gs\<lparr>min_start_time := m\<rparr>) L = cal_bits gs L"
  "cal_bits (gs\<lparr>min_finish_time := m'\<rparr>) L = cal_bits gs L"
  "cal_bits (gs\<lparr>virtual_time := v\<rparr>) L = cal_bits gs L"
  "cal_bits (gs\<lparr>active_session_count := n\<rparr>) L = cal_bits gs L"
  "cal_bits (gs\<lparr>entries := ce\<rparr>) L = cal_bits gs L"
  "cal_bits (gs\<lparr>configured_entries_head := h\<rparr>) L = cal_bits gs L"
  "cal_bits (gs\<lparr>allocated_rate_capacity := r\<rparr>) L = cal_bits gs L"
  "cal_bits (gs\<lparr>total_weight := w\<rparr>) L = cal_bits gs L"
  by (simp_all add: cal_shape_def cal_lists_def cal_bits_def cal_mins_def queued_def)

lemma cal_mins_update [simp]:
  "cal_mins (gs\<lparr>min_finish_time := m'\<rparr>) L = cal_mins gs L"
  "cal_mins (gs\<lparr>virtual_time := v\<rparr>) L = cal_mins gs L"
  "cal_mins (gs\<lparr>active_session_count := n\<rparr>) L = cal_mins gs L"
  "cal_mins (gs\<lparr>entries := ce\<rparr>) L = cal_mins gs L"
  "cal_mins (gs\<lparr>configured_entries_head := h\<rparr>) L = cal_mins gs L"
  "cal_mins (gs\<lparr>allocated_rate_capacity := r\<rparr>) L = cal_mins gs L"
  "cal_mins (gs\<lparr>total_weight := w\<rparr>) L = cal_mins gs L"
  by (simp_all add: cal_shape_def cal_lists_def cal_bits_def cal_mins_def queued_def)

lemma queued_update [simp]:
  "queued (gs\<lparr>min_start_time := m\<rparr>) = queued gs"
  "queued (gs\<lparr>min_finish_time := m'\<rparr>) = queued gs"
  "queued (gs\<lparr>virtual_time := v\<rparr>) = queued gs"
  "queued (gs\<lparr>active_session_count := n\<rparr>) = queued gs"
  "queued (gs\<lparr>entries := ce\<rparr>) = queued gs"
  "queued (gs\<lparr>configured_entries_head := h\<rparr>) = queued gs"
  "queued (gs\<lparr>allocated_rate_capacity := r\<rparr>) = queued gs"
  "queued (gs\<lparr>total_weight := w\<rparr>) = queued gs"
  by (simp_all add: cal_shape_def cal_lists_def cal_bits_def cal_mins_def queued_def)

text \<open>
  The steps of a removal: the bits of an emptied bin, and the minimal start time, which is searched anew
  only when it may have left.
\<close>

definition unmarked :: "nat \<Rightarrow> ('u, 'f) group_scheduler \<Rightarrow> ('u, 'f) group_scheduler" where
  "unmarked k gs = gs\<lparr>bin_bitfield := clear_abit k (bin_bitfield gs),
     group_bitfield := (if clear_abit k (bin_bitfield gs) ! (k div 32) = 0
       then clear_abit (k div 32) (group_bitfield gs) else group_bitfield gs)\<rparr>"

lemma unmarked_run:
  assumes sh: "cal_shape gs" and idx: "idx < num_bins gs"
  shows "do {
      bits \<leftarrow> clear_bin_bit (bin_bitfield gs) idx;
      let gs = gs\<lparr>bin_bitfield := bits\<rparr>;
      let word_idx = idx div 32;
      word_empty \<leftarrow> (if word_idx < bin_bitfield_size gs
        then do { w \<leftarrow> arr_get (bin_bitfield gs) (unat word_idx); Some (w = 0) }
        else Some False);
      if word_empty then do {
        groups \<leftarrow> clear_group_bit word_idx (group_bitfield gs);
        Some (gs\<lparr>group_bitfield := groups\<rparr>)
      } else Some gs
    } = Some (unmarked (unat idx) gs)"
proof -
  have k: "unat idx < unat (num_bins gs)" using idx by (simp add: word_less_nat_alt)
  have kd: "unat idx div 32 < length (bin_bitfield gs)" by (rule cal_shapeD(5) [OF sh k])
  have bb: "clear_bin_bit (bin_bitfield gs) idx = Some (clear_abit (unat idx) (bin_bitfield gs))"
    by (rule bin_bit_ops(2) [OF kd])
  have "unat (idx div 32) < 1024" using k cal_shapeD(2) [OF sh] by (simp add: unat_div)
  from group_bit_ops(2) [OF cal_shapeD(4) [OF sh] this]
  have gb: "clear_group_bit (idx div 32) (group_bitfield gs) = Some (clear_abit (unat idx div 32) (group_bitfield gs))"
    by (simp add: unat_div)
  have bs: "idx div 32 < bin_bitfield_size gs"
    using kd cal_shapeD(3) [OF sh] by (simp add: word_less_nat_alt unat_div)
  have word: "arr_get (clear_abit (unat idx) (bin_bitfield gs)) (unat (idx div 32)) =
      Some (clear_abit (unat idx) (bin_bitfield gs) ! (unat idx div 32))"
    using kd by (simp add: unat_div)
  show ?thesis using bb gb word bs by (simp add: unmarked_def Let_def)
qed

lemma min_start_step:
  fixes gs :: "('u, 'f) group_scheduler"
  assumes ok: "cal_shape gs" "cal_lists gs L" "cal_bits gs L"
    and low: "\<And>b c. c \<in> set (L b) \<Longrightarrow> min_start_time gs \<le> start_of gs c"
    and reached: "t \<noteq> min_start_time gs \<Longrightarrow>
      min_start_time gs = UINT64_MAX \<or> (\<exists>b. \<exists>c \<in> set (L b). start_of gs c = min_start_time gs)"
  obtains m where "(if t = min_start_time gs then do {
        least \<leftarrow> recompute_min_start (gs\<lparr>min_start_time := UINT64_MAX\<rparr>);
        Some (gs\<lparr>min_start_time := least\<rparr>)
      } else Some gs) = Some (gs\<lparr>min_start_time := m\<rparr>)"
    "\<And>b c. c \<in> set (L b) \<Longrightarrow> m \<le> start_of gs c"
    "m = UINT64_MAX \<or> (\<exists>b. \<exists>c \<in> set (L b). start_of gs c = m)"
proof (cases "t = min_start_time gs")
  case True
  have "cal_shape (gs\<lparr>min_start_time := UINT64_MAX\<rparr>)" "cal_lists (gs\<lparr>min_start_time := UINT64_MAX\<rparr>) L"
      "cal_bits (gs\<lparr>min_start_time := UINT64_MAX\<rparr>) L"
    using ok by simp_all
  from recompute_min_start_spec [OF this]
  obtain m where m: "recompute_min_start (gs\<lparr>min_start_time := UINT64_MAX\<rparr>) = Some m"
      "\<And>b c. c \<in> set (L b) \<Longrightarrow> m \<le> start_of gs c"
      "m = UINT64_MAX \<or> (\<exists>b. \<exists>c \<in> set (L b). start_of gs c = m)" by auto
  show thesis by (rule that [of m]) (use True m in auto)
next
  case False
  then show thesis using that [of "min_start_time gs"] low reached by simp
qed

lemma calendar_remove_run:
  assumes "sessions gs a = Some s" "bin_index s < num_bins gs" "bin_list_remove (bin_index s) a gs = Some g1"
    and "bin_list_is_empty (bin_index s) g1 = Some e" "cal_shape g1" "num_bins g1 = num_bins gs"
    and "g2 = (if e then unmarked (unat (bin_index s)) g1 else g1)"
    and "g3 = (if Some a = min_session g2 then g2\<lparr>min_session := None, min_finish_time := UINT64_MAX\<rparr> else g2)"
    and "(if start_time s = min_start_time g3 then do {
        least \<leftarrow> recompute_min_start (g3\<lparr>min_start_time := UINT64_MAX\<rparr>);
        Some (g3\<lparr>min_start_time := least\<rparr>)
      } else Some g3) = Some g4"
  shows "calendar_remove_session a gs = Some (Inr (), g4)"
proof -
  note run = unmarked_run [OF assms(5), of "bin_index s", unfolded assms(6), OF assms(2)]
  have bits: "(if e then do {
        bits \<leftarrow> clear_bin_bit (bin_bitfield g1) (bin_index s);
        let gs = g1\<lparr>bin_bitfield := bits\<rparr>;
        let word_idx = bin_index s div 32;
        word_empty \<leftarrow> (if word_idx < bin_bitfield_size gs
          then do { w \<leftarrow> arr_get (bin_bitfield gs) (unat word_idx); Some (w = 0) }
          else Some False);
        if word_empty then do {
          groups \<leftarrow> clear_group_bit word_idx (group_bitfield gs);
          Some (gs\<lparr>group_bitfield := groups\<rparr>)
        } else Some gs
      } else Some g1) = Some g2"
    unfolding assms(7) run by simp
  have idx: "\<not> num_bins gs \<le> bin_index s" using assms(2) by simp
  show ?thesis
    unfolding calendar_remove_session_def assms(1) Option.bind.bind_lunit Let_def if_not_P [OF idx] assms(3,4)
      bits [unfolded Let_def] assms(8) [symmetric] assms(9)
    by simp
qed

text \<open>Removing a session from its bin leaves the others where they are.\<close>

lemma bins_without:
  assumes "cal_lists gs L" "a \<in> set (L k)"
  shows "c \<in> set ((L(k := remove1 a (L k))) b) \<longleftrightarrow> c \<noteq> a \<and> c \<in> set (L b)"
  using cal_listsD(3) [OF assms(1), of k] cal_lists_bin [OF assms, of b] by auto

lemma unmarked_bits:
  assumes bits: "cal_bits gs L" and sh: "cal_shape gs" and k: "k < unat (num_bins gs)" and a: "a \<in> set (L k)"
    and same: "bin_bitfield g1 = bin_bitfield gs" "group_bitfield g1 = group_bitfield gs"
  shows "cal_bits (if remove1 a (L k) = [] then unmarked k g1 else g1) (L(k := remove1 a (L k)))"
proof (cases "remove1 a (L k) = []")
  case True
  have "cal_bits (unmarked k g1) (L(k := []))"
    by (rule cal_bits_empty [OF bits cal_shapeD(5) [OF sh k]]) (simp_all add: unmarked_def same)
  then show ?thesis using True by simp
next
  case False
  then show ?thesis using a by (simp, intro cal_bits_shorter [OF bits]) (auto simp: same)
qed

lemma calendar_remove_ok:
  fixes gs :: "('u, 'f) group_scheduler"
  assumes w: "cal_wf gs L" and a: "a \<in> queued gs"
  obtains gs' L' where "calendar_remove_session a gs = Some (Inr (), gs')"
    "cal_wf gs' L'" "queued gs' = queued gs - {a}" "cal_frame gs' gs"
    "virtual_time gs' = virtual_time gs" "same_data (sessions gs') (sessions gs)"
    "\<And>c. c \<notin> queued gs \<Longrightarrow> sessions gs' c = sessions gs c"
proof -
  note wf = cal_wfD [OF w]
  obtain k where ak: "a \<in> set (L k)" using a queued_iff [OF w] by blast
  obtain s where s: "sessions gs a = Some s" "unat (bin_index s) = k" using cal_listsD(5) [OF wf(2) ak] by blast
  have k: "k < unat (num_bins gs)" using cal_listsD(2) [OF wf(2), of k] ak by force
  have len: "length (bin_heads gs) = unat (num_bins gs)" using cal_shapeD(1) [OF wf(1)] .
  have lt: "bin_index s < num_bins gs" using k s by (simp add: word_less_nat_alt)
  have pre: "unat (bin_index s) < length (bin_heads gs)"
      "dll (sessions gs) (bin_heads gs ! unat (bin_index s)) (L k)" "distinct (L k)" "a \<in> set (L k)"
    using k len s(2) ak cal_listsD(1,3) [OF wf(2)] by auto
  obtain H' h' where rem:
      "bin_list_remove (bin_index s) a gs =
        Some (gs\<lparr>sessions := H', bin_heads := (bin_heads gs)[unat (bin_index s) := h']\<rparr>)"
      "dll H' h' (remove1 a (L k))" "same_data H' (sessions gs)"
      "\<And>c. c \<notin> set (L k) \<Longrightarrow> H' c = sessions gs c"
    using bin_list_remove_ok [OF pre] by blast
  let ?L = "L(k := remove1 a (L k))"
  define g1 where "g1 = gs\<lparr>sessions := H', bin_heads := (bin_heads gs)[k := h']\<rparr>"
  define g2 where "g2 = (if remove1 a (L k) = [] then unmarked k g1 else g1)"
  define g3 where "g3 = (if Some a = min_session g2
      then g2\<lparr>min_session := None, min_finish_time := UINT64_MAX\<rparr> else g2)"
  have fields: "sessions g3 = H'" "bin_heads g3 = (bin_heads gs)[k := h']" "num_bins g3 = num_bins gs"
      "bin_bitfield_size g3 = bin_bitfield_size gs" "virtual_time g3 = virtual_time gs"
      "min_start_time g3 = min_start_time gs" "length (bin_bitfield g3) = length (bin_bitfield gs)"
      "length (group_bitfield g3) = length (group_bitfield gs)"
      "min_session g3 = (if Some a = min_session gs then None else min_session gs)"
    by (simp_all add: g3_def g2_def g1_def unmarked_def)
  have sh: "cal_shape g1" "cal_shape g3" using wf(1) by (simp_all add: cal_shape_def fields) (simp_all add: g1_def)
  note cal_lists_remove [OF wf(2) len k rem(2,3) _ fields(1-3)]
  then have cl: "cal_lists g3 ?L" "\<And>b c. c \<in> set (L b) \<Longrightarrow> start_of g3 c = start_of gs c" using rem(4) by blast+
  note bins = bins_without [OF wf(2) ak]
  have "cal_bits g2 ?L" unfolding g2_def by (rule unmarked_bits [OF wf(3,1) k ak]) (simp_all add: g1_def)
  then have bits: "cal_bits g3 ?L" by (simp add: g3_def cal_bits_def)
  have low: "min_start_time g3 \<le> start_of g3 c" if "c \<in> set (?L b)" for b c
    using that wf(4) cl(2) fields(6) unfolding cal_mins_def bins by auto
  have reached: "min_start_time g3 = UINT64_MAX \<or> (\<exists>b. \<exists>c \<in> set (?L b). start_of g3 c = min_start_time g3)"
    if "start_time s \<noteq> min_start_time g3"
  proof -
    have "min_start_time gs = UINT64_MAX \<or> (\<exists>b. \<exists>c \<in> set (L b). c \<noteq> a \<and> start_of gs c = min_start_time gs)"
      using that wf(4) s(1) fields(6) unfolding cal_mins_def by fastforce
    then show ?thesis
    proof (elim disjE exE bexE conjE)
      fix b c assume c: "c \<in> set (L b)" "c \<noteq> a" "start_of gs c = min_start_time gs"
      then have "c \<in> set (?L b)" using bins by blast
      moreover have "start_of g3 c = min_start_time g3" using cl(2) [OF c(1)] c(3) fields(6) by simp
      ultimately show ?thesis by blast
    qed (simp add: fields(6))
  qed
  obtain m where m: "(if start_time s = min_start_time g3 then do {
        least \<leftarrow> recompute_min_start (g3\<lparr>min_start_time := UINT64_MAX\<rparr>);
        Some (g3\<lparr>min_start_time := least\<rparr>)
      } else Some g3) = Some (g3\<lparr>min_start_time := m\<rparr>)"
      "\<And>b c. c \<in> set (?L b) \<Longrightarrow> m \<le> start_of g3 c" "m = UINT64_MAX \<or> (\<exists>b. \<exists>c \<in> set (?L b). start_of g3 c = m)"
    by (rule min_start_step [OF sh(2) cl(1) bits, of "start_time s"]) (erule low, erule reached, rule that)
  let ?g = "g3\<lparr>min_start_time := m\<rparr>"
  have empty: "bin_list_is_empty (bin_index s) g1 = Some (remove1 a (L k) = [])"
    using k len s(2) dll_head [OF rem(2)] by (simp add: bin_list_is_empty_def g1_def)
  have run: "calendar_remove_session a gs = Some (Inr (), ?g)"
    by (rule calendar_remove_run [OF s(1) lt _ empty sh(1) _ _ g3_def m(1)])
      (simp_all add: rem(1) s(2) g1_def g2_def)
  have "cal_mins ?g ?L"
    unfolding cal_mins_def
  proof (intro conjI allI ballI impI)
    show "min_start_time ?g \<le> start_of ?g c" if "c \<in> set (?L b)" for b c using m(2) [OF that] by simp
    show "min_start_time ?g = UINT64_MAX \<or> (\<exists>b. \<exists>c \<in> set (?L b). start_of ?g c = min_start_time ?g)"
      using m(3) by simp
    show "\<exists>b. c \<in> set (?L b)" if "min_session ?g = Some c" for c
      using that wf(4) unfolding cal_mins_def bins by (auto simp: fields split: if_splits)
  qed
  then have w': "cal_wf ?g ?L" using sh(2) bits cl(1) by (simp add: cal_wf_def)
  show ?thesis
  proof (rule that [OF run w'])
    show "queued ?g = queued gs - {a}" unfolding set_eq_iff Diff_iff queued_iff [OF w'] queued_iff [OF w] bins by auto
    show "cal_frame ?g gs" by (simp add: cal_frame_def g3_def g2_def g1_def unmarked_def)
    show "sessions ?g c = sessions gs c" if "c \<notin> queued gs" for c
      using that rem(4) [of c] queued_iff [OF w, of c] by (auto simp: fields)
  qed (simp_all add: fields rem(3))
qed

section \<open>Bins of a configured calendar\<close>

text \<open>What the initialisation sets up: a base interval of 1 and \<open>bins_per_group\<close> bins for each group.\<close>

definition cal_config :: "('u, 'f) group_scheduler \<Rightarrow> bool" where
  "cal_config gs \<longleftrightarrow> base_interval gs = 1 \<and> bins_per_group gs \<noteq> 0 \<and>
     unat (num_groups gs) * unat (bins_per_group gs) = unat (num_bins gs)"

lemma bin_index_in_group:
  assumes "bins \<noteq> 0" "g \<le> 15"
  obtains off where "calculate_bin_index_from_finish_time f g bins 1 = Some off" "off < bins"
proof -
  have g: "unat (g + 1) \<le> 16" using assms(2) by (simp add: unat_add_no_wrap word_le_nat_alt)
  then have "(2 ^ unat (g + 1) :: u64) \<noteq> 0" by (simp add: exp_eq_zero_iff)
  moreover have "\<not> 64 \<le> g + 1" using g by (simp add: word_le_nat_alt)
  moreover have "unat bins \<noteq> 0" using assms(1) unat_inject [of bins 0] by simp
  then have "bins - 1 < bins" by (simp add: word_less_nat_alt unat_sub_le word_le_nat_alt)
  ultimately show ?thesis
    using that assms(1) by (simp add: calculate_bin_index_from_finish_time_def Let_def not_le split: if_splits)
qed

lemma bin_index_of_group:
  assumes cfg: "cal_config gs" and sh: "unat (num_bins gs) \<le> 32768" and g: "g \<le> 15"
    and off: "off < bins_per_group gs"
  shows "g * bins_per_group gs + off < num_bins gs \<longleftrightarrow> g < num_groups gs"
proof (cases "num_groups gs = 0")
  case True
  then have "num_bins gs = 0" using cfg unat_inject [of "num_bins gs" 0] by (simp add: cal_config_def)
  then show ?thesis using True by simp
next
  case False
  define n where "n = unat (num_groups gs)"
  define b where "b = unat (bins_per_group gs)"
  have n: "0 < n" "n * b = unat (num_bins gs)"
    using False cfg by (simp_all add: n_def b_def cal_config_def unat_gt_0)
  have "b \<le> n * b" using n(1) by simp
  then have b: "b \<le> 32768" using n(2) sh by simp
  have g': "unat g \<le> 15" and o: "unat off < b" using g off by (simp_all add: b_def word_nat)
  have gb: "unat g * b \<le> 15 * 32768" using g' b by (intro mult_le_mono)
  have e: "unat (g * bins_per_group gs + off) = unat g * b + unat off"
    using gb o b by (simp add: unat_add_no_wrap unat_mult_no_wrap b_def)
  show ?thesis
  proof (cases "unat g < n")
    case True
    then have "Suc (unat g) * b \<le> n * b" by (intro mult_le_mono1) simp
    then show ?thesis using True e o n(2) by (simp add: word_less_nat_alt n_def)
  next
    case False
    then have "n * b \<le> unat g * b" by (intro mult_le_mono1) simp
    then have "\<not> g * bins_per_group gs + off < num_bins gs"
      unfolding word_less_nat_alt e n(2) [symmetric] by linarith
    moreover have "\<not> g < num_groups gs" using False by (simp add: word_less_nat_alt n_def)
    ultimately show ?thesis by simp
  qed
qed

text \<open>The group of an interval is the binary logarithm of its ratio to the base, at most 15.\<close>

lemma group_index_range:
  assumes "base \<noteq> 0" "base \<le> interval"
  obtains g where "calculate_group_index_from_interval interval base = Some g" "g \<le> 15"
    "2 ^ unat g * unat base \<le> unat interval"
    "g < 15 \<Longrightarrow> unat interval < 2 ^ (unat g + 1) * unat base"
proof (cases "interval \<le> base")
  case True
  then have "interval = base" using assms(2) by simp
  then show ?thesis
    using that [of 0] assms(1) by (simp add: calculate_group_index_from_interval_def unat_gt_0)
next
  case False
  define q where "q = interval div base"
  have b0: "0 < unat base" using assms(1) by (simp add: unat_gt_0)
  have uq: "unat q = unat interval div unat base" by (simp add: q_def unat_div)
  have "1 \<le> unat q" using assms(2) b0 by (simp add: uq less_eq_div_iff_mult_less_eq word_le_nat_alt)
  then have q0: "q \<noteq> 0" by auto
  define k where "k = 63 - clz q"
  have c: "clz q < 64" using clz_spec(1) [OF q0] .
  have "64 - clz q = k + 1" using c by (simp add: k_def)
  then have k: "2 ^ k \<le> unat q" "unat q < 2 ^ (k + 1)"
    using clz_log2 [OF q0] by (simp_all only: k_def)
  have lo: "2 ^ k * unat base \<le> unat interval"
    using k(1) b0 by (simp add: uq less_eq_div_iff_mult_less_eq)
  have hi: "unat interval < 2 ^ (k + 1) * unat base"
    using k(2) b0 by (simp add: uq div_less_iff_less_mult)
  have run: "calculate_group_index_from_interval interval base =
      Some (if 15 < (word_of_nat k :: u32) then 15 else word_of_nat k)"
    using False assms(1) q0
    by (simp add: calculate_group_index_from_interval_def builtin_clzll_def Let_def k_def flip: q_def)
  have "k < 2 ^ 32" by (simp add: k_def)
  then have wk: "unat (word_of_nat k :: u32) = k" by (rule unat_of_nat_small)
  show ?thesis
  proof (cases "k \<le> 15")
    case True
    then show ?thesis
      using that [of "word_of_nat k"] run wk lo hi by (simp add: word_le_nat_alt word_less_nat_alt)
  next
    case False
    have "2 ^ 15 * unat base \<le> 2 ^ k * unat base" using False by (intro mult_le_mono1 power_increasing) auto
    then have "2 ^ 15 * unat base \<le> unat interval" using lo by (rule order.trans)
    then show ?thesis
      using that [of 15] run wk False by (simp add: word_le_nat_alt word_less_nat_alt)
  qed
qed

definition calendar_fits :: "('u, 'f) group_scheduler \<Rightarrow> addr \<Rightarrow> bool" where
  "calendar_fits gs a \<longleftrightarrow>
     (case sessions gs a of None \<Rightarrow> False | Some s \<Rightarrow> group_index s \<le> 15 \<and> group_index s < num_groups gs)"

definition session_times :: "('u, 'f) group_scheduler \<Rightarrow> addr \<Rightarrow> (u64 \<times> u64) option" where
  "session_times gs a = map_option (\<lambda>s. (start_time s, finish_time s)) (sessions gs a)"

lemma same_data_keeps:
  assumes "same_data H' (H(a \<mapsto> s\<lparr>bin_index := idx\<rparr>))" "H a = Some s"
  shows "map_option (\<lambda>s. (start_time s, finish_time s)) (H' c) = map_option (\<lambda>s. (start_time s, finish_time s)) (H c)"
    "map_option group_index (H' c) = map_option group_index (H c)"
proof -
  have upd: "\<exists>s'. (H(a \<mapsto> s\<lparr>bin_index := idx\<rparr>)) c = Some s' \<and> start_time s' = start_time r \<and>
      finish_time s' = finish_time r \<and> group_index s' = group_index r" if "H c = Some r" for r
    using that assms(2) by auto
  have "\<exists>s'. H' c = Some s' \<and> start_time s' = start_time r \<and>
      finish_time s' = finish_time r \<and> group_index s' = group_index r" if r: "H c = Some r" for r
  proof -
    obtain s1 where s1: "(H(a \<mapsto> s\<lparr>bin_index := idx\<rparr>)) c = Some s1" "start_time s1 = start_time r"
        "finish_time s1 = finish_time r" "group_index s1 = group_index r"
      using upd [OF r] by blast
    obtain s2 where "H' c = Some s2" "unlinked s2 = unlinked s1" by (rule same_dataE [OF assms(1) s1(1)])
    then show ?thesis using s1 unlinked_fields [of s2 s1] by simp
  qed
  moreover have "H' c = None" if "H c = None"
    using that same_data_dom [OF assms(1), of c] assms(2) by (auto split: if_splits)
  ultimately consider "H c = None" "H' c = None"
    | r s' where "H c = Some r" "H' c = Some s'" "start_time s' = start_time r"
      "finish_time s' = finish_time r" "group_index s' = group_index r"
    by (cases "H c") auto
  then show "map_option (\<lambda>s. (start_time s, finish_time s)) (H' c) =
      map_option (\<lambda>s. (start_time s, finish_time s)) (H c)"
    "map_option group_index (H' c) = map_option group_index (H c)"
    by (cases; simp)+
qed

lemma calendar_insert_cases:
  fixes gs :: "('u, 'f) group_scheduler"
  assumes inv: "cal_inv gs" "cal_config gs" and a: "a \<notin> queued gs" and s: "sessions gs a = Some s"
    and g: "group_index s \<le> 15"
  obtains (ok) gs' where "group_index s < num_groups gs" "calendar_insert_session a gs = Some (Inr (), gs')"
      "cal_inv gs'" "queued gs' = insert a (queued gs)" "cal_frame gs' gs" "virtual_time gs' = virtual_time gs"
      "\<And>c. session_times gs' c = session_times gs c"
      "\<And>c. map_option group_index (sessions gs' c) = map_option group_index (sessions gs c)"
      "\<exists>idx. same_data (sessions gs') ((sessions gs)(a \<mapsto> s\<lparr>bin_index := idx\<rparr>))"
      "\<And>c. c \<notin> insert a (queued gs) \<Longrightarrow> sessions gs' c = sessions gs c"
    | (no_group) "\<not> group_index s < num_groups gs"
      "calendar_insert_session a gs = Some (Inl HWFQ_ERR_INTERNAL, gs)"
proof -
  obtain L where w: "cal_wf gs L" using inv(1) by (auto simp: cal_inv_def)
  have cfg: "base_interval gs = 1" "bins_per_group gs \<noteq> 0" using inv(2) by (simp_all add: cal_config_def)
  obtain off where off: "calculate_bin_index_from_finish_time (finish_time s) (group_index s)
      (bins_per_group gs) (base_interval gs) = Some off" "off < bins_per_group gs"
    using bin_index_in_group [OF cfg(2) g, of "finish_time s"] cfg(1) by auto
  have idx: "group_index s * bins_per_group gs + off < num_bins gs \<longleftrightarrow> group_index s < num_groups gs"
    by (rule bin_index_of_group [OF inv(2) _ g off(2)]) (use cal_shapeD(2) [OF cal_wfD(1) [OF w]] in simp)
  show ?thesis
  proof (cases "group_index s < num_groups gs")
    case True
    then have lt: "group_index s * bins_per_group gs + off < num_bins gs" using idx by simp
    from calendar_insert_ok [OF w a s off(1) refl lt] obtain gs' L' where i:
        "calendar_insert_session a gs = Some (Inr (), gs')"
        "cal_wf gs' L'" "queued gs' = insert a (queued gs)" "cal_frame gs' gs"
        "virtual_time gs' = virtual_time gs"
        "same_data (sessions gs') ((sessions gs)(a \<mapsto> s\<lparr>bin_index := group_index s * bins_per_group gs + off\<rparr>))"
        "\<And>c. c \<notin> insert a (queued gs) \<Longrightarrow> sessions gs' c = sessions gs c" by metis
    show ?thesis
    proof (rule ok [OF True i(1) _ i(3-5)])
      show "cal_inv gs'" using i(2) by (auto simp: cal_inv_def)
      show "session_times gs' c = session_times gs c" for c
        using same_data_keeps(1) [OF i(6) s] by (simp add: session_times_def)
      show "map_option group_index (sessions gs' c) = map_option group_index (sessions gs c)" for c
        using same_data_keeps(2) [OF i(6) s] .
      show "\<exists>idx. same_data (sessions gs') ((sessions gs)(a \<mapsto> s\<lparr>bin_index := idx\<rparr>))" using i(6) by blast
    qed (rule i(7))
  next
    case False
    have "calendar_insert_session a gs = Some (Inl HWFQ_ERR_INTERNAL, gs)"
      using s off(1) idx False by (simp add: calendar_insert_session_def Let_def not_less)
    with False show ?thesis by (rule no_group)
  qed
qed

lemma calendar_remove_inv:
  fixes gs :: "('u, 'f) group_scheduler"
  assumes inv: "cal_inv gs" and a: "a \<in> queued gs"
  obtains gs' where "calendar_remove_session a gs = Some (Inr (), gs')" "cal_inv gs'"
    "queued gs' = queued gs - {a}" "cal_frame gs' gs" "virtual_time gs' = virtual_time gs"
    "\<And>c. session_times gs' c = session_times gs c"
    "\<And>c. map_option group_index (sessions gs' c) = map_option group_index (sessions gs c)"
    "same_data (sessions gs') (sessions gs)"
    "\<And>c. c \<notin> queued gs \<Longrightarrow> sessions gs' c = sessions gs c"
proof -
  obtain L where w: "cal_wf gs L" using inv(1) by (auto simp: cal_inv_def)
  obtain gs' L' where r: "calendar_remove_session a gs = Some (Inr (), gs')"
      "cal_wf gs' L'" "queued gs' = queued gs - {a}" "cal_frame gs' gs"
      "virtual_time gs' = virtual_time gs" "same_data (sessions gs') (sessions gs)"
      "\<And>c. c \<notin> queued gs \<Longrightarrow> sessions gs' c = sessions gs c"
    using calendar_remove_ok [OF w a] by metis
  obtain s where s: "sessions gs a = Some s" using queued_session [OF inv a] .
  then have "(sessions gs)(a \<mapsto> s\<lparr>bin_index := bin_index s\<rparr>) = sessions gs" by auto
  then have sd: "same_data (sessions gs') ((sessions gs)(a \<mapsto> s\<lparr>bin_index := bin_index s\<rparr>))" using r(6) by simp
  show ?thesis
  proof (rule that [OF r(1) _ r(3-5)])
    show "cal_inv gs'" using r(2) by (auto simp: cal_inv_def)
    show "session_times gs' c = session_times gs c" for c
      using same_data_keeps(1) [OF sd s] by (simp add: session_times_def)
    show "map_option group_index (sessions gs' c) = map_option group_index (sessions gs c)" for c
      using same_data_keeps(2) [OF sd s] .
  qed (rule r(6), rule r(7))
qed

lemma cal_frame_config: "cal_frame gs' gs \<Longrightarrow> cal_config gs' = cal_config gs"
  by (simp add: cal_config_def cal_frameD)

interpretation calendar: session_queue
  "calendar_insert_session :: addr \<Rightarrow> ('u, 'f) group_scheduler \<Rightarrow> _" calendar_remove_session queued calendar_fits
  session_times "\<lambda>gs. cal_inv gs \<and> cal_config gs"
proof (unfold_locales, goal_cases)
  case (1 gs a)
  then obtain s where s: "sessions gs a = Some s" "group_index s \<le> 15" "group_index s < num_groups gs"
    by (auto simp: calendar_fits_def split: option.splits)
  have inv: "cal_inv gs" "cal_config gs" using 1 by auto
  show ?case
  proof (cases rule: calendar_insert_cases [OF inv 1(2) s(1,2), case_names ok no_group])
    case (ok gs')
    have "calendar_fits gs' = calendar_fits gs"
      using ok(8) cal_frameD(6) [OF ok(5)]
      by (auto simp: calendar_fits_def fun_eq_iff split: option.splits) (metis option.simps(9) option.inject option.distinct(1) option.map_disc_iff)+
    moreover have "session_times gs' = session_times gs" using ok(7) by blast
    ultimately show ?thesis using ok(2-4) inv(2) cal_frame_config [OF ok(5)] by simp
  next
    case no_group
    then show ?thesis using s(3) by simp
  qed
next
  case (2 gs a)
  have inv: "cal_inv gs" "cal_config gs" using 2 by auto
  from calendar_remove_inv [OF inv(1) 2(2)] obtain gs' where r:
      "calendar_remove_session a gs = Some (Inr (), gs')" "cal_inv gs'"
      "queued gs' = queued gs - {a}" "cal_frame gs' gs"
      "\<And>c. session_times gs' c = session_times gs c"
      "\<And>c. map_option group_index (sessions gs' c) = map_option group_index (sessions gs c)" by metis
  have "calendar_fits gs' = calendar_fits gs"
    using r(6) cal_frameD(6) [OF r(4)]
    by (auto simp: calendar_fits_def fun_eq_iff split: option.splits) (metis option.simps(9) option.inject option.distinct(1) option.map_disc_iff)+
  moreover have "session_times gs' = session_times gs" using r(5) by blast
  ultimately show ?case using r(1-3) inv(2) cal_frame_config [OF r(4)] by simp
qed

section \<open>The next session\<close>

text \<open>The virtual time at which \<open>calendar_find_min_session\<close> searches in the end.\<close>

definition search_time :: "('u, 'f) group_scheduler \<Rightarrow> u64" where
  "search_time gs =
     (if selectable gs (virtual_time gs) = {} \<and> min_start_time gs \<noteq> UINT64_MAX
      then max (virtual_time gs) (min_start_time gs) else virtual_time gs)"

lemma selectable_update [simp]:
  "selectable (gs\<lparr>virtual_time := v\<rparr>) now = selectable gs now"
  "selectable (gs\<lparr>min_finish_time := m\<rparr>) now = selectable gs now"
  by (simp_all add: selectable_def)

lemma calendar_find_min_ok:
  fixes gs :: "('u, 'f) group_scheduler"
  assumes w: "cal_wf gs L" and n: "active_session_count gs \<noteq> 0"
  obtains (none) "selectable gs (search_time gs) = {}"
      "calendar_find_min_session gs = Some (None, gs\<lparr>virtual_time := search_time gs\<rparr>)"
    | (some) a where "a \<in> selectable gs (search_time gs)"
      "\<And>c. c \<in> selectable gs (search_time gs) \<Longrightarrow> finish_of gs a \<le> finish_of gs c"
      "calendar_find_min_session gs =
        Some (Some a, gs\<lparr>virtual_time := search_time gs, min_finish_time := finish_of gs a\<rparr>)"
proof -
  have inv: "cal_inv gs" using w by (auto simp: cal_inv_def)
  have cell: "\<exists>s. sessions gs a = Some s" if "a \<in> selectable gs now" for a now
    using queued_session [OF inv, of a] that by (auto simp: selectable_def)
  obtain r0 where r0: "find_eligible_min_bitfield gs (virtual_time gs) = Some r0"
      "case r0 of None \<Rightarrow> selectable gs (virtual_time gs) = {}
       | Some a \<Rightarrow> a \<in> selectable gs (virtual_time gs) \<and>
           (\<forall>c \<in> selectable gs (virtual_time gs). finish_of gs a \<le> finish_of gs c)"
    using find_eligible_spec [OF w] .
  show ?thesis
  proof (cases "r0 = None \<and> min_start_time gs \<noteq> UINT64_MAX")
    case False
    then have st: "search_time gs = virtual_time gs" using r0(2) by (auto simp: search_time_def split: option.splits)
    then have vt: "gs\<lparr>virtual_time := search_time gs\<rparr> = gs" by simp
    show ?thesis
    proof (cases r0)
      case None
      then show ?thesis
        using none r0 n st vt False by (auto simp: calendar_find_min_session_def)
    next
      case (Some a)
      obtain s where s: "sessions gs a = Some s" using cell [of a] r0(2) Some by auto
      show ?thesis
        by (rule some [of a]) (use r0 Some n st vt s in \<open>auto simp: calendar_find_min_session_def\<close>)
    qed
  next
    case True
    define gs1 where "gs1 = gs\<lparr>virtual_time := search_time gs\<rparr>"
    have st: "search_time gs =
        (if virtual_time gs < min_start_time gs then min_start_time gs else virtual_time gs)"
      using True r0(2) by (auto simp: search_time_def max_def)
    have g1: "(if virtual_time gs < min_start_time gs
        then (min_start_time gs, gs\<lparr>virtual_time := min_start_time gs\<rparr>)
        else (virtual_time gs, gs)) = (search_time gs, gs1)"
      by (auto simp: gs1_def st)
    have "cal_wf gs1 L" using w by (simp add: cal_wf_def gs1_def)
    then obtain r where r: "find_eligible_min_bitfield gs1 (search_time gs) = Some r"
      "case r of None \<Rightarrow> selectable gs1 (search_time gs) = {}
       | Some a \<Rightarrow> a \<in> selectable gs1 (search_time gs) \<and>
           (\<forall>c \<in> selectable gs1 (search_time gs). finish_of gs1 a \<le> finish_of gs1 c)"
      using find_eligible_spec by blast
    have run: "calendar_find_min_session gs = (case r of
          None \<Rightarrow> Some (None, gs1)
        | Some a \<Rightarrow> do { s \<leftarrow> sessions gs1 a; Some (Some a, gs1\<lparr>min_finish_time := finish_time s\<rparr>) })"
      unfolding calendar_find_min_session_def g1 Let_def using True r0(1) r(1) n by simp
    show ?thesis
    proof (cases r)
      case None
      then show ?thesis using none r run by (simp add: gs1_def)
    next
      case (Some a)
      obtain s where s: "sessions gs a = Some s" using cell [of a "search_time gs"] r(2) Some by (auto simp: gs1_def)
      show ?thesis by (rule some [of a]) (use r run Some s in \<open>auto simp: gs1_def\<close>)
    qed
  qed
qed

text \<open>When every finish time is representable, a session is selectable after the jump.\<close>

lemma search_time_selectable:
  assumes w: "cal_wf gs L" and ne: "queued gs \<noteq> {}"
    and fin: "\<And>a. a \<in> queued gs \<Longrightarrow> start_of gs a \<le> finish_of gs a \<and> finish_of gs a \<noteq> UINT64_MAX"
  shows "selectable gs (search_time gs) \<noteq> {}"
proof (cases "selectable gs (virtual_time gs) = {}")
  case False
  then show ?thesis by (simp add: search_time_def)
next
  case True
  note mins = cal_wfD(4) [OF w]
  obtain a where a: "a \<in> queued gs" using ne by blast
  then have "start_of gs a \<noteq> UINT64_MAX" using fin [OF a] by auto
  moreover have "min_start_time gs \<le> start_of gs a"
    using mins a queued_iff [OF w] unfolding cal_mins_def by blast
  ultimately have "min_start_time gs \<noteq> UINT64_MAX" by auto
  then obtain b where b: "b \<in> queued gs" "start_of gs b = min_start_time gs"
    using mins queued_iff [OF w] unfolding cal_mins_def by blast
  moreover have "min_start_time gs \<le> search_time gs"
    using True \<open>min_start_time gs \<noteq> UINT64_MAX\<close> by (simp add: search_time_def)
  ultimately have "b \<in> selectable gs (search_time gs)" using fin [OF b(1)] by (simp add: selectable_def)
  then show ?thesis by blast
qed

text \<open>An empty calendar, as the initialisation leaves it.\<close>

lemma empty_calendar_inv:
  assumes "cal_shape gs" "bin_bitfield gs = replicate n 0" "group_bitfield gs = replicate 32 0"
    and "bin_heads gs = replicate m None" "min_start_time gs = UINT64_MAX" "min_session gs = None"
  shows "cal_inv gs" "queued gs = {}"
proof -
  have "unat (num_bins gs) = m" using cal_shapeD(1) [OF assms(1)] assms(4) by simp
  then have "cal_lists gs (\<lambda>_. [])" unfolding cal_lists_def assms(4) by simp
  moreover have "cal_bits gs (\<lambda>_. [])" unfolding cal_bits_def assms(2,3) by (simp only: abit_replicate_0) simp
  moreover have "cal_mins gs (\<lambda>_. [])" unfolding cal_mins_def assms(5,6) by simp
  ultimately have "cal_wf gs (\<lambda>_. [])" using assms(1) by (simp add: cal_wf_def)
  then show "cal_inv gs" "queued gs = {}"
    using queued_eq [of gs "\<lambda>_. []"] by (auto simp: cal_inv_def)
qed

section \<open>Properties\<close>

text \<open>
  The examples' calendar: 16 groups of 2 bins; the session at address 1 may start at time 0 and
  finishes at 4, the one at address 2 starts at 10 and finishes at 12.  \<open>cal_one\<close> and \<open>cal_two\<close>
  are the calendar after the insertion of the first and of both.
\<close>

definition sample_session :: "u64 \<Rightarrow> u64 \<Rightarrow> u32 \<Rightarrow> (unit, unit) session_state" where
  "sample_session start fin g =
     \<lparr>sess_entry_id = 1, start_time = start, finish_time = fin, service_interval = fin - start,
      group_index = g, bin_index = 0, user_data = Some (), work_size = 1, bin_next = None,
      bin_prev = None, enqueue_time_ns = 0, cleanup_fn = None\<rparr>"

definition cal_zero :: "(unit, unit) group_scheduler" where
  "cal_zero =
     \<lparr>bin_bitfield = [0], bin_heads = replicate 32 None, group_bitfield = replicate 32 0,
      entries = hwfq_chunked_entries_init 10, gs_max_entries = 10, configured_entries_head = None,
      allocated_rate_capacity = 0, total_weight = 0, num_groups = 16, bins_per_group = 2,
      num_bins = 32, bin_bitfield_size = 1, base_interval = 1, total_capacity = 100,
      virtual_time = 0, active_session_count = 2, min_finish_time = UINT64_MAX,
      min_start_time = UINT64_MAX, min_session = None,
      sessions = [1 \<mapsto> sample_session 0 4 2, 2 \<mapsto> sample_session 10 12 1]\<rparr>"

lemma cal_zero_fields:
  "bin_bitfield cal_zero = replicate 1 0" "group_bitfield cal_zero = replicate 32 0"
  "bin_heads cal_zero = replicate 32 None" "num_bins cal_zero = 32" "bin_bitfield_size cal_zero = 1"
  "min_start_time cal_zero = UINT64_MAX" "min_session cal_zero = None" "num_groups cal_zero = 16"
  "sessions cal_zero = [1 \<mapsto> sample_session 0 4 2, 2 \<mapsto> sample_session 10 12 1]"
  by (simp_all only: cal_zero_def group_scheduler.select_convs One_nat_def replicate.simps)

lemma cal_zero_shape: "cal_shape cal_zero"
  unfolding cal_shape_def cal_zero_fields by (simp only: length_replicate) simp

lemma cal_zero_inv: "cal_inv cal_zero" "cal_config cal_zero" "queued cal_zero = {}"
  using empty_calendar_inv [OF cal_zero_shape cal_zero_fields(1-3,6,7)]
  by (simp_all add: cal_config_def cal_zero_def)

definition cal_one :: "(unit, unit) group_scheduler" where
  "cal_one = snd (the (calendar_insert_session 1 cal_zero))"

definition cal_two :: "(unit, unit) group_scheduler" where
  "cal_two = snd (the (calendar_insert_session 2 cal_one))"

lemma cal_one_inv: "calendar_insert_session 1 cal_zero = Some (Inr (), cal_one)"
  "cal_inv cal_one" "cal_config cal_one" "queued cal_one = {1}" "calendar_fits cal_one 2"
proof -
  have f: "sessions cal_zero = [1 \<mapsto> sample_session 0 4 2, 2 \<mapsto> sample_session 10 12 1]"
      "num_groups cal_zero = 16"
    by (simp_all only: cal_zero_def group_scheduler.select_convs)
  have fit: "calendar_fits cal_zero 1" "calendar_fits cal_zero 2"
    unfolding calendar_fits_def f by (simp_all add: sample_session_def)
  have "1 \<notin> queued cal_zero" using cal_zero_inv(3) by simp
  from calendar.insert_law [OF _ this fit(1)] cal_zero_inv(1,2) obtain q where
    q: "calendar_insert_session 1 cal_zero = Some (Inr (), q)" "cal_inv q \<and> cal_config q"
      "queued q = insert 1 (queued cal_zero)" "calendar_fits q = calendar_fits cal_zero" by blast
  then have "cal_one = q" by (simp add: cal_one_def)
  then show "calendar_insert_session 1 cal_zero = Some (Inr (), cal_one)"
    "cal_inv cal_one" "cal_config cal_one" "queued cal_one = {1}" "calendar_fits cal_one 2"
    using q fit(2) cal_zero_inv(3) by simp_all
qed

lemma cal_two_inv: "calendar_insert_session 2 cal_one = Some (Inr (), cal_two)"
  "cal_inv cal_two" "cal_config cal_two" "queued cal_two = {1, 2}"
proof -
  have "2 \<notin> queued cal_one" using cal_one_inv(4) by simp
  from calendar.insert_law [OF _ this cal_one_inv(5)] cal_one_inv(2,3) obtain q where
    q: "calendar_insert_session 2 cal_one = Some (Inr (), q)" "cal_inv q \<and> cal_config q"
      "queued q = insert 2 (queued cal_one)" by blast
  then have "cal_two = q" by (simp add: cal_two_def)
  then show "calendar_insert_session 2 cal_one = Some (Inr (), cal_two)"
    "cal_inv cal_two" "cal_config cal_two" "queued cal_two = {1, 2}"
    using q cal_one_inv(4) by auto
qed

text \<open>
  C18. Inserting a session that is not queued and has a group index up to 15 never leaves the arrays, and it keeps the invariant.  A session of one of
  the configured groups is added to the queue, and no session's times change; a session of a later
  group is refused with \<open>HWFQ_ERR_INTERNAL\<close>, and nothing changes.
\<close>

theorem calendar_insert_correct:
  assumes "cal_inv gs" "cal_config gs" "a \<notin> queued gs" "sessions gs a = Some s" "group_index s \<le> 15"
  shows "\<exists>r gs'. calendar_insert_session a gs = Some (r, gs') \<and> cal_inv gs' \<and>
    (if group_index s < num_groups gs
     then r = Inr () \<and> queued gs' = insert a (queued gs) \<and> session_times gs' = session_times gs
     else r = Inl HWFQ_ERR_INTERNAL \<and> gs' = gs)"
proof (cases rule: calendar_insert_cases [OF assms, case_names ok no_group])
  case (ok gs')
  then show ?thesis by auto
next
  case no_group
  then show ?thesis using assms(1) by simp
qed

theorem calendar_insert_correct_witness:
  "\<exists>r gs'. calendar_insert_session 2 cal_zero = Some (r, gs') \<and> cal_inv gs' \<and>
    (if group_index (sample_session 10 12 1) < num_groups cal_zero
     then r = Inr () \<and> queued gs' = insert 2 (queued cal_zero) \<and> session_times gs' = session_times cal_zero
     else r = Inl HWFQ_ERR_INTERNAL \<and> gs' = cal_zero)"
proof (rule calendar_insert_correct [OF cal_zero_inv(1,2)])
  show "2 \<notin> queued cal_zero" by (simp add: cal_zero_inv(3))
qed (simp_all add: cal_zero_def sample_session_def)

text \<open>
  C19. Removing a queued session succeeds: it leaves the queue, all other sessions stay with their
  times, and the bitmaps, the lists and the cached minimal start time are exact again.
\<close>

theorem calendar_remove_correct:
  assumes "cal_inv gs" "a \<in> queued gs"
  shows "\<exists>gs'. calendar_remove_session a gs = Some (Inr (), gs') \<and> cal_inv gs' \<and>
    queued gs' = queued gs - {a} \<and> session_times gs' = session_times gs \<and>
    virtual_time gs' = virtual_time gs"
proof (rule calendar_remove_inv [OF assms])
  fix gs' assume "calendar_remove_session a gs = Some (Inr (), gs')" "cal_inv gs'"
    "queued gs' = queued gs - {a}" "virtual_time gs' = virtual_time gs"
    "\<And>c. session_times gs' c = session_times gs c"
  then show ?thesis by auto
qed

theorem calendar_remove_correct_witness:
  "\<exists>gs'. calendar_remove_session 1 cal_two = Some (Inr (), gs') \<and> cal_inv gs' \<and>
    queued gs' = queued cal_two - {1} \<and> session_times gs' = session_times cal_two \<and>
    virtual_time gs' = virtual_time cal_two"
  by (rule calendar_remove_correct [OF cal_two_inv(2)]) (simp add: cal_two_inv(4))

text \<open>
  C17. The search is WF2Q+'s choice, up to saturated finish times.  It looks at the current virtual time
  and, only when no session is selectable there (eligible, with a finish time below \<open>UINT64_MAX\<close>), at the
  virtual time advanced (never set back) to the least start time.  It answers NULL just when at that time
  every eligible session -- every one with a start time at or before it -- has the finish time
  \<open>UINT64_MAX\<close>, which includes that there is none; otherwise it answers an eligible session with a finish
  time below \<open>UINT64_MAX\<close> that is the least of all eligible ones.  Virtual time and the cached minimal
  finish time are all it changes.
\<close>

theorem calendar_find_min_correct:
  assumes "cal_inv gs" "active_session_count gs \<noteq> 0"
  shows "\<exists>r. calendar_find_min_session gs = Some (r, gs\<lparr>virtual_time := search_time gs,
      min_finish_time := (case r of None \<Rightarrow> min_finish_time gs | Some a \<Rightarrow> finish_of gs a)\<rparr>) \<and>
    virtual_time gs \<le> search_time gs \<and>
    (case r of
       None \<Rightarrow> \<forall>c \<in> eligible gs (search_time gs). finish_of gs c = UINT64_MAX
     | Some a \<Rightarrow> a \<in> eligible gs (search_time gs) \<and> finish_of gs a \<noteq> UINT64_MAX \<and>
         (\<forall>c \<in> eligible gs (search_time gs). finish_of gs a \<le> finish_of gs c))"
proof -
  obtain L where w: "cal_wf gs L" using assms(1) by (auto simp: cal_inv_def)
  have le: "virtual_time gs \<le> search_time gs" by (simp add: search_time_def)
  show ?thesis
  proof (cases rule: calendar_find_min_ok [OF w assms(2), case_names none some])
    case none
    then show ?thesis using le by (intro exI [of _ None]) (simp add: selectable_empty)
  next
    case (some a)
    have "\<forall>c \<in> eligible gs (search_time gs). finish_of gs a \<le> finish_of gs c" by (rule selectable_least) (rule some(2))
    then show ?thesis using some(1,3) le by (intro exI [of _ "Some a"]) (simp add: selectable_iff)
  qed
qed

theorem calendar_find_min_correct_witness:
  "cal_inv cal_two \<and> (\<exists>r. calendar_find_min_session cal_two =
      Some (r, cal_two\<lparr>virtual_time := search_time cal_two,
        min_finish_time := (case r of None \<Rightarrow> min_finish_time cal_two | Some a \<Rightarrow> finish_of cal_two a)\<rparr>) \<and>
    virtual_time cal_two \<le> search_time cal_two \<and>
    (case r of
       None \<Rightarrow> \<forall>c \<in> eligible cal_two (search_time cal_two). finish_of cal_two c = UINT64_MAX
     | Some a \<Rightarrow> a \<in> eligible cal_two (search_time cal_two) \<and> finish_of cal_two a \<noteq> UINT64_MAX \<and>
         (\<forall>c \<in> eligible cal_two (search_time cal_two). finish_of cal_two a \<le> finish_of cal_two c)))"
proof -
  have "active_session_count cal_two \<noteq> 0" by code_simp
  from calendar_find_min_correct [OF cal_two_inv(2) this] cal_two_inv(2) show ?thesis by (rule conjI [rotated])
qed

text \<open>
  C20. The calendar is work conserving: as long as finish times are below the largest representable
  one, a non-empty queue always yields a session.
\<close>

theorem calendar_work_conserving:
  assumes "cal_inv gs" "active_session_count gs \<noteq> 0" "queued gs \<noteq> {}"
    and "\<And>a. a \<in> queued gs \<Longrightarrow> start_of gs a \<le> finish_of gs a \<and> finish_of gs a \<noteq> UINT64_MAX"
  shows "\<exists>a gs'. calendar_find_min_session gs = Some (Some a, gs') \<and> a \<in> queued gs"
proof -
  obtain L where w: "cal_wf gs L" using assms(1) by (auto simp: cal_inv_def)
  have ne: "selectable gs (search_time gs) \<noteq> {}" by (rule search_time_selectable [OF w assms(3,4)])
  show ?thesis
  proof (cases rule: calendar_find_min_ok [OF w assms(2), case_names none some])
    case none
    then show ?thesis using ne by simp
  next
    case (some a)
    then show ?thesis by (auto simp: selectable_def)
  qed
qed

theorem calendar_work_conserving_witness:
  "\<exists>a gs'. calendar_find_min_session cal_two = Some (Some a, gs') \<and> a \<in> queued cal_two"
proof (rule calendar_work_conserving [OF cal_two_inv(2)])
  show "active_session_count cal_two \<noteq> 0" by code_simp
  show "queued cal_two \<noteq> {}" by (simp add: cal_two_inv(4))
  have "start_of cal_two 1 \<le> finish_of cal_two 1 \<and> finish_of cal_two 1 \<noteq> UINT64_MAX"
    "start_of cal_two 2 \<le> finish_of cal_two 2 \<and> finish_of cal_two 2 \<noteq> UINT64_MAX" by code_simp+
  then show "start_of cal_two a \<le> finish_of cal_two a \<and> finish_of cal_two a \<noteq> UINT64_MAX"
    if "a \<in> queued cal_two" for a using that by (auto simp: cal_two_inv(4))
qed

text \<open>
  C22. A saturated finish time blocks the queue: when every session that may start at the search
  time finishes at the largest representable time, the search answers NULL although work is queued.
\<close>

theorem calendar_blocked_by_saturated:
  assumes "cal_inv gs" "active_session_count gs \<noteq> 0"
    and "\<And>a. a \<in> queued gs \<Longrightarrow> start_of gs a \<le> max (virtual_time gs) (min_start_time gs) \<Longrightarrow>
      finish_of gs a = UINT64_MAX"
  shows "\<exists>gs'. calendar_find_min_session gs = Some (None, gs') \<and> queued gs' = queued gs"
proof -
  obtain L where w: "cal_wf gs L" using assms(1) by (auto simp: cal_inv_def)
  have "search_time gs \<le> max (virtual_time gs) (min_start_time gs)" by (simp add: search_time_def)
  then have "start_of gs a \<le> max (virtual_time gs) (min_start_time gs)" if "a \<in> selectable gs (search_time gs)" for a
    using that order.trans by (fastforce simp: selectable_def)
  then have "selectable gs (search_time gs) = {}"
    using assms(3) by (auto simp: selectable_def)
  then show ?thesis
    using calendar_find_min_ok [OF w assms(2)] by (metis empty_iff queued_update(3))
qed

text \<open>The session at address 3 is saturated, the one at address 4 may start at 5.\<close>

definition cal_stuck :: "(unit, unit) group_scheduler" where
  "cal_stuck = snd (the (calendar_insert_session 4 (snd (the (calendar_insert_session 3
     (cal_zero\<lparr>sessions := [3 \<mapsto> sample_session 0 UINT64_MAX 15, 4 \<mapsto> sample_session 5 7 1]\<rparr>))))))"

lemma cal_stuck_inv: "cal_inv cal_stuck" "queued cal_stuck = {3, 4}"
proof -
  let ?H = "[3 \<mapsto> sample_session 0 UINT64_MAX 15, 4 \<mapsto> sample_session 5 7 1]"
  define q0 where "q0 = cal_zero\<lparr>sessions := ?H\<rparr>"
  have "cal_shape q0" using cal_zero_shape by (simp add: cal_shape_def q0_def)
  then have q0: "cal_inv q0" "queued q0 = {}"
    using empty_calendar_inv [of q0 1 32] cal_zero_fields by (simp_all add: q0_def)
  have cfg: "cal_config q0" using cal_zero_inv(2) by (simp add: cal_config_def q0_def)
  have fit: "calendar_fits q0 3" "calendar_fits q0 4"
    using cal_zero_fields(8) by (simp_all add: calendar_fits_def q0_def sample_session_def)
  obtain q1 where q1: "calendar_insert_session 3 q0 = Some (Inr (), q1)" "cal_inv q1 \<and> cal_config q1"
      "queued q1 = {3}" "calendar_fits q1 = calendar_fits q0"
    using calendar.insert_law [of q0 3] q0 cfg fit(1) by auto
  have "4 \<notin> queued q1" "calendar_fits q1 4" using q1 fit(2) by simp_all
  from calendar.insert_law [OF q1(2) this] q1(3)
  obtain q2 where q2: "calendar_insert_session 4 q1 = Some (Inr (), q2)" "cal_inv q2" "queued q2 = {3, 4}"
    by auto
  have "cal_stuck = q2" using q1(1) q2(1) unfolding q0_def by (simp add: cal_stuck_def)
  then show "cal_inv cal_stuck" "queued cal_stuck = {3, 4}" using q2 by simp_all
qed

theorem calendar_blocked_by_saturated_witness:
  "\<exists>gs'. calendar_find_min_session cal_stuck = Some (None, gs') \<and> queued gs' = queued cal_stuck"
proof (rule calendar_blocked_by_saturated [OF cal_stuck_inv(1)])
  show "active_session_count cal_stuck \<noteq> 0" by code_simp
  have "finish_of cal_stuck 3 = UINT64_MAX" by code_simp
  moreover have "\<not> start_of cal_stuck 4 \<le> max (virtual_time cal_stuck) (min_start_time cal_stuck)" by code_simp
  ultimately show "finish_of cal_stuck a = UINT64_MAX"
    if "a \<in> queued cal_stuck" "start_of cal_stuck a \<le> max (virtual_time cal_stuck) (min_start_time cal_stuck)" for a
    using that by (auto simp: cal_stuck_inv(2))
qed

text \<open>
  Groups are exponentially spaced, as documented: group \<open>g\<close> holds the intervals from
  \<open>2 ^ g\<close> times the base up to twice that, and the last group all longer ones.
\<close>

theorem group_index_exponential:
  assumes "base \<noteq> 0" "base \<le> interval"
  shows "\<exists>g. calculate_group_index_from_interval interval base = Some g \<and> g \<le> 15 \<and>
    2 ^ unat g * unat base \<le> unat interval \<and>
    (g < 15 \<longrightarrow> unat interval < 2 ^ (unat g + 1) * unat base)"
  by (rule group_index_range [OF assms]) auto

theorem group_index_exponential_witness:
  "\<exists>g. calculate_group_index_from_interval 1000 3 = Some g \<and> g \<le> 15 \<and>
    2 ^ unat g * unat (3 :: u64) \<le> unat (1000 :: u64) \<and>
    (g < 15 \<longrightarrow> unat (1000 :: u64) < 2 ^ (unat g + 1) * unat (3 :: u64))"
  by (rule group_index_exponential) simp_all

text \<open>
  C21. Any sequence of insertions and removals that the owner of the sessions may make runs without
  undefined behaviour, and the queue holds just what the same sequence leaves in a set.
\<close>

theorem calendar_requests_refine_set:
  assumes "cal_inv gs" "cal_config gs" "may_request (calendar_fits gs) (queued gs) rs"
  shows "\<exists>gs'. queue_run calendar_insert_session calendar_remove_session rs gs = Some gs' \<and>
    cal_inv gs' \<and> queued gs' = fold set_step rs (queued gs) \<and> session_times gs' = session_times gs"
  using calendar.run_refines [of gs rs] assms by auto

theorem calendar_requests_refine_set_witness:
  "\<exists>gs'. queue_run calendar_insert_session calendar_remove_session [Insert 2, Remove 1, Insert 1] cal_one =
      Some gs' \<and> cal_inv gs' \<and>
    queued gs' = fold set_step [Insert 2, Remove 1, Insert 1] (queued cal_one) \<and>
    session_times gs' = session_times cal_one"
proof (rule calendar_requests_refine_set [OF cal_one_inv(2,3)])
  have "calendar_fits cal_one 1" by code_simp
  then show "may_request (calendar_fits cal_one) (queued cal_one) [Insert 2, Remove 1, Insert 1]"
    using cal_one_inv(4,5) by simp
qed

text \<open>
  A tie is broken last-in first-out: a session whose times equal those of every session in its
  bin is linked in at the head of the bin's list, before those that came earlier.
\<close>

theorem bin_list_tie_at_head:
  assumes "unat idx < length (bin_heads gs)"
    and "dll (sessions gs) (bin_heads gs ! unat idx) xs" "distinct xs" "a \<notin> set xs"
    and "sessions gs a = Some s"
    and "\<And>c. c \<in> set xs \<Longrightarrow> start_of gs c = start_time s \<and> finish_of gs c = finish_time s"
  shows "\<exists>gs'. bin_list_insert idx a gs = Some gs' \<and>
    dll (sessions gs') (bin_heads gs' ! unat idx) (a # xs)"
proof -
  have "insert_at (sessions gs) a s xs = a # xs"
    using assms(6) by (cases xs) (auto simp: insert_at_def session_less_def)
  then show ?thesis
    using bin_list_insert_ok [OF assms(1-5)] assms(1) by (metis group_scheduler.select_convs(2,20)
      group_scheduler.surjective group_scheduler.update_convs(2,20) nth_list_update_eq)
qed

theorem bin_list_tie_at_head_witness:
  "\<exists>gs'. bin_list_insert 0 5 (cal_zero\<lparr>bin_heads := [Some 1],
      sessions := [1 \<mapsto> sample_session 0 4 2, 5 \<mapsto> sample_session 0 4 2]\<rparr>) = Some gs' \<and>
    dll (sessions gs') (bin_heads gs' ! unat (0 :: u32)) [5, 1]"
  by (rule bin_list_tie_at_head [where s = "sample_session 0 4 2"])
    (auto simp: dll_def sample_session_def)

end
