(* ===== verification/Group_Scheduler.thy ===== *)
theory Group_Scheduler
  imports Calendar
begin

text \<open>
  \<^verbatim>\<open>src/hwfq_group_scheduler.c\<close>: one level of WF2Q+.  Entries (tenants or flows) get a rate or a weight;
  enqueuing work for an entry makes a session with a start and a finish time and puts it in the
  calendar; dequeuing takes the calendar's choice; completed work advances the virtual time.

  The scheduler reads and writes the entry storage \<open>entries\<close>; a pointer to an entry is its ID.  What
  the allocator and the clock answer are arguments: \<open>mem\<close> is the address of the new object or
  \<open>None\<close>, \<open>ts\<close> the seconds and nanoseconds of \<open>clock_gettime\<close>.
\<close>

section \<open>Memory and clock\<close>

text \<open>\<open>hwfq_alloc\<close> refuses a size of zero; otherwise it passes on the allocator's answer.\<close>

definition hwfq_alloc :: "'m option \<Rightarrow> nat \<Rightarrow> 'm option" where
  "hwfq_alloc mem sz = (if sz = 0 then None else mem)"

definition hwfq_free :: "addr \<Rightarrow> (addr \<Rightarrow> 'o option) \<Rightarrow> (addr \<Rightarrow> 'o option) option" where
  "hwfq_free p H = do { _ \<leftarrow> H p; Some (H(p := None)) }"

definition clock_ns :: "u64 \<times> u64 \<Rightarrow> u64" where
  "clock_ns ts = fst ts * 1000000000 + snd ts"

abbreviation HWFQ_REBASE_THRESHOLD :: u64 where "HWFQ_REBASE_THRESHOLD \<equiv> 0x7FFFFFFFFFFFFFFF"

section \<open>Rates\<close>

definition calculate_effective_rate :: "('u, 'f) group_scheduler \<Rightarrow> entry_config \<Rightarrow> u64" where
  "calculate_effective_rate gs e =
     (let final = (\<lambda>rate :: u64. let rate = drop_bit 1 rate in if rate = 0 then 1 else rate) in
      case allocation e of
        Rate r \<Rightarrow> final r
      | _ \<Rightarrow>
          if total_weight gs = 0 then 0
          else
            let available = total_capacity gs - allocated_rate_capacity gs
            in final ((ucast (allocation_weight (allocation e)) * available) div ucast (total_weight gs)))"

text \<open>
  \<open>while (entry != NULL) { *entry = f (*entry); entry = entry->next_configured; }\<close>: the loop of
  \<open>recalculate_weight_based_rates\<close> and of the last phase of the rebase.
\<close>

partial_function (option) map_configured ::
  "(entry_config \<Rightarrow> entry_config) \<Rightarrow> u32 option \<Rightarrow> chunked_entries \<Rightarrow> chunked_entries option" where
  "map_configured f entry ce =
     (case entry of
        None \<Rightarrow> Some ce
      | Some p \<Rightarrow> do {
          e \<leftarrow> entry_load ce p;
          ce \<leftarrow> entry_store p (f e) ce;
          e \<leftarrow> entry_load ce p;
          map_configured f (next_configured e) ce
        })"

definition recalculate_weight_based_rates ::
  "('u, 'f) group_scheduler \<Rightarrow> ('u, 'f) group_scheduler option" where
  "recalculate_weight_based_rates gs = do {
     ce \<leftarrow> map_configured
       (\<lambda>e. case allocation e of Weight w \<Rightarrow> e\<lparr>calculated_rate := calculate_effective_rate gs e\<rparr> | _ \<Rightarrow> e)
       (configured_entries_head gs) (entries gs);
     Some (gs\<lparr>entries := ce\<rparr>)
   }"

section \<open>Creation and destruction\<close>

text \<open>The three allocations may each fail; \<open>None\<close> is the NULL result.\<close>

definition group_scheduler_init_common ::
  "bool \<times> bool \<times> bool \<Rightarrow> u32 \<Rightarrow> u32 \<Rightarrow> u64 \<Rightarrow> u32 \<Rightarrow> chunked_entries \<Rightarrow> ('u, 'f) group_scheduler option" where
  "group_scheduler_init_common mem groups bins capacity cap_ids ce =
     (let (gs_ok, bitfield_ok, heads_ok) = mem;
          answer = (\<lambda>ok. if ok then Some () else None);
          nbins = groups * bins;
          words = (nbins + 31) div 32
      in
        if groups = 0 \<or> bins = 0 \<or> cap_ids = 0 then None
        else if \<not> gs_ok then None
        else if hwfq_alloc (answer bitfield_ok) (4 * unat words) = None then None
        else if hwfq_alloc (answer heads_ok) (8 * unat nbins) = None then None
        else Some \<lparr>bin_bitfield = replicate (unat words) 0, bin_heads = replicate (unat nbins) None,
          group_bitfield = replicate 32 0, entries = ce, gs_max_entries = cap_ids,
          configured_entries_head = None, allocated_rate_capacity = 0, total_weight = 0,
          num_groups = groups, bins_per_group = bins, num_bins = nbins, bin_bitfield_size = words,
          base_interval = 1, total_capacity = capacity, virtual_time = 0, active_session_count = 0,
          min_finish_time = UINT64_MAX, min_start_time = UINT64_MAX, min_session = None,
          sessions = (\<lambda>_. None)\<rparr>)"

definition group_scheduler_init_with_entries ::
  "bool \<times> bool \<times> bool \<Rightarrow> u32 \<Rightarrow> u32 \<Rightarrow> u64 \<Rightarrow> u32 \<Rightarrow> chunked_entries \<Rightarrow> ('u, 'f) group_scheduler option" where
  "group_scheduler_init_with_entries mem groups bins capacity cap_ids ce =
     (case group_scheduler_init_common mem groups bins capacity cap_ids ce of
        None \<Rightarrow> None
      | Some gs \<Rightarrow> Some (gs\<lparr>entries := ce\<rparr>))"

text \<open>
  Destruction frees the queued sessions; its result is the sequence of cleanup calls it makes and
  what is left of the heap.
\<close>

partial_function (option) destroy_bin ::
  "('u, 'f) session_heap \<Rightarrow> addr option \<Rightarrow> ('f \<times> 'u option) list \<Rightarrow>
   (('f \<times> 'u option) list \<times> ('u, 'f) session_heap) option" where
  "destroy_bin H session calls =
     (case session of
        None \<Rightarrow> Some (calls, H)
      | Some p \<Rightarrow> do {
          s \<leftarrow> H p;
          let next = bin_next s;
          let calls = (case cleanup_fn s of None \<Rightarrow> calls | Some f \<Rightarrow> calls @ [(f, user_data s)]);
          H \<leftarrow> hwfq_free p H;
          destroy_bin H next calls
        })"

definition group_scheduler_destroy ::
  "('u, 'f) group_scheduler \<Rightarrow> (('f \<times> 'u option) list \<times> ('u, 'f) session_heap) option" where
  "group_scheduler_destroy gs =
     (let total_bins = num_groups gs * bins_per_group gs in
      foldM (\<lambda>i (calls, H). do { head \<leftarrow> arr_get (bin_heads gs) i; destroy_bin H head calls })
        [0..<unat total_bins] ([], sessions gs))"

section \<open>Entries\<close>

definition group_scheduler_find_entry :: "('u, 'f) group_scheduler \<Rightarrow> u32 \<Rightarrow> u32 option option" where
  "group_scheduler_find_entry gs i = do {
     entry \<leftarrow> hwfq_chunked_get (entries gs) i;
     case entry of
       None \<Rightarrow> Some None
     | Some p \<Rightarrow> do { e \<leftarrow> entry_load (entries gs) p; Some (if configured e then Some p else None) }
   }"

definition group_scheduler_get_entry :: "('u, 'f) group_scheduler \<Rightarrow> u32 \<Rightarrow> u32 option option" where
  "group_scheduler_get_entry gs i = hwfq_chunked_get (entries gs) i"

text \<open>Subtracting and adding the share of an entry.\<close>

definition release_share :: "hwfq_allocation \<Rightarrow> ('u, 'f) group_scheduler \<Rightarrow> ('u, 'f) group_scheduler" where
  "release_share a gs = (case a of
       Rate r \<Rightarrow> gs\<lparr>allocated_rate_capacity := allocated_rate_capacity gs - r\<rparr>
     | _ \<Rightarrow> gs\<lparr>total_weight := total_weight gs - allocation_weight a\<rparr>)"

definition restore_share :: "hwfq_allocation \<Rightarrow> ('u, 'f) group_scheduler \<Rightarrow> ('u, 'f) group_scheduler" where
  "restore_share a gs = (case a of
       Rate r \<Rightarrow> gs\<lparr>allocated_rate_capacity := allocated_rate_capacity gs + r\<rparr>
     | _ \<Rightarrow> gs\<lparr>total_weight := total_weight gs + allocation_weight a\<rparr>)"

definition group_scheduler_configure_entry ::
  "u32 \<Rightarrow> hwfq_allocation \<Rightarrow> ('u, 'f) group_scheduler \<Rightarrow> ((hwfq_error + unit) \<times> ('u, 'f) group_scheduler) option" where
  "group_scheduler_configure_entry i alloc gs =
     (if gs_max_entries gs \<le> i then Some (Inl HWFQ_ERR_INVALID_ARG, gs)
      else if (case alloc of Invalid_Allocation b \<Rightarrow> True | Rate r \<Rightarrow> r = 0 | Weight w \<Rightarrow> w = 0)
      then Some (Inl HWFQ_ERR_INVALID_ARG, gs)
      else do {
        entry \<leftarrow> group_scheduler_get_entry gs i;
        case entry of
          None \<Rightarrow> Some (Inl HWFQ_ERR_NOT_FOUND, gs)
        | Some p \<Rightarrow> do {
            e \<leftarrow> entry_load (entries gs) p;
            let gs = (if configured e then release_share (allocation e) gs else gs);
            let over = (case alloc of
                Rate r \<Rightarrow> total_capacity gs < allocated_rate_capacity gs + r
              | _ \<Rightarrow> False);
            if over
            then Some (Inl HWFQ_ERR_OVERBOOKED, if configured e then restore_share (allocation e) gs else gs)
            else do {
              let gs = restore_share alloc gs;
              let e = e\<lparr>calculated_rate := (case alloc of Rate r \<Rightarrow> r | _ \<Rightarrow> 0),
                entry_id := i, allocation := alloc, last_finish_time := 0\<rparr>;
              let (e, gs) = (if \<not> configured e
                then (e\<lparr>next_configured := configured_entries_head gs, configured := True\<rparr>,
                      gs\<lparr>configured_entries_head := Some p\<rparr>)
                else (e, gs));
              ce \<leftarrow> entry_store p e (entries gs);
              gs \<leftarrow> recalculate_weight_based_rates (gs\<lparr>entries := ce\<rparr>);
              Some (Inr (), gs)
            }
          }
      })"

text \<open>\<open>while (prev != NULL && prev->next_configured != entry) prev = prev->next_configured;\<close>\<close>

partial_function (option) find_previous ::
  "chunked_entries \<Rightarrow> u32 \<Rightarrow> u32 option \<Rightarrow> u32 option option" where
  "find_previous ce entry prev =
     (case prev of
        None \<Rightarrow> Some None
      | Some q \<Rightarrow> do {
          e \<leftarrow> entry_load ce q;
          if next_configured e \<noteq> Some entry then find_previous ce entry (next_configured e)
          else Some prev
        })"

definition group_scheduler_remove_entry ::
  "u32 \<Rightarrow> ('u, 'f) group_scheduler \<Rightarrow> ((hwfq_error + unit) \<times> ('u, 'f) group_scheduler) option" where
  "group_scheduler_remove_entry i gs =
     (if gs_max_entries gs \<le> i then Some (Inl HWFQ_ERR_INVALID_ARG, gs)
      else do {
        entry \<leftarrow> group_scheduler_find_entry gs i;
        case entry of
          None \<Rightarrow> Some (Inl HWFQ_ERR_NOT_FOUND, gs)
        | Some p \<Rightarrow> do {
            e \<leftarrow> entry_load (entries gs) p;
            let gs = release_share (allocation e) gs;
            gs \<leftarrow> (if configured_entries_head gs = Some p
              then Some (gs\<lparr>configured_entries_head := next_configured e\<rparr>)
              else do {
                prev \<leftarrow> find_previous (entries gs) p (configured_entries_head gs);
                case prev of
                  None \<Rightarrow> Some gs
                | Some q \<Rightarrow> do {
                    r \<leftarrow> entry_load (entries gs) q;
                    ce \<leftarrow> entry_store q (r\<lparr>next_configured := next_configured e\<rparr>) (entries gs);
                    Some (gs\<lparr>entries := ce\<rparr>)
                  }
              });
            e \<leftarrow> entry_load (entries gs) p;
            ce \<leftarrow> entry_store p (e\<lparr>configured := False, next_configured := None\<rparr>) (entries gs);
            gs \<leftarrow> recalculate_weight_based_rates (gs\<lparr>entries := ce\<rparr>);
            Some (Inr (), gs)
          }
      })"

section \<open>Sessions\<close>

definition session_rate :: "('u, 'f) group_scheduler \<Rightarrow> entry_config \<Rightarrow> u64" where
  "session_rate gs e =
     (case allocation e of Rate r \<Rightarrow> calculated_rate e | _ \<Rightarrow> calculate_effective_rate gs e)"

text \<open>\<open>(work_size << 20) / rate\<close>, saturating, and at least 1; the rate is not 0.\<close>

definition service_interval_of :: "u64 \<Rightarrow> u64 \<Rightarrow> u64" where
  "service_interval_of work rate =
     (let scaled = (if drop_bit 20 UINT64_MAX < work then UINT64_MAX else push_bit 20 work);
          interval = scaled div rate
      in if interval = 0 then 1 else interval)"

definition group_scheduler_enqueue ::
  "addr option \<Rightarrow> u64 \<times> u64 \<Rightarrow> u32 \<Rightarrow> u64 \<Rightarrow> 'u option \<Rightarrow> 'f option \<Rightarrow>
   ('u, 'f) group_scheduler \<Rightarrow> ((hwfq_error + addr) \<times> ('u, 'f) group_scheduler) option" where
  "group_scheduler_enqueue mem ts i work data cleanup gs =
     (if work = 0 then Some (Inl HWFQ_ERR_INVALID_ARG, gs)
      else if gs_max_entries gs \<le> i then Some (Inl HWFQ_ERR_INVALID_ARG, gs)
      else do {
        entry \<leftarrow> group_scheduler_find_entry gs i;
        case entry of
          None \<Rightarrow> Some (Inl HWFQ_ERR_NOT_FOUND, gs)
        | Some p \<Rightarrow> do {
            e \<leftarrow> entry_load (entries gs) p;
            let rate = session_rate gs e;
            if rate = 0 then Some (Inl HWFQ_ERR_INTERNAL, gs)
            else do {
              let interval = service_interval_of work rate;
              case mem of
                None \<Rightarrow> Some (Inl HWFQ_ERR_NO_MEMORY, gs)
              | Some a \<Rightarrow> do {
                  let start = (if last_finish_time e < virtual_time gs then virtual_time gs
                    else last_finish_time e);
                  let fin = (if UINT64_MAX - interval < start then UINT64_MAX else start + interval);
                  grp \<leftarrow> calculate_group_index_from_interval interval (base_interval gs);
                  let s = \<lparr>sess_entry_id = i, start_time = start, finish_time = fin,
                    service_interval = interval, group_index = grp, bin_index = 0, user_data = data,
                    work_size = work, bin_next = None, bin_prev = None, enqueue_time_ns = clock_ns ts,
                    cleanup_fn = cleanup\<rparr>;
                  (ret, gs) \<leftarrow> calendar_insert_session a (gs\<lparr>sessions := (sessions gs)(a \<mapsto> s)\<rparr>);
                  case ret of
                    Inl err \<Rightarrow> do {
                      H \<leftarrow> hwfq_free a (sessions gs);
                      Some (Inl err, gs\<lparr>sessions := H\<rparr>)
                    }
                  | Inr _ \<Rightarrow> do {
                      s \<leftarrow> sessions gs a;
                      e \<leftarrow> entry_load (entries gs) p;
                      ce \<leftarrow> entry_store p (e\<lparr>last_finish_time := finish_time s\<rparr>) (entries gs);
                      Some (Inr a, gs\<lparr>entries := ce, active_session_count := active_session_count gs + 1\<rparr>)
                    }
                }
            }
          }
      })"

text \<open>The dequeued session stays in the heap: its owner is now the caller, who frees it.\<close>

definition group_scheduler_dequeue ::
  "('u, 'f) group_scheduler \<Rightarrow> (addr option \<times> ('u, 'f) group_scheduler) option" where
  "group_scheduler_dequeue gs =
     (if active_session_count gs = 0 then Some (None, gs)
      else do {
        (session, gs) \<leftarrow> calendar_find_min_session gs;
        case session of
          None \<Rightarrow> Some (None, gs)
        | Some a \<Rightarrow> do {
            (ret, gs) \<leftarrow> calendar_remove_session a gs;
            case ret of
              Inl err \<Rightarrow> Some (None, gs)
            | Inr _ \<Rightarrow> Some (Some a, gs\<lparr>active_session_count := active_session_count gs - 1\<rparr>)
          }
      })"

definition group_scheduler_remove_session ::
  "addr \<Rightarrow> ('u, 'f) group_scheduler \<Rightarrow> ((hwfq_error + unit) \<times> ('u, 'f) group_scheduler) option" where
  "group_scheduler_remove_session a gs = do {
     (ret, gs) \<leftarrow> calendar_remove_session a gs;
     case ret of
       Inl err \<Rightarrow> Some (Inl err, gs)
     | Inr _ \<Rightarrow> do {
         H \<leftarrow> hwfq_free a (sessions gs);
         Some (Inr (), gs\<lparr>active_session_count := active_session_count gs - 1, sessions := H\<rparr>)
       }
   }"

section \<open>Virtual time\<close>

definition group_scheduler_get_virtual_time :: "('u, 'f) group_scheduler \<Rightarrow> u64" where
  "group_scheduler_get_virtual_time gs = virtual_time gs"

text \<open>\<open>t >= offset ? t - offset : 0\<close>.\<close>

definition rebase_time :: "u64 \<Rightarrow> u64 \<Rightarrow> u64" where
  "rebase_time offset t = (if offset \<le> t then t - offset else 0)"

partial_function (option) rebase_bin ::
  "u64 \<Rightarrow> addr option \<Rightarrow> ('u, 'f) session_heap \<Rightarrow> ('u, 'f) session_heap option" where
  "rebase_bin offset session H =
     (case session of
        None \<Rightarrow> Some H
      | Some p \<Rightarrow> do {
          s \<leftarrow> H p;
          H \<leftarrow> modify_session p (\<lambda>s. s\<lparr>start_time := rebase_time offset (start_time s)\<rparr>) H;
          H \<leftarrow> modify_session p (\<lambda>s. s\<lparr>finish_time := rebase_time offset (finish_time s)\<rparr>) H;
          s \<leftarrow> H p;
          rebase_bin offset (bin_next s) H
        })"

definition group_scheduler_rebase_if_needed ::
  "('u, 'f) group_scheduler \<Rightarrow> ('u, 'f) group_scheduler option" where
  "group_scheduler_rebase_if_needed gs =
     (if virtual_time gs < HWFQ_REBASE_THRESHOLD then Some gs
      else do {
        let offset = virtual_time gs div 2;
        let gs = gs\<lparr>virtual_time := virtual_time gs - offset\<rparr>;
        let gs = (if min_start_time gs \<noteq> UINT64_MAX
          then gs\<lparr>min_start_time := rebase_time offset (min_start_time gs)\<rparr> else gs);
        let gs = (if min_finish_time gs \<noteq> UINT64_MAX
          then gs\<lparr>min_finish_time := rebase_time offset (min_finish_time gs)\<rparr> else gs);
        H \<leftarrow> foldM (\<lambda>bin H. do { head \<leftarrow> arr_get (bin_heads gs) bin; rebase_bin offset head H })
          [0..<unat (num_bins gs)] (sessions gs);
        ce \<leftarrow> map_configured (\<lambda>e. e\<lparr>last_finish_time := rebase_time offset (last_finish_time e)\<rparr>)
          (configured_entries_head gs) (entries gs);
        Some (gs\<lparr>sessions := H, entries := ce\<rparr>)
      })"

definition group_scheduler_update_virtual_time ::
  "u64 \<Rightarrow> ('u, 'f) group_scheduler \<Rightarrow> ('u, 'f) group_scheduler option" where
  "group_scheduler_update_virtual_time work gs =
     (let scaled = push_bit 20 work;
          delta = (if 0 < total_capacity gs
            then let d = scaled div total_capacity gs in if d = 0 then 1 else d
            else scaled);
          normal_advance = (if UINT64_MAX - delta < virtual_time gs then UINT64_MAX
            else virtual_time gs + delta);
          min_start = min_start_time gs
      in group_scheduler_rebase_if_needed
        (gs\<lparr>virtual_time := (if min_start < normal_advance then normal_advance else min_start)\<rparr>))"

section \<open>Queries\<close>

definition session_get_entry_id :: "('u, 'f) session_state option \<Rightarrow> u32" where
  "session_get_entry_id session = (case session of Some s \<Rightarrow> sess_entry_id s | None \<Rightarrow> 0)"

definition session_get_user_data :: "('u, 'f) session_state option \<Rightarrow> 'u option" where
  "session_get_user_data session = (case session of Some s \<Rightarrow> user_data s | None \<Rightarrow> None)"

definition session_get_work_size :: "('u, 'f) session_state option \<Rightarrow> u64" where
  "session_get_work_size session = (case session of Some s \<Rightarrow> work_size s | None \<Rightarrow> 0)"

definition session_get_finish_time :: "('u, 'f) session_state option \<Rightarrow> u64" where
  "session_get_finish_time session = (case session of Some s \<Rightarrow> finish_time s | None \<Rightarrow> 0)"

definition group_scheduler_get_session_count :: "('u, 'f) group_scheduler \<Rightarrow> u32" where
  "group_scheduler_get_session_count gs = active_session_count gs"

definition group_scheduler_is_empty :: "('u, 'f) group_scheduler \<Rightarrow> bool" where
  "group_scheduler_is_empty gs \<longleftrightarrow> active_session_count gs = 0"

definition group_scheduler_get_entry_rate ::
  "u32 \<Rightarrow> ('u, 'f) group_scheduler \<Rightarrow> (hwfq_error + u64) option" where
  "group_scheduler_get_entry_rate i gs =
     (if gs_max_entries gs \<le> i then Some (Inl HWFQ_ERR_INVALID_ARG)
      else do {
        entry \<leftarrow> group_scheduler_find_entry gs i;
        case entry of
          None \<Rightarrow> Some (Inl HWFQ_ERR_NOT_FOUND)
        | Some p \<Rightarrow> do { e \<leftarrow> entry_load (entries gs) p; Some (Inr (session_rate gs e)) }
      })"

section \<open>The configured list\<close>

fun conf_chain :: "chunked_entries \<Rightarrow> u32 option \<Rightarrow> u32 list \<Rightarrow> bool" where
  "conf_chain ce p [] \<longleftrightarrow> p = None"
| "conf_chain ce p (i # is) \<longleftrightarrow>
     p = Some i \<and> (case slot_of ce (unat i) of None \<Rightarrow> False | Some e \<Rightarrow> conf_chain ce (next_configured e) is)"

definition conf_ids :: "chunked_entries \<Rightarrow> u32 set" where
  "conf_ids ce = {i. \<exists>e. slot_of ce (unat i) = Some e \<and> configured e}"

definition entry_at :: "chunked_entries \<Rightarrow> u32 \<Rightarrow> entry_config" where
  "entry_at ce i = the (slot_of ce (unat i))"

lemma conf_chain_cong:
  "(\<And>i. i \<in> set cl \<Longrightarrow> map_option next_configured (slot_of ce' (unat i)) =
      map_option next_configured (slot_of ce (unat i))) \<Longrightarrow> conf_chain ce' p cl = conf_chain ce p cl"
proof (induction cl arbitrary: p)
  case (Cons i cl)
  have "map_option next_configured (slot_of ce' (unat i)) = map_option next_configured (slot_of ce (unat i))"
    using Cons.prems by simp
  then show ?case
    using Cons.IH Cons.prems by (cases "slot_of ce (unat i)"; cases "slot_of ce' (unat i)") auto
qed simp

lemma conf_ids_live: "ce_inv ce \<Longrightarrow> conf_ids ce \<subseteq> live_ids ce"
  using ce_invD(5) by (auto simp: conf_ids_def)

text \<open>
  \<open>writes ce ce'\<close>: from \<open>ce\<close> to \<open>ce'\<close> only entries in use were written, so that the allocator's
  state is the same.
\<close>

definition writes :: "chunked_entries \<Rightarrow> chunked_entries \<Rightarrow> bool" where
  "writes ce ce' \<longleftrightarrow>
     ce_inv ce' \<and> live_ids ce' = live_ids ce \<and> free_head ce' = free_head ce \<and>
     num_configured ce' = num_configured ce \<and> num_allocated ce' = num_allocated ce \<and>
     max_entries ce' = max_entries ce \<and> num_chunks ce' = num_chunks ce \<and>
     (\<forall>k. slot_of ce' k = None \<longleftrightarrow> slot_of ce k = None)"

lemma writes_refl: "ce_inv ce \<Longrightarrow> writes ce ce"
  by (simp add: writes_def)

lemma writes_trans: "writes a b \<Longrightarrow> writes b c \<Longrightarrow> writes a c"
  by (simp add: writes_def)

lemma writesD:
  assumes "writes ce ce'"
  shows "ce_inv ce'" "live_ids ce' = live_ids ce" "\<And>k. slot_of ce' k = None \<longleftrightarrow> slot_of ce k = None"
    "num_configured ce' = num_configured ce" "max_entries ce' = max_entries ce"
  using assms by (simp_all add: writes_def)

lemma entry_store_live:
  assumes inv: "ce_inv ce" and i: "i \<in> live_ids ce"
  shows "entry_store i e ce = Some (put_slot (unat i) e ce)" "writes ce (put_slot (unat i) e ce)"
    "slot_of (put_slot (unat i) e ce) k = (if k = unat i then Some e else slot_of ce k)"
proof -
  obtain e0 where e0: "slot_of ce (unat i) = Some e0" using live_slot [OF inv i] .
  show s: "slot_of (put_slot (unat i) e ce) k = (if k = unat i then Some e else slot_of ce k)" for k
    using slot_of_put e0 by simp
  show "entry_store i e ce = Some (put_slot (unat i) e ce)"
    using entry_store_put [of ce i e0] e0 by (simp add: entry_load_slot)
  show "writes ce (put_slot (unat i) e ce)"
    using ce_put_live [OF inv i] e0 by (auto simp: writes_def s)
qed

lemma map_configured_ok:
  assumes f: "\<And>e. next_configured (f e) = next_configured e"
  shows "ce_inv ce \<Longrightarrow> conf_chain ce p cl \<Longrightarrow> distinct cl \<Longrightarrow> set cl \<subseteq> live_ids ce \<Longrightarrow>
    \<exists>ce'. map_configured f p ce = Some ce' \<and> writes ce ce' \<and>
      (\<forall>i. slot_of ce' (unat i) = (if i \<in> set cl then map_option f (slot_of ce (unat i)) else slot_of ce (unat i)))"
proof (induction cl arbitrary: p ce)
  case Nil
  then show ?case using map_configured.simps [of f p ce] writes_refl by simp
next
  case (Cons i cl)
  then obtain e where e: "p = Some i" "slot_of ce (unat i) = Some e" "conf_chain ce (next_configured e) cl"
    by (auto split: option.splits)
  have live: "i \<in> live_ids ce" "set cl \<subseteq> live_ids ce" "distinct cl" "i \<notin> set cl" using Cons.prems by auto
  let ?ce = "put_slot (unat i) (f e) ce"
  note st = entry_store_live(1) [OF Cons.prems(1) live(1), of "f e"]
    and wr = entry_store_live(2) [OF Cons.prems(1) live(1), of "f e"]
    and sl = entry_store_live(3) [OF Cons.prems(1) live(1), of "f e"]
  have "conf_chain ?ce (next_configured e) cl = conf_chain ce (next_configured e) cl"
    by (rule conf_chain_cong) (use live(4) in \<open>auto simp: sl\<close>)
  then have "\<exists>ce'. map_configured f (next_configured e) ?ce = Some ce' \<and> writes ?ce ce' \<and>
      (\<forall>j. slot_of ce' (unat j) = (if j \<in> set cl then map_option f (slot_of ?ce (unat j)) else slot_of ?ce (unat j)))"
    using Cons.IH [of ?ce "next_configured e"] writesD(1,2) [OF wr] live e(3) by simp
  then obtain ce' where ce': "map_configured f (next_configured e) ?ce = Some ce'" "writes ?ce ce'"
      "\<And>j. slot_of ce' (unat j) = (if j \<in> set cl then map_option f (slot_of ?ce (unat j)) else slot_of ?ce (unat j))"
    by blast
  have "map_configured f p ce = Some ce'"
    using map_configured.simps [of f p ce] e st ce'(1) sl [of "unat i"] by (simp add: entry_load_slot f)
  moreover have "slot_of ce' (unat j) =
      (if j \<in> set (i # cl) then map_option f (slot_of ce (unat j)) else slot_of ce (unat j))" for j
    using ce'(3) [of j] e(2) live(4) by (auto simp: sl)
  ultimately show ?case using writes_trans [OF wr ce'(2)] by blast
qed

text \<open>The configured entries are linked from the head, and their shares add up to the two totals.\<close>

definition rate_share :: "entry_config \<Rightarrow> u64" where
  "rate_share e = (case allocation e of Rate r \<Rightarrow> r | _ \<Rightarrow> 0)"

definition weight_share :: "entry_config \<Rightarrow> u32" where
  "weight_share e = (case allocation e of Rate r \<Rightarrow> 0 | _ \<Rightarrow> allocation_weight (allocation e))"

definition valid_allocation :: "hwfq_allocation \<Rightarrow> bool" where
  "valid_allocation a \<longleftrightarrow> (case a of Weight w \<Rightarrow> w \<noteq> 0 | Rate r \<Rightarrow> r \<noteq> 0 | Invalid_Allocation b \<Rightarrow> False)"

definition entries_inv :: "('u, 'f) group_scheduler \<Rightarrow> bool" where
  "entries_inv gs \<longleftrightarrow>
     ce_inv (entries gs) \<and>
     (\<exists>cl. conf_chain (entries gs) (configured_entries_head gs) cl \<and> distinct cl \<and>
       set cl = conf_ids (entries gs)) \<and>
     (\<forall>i \<in> conf_ids (entries gs). valid_allocation (allocation (entry_at (entries gs) i)) \<and>
       (case allocation (entry_at (entries gs) i) of
          Rate r \<Rightarrow> calculated_rate (entry_at (entries gs) i) = r | _ \<Rightarrow> True)) \<and>
     allocated_rate_capacity gs = (\<Sum>i \<in> conf_ids (entries gs). rate_share (entry_at (entries gs) i)) \<and>
     total_weight gs = (\<Sum>i \<in> conf_ids (entries gs). weight_share (entry_at (entries gs) i))"

lemma entries_invD:
  assumes "entries_inv gs"
  shows "ce_inv (entries gs)"
    "\<And>i. i \<in> conf_ids (entries gs) \<Longrightarrow> valid_allocation (allocation (entry_at (entries gs) i))"
    "\<And>i r. i \<in> conf_ids (entries gs) \<Longrightarrow> allocation (entry_at (entries gs) i) = Rate r \<Longrightarrow>
      calculated_rate (entry_at (entries gs) i) = r"
    "allocated_rate_capacity gs = (\<Sum>i \<in> conf_ids (entries gs). rate_share (entry_at (entries gs) i))"
    "total_weight gs = (\<Sum>i \<in> conf_ids (entries gs). weight_share (entry_at (entries gs) i))"
  using assms unfolding entries_inv_def by (auto split: hwfq_allocation.splits)

lemma entries_chainE:
  assumes "entries_inv gs"
  obtains cl where "conf_chain (entries gs) (configured_entries_head gs) cl" "distinct cl"
    "set cl = conf_ids (entries gs)" "set cl \<subseteq> live_ids (entries gs)"
  using assms conf_ids_live unfolding entries_inv_def by blast

text \<open>
  Changing entries without touching what the invariant speaks of: allocations, rates of rate
  entries, links and flags.
\<close>

definition same_shares :: "entry_config \<Rightarrow> entry_config \<Rightarrow> bool" where
  "same_shares e' e \<longleftrightarrow>
     allocation e' = allocation e \<and> configured e' = configured e \<and>
     next_configured e' = next_configured e \<and> entry_id e' = entry_id e \<and>
     (case allocation e of Rate r \<Rightarrow> calculated_rate e' = calculated_rate e | _ \<Rightarrow> True)"

lemma same_sharesD:
  assumes "same_shares e' e"
  shows "allocation e' = allocation e" "configured e' = configured e" "next_configured e' = next_configured e"
    "rate_share e' = rate_share e" "weight_share e' = weight_share e"
    "allocation e = Rate r \<Longrightarrow> calculated_rate e' = calculated_rate e"
  using assms by (cases "allocation e"; simp add: same_shares_def rate_share_def weight_share_def)+

lemma entries_inv_same_shares:
  assumes inv: "entries_inv gs" and w: "writes (entries gs) ce'"
    and same: "\<And>(i :: u32) e. slot_of (entries gs) (unat i) = Some e \<Longrightarrow>
      \<exists>e'. slot_of ce' (unat i) = Some e' \<and> same_shares e' e"
    and gs': "entries gs' = ce'" "configured_entries_head gs' = configured_entries_head gs"
      "allocated_rate_capacity gs' = allocated_rate_capacity gs" "total_weight gs' = total_weight gs"
  shows "entries_inv gs'" "conf_ids ce' = conf_ids (entries gs)"
proof -
  let ?ce = "entries gs"
  have rev: "\<exists>e. slot_of ?ce (unat i) = Some e \<and> same_shares e' e" if s: "slot_of ce' (unat i) = Some e'" for i :: u32 and e'
  proof -
    obtain e where e: "slot_of ?ce (unat i) = Some e" using s writesD(3) [OF w, of "unat i"] by fastforce
    then show ?thesis using same [OF e] s by auto
  qed
  show ids: "conf_ids ce' = conf_ids ?ce"
  proof (intro equalityI subsetI)
    fix i assume "i \<in> conf_ids ce'"
    then obtain e' where "slot_of ce' (unat i) = Some e'" "configured e'" by (auto simp: conf_ids_def)
    then show "i \<in> conf_ids ?ce" using rev [of i e'] same_sharesD(2) by (auto simp: conf_ids_def)
  next
    fix i assume "i \<in> conf_ids ?ce"
    then obtain e where "slot_of ?ce (unat i) = Some e" "configured e" by (auto simp: conf_ids_def)
    then show "i \<in> conf_ids ce'" using same [of i e] same_sharesD(2) by (auto simp: conf_ids_def)
  qed
  have at: "same_shares (entry_at ce' i) (entry_at ?ce i)" if i: "i \<in> conf_ids ?ce" for i
    using i same [of i] by (auto simp: conf_ids_def entry_at_def)
  obtain cl where cl: "conf_chain ?ce (configured_entries_head gs) cl" "distinct cl" "set cl = conf_ids ?ce"
    by (rule entries_chainE [OF inv])
  have "conf_chain ce' (configured_entries_head gs) cl = conf_chain ?ce (configured_entries_head gs) cl"
  proof (rule conf_chain_cong)
    fix i assume "i \<in> set cl"
    then obtain e where e: "slot_of ?ce (unat i) = Some e" using cl(3) by (auto simp: conf_ids_def)
    then show "map_option next_configured (slot_of ce' (unat i)) = map_option next_configured (slot_of ?ce (unat i))"
      using same [OF e] same_sharesD(3) by auto
  qed
  moreover have "(\<Sum>i \<in> conf_ids ?ce. rate_share (entry_at ce' i)) = (\<Sum>i \<in> conf_ids ?ce. rate_share (entry_at ?ce i))"
    by (rule sum.cong [OF refl]) (rule same_sharesD(4) [OF at])
  moreover have "(\<Sum>i \<in> conf_ids ?ce. weight_share (entry_at ce' i)) = (\<Sum>i \<in> conf_ids ?ce. weight_share (entry_at ?ce i))"
    by (rule sum.cong [OF refl]) (rule same_sharesD(5) [OF at])
  moreover have "valid_allocation (allocation (entry_at ce' i)) \<and>
       (case allocation (entry_at ce' i) of Rate r \<Rightarrow> calculated_rate (entry_at ce' i) = r | _ \<Rightarrow> True)"
    if "i \<in> conf_ids ?ce" for i
    using same_sharesD(1,6) [OF at [OF that]] entries_invD(2,3) [OF inv that]
    by (cases "allocation (entry_at ?ce i)") simp_all
  ultimately show "entries_inv gs'"
    using cl entries_invD(4,5) [OF inv] writesD(1) [OF w] unfolding entries_inv_def gs' ids by metis
qed

section \<open>Configuration\<close>

text \<open>The allocations of the configured entries: what configuring and removing are about.\<close>

definition shares :: "('u, 'f) group_scheduler \<Rightarrow> u32 \<Rightarrow> hwfq_allocation option" where
  "shares gs i =
     (case slot_of (entries gs) (unat i) of
        None \<Rightarrow> None | Some e \<Rightarrow> if configured e then Some (allocation e) else None)"

text \<open>
  What the other operations see of an entry: all of it but the computed rate, the ID and the link.
\<close>

definition entry_view :: "entry_config \<Rightarrow> bool \<times> hwfq_allocation \<times> u64 \<times> hwfq_stats \<times> rate_tracking" where
  "entry_view e = (configured e, allocation e, last_finish_time e, stats e, tracking e)"

definition entry_info :: "('u, 'f) group_scheduler \<Rightarrow> u32 \<Rightarrow>
    (bool \<times> hwfq_allocation \<times> u64 \<times> hwfq_stats \<times> rate_tracking) option" where
  "entry_info gs i = map_option entry_view (slot_of (entries gs) (unat i))"

lemma shares_info: "entry_info gs' i = entry_info gs j \<Longrightarrow> shares gs' i = shares gs j"
  by (cases "slot_of (entries gs') (unat i)"; cases "slot_of (entries gs) (unat j)")
    (auto simp: entry_info_def entry_view_def shares_def)

text \<open>What configuration may change of a scheduler.\<close>

definition config_frame :: "('u, 'f) group_scheduler \<Rightarrow> ('u, 'f) group_scheduler \<Rightarrow> bool" where
  "config_frame gs' gs \<longleftrightarrow>
     gs' = gs\<lparr>entries := entries gs', configured_entries_head := configured_entries_head gs',
       allocated_rate_capacity := allocated_rate_capacity gs', total_weight := total_weight gs'\<rparr>"

lemma config_frame_refl [simp]: "config_frame gs gs"
  by (simp add: config_frame_def)

definition recalculated :: "('u, 'f) group_scheduler \<Rightarrow> entry_config \<Rightarrow> entry_config" where
  "recalculated gs e =
     (case allocation e of Weight w \<Rightarrow> e\<lparr>calculated_rate := calculate_effective_rate gs e\<rparr> | _ \<Rightarrow> e)"

lemma recalculated_same: "same_shares (recalculated gs e) e" "entry_view (recalculated gs e) = entry_view e"
  by (cases "allocation e"; simp add: recalculated_def same_shares_def entry_view_def)+

lemma same_shares_refl: "same_shares e e"
  by (cases "allocation e") (simp_all add: same_shares_def)

lemma recalculate_ok:
  assumes inv: "entries_inv gs"
  obtains ce' where "recalculate_weight_based_rates gs = Some (gs\<lparr>entries := ce'\<rparr>)"
    "writes (entries gs) ce'" "entries_inv (gs\<lparr>entries := ce'\<rparr>)"
    "\<And>i. slot_of ce' (unat i) = (if i \<in> conf_ids (entries gs)
       then map_option (recalculated gs) (slot_of (entries gs) (unat i)) else slot_of (entries gs) (unat i))"
proof -
  obtain cl where cl: "conf_chain (entries gs) (configured_entries_head gs) cl" "distinct cl"
      "set cl = conf_ids (entries gs)" "set cl \<subseteq> live_ids (entries gs)"
    by (rule entries_chainE [OF inv])
  have nxt: "next_configured (recalculated gs e) = next_configured e" for e
    by (rule same_sharesD(3) [OF recalculated_same(1)])
  from map_configured_ok [OF nxt entries_invD(1) [OF inv] cl(1,2,4)]
  obtain ce' where ce': "map_configured (recalculated gs) (configured_entries_head gs) (entries gs) = Some ce'"
      "writes (entries gs) ce'"
      "\<forall>i. slot_of ce' (unat i) = (if i \<in> set cl then map_option (recalculated gs) (slot_of (entries gs) (unat i))
         else slot_of (entries gs) (unat i))" by blast
  show ?thesis
  proof (rule that)
    show "recalculate_weight_based_rates gs = Some (gs\<lparr>entries := ce'\<rparr>)"
      using ce'(1) by (simp add: recalculate_weight_based_rates_def recalculated_def [abs_def])
    show "entries_inv (gs\<lparr>entries := ce'\<rparr>)"
    proof (rule entries_inv_same_shares(1) [OF inv ce'(2)])
      fix i :: u32 and e assume "slot_of (entries gs) (unat i) = Some e"
      then show "\<exists>e'. slot_of ce' (unat i) = Some e' \<and> same_shares e' e"
        using ce'(3) recalculated_same(1) [of gs e] same_shares_refl by simp
    qed simp_all
    show "slot_of ce' (unat i) = (if i \<in> conf_ids (entries gs)
       then map_option (recalculated gs) (slot_of (entries gs) (unat i)) else slot_of (entries gs) (unat i))" for i
      using ce'(3) cl(3) by simp
  qed (rule ce'(2))
qed

text \<open>The totals with one entry taken out.\<close>

lemma entry_at_conf: "slot_of ce (unat i) = Some e \<Longrightarrow> entry_at ce i = e"
  by (simp add: entry_at_def)

lemma sum_without:
  fixes f :: "u32 \<Rightarrow> 'a::len word"
  assumes "i \<in> A"
  shows "(\<Sum>j \<in> A. f j) - f i = (\<Sum>j \<in> A - {i}. f j)"
  using assms by (simp add: sum.remove [of A i])

lemma sum_put:
  fixes f :: "entry_config \<Rightarrow> 'a::len word" and g g' :: "u32 \<Rightarrow> entry_config"
  assumes "g' i = e'" "\<And>j. j \<noteq> i \<Longrightarrow> g' j = g j"
  shows "(\<Sum>j \<in> insert i A. f (g' j)) = (\<Sum>j \<in> A. f (g j)) - (if i \<in> A then f (g i) else 0) + f e'"
proof -
  have "(\<Sum>j \<in> insert i A. f (g' j)) = f e' + (\<Sum>j \<in> A - {i}. f (g' j))"
    using assms(1) by (simp add: sum.insert_remove)
  also have "(\<Sum>j \<in> A - {i}. f (g' j)) = (\<Sum>j \<in> A - {i}. f (g j))"
    by (rule sum.cong) (auto simp: assms(2))
  also have "\<dots> = (\<Sum>j \<in> A. f (g j)) - (if i \<in> A then f (g i) else 0)"
    using sum_without [of i A "\<lambda>j. f (g j)"] by (cases "i \<in> A") simp_all
  finally show ?thesis by simp
qed

lemma put_entry_inv:
  assumes inv: "entries_inv gs" and i: "i \<in> live_ids (entries gs)" and e: "slot_of (entries gs) (unat i) = Some e"
    and e': "configured e'" "valid_allocation (allocation e')"
      "\<And>r. allocation e' = Rate r \<Longrightarrow> calculated_rate e' = r"
    and link: "if configured e then next_configured e' = next_configured e \<and> head' = configured_entries_head gs
      else next_configured e' = configured_entries_head gs \<and> head' = Some i"
    and gs': "entries gs' = put_slot (unat i) e' (entries gs)" "configured_entries_head gs' = head'"
      "allocated_rate_capacity gs' =
        allocated_rate_capacity gs - (if configured e then rate_share e else 0) + rate_share e'"
      "total_weight gs' = total_weight gs - (if configured e then weight_share e else 0) + weight_share e'"
  shows "entries_inv gs'" "conf_ids (entries gs') = insert i (conf_ids (entries gs))"
    "writes (entries gs) (entries gs')"
proof -
  let ?ce = "entries gs" and ?ce' = "entries gs'"
  note ceinv = entries_invD(1) [OF inv]
  have sl: "slot_of ?ce' k = (if k = unat i then Some e' else slot_of ?ce k)" for k
    unfolding gs'(1) by (rule entry_store_live(3) [OF ceinv i])
  show wr: "writes ?ce ?ce'" unfolding gs'(1) by (rule entry_store_live(2) [OF ceinv i])
  show ids: "conf_ids ?ce' = insert i (conf_ids ?ce)" using e'(1) by (auto simp: conf_ids_def sl)
  have at: "entry_at ?ce' j = (if j = i then e' else entry_at ?ce j)" for j by (simp add: entry_at_def sl)
  have ci: "i \<in> conf_ids ?ce \<longleftrightarrow> configured e" using e by (simp add: conf_ids_def)
  have ei: "entry_at ?ce i = e" by (rule entry_at_conf [OF e])
  obtain cl where cl: "conf_chain ?ce (configured_entries_head gs) cl" "distinct cl"
      "set cl = conf_ids ?ce" "set cl \<subseteq> live_ids ?ce"
    by (rule entries_chainE [OF inv])
  have chain: "\<exists>cl'. conf_chain ?ce' head' cl' \<and> distinct cl' \<and> set cl' = conf_ids ?ce'"
  proof (cases "configured e")
    case True
    have "conf_chain ?ce' head' cl = conf_chain ?ce head' cl"
      by (rule conf_chain_cong) (use True link e in \<open>auto simp: sl\<close>)
    then show ?thesis using cl True link ci ids by (intro exI [of _ cl]) auto
  next
    case False
    then have "i \<notin> set cl" using ci cl(3) by simp
    then have "conf_chain ?ce' (configured_entries_head gs) cl = conf_chain ?ce (configured_entries_head gs) cl"
      by (intro conf_chain_cong) (auto simp: sl)
    then show ?thesis
      using cl False link ids \<open>i \<notin> set cl\<close> by (intro exI [of _ "i # cl"]) (simp add: sl)
  qed
  have sums: "(\<Sum>j \<in> conf_ids ?ce'. rate_share (entry_at ?ce' j)) =
      (\<Sum>j \<in> conf_ids ?ce. rate_share (entry_at ?ce j)) - (if configured e then rate_share e else 0) + rate_share e'"
    "(\<Sum>j \<in> conf_ids ?ce'. weight_share (entry_at ?ce' j)) =
      (\<Sum>j \<in> conf_ids ?ce. weight_share (entry_at ?ce j)) - (if configured e then weight_share e else 0) + weight_share e'"
    unfolding ids
    using sum_put [of "entry_at ?ce'" i e' "entry_at ?ce" rate_share "conf_ids ?ce"]
      sum_put [of "entry_at ?ce'" i e' "entry_at ?ce" weight_share "conf_ids ?ce"]
    by (simp_all add: at ei ci)
  have valid: "valid_allocation (allocation (entry_at ?ce' j)) \<and>
       (case allocation (entry_at ?ce' j) of Rate r \<Rightarrow> calculated_rate (entry_at ?ce' j) = r | _ \<Rightarrow> True)"
    if "j \<in> conf_ids ?ce'" for j
  proof (cases "j = i")
    case True
    then show ?thesis using e'(2,3) by (auto simp: at split: hwfq_allocation.splits)
  next
    case False
    then show ?thesis using that entries_invD(2,3) [OF inv, of j] ids
      by (auto simp: at split: hwfq_allocation.splits)
  qed
  show "entries_inv gs'"
    unfolding entries_inv_def gs'(2)
  proof (intro conjI ballI)
    show "allocated_rate_capacity gs' = (\<Sum>j \<in> conf_ids ?ce'. rate_share (entry_at ?ce' j))"
      unfolding gs'(3) entries_invD(4) [OF inv] by (rule sums(1) [symmetric])
    show "total_weight gs' = (\<Sum>j \<in> conf_ids ?ce'. weight_share (entry_at ?ce' j))"
      unfolding gs'(4) entries_invD(5) [OF inv] by (rule sums(2) [symmetric])
  qed (use chain valid writesD(1) [OF wr] in auto)
qed

lemma config_frame_iff:
  "config_frame gs' gs \<longleftrightarrow> (\<exists>ce h r w. gs' = gs\<lparr>entries := ce, configured_entries_head := h,
     allocated_rate_capacity := r, total_weight := w\<rparr>)"
  unfolding config_frame_def by (rule iffI, blast) (elim exE, simp)

lemma config_frame_trans: "config_frame a b \<Longrightarrow> config_frame b c \<Longrightarrow> config_frame a c"
  unfolding config_frame_iff [of a b] config_frame_iff [of b c] by (auto simp: config_frame_def)

lemma config_frameD:
  assumes "config_frame gs' gs"
  shows "bin_bitfield gs' = bin_bitfield gs" "bin_heads gs' = bin_heads gs"
    "group_bitfield gs' = group_bitfield gs" "gs_max_entries gs' = gs_max_entries gs"
    "num_groups gs' = num_groups gs" "bins_per_group gs' = bins_per_group gs" "num_bins gs' = num_bins gs"
    "bin_bitfield_size gs' = bin_bitfield_size gs" "base_interval gs' = base_interval gs"
    "total_capacity gs' = total_capacity gs" "virtual_time gs' = virtual_time gs"
    "active_session_count gs' = active_session_count gs" "min_finish_time gs' = min_finish_time gs"
    "min_start_time gs' = min_start_time gs" "min_session gs' = min_session gs" "sessions gs' = sessions gs"
  by (subst assms [unfolded config_frame_def], simp)+

lemma recalculate_shares:
  assumes "recalculate_weight_based_rates gs = Some gs'" "entries_inv gs"
  shows "entries_inv gs'" "shares gs' = shares gs" "writes (entries gs) (entries gs')" "config_frame gs' gs"
    "total_weight gs' = total_weight gs" "allocated_rate_capacity gs' = allocated_rate_capacity gs"
    "entry_info gs' = entry_info gs"
proof -
  obtain ce' where r: "gs' = gs\<lparr>entries := ce'\<rparr>" "writes (entries gs) ce'" "entries_inv (gs\<lparr>entries := ce'\<rparr>)"
      "\<And>i. slot_of ce' (unat i) = (if i \<in> conf_ids (entries gs)
         then map_option (recalculated gs) (slot_of (entries gs) (unat i)) else slot_of (entries gs) (unat i))"
    using recalculate_ok [OF assms(2)] assms(1) by (metis option.inject)
  show "entries_inv gs'" using r(1,3) by simp
  show "writes (entries gs) (entries gs')" using r(1,2) by simp
  show "config_frame gs' gs" "total_weight gs' = total_weight gs"
    "allocated_rate_capacity gs' = allocated_rate_capacity gs" by (simp_all add: r(1) config_frame_def)
  have "entry_info gs' i = entry_info gs i" for i
    using r(4) [of i] recalculated_same(2) [of gs]
    by (cases "slot_of (entries gs) (unat i)") (simp_all add: entry_info_def r(1))
  then show "entry_info gs' = entry_info gs" "shares gs' = shares gs" using shares_info by blast+
qed

lemma share_totals:
  "allocated_rate_capacity (release_share a gs) = allocated_rate_capacity gs - (case a of Rate r \<Rightarrow> r | _ \<Rightarrow> 0)"
  "total_weight (release_share a gs) = total_weight gs - (case a of Rate r \<Rightarrow> 0 | _ \<Rightarrow> allocation_weight a)"
  "allocated_rate_capacity (restore_share a gs) = allocated_rate_capacity gs + (case a of Rate r \<Rightarrow> r | _ \<Rightarrow> 0)"
  "total_weight (restore_share a gs) = total_weight gs + (case a of Rate r \<Rightarrow> 0 | _ \<Rightarrow> allocation_weight a)"
  by (cases a; simp add: restore_share_def release_share_def)+

lemma restore_release: "restore_share a (release_share a gs) = gs"
  by (cases a) (simp_all add: restore_share_def release_share_def)

text \<open>The rate capacity booked by the other entries, in the wrapping arithmetic of the code.\<close>

text \<open>What is booked for the other entries, as the code computes it: in 64 bits.\<close>

definition booked_without :: "('u, 'f) group_scheduler \<Rightarrow> u32 \<Rightarrow> u64" where
  "booked_without gs i = allocated_rate_capacity gs - (case shares gs i of Some (Rate r) \<Rightarrow> r | _ \<Rightarrow> 0)"

text \<open>
  The entry that a configuration stores, and the level with that entry, before the rates of the entries with a
  weight are computed anew.
\<close>

definition configured_entry :: "u32 \<Rightarrow> hwfq_allocation \<Rightarrow> u32 option \<Rightarrow> entry_config \<Rightarrow> entry_config" where
  "configured_entry i alloc chain e =
     (let e' = e\<lparr>calculated_rate := (case alloc of Rate r \<Rightarrow> r | _ \<Rightarrow> 0), entry_id := i, allocation := alloc,
            last_finish_time := 0\<rparr>
      in if configured e then e' else e'\<lparr>next_configured := chain, configured := True\<rparr>)"

lemma configured_entry_fields [simp]:
  "configured (configured_entry i alloc chain e)" "allocation (configured_entry i alloc chain e) = alloc"
  "calculated_rate (configured_entry i alloc chain e) = (case alloc of Rate r \<Rightarrow> r | _ \<Rightarrow> 0)"
  "next_configured (configured_entry i alloc chain e) = (if configured e then next_configured e else chain)"
  "last_finish_time (configured_entry i alloc chain e) = 0" "stats (configured_entry i alloc chain e) = stats e"
  "tracking (configured_entry i alloc chain e) = tracking e"
  by (simp_all add: configured_entry_def Let_def)

definition configured_level ::
  "u32 \<Rightarrow> hwfq_allocation \<Rightarrow> entry_config \<Rightarrow> ('u, 'f) group_scheduler \<Rightarrow> ('u, 'f) group_scheduler" where
  "configured_level i alloc e gs =
     (let g = restore_share alloc (if configured e then release_share (allocation e) gs else gs)
      in (if configured e then g else g\<lparr>configured_entries_head := Some i\<rparr>)
        \<lparr>entries := put_slot (unat i) (configured_entry i alloc (configured_entries_head gs) e) (entries gs)\<rparr>)"

lemma release_share_fields [simp]:
  "entries (release_share a gs) = entries gs" "configured_entries_head (release_share a gs) = configured_entries_head gs"
  "total_capacity (release_share a gs) = total_capacity gs" "gs_max_entries (release_share a gs) = gs_max_entries gs"
  by (cases a; simp add: release_share_def)+

lemma restore_share_fields [simp]:
  "entries (restore_share a gs) = entries gs" "configured_entries_head (restore_share a gs) = configured_entries_head gs"
  "total_capacity (restore_share a gs) = total_capacity gs" "gs_max_entries (restore_share a gs) = gs_max_entries gs"
  by (cases a; simp add: restore_share_def)+

lemma shares_slot: "slot_of (entries gs) (unat i) = Some e \<Longrightarrow> shares gs i = (if configured e then Some (allocation e) else None)"
  by (simp add: shares_def)

lemma configure_run:
  fixes gs :: "('u, 'f) group_scheduler"
  assumes inv: "entries_inv gs" and i: "i \<in> live_ids (entries gs)" and e: "slot_of (entries gs) (unat i) = Some e"
    and lt: "i < gs_max_entries gs" and valid: "valid_allocation alloc"
  shows "group_scheduler_configure_entry i alloc gs =
    (if case alloc of Rate r \<Rightarrow> total_capacity gs < booked_without gs i + r | _ \<Rightarrow> False
     then Some (Inl HWFQ_ERR_OVERBOOKED, gs)
     else do { gs \<leftarrow> recalculate_weight_based_rates (configured_level i alloc e gs); Some (Inr (), gs) })"
proof -
  have get: "group_scheduler_get_entry gs i = Some (Some i)"
    using e hwfq_chunked_get_eq [OF ce_invD(1) [OF entries_invD(1) [OF inv]]] by (simp add: group_scheduler_get_entry_def)
  have ok: "(case alloc of Invalid_Allocation b \<Rightarrow> True | Rate r \<Rightarrow> r = 0 | Weight w \<Rightarrow> w = 0) = False"
    using valid by (cases alloc) (simp_all add: valid_allocation_def)
  have booked: "booked_without gs i =
      allocated_rate_capacity (if configured e then release_share (allocation e) gs else gs)"
    by (simp add: booked_without_def shares_slot [OF e] share_totals)
  have st: "entry_store i e' (entries gs) = Some (put_slot (unat i) e' (entries gs))" for e'
    by (rule entry_store_live(1) [OF entries_invD(1) [OF inv] i])
  show ?thesis
    unfolding group_scheduler_configure_entry_def ok if_False get booked
    using lt [unfolded not_le [symmetric]] e st
    by (cases "configured e"; cases alloc)
      (simp_all add: entry_load_slot restore_release Let_def configured_level_def configured_entry_def)
qed

lemma configured_level_slot:
  assumes "entries_inv gs" "i \<in> live_ids (entries gs)"
  shows "slot_of (entries (configured_level i alloc e gs)) (unat (j :: u32)) =
    (if j = i then Some (configured_entry i alloc (configured_entries_head gs) e) else slot_of (entries gs) (unat j))"
  using entry_store_live(3) [OF entries_invD(1) [OF assms(1)] assms(2), of _ "unat j"]
  by (cases "j = i") (simp_all add: configured_level_def Let_def)

lemma configured_level_inv:
  fixes gs :: "('u, 'f) group_scheduler"
  assumes inv: "entries_inv gs" and i: "i \<in> live_ids (entries gs)" and e: "slot_of (entries gs) (unat i) = Some e"
    and valid: "valid_allocation alloc"
  shows "entries_inv (configured_level i alloc e gs)" "writes (entries gs) (entries (configured_level i alloc e gs))"
proof -
  let ?g = "configured_level i alloc e gs" and ?e = "configured_entry i alloc (configured_entries_head gs) e"
  have new: "configured ?e" "allocation ?e = alloc" "calculated_rate ?e = (case alloc of Rate r \<Rightarrow> r | _ \<Rightarrow> 0)"
    by simp_all
  have chain: "if configured e then next_configured ?e = next_configured e \<and> configured_entries_head ?g = configured_entries_head gs
      else next_configured ?e = configured_entries_head gs \<and> configured_entries_head ?g = Some i"
    by (simp add: configured_level_def Let_def)
  have ent: "entries ?g = put_slot (unat i) ?e (entries gs)" by (simp add: configured_level_def)
  have totals: "allocated_rate_capacity ?g = allocated_rate_capacity gs - (if configured e then rate_share e else 0) + rate_share ?e"
    "total_weight ?g = total_weight gs - (if configured e then weight_share e else 0) + weight_share ?e"
    by (cases alloc; simp add: configured_level_def Let_def rate_share_def weight_share_def share_totals)+
  from put_entry_inv [OF inv i e new(1) _ _ chain ent refl, unfolded new(2,3), OF valid _ totals]
  show "entries_inv ?g" "writes (entries gs) (entries ?g)" by simp_all
qed

lemma configured_level_facts:
  fixes gs :: "('u, 'f) group_scheduler"
  assumes inv: "entries_inv gs" and i: "i \<in> live_ids (entries gs)" and e: "slot_of (entries gs) (unat i) = Some e"
  shows "shares (configured_level i alloc e gs) = (shares gs)(i \<mapsto> alloc)"
    "entry_info (configured_level i alloc e gs) =
      (entry_info gs)(i := map_option (\<lambda>(c, a, l, st, tr). (True, alloc, 0, st, tr)) (entry_info gs i))"
    "config_frame (configured_level i alloc e gs) gs"
    "allocated_rate_capacity (configured_level i alloc e gs) = booked_without gs i + (case alloc of Rate r \<Rightarrow> r | _ \<Rightarrow> 0)"
proof -
  note slot = configured_level_slot [OF inv i]
  show "shares (configured_level i alloc e gs) = (shares gs)(i \<mapsto> alloc)"
    by (rule ext) (simp add: shares_def slot)
  show "entry_info (configured_level i alloc e gs) =
      (entry_info gs)(i := map_option (\<lambda>(c, a, l, st, tr). (True, alloc, 0, st, tr)) (entry_info gs i))"
    by (rule ext) (simp add: entry_info_def entry_view_def slot e)
  show "config_frame (configured_level i alloc e gs) gs"
    by (cases "allocation e"; cases alloc)
      (simp_all add: config_frame_def configured_level_def Let_def restore_share_def release_share_def)
  show "allocated_rate_capacity (configured_level i alloc e gs) = booked_without gs i + (case alloc of Rate r \<Rightarrow> r | _ \<Rightarrow> 0)"
    by (simp add: configured_level_def Let_def booked_without_def shares_slot [OF e] share_totals)
qed

lemma configure_entry_cases:
  fixes gs :: "('u, 'f) group_scheduler"
  assumes inv: "entries_inv gs" and i: "i \<in> live_ids (entries gs)"
  obtains (invalid) "gs_max_entries gs \<le> i \<or> \<not> valid_allocation alloc"
      "group_scheduler_configure_entry i alloc gs = Some (Inl HWFQ_ERR_INVALID_ARG, gs)"
    | (over) r where "i < gs_max_entries gs" "valid_allocation alloc" "alloc = Rate r"
      "total_capacity gs < booked_without gs i + r"
      "group_scheduler_configure_entry i alloc gs = Some (Inl HWFQ_ERR_OVERBOOKED, gs)"
    | (ok) gs' where "i < gs_max_entries gs" "valid_allocation alloc"
      "\<And>r. alloc = Rate r \<Longrightarrow> booked_without gs i + r \<le> total_capacity gs"
      "group_scheduler_configure_entry i alloc gs = Some (Inr (), gs')"
      "entries_inv gs'" "shares gs' = (shares gs)(i \<mapsto> alloc)" "config_frame gs' gs"
      "writes (entries gs) (entries gs')"
      "allocated_rate_capacity gs' = booked_without gs i + (case alloc of Rate r \<Rightarrow> r | _ \<Rightarrow> 0)"
      "entry_info gs' = (entry_info gs)(i := map_option (\<lambda>(c, a, l, st, tr). (True, alloc, 0, st, tr)) (entry_info gs i))"
proof -
  obtain e where e: "slot_of (entries gs) (unat i) = Some e" by (rule live_slot [OF entries_invD(1) [OF inv] i])
  consider "gs_max_entries gs \<le> i \<or> \<not> valid_allocation alloc"
    | r where "i < gs_max_entries gs" "valid_allocation alloc" "alloc = Rate r" "total_capacity gs < booked_without gs i + r"
    | "i < gs_max_entries gs" "valid_allocation alloc" "\<And>r. alloc = Rate r \<Longrightarrow> booked_without gs i + r \<le> total_capacity gs"
    by (metis linorder_not_less)
  then show thesis
  proof cases
    case 1
    then show thesis
      by (intro invalid) (auto simp: group_scheduler_configure_entry_def valid_allocation_def split: hwfq_allocation.split)
  next
    case 2
    show thesis by (rule over [OF 2]) (subst configure_run [OF inv i e 2(1,2)], simp add: 2(3,4))
  next
    case 3
    note g = configured_level_inv [OF inv i e 3(2)] and f = configured_level_facts [OF inv i e, of alloc]
    obtain g5 where g5: "recalculate_weight_based_rates (configured_level i alloc e gs) = Some g5"
      by (rule recalculate_ok [OF g(1)])
    note r5 = recalculate_shares [OF g5 g(1)]
    have "group_scheduler_configure_entry i alloc gs = Some (Inr (), g5)"
      unfolding configure_run [OF inv i e 3(1,2)] using 3(3) g5 by (cases alloc) (simp_all add: not_less)
    from ok [OF 3 this r5(1) trans [OF r5(2) f(1)] config_frame_trans [OF r5(4) f(3)] writes_trans [OF g(2) r5(3)]
        trans [OF r5(6) f(4)] trans [OF r5(7) f(2)]]
    show thesis .
  qed
qed

section \<open>Removing an entry\<close>

text \<open>\<open>conf_seg ce p is q\<close>: following the links from \<open>p\<close> through \<open>is\<close> arrives at \<open>q\<close>.\<close>

fun conf_seg :: "chunked_entries \<Rightarrow> u32 option \<Rightarrow> u32 list \<Rightarrow> u32 option \<Rightarrow> bool" where
  "conf_seg ce p [] q \<longleftrightarrow> p = q"
| "conf_seg ce p (i # is) q \<longleftrightarrow>
     p = Some i \<and> (case slot_of ce (unat i) of None \<Rightarrow> False | Some e \<Rightarrow> conf_seg ce (next_configured e) is q)"

lemma conf_seg_append: "conf_seg ce p (xs @ ys) q \<longleftrightarrow> (\<exists>m. conf_seg ce p xs m \<and> conf_seg ce m ys q)"
  by (induction xs arbitrary: p) (auto split: option.splits)

lemma conf_chain_seg: "conf_chain ce p xs = conf_seg ce p xs None"
  by (induction xs arbitrary: p) (auto split: option.splits)

lemma conf_seg_cong:
  "(\<And>i. i \<in> set cl \<Longrightarrow> map_option next_configured (slot_of ce' (unat i)) =
      map_option next_configured (slot_of ce (unat i))) \<Longrightarrow> conf_seg ce' p cl q = conf_seg ce p cl q"
proof (induction cl arbitrary: p)
  case (Cons i cl)
  have "map_option next_configured (slot_of ce' (unat i)) = map_option next_configured (slot_of ce (unat i))"
    using Cons.prems by simp
  then show ?case
    using Cons.IH Cons.prems by (cases "slot_of ce (unat i)"; cases "slot_of ce' (unat i)") auto
qed simp

lemma find_previous_chain:
  "conf_seg ce p (zs @ [q]) (Some i) \<Longrightarrow> distinct (zs @ [q, i]) \<Longrightarrow> find_previous ce i p = Some (Some q)"
proof (induction zs arbitrary: p)
  case Nil
  then obtain e where "p = Some q" "slot_of ce (unat q) = Some e" "next_configured e = Some i"
    by (auto split: option.splits)
  then show ?case by (simp add: find_previous.simps [of ce i "Some q"] entry_load_slot)
next
  case (Cons z zs)
  then obtain e where e: "p = Some z" "slot_of ce (unat z) = Some e"
      "conf_seg ce (next_configured e) (zs @ [q]) (Some i)" by (auto split: option.splits)
  then have "next_configured e \<noteq> Some i" using Cons.prems(2) by (cases zs) auto
  then show ?case
    using e Cons.IH [OF e(3)] Cons.prems(2) by (simp add: find_previous.simps [of ce i "Some z"] entry_load_slot)
qed

lemma unlink_chain:
  assumes old: "conf_chain ce p (zs @ q # i # ys)" "distinct (zs @ q # i # ys)"
    and e: "slot_of ce (unat i) = Some e" and q: "slot_of ce' (unat q) = Some r" "next_configured r = next_configured e"
    and rest: "\<And>j. j \<noteq> q \<Longrightarrow> j \<noteq> i \<Longrightarrow> slot_of ce' (unat j) = slot_of ce (unat j)"
  shows "conf_chain ce' p (zs @ q # ys)"
proof -
  from old(1) e have o: "conf_seg ce p zs (Some q)" "conf_seg ce (next_configured e) ys None"
    unfolding conf_chain_seg conf_seg_append by (auto split: option.splits)
  have "conf_seg ce' p zs (Some q)" "conf_seg ce' (next_configured e) ys None"
    using o old(2) rest by (subst conf_seg_cong; force)+
  then show ?thesis unfolding conf_chain_seg conf_seg_append using q by auto
qed

lemma unlink_cases:
  assumes inv: "ce_inv ce" and chain: "conf_chain ce h (xs @ i # ys)" "distinct (xs @ i # ys)"
    "set (xs @ i # ys) \<subseteq> live_ids ce" and e: "slot_of ce (unat i) = Some e"
  obtains (first) "h = Some i" "conf_chain ce (next_configured e) (xs @ ys)"
    | (later) q r where "h \<noteq> Some i" "find_previous ce i h = Some (Some q)" "q \<noteq> i" "q \<in> live_ids ce"
      "slot_of ce (unat q) = Some r"
      "conf_chain (put_slot (unat q) (r\<lparr>next_configured := next_configured e\<rparr>) ce) h (xs @ ys)"
proof (cases xs rule: rev_cases)
  case Nil
  then show ?thesis using first chain(1) e by simp
next
  case (snoc zs q)
  have seg: "conf_seg ce h (zs @ [q]) (Some i)"
    using chain(1) unfolding snoc conf_chain_seg conf_seg_append by auto
  obtain r where r: "slot_of ce (unat q) = Some r" using seg by (auto simp: conf_seg_append split: option.splits)
  have h: "h \<noteq> Some i" using seg chain(2) snoc by (cases zs) auto
  have q: "q \<in> live_ids ce" "q \<noteq> i" using chain(2,3) snoc by auto
  let ?ce' = "put_slot (unat q) (r\<lparr>next_configured := next_configured e\<rparr>) ce"
  note sl = entry_store_live(3) [OF inv q(1), of "r\<lparr>next_configured := next_configured e\<rparr>"]
  have "conf_chain ?ce' h (zs @ q # ys)"
    by (rule unlink_chain [where r = "r\<lparr>next_configured := next_configured e\<rparr>", OF _ _ e])
      (use chain(1,2) snoc in \<open>simp_all add: sl\<close>)
  moreover have "find_previous ce i h = Some (Some q)"
    by (rule find_previous_chain [OF seg]) (use chain(2) snoc in auto)
  ultimately show ?thesis using later [OF h _ q(2,1) r] snoc by simp
qed

text \<open>Taking one entry off the list and out of the two totals.\<close>

lemma drop_entry_inv:
  assumes inv: "entries_inv gs" and e: "slot_of (entries gs) (unat i) = Some e" "configured e"
    and wr: "writes (entries gs) (entries gs')"
    and e': "slot_of (entries gs') (unat i) = Some e'" "\<not> configured e'"
    and rest: "\<And>j r. j \<noteq> i \<Longrightarrow> slot_of (entries gs) (unat j) = Some r \<Longrightarrow>
      \<exists>n. slot_of (entries gs') (unat j) = Some (r\<lparr>next_configured := n\<rparr>)"
    and chain: "conf_chain (entries gs') (configured_entries_head gs') (xs @ ys)" "distinct (xs @ i # ys)"
      "set (xs @ i # ys) = conf_ids (entries gs)"
    and totals: "allocated_rate_capacity gs' = allocated_rate_capacity gs - rate_share e"
      "total_weight gs' = total_weight gs - weight_share e"
  shows "entries_inv gs'" "shares gs' = (shares gs)(i := None)"
proof -
  let ?ce = "entries gs" and ?ce' = "entries gs'"
  have none: "slot_of ?ce' k = None \<longleftrightarrow> slot_of ?ce k = None" for k by (rule writesD(3) [OF wr])
  have view: "map_option (\<lambda>e. (configured e, allocation e)) (slot_of ?ce' (unat j)) =
      map_option (\<lambda>e. (configured e, allocation e)) (slot_of ?ce (unat j))" if "j \<noteq> i" for j
  proof (cases "slot_of ?ce (unat j)")
    case None
    then show ?thesis using none [of "unat j"] by simp
  next
    case (Some r)
    from rest [OF that Some] Some show ?thesis by auto
  qed
  have conf: "j \<in> conf_ids ?ce' \<longleftrightarrow> j \<noteq> i \<and> j \<in> conf_ids ?ce" for j
  proof (cases "j = i")
    case True
    then show ?thesis using e' by (simp add: conf_ids_def)
  next
    case False
    then show ?thesis
      using view [OF False] unfolding conf_ids_def
      by (cases "slot_of ?ce (unat j)"; cases "slot_of ?ce' (unat j)") simp_all
  qed
  then have ids: "conf_ids ?ce' = conf_ids ?ce - {i}" by auto
  have i: "i \<in> conf_ids ?ce" using e by (simp add: conf_ids_def)
  have at: "\<exists>n. entry_at ?ce' j = (entry_at ?ce j)\<lparr>next_configured := n\<rparr>" if "j \<in> conf_ids ?ce - {i}" for j
  proof -
    obtain r where r: "slot_of ?ce (unat j) = Some r" "j \<noteq> i" using \<open>j \<in> conf_ids ?ce - {i}\<close> by (auto simp: conf_ids_def)
    then obtain n where "slot_of ?ce' (unat j) = Some (r\<lparr>next_configured := n\<rparr>)" using rest by blast
    then have "entry_at ?ce' j = (entry_at ?ce j)\<lparr>next_configured := n\<rparr>" using r(1) by (simp only: entry_at_def option.sel)
    then show ?thesis by blast
  qed
  have sh: "rate_share (entry_at ?ce' j) = rate_share (entry_at ?ce j)"
      "weight_share (entry_at ?ce' j) = weight_share (entry_at ?ce j)"
      "allocation (entry_at ?ce' j) = allocation (entry_at ?ce j)"
      "calculated_rate (entry_at ?ce' j) = calculated_rate (entry_at ?ce j)" if c: "j \<in> conf_ids ?ce - {i}" for j
  proof -
    obtain n where n: "entry_at ?ce' j = (entry_at ?ce j)\<lparr>next_configured := n\<rparr>" using at [OF c] by blast
    show a: "allocation (entry_at ?ce' j) = allocation (entry_at ?ce j)"
      and "calculated_rate (entry_at ?ce' j) = calculated_rate (entry_at ?ce j)" by (simp_all add: n)
    show "rate_share (entry_at ?ce' j) = rate_share (entry_at ?ce j)"
      "weight_share (entry_at ?ce' j) = weight_share (entry_at ?ce j)"
      unfolding rate_share_def weight_share_def a by (rule refl)+
  qed
  have ei: "entry_at ?ce i = e" by (rule entry_at_conf [OF e(1)])
  have sums: "allocated_rate_capacity gs' = (\<Sum>j \<in> conf_ids ?ce - {i}. rate_share (entry_at ?ce' j))"
    "total_weight gs' = (\<Sum>j \<in> conf_ids ?ce - {i}. weight_share (entry_at ?ce' j))"
    using totals entries_invD(4,5) [OF inv] sum_without [OF i, of "\<lambda>j. rate_share (entry_at ?ce j)"]
      sum_without [OF i, of "\<lambda>j. weight_share (entry_at ?ce j)"]
    by (simp_all add: ei sh cong: sum.cong_simp)
  have set: "set (xs @ ys) = conf_ids ?ce - {i}" "distinct (xs @ ys)" using chain(2,3) by auto
  show "entries_inv gs'"
    unfolding entries_inv_def ids
  proof (intro conjI ballI)
    fix j assume j: "j \<in> conf_ids ?ce - {i}"
    show "valid_allocation (allocation (entry_at ?ce' j))" using entries_invD(2) [OF inv] j sh(3) by simp
    show "case allocation (entry_at ?ce' j) of Rate r \<Rightarrow> calculated_rate (entry_at ?ce' j) = r | _ \<Rightarrow> True"
      using entries_invD(3) [OF inv, of j] j sh(3,4) [OF j] by (simp split: hwfq_allocation.split)
  qed (use sums chain(1) set writesD(1) [OF wr] in auto)
  show "shares gs' = (shares gs)(i := None)"
  proof
    fix j
    show "shares gs' j = ((shares gs)(i := None)) j"
      using e' view [of j]
      by (cases "j = i"; cases "slot_of ?ce (unat j)"; cases "slot_of ?ce' (unat j)") (simp_all add: shares_def)
  qed
qed

lemma unlink_step:
  fixes g :: "('u, 'f) group_scheduler"
  assumes inv: "ce_inv (entries g)" and chain: "conf_chain (entries g) (configured_entries_head g) (xs @ i # ys)"
    "distinct (xs @ i # ys)" "set (xs @ i # ys) \<subseteq> live_ids (entries g)" and e: "slot_of (entries g) (unat i) = Some e"
  shows "\<exists>ce2 h2. (if configured_entries_head g = Some i
        then Some (g\<lparr>configured_entries_head := next_configured e\<rparr>)
        else do {
          prev \<leftarrow> find_previous (entries g) i (configured_entries_head g);
          case prev of
            None \<Rightarrow> Some g
          | Some q \<Rightarrow> do {
              r \<leftarrow> entry_load (entries g) q;
              ce \<leftarrow> entry_store q (r\<lparr>next_configured := next_configured e\<rparr>) (entries g);
              Some (g\<lparr>entries := ce\<rparr>)
            }
        }) = Some (g\<lparr>entries := ce2, configured_entries_head := h2\<rparr>) \<and>
      writes (entries g) ce2 \<and> slot_of ce2 (unat i) = Some e \<and>
      (\<forall>j r. slot_of (entries g) (unat (j :: u32)) = Some r \<longrightarrow>
        (\<exists>n. slot_of ce2 (unat j) = Some (r\<lparr>next_configured := n\<rparr>))) \<and> conf_chain ce2 h2 (xs @ ys)"
    (is "\<exists>ce2 h2. ?g2 = _ ce2 h2 \<and> _ ce2 h2")
proof (cases rule: unlink_cases [OF inv chain e, case_names first later])
  case first
  have "\<exists>n. slot_of (entries g) (unat (j :: u32)) = Some (r\<lparr>next_configured := n\<rparr>)"
    if "slot_of (entries g) (unat j) = Some r" for j r
    using that by (intro exI [of _ "next_configured r"]) simp
  moreover have "?g2 = Some (g\<lparr>entries := entries g, configured_entries_head := next_configured e\<rparr>)"
    using first(1) by simp
  ultimately show ?thesis using first(2) e(1) writes_refl [OF inv] by blast
next
  case (later q r)
  let ?r = "r\<lparr>next_configured := next_configured e\<rparr>"
  note st = entry_store_live [OF inv later(4), of ?r]
  have "?g2 = Some (g\<lparr>entries := put_slot (unat q) ?r (entries g), configured_entries_head := configured_entries_head g\<rparr>)"
    using later(1,2,5) by (simp add: entry_load_slot st(1))
  moreover have "\<exists>n. slot_of (put_slot (unat q) ?r (entries g)) (unat (j :: u32)) = Some (r'\<lparr>next_configured := n\<rparr>)"
    if "slot_of (entries g) (unat j) = Some r'" for j r'
  proof (cases "j = q")
    case True
    then have "r' = r" using that later(5) by simp
    with True show ?thesis by (intro exI [of _ "next_configured e"]) (simp add: st(3))
  next
    case False
    then show ?thesis using that by (intro exI [of _ "next_configured r'"]) (simp add: st(3))
  qed
  moreover have "slot_of (put_slot (unat q) ?r (entries g)) (unat i) = Some e" using later(3) e(1) by (simp add: st(3))
  ultimately show ?thesis using later(6) st(2) by blast
qed

lemma find_entry_eq:
  assumes "entries_inv gs"
  shows "group_scheduler_find_entry gs i = Some (if shares gs i = None then None else Some i)"
proof -
  have "hwfq_chunked_get (entries gs) i = Some (if slot_of (entries gs) (unat i) = None then None else Some i)"
    by (rule hwfq_chunked_get_eq [OF ce_invD(1) [OF entries_invD(1) [OF assms]]])
  then show ?thesis
    by (cases "slot_of (entries gs) (unat i)") (simp_all add: group_scheduler_find_entry_def entry_load_slot shares_def)
qed

text \<open>
  The removal of a configured entry up to the point where the rates are computed anew: its share is released, it
  is taken out of the chain, and its entry is marked as free.
\<close>

lemma entry_info_drop:
  assumes w: "writes (entries gs) (entries g)" and e: "slot_of (entries gs) (unat i) = Some e"
    and gone: "slot_of (entries g) (unat i) = Some (e\<lparr>configured := False, next_configured := None\<rparr>)"
    and rest: "\<And>j r. j \<noteq> i \<Longrightarrow> slot_of (entries gs) (unat j) = Some r \<Longrightarrow>
      \<exists>n. slot_of (entries g) (unat j) = Some (r\<lparr>next_configured := n\<rparr>)"
  shows "entry_info g = (entry_info gs)(i := map_option (\<lambda>(c, a, l, st, tr). (False, a, l, st, tr)) (entry_info gs i))"
proof
  fix j
  show "entry_info g j = ((entry_info gs)(i := map_option (\<lambda>(c, a, l, st, tr). (False, a, l, st, tr)) (entry_info gs i))) j"
  proof (cases "slot_of (entries gs) (unat j)")
    case None
    then have "slot_of (entries g) (unat j) = None" using writesD(3) [OF w, of "unat j"] by simp
    then show ?thesis using None e by (auto simp: entry_info_def)
  next
    case (Some r)
    then show ?thesis using rest [OF _ Some] e gone by (cases "j = i") (auto simp: entry_info_def entry_view_def)
  qed
qed

lemma remove_entry_run:
  fixes gs :: "('u, 'f) group_scheduler"
  assumes inv: "entries_inv gs" and lt: "i < gs_max_entries gs" and s: "shares gs i = Some a"
  obtains g where "group_scheduler_remove_entry i gs = do { gs \<leftarrow> recalculate_weight_based_rates g; Some (Inr (), gs) }"
    "entries_inv g" "shares g = (shares gs)(i := None)" "config_frame g gs" "writes (entries gs) (entries g)"
    "entry_info g = (entry_info gs)(i := map_option (\<lambda>(c, a, l, st, tr). (False, a, l, st, tr)) (entry_info gs i))"
proof -
  obtain e where e: "slot_of (entries gs) (unat i) = Some e" "configured e" "allocation e = a"
    using s by (auto simp: shares_def split: option.splits if_splits)
  obtain cl where cl: "conf_chain (entries gs) (configured_entries_head gs) cl" "distinct cl"
      "set cl = conf_ids (entries gs)" "set cl \<subseteq> live_ids (entries gs)"
    by (rule entries_chainE [OF inv])
  have icl: "i \<in> set cl" using e cl(3) by (simp add: conf_ids_def)
  then obtain xs ys where xy: "cl = xs @ i # ys" by (auto dest: split_list)
  define g1 where "g1 = release_share (allocation e) gs"
  have g1: "entries g1 = entries gs" "configured_entries_head g1 = configured_entries_head gs"
      "allocated_rate_capacity g1 = allocated_rate_capacity gs - rate_share e"
      "total_weight g1 = total_weight gs - weight_share e"
    by (cases "allocation e"; simp add: g1_def release_share_def rate_share_def weight_share_def)+
  let ?e' = "e\<lparr>configured := False, next_configured := None\<rparr>"
  obtain ce2 h2 where u: "(if configured_entries_head g1 = Some i
          then Some (g1\<lparr>configured_entries_head := next_configured e\<rparr>)
          else do {
            prev \<leftarrow> find_previous (entries g1) i (configured_entries_head g1);
            case prev of
              None \<Rightarrow> Some g1
            | Some q \<Rightarrow> do {
                r \<leftarrow> entry_load (entries g1) q;
                ce \<leftarrow> entry_store q (r\<lparr>next_configured := next_configured e\<rparr>) (entries g1);
                Some (g1\<lparr>entries := ce\<rparr>)
              }
          }) = Some (g1\<lparr>entries := ce2, configured_entries_head := h2\<rparr>)"
      "writes (entries gs) ce2" "slot_of ce2 (unat i) = Some e"
      "\<And>j r. slot_of (entries gs) (unat (j :: u32)) = Some r \<Longrightarrow> \<exists>n. slot_of ce2 (unat j) = Some (r\<lparr>next_configured := n\<rparr>)"
      "conf_chain ce2 h2 (xs @ ys)"
    using unlink_step [of g1, unfolded g1(1,2), OF entries_invD(1) [OF inv] cl(1,2,4) [unfolded xy] e(1)] unfolding g1(1,2) by blast
  have live: "i \<in> live_ids ce2" using icl cl(4) writesD(2) [OF u(2)] by auto
  note st = entry_store_live [OF writesD(1) [OF u(2)] live, of ?e']
  define g where "g = g1\<lparr>configured_entries_head := h2, entries := put_slot (unat i) ?e' ce2\<rparr>"
  have g: "entries g = put_slot (unat i) ?e' ce2" "configured_entries_head g = h2"
      "allocated_rate_capacity g = allocated_rate_capacity gs - rate_share e"
      "total_weight g = total_weight gs - weight_share e" by (simp_all add: g_def g1(3,4))
  have w: "writes (entries gs) (entries g)" unfolding g(1) by (rule writes_trans [OF u(2) st(2)])
  have chain: "conf_chain (entries g) (configured_entries_head g) (xs @ ys)"
    unfolding g by (subst conf_chain_cong [of _ _ ce2]) (use u(5) cl(2) xy in \<open>auto simp: st(3)\<close>)
  have rest: "\<exists>n. slot_of (entries g) (unat j) = Some (r\<lparr>next_configured := n\<rparr>)"
    if "j \<noteq> i" "slot_of (entries gs) (unat j) = Some r" for j r
    using u(4) [OF that(2)] that(1) by (simp add: g(1) st(3))
  have gone: "slot_of (entries g) (unat i) = Some ?e'" by (simp add: g(1) st(3))
  have free: "\<not> configured ?e'" by simp
  show thesis
  proof (rule that)
    show "group_scheduler_remove_entry i gs = do { gs \<leftarrow> recalculate_weight_based_rates g; Some (Inr (), gs) }"
    proof -
      have load: "entry_load (entries gs) i = Some e" "entry_load ce2 i = Some e" by (simp_all add: entry_load_slot e(1) u(3))
      have "\<not> gs_max_entries gs \<le> i" using lt by simp
      then have "group_scheduler_remove_entry i gs = do {
          gs \<leftarrow> Some (g1\<lparr>entries := ce2, configured_entries_head := h2\<rparr>);
          e \<leftarrow> entry_load (entries gs) i;
          ce \<leftarrow> entry_store i (e\<lparr>configured := False, next_configured := None\<rparr>) (entries gs);
          gs \<leftarrow> recalculate_weight_based_rates (gs\<lparr>entries := ce\<rparr>);
          Some (Inr (), gs) }"
        by (simp only: group_scheduler_remove_entry_def find_entry_eq [OF inv] s load(1) g1_def [symmetric] u(1) Let_def
            option.simps if_False Option.bind.bind_lunit)
      then show ?thesis by (simp add: load(2) st(1) g_def)
    qed
    show "config_frame g gs" by (cases "allocation e"; simp add: g_def g1_def release_share_def config_frame_def)
    note drop = drop_entry_inv [OF inv e(1,2) w gone free rest chain cl(2,3) [unfolded xy] g(3,4)]
    show "entries_inv g" "shares g = (shares gs)(i := None)" using drop by blast+
    show "writes (entries gs) (entries g)" by (rule w)
    show "entry_info g = (entry_info gs)(i := map_option (\<lambda>(c, a, l, st, tr). (False, a, l, st, tr)) (entry_info gs i))"
      by (rule entry_info_drop [OF w e(1) gone rest])
  qed
qed

lemma remove_entry_cases:
  fixes gs :: "('u, 'f) group_scheduler"
  assumes inv: "entries_inv gs"
  obtains (invalid) "gs_max_entries gs \<le> i"
      "group_scheduler_remove_entry i gs = Some (Inl HWFQ_ERR_INVALID_ARG, gs)"
    | (missing) "i < gs_max_entries gs" "shares gs i = None"
      "group_scheduler_remove_entry i gs = Some (Inl HWFQ_ERR_NOT_FOUND, gs)"
    | (ok) a gs' where "i < gs_max_entries gs" "shares gs i = Some a"
      "group_scheduler_remove_entry i gs = Some (Inr (), gs')"
      "entries_inv gs'" "shares gs' = (shares gs)(i := None)" "config_frame gs' gs"
      "writes (entries gs) (entries gs')"
      "entry_info gs' = (entry_info gs)(i := map_option (\<lambda>(c, a, l, st, tr). (False, a, l, st, tr)) (entry_info gs i))"
proof -
  consider "gs_max_entries gs \<le> i" | "i < gs_max_entries gs" "shares gs i = None"
    | a where "i < gs_max_entries gs" "shares gs i = Some a" by (cases "shares gs i") (auto simp: not_le [symmetric])
  then show thesis
  proof cases
    case 1
    then show thesis by (rule invalid) (simp add: group_scheduler_remove_entry_def 1)
  next
    case 2
    then show thesis by (rule missing) (simp add: group_scheduler_remove_entry_def find_entry_eq [OF inv] 2 not_le)
  next
    case (3 a)
    obtain g where g: "group_scheduler_remove_entry i gs = do { gs \<leftarrow> recalculate_weight_based_rates g; Some (Inr (), gs) }"
      "entries_inv g" "shares g = (shares gs)(i := None)" "config_frame g gs" "writes (entries gs) (entries g)"
      "entry_info g = (entry_info gs)(i := map_option (\<lambda>(c, a, l, st, tr). (False, a, l, st, tr)) (entry_info gs i))"
      by (rule remove_entry_run [OF inv 3])
    obtain g' where g': "recalculate_weight_based_rates g = Some g'" by (rule recalculate_ok [OF g(2)])
    note r = recalculate_shares [OF g' g(2)]
    have "group_scheduler_remove_entry i gs = Some (Inr (), g')" unfolding g(1) g' by simp
    from ok [OF 3 this r(1) trans [OF r(2) g(3)] config_frame_trans [OF r(4) g(4)] writes_trans [OF g(5) r(3)] trans [OF r(7) g(6)]]
    show thesis .
  qed
qed

section \<open>Capacity\<close>

text \<open>The total of the rates of the configured entries, without wrap-around.\<close>

definition booked_rates :: "('u, 'f) group_scheduler \<Rightarrow> nat" where
  "booked_rates gs = (\<Sum>i \<in> conf_ids (entries gs). unat (rate_share (entry_at (entries gs) i)))"

lemma finite_conf_ids [simp]: "finite (conf_ids ce)"
  by (rule finite_subset [OF subset_UNIV]) simp

lemma rate_share_shares:
  "i \<in> conf_ids (entries gs) \<Longrightarrow> shares gs i = Some (allocation (entry_at (entries gs) i))"
  "i \<notin> conf_ids (entries gs) \<Longrightarrow> shares gs i = None"
  by (auto simp: conf_ids_def shares_def entry_at_def split: option.splits)

definition rate_of :: "hwfq_allocation option \<Rightarrow> u64" where
  "rate_of a = (case a of Some (Rate r) \<Rightarrow> r | _ \<Rightarrow> 0)"

lemma booked_rates_shares: "booked_rates gs = (\<Sum>i \<in> UNIV. unat (rate_of (shares gs i)))"
proof -
  have "(\<Sum>i \<in> UNIV. unat (rate_of (shares gs i))) = (\<Sum>i \<in> conf_ids (entries gs). unat (rate_of (shares gs i)))"
    by (rule sum.mono_neutral_right) (auto simp: rate_share_shares(2) rate_of_def)
  also have "\<dots> = booked_rates gs"
    unfolding booked_rates_def
    by (rule sum.cong) (auto simp: rate_share_shares(1) rate_of_def rate_share_def split: hwfq_allocation.split)
  finally show ?thesis by simp
qed

lemma booked_rates_update:
  assumes "shares gs' = (shares gs)(i := a)"
  shows "booked_rates gs' + unat (rate_of (shares gs i)) = booked_rates gs + unat (rate_of a)"
proof -
  have "(\<Sum>j \<in> UNIV. unat (rate_of (shares gs' j))) =
      unat (rate_of a) + (\<Sum>j \<in> UNIV - {i}. unat (rate_of (shares gs j)))"
    using assms by (subst sum.remove [of _ i]) (auto intro: sum.cong)
  moreover have "(\<Sum>j \<in> UNIV. unat (rate_of (shares gs j))) =
      unat (rate_of (shares gs i)) + (\<Sum>j \<in> UNIV - {i}. unat (rate_of (shares gs j)))"
    by (subst sum.remove [of _ i]) auto
  ultimately show ?thesis by (simp add: booked_rates_shares)
qed

lemma word_sum_nat: "finite A \<Longrightarrow> (\<Sum>i \<in> A. f i :: 'a::len word) = of_nat (\<Sum>i \<in> A. unat (f i))"
  by simp

lemma allocated_is_booked:
  assumes "entries_inv gs" "booked_rates gs < 2 ^ 64"
  shows "unat (allocated_rate_capacity gs) = booked_rates gs"
proof -
  have "allocated_rate_capacity gs = of_nat (booked_rates gs)"
    unfolding entries_invD(4) [OF assms(1)] booked_rates_def by simp
  then show ?thesis using assms(2) by (simp add: unat_of_nat take_bit_nat_eq_self)
qed

lemma booked_without_nat:
  assumes "entries_inv gs" "booked_rates gs < 2 ^ 64"
  shows "unat (booked_without gs i) + unat (rate_of (shares gs i)) = booked_rates gs"
proof -
  have "unat (rate_of (shares gs i)) \<le> booked_rates gs"
    unfolding booked_rates_shares by (rule member_le_sum) auto
  then have "rate_of (shares gs i) \<le> allocated_rate_capacity gs"
    using allocated_is_booked [OF assms] by (simp add: word_le_nat_alt)
  then have "unat (allocated_rate_capacity gs - rate_of (shares gs i)) =
      booked_rates gs - unat (rate_of (shares gs i))"
    using allocated_is_booked [OF assms] by (simp add: unat_sub)
  moreover have "booked_without gs i = allocated_rate_capacity gs - rate_of (shares gs i)"
    by (simp add: booked_without_def rate_of_def)
  ultimately show ?thesis using \<open>unat (rate_of (shares gs i)) \<le> booked_rates gs\<close> by simp
qed

lemma unat_ucast_u64: "unat (ucast (w :: u32) :: u64) = unat w"
  by (simp add: unsigned_ucast_eq take_bit_nat_eq_self order.strict_trans [OF unat_u32_bound])

text \<open>
  The rate of a weight entry, as a natural number: its share of the capacity that rates leave, halved
  by the margin, and at least 1.
\<close>

lemma effective_rate_nat:
  assumes "allocation e = Weight w" "total_weight gs \<noteq> 0" "allocated_rate_capacity gs \<le> total_capacity gs"
    and "unat w * (unat (total_capacity gs) - unat (allocated_rate_capacity gs)) < 2 ^ 64"
  shows "unat (calculate_effective_rate gs e) =
    max 1 (unat w * (unat (total_capacity gs) - unat (allocated_rate_capacity gs)) div unat (total_weight gs) div 2)"
proof -
  define avail where "avail = total_capacity gs - allocated_rate_capacity gs"
  have a: "unat avail = unat (total_capacity gs) - unat (allocated_rate_capacity gs)"
    using assms(3) by (simp add: avail_def unat_sub)
  have uw: "unat (ucast w :: u64) = unat w" "unat (ucast (total_weight gs) :: u64) = unat (total_weight gs)"
    by (rule unat_ucast_u64)+
  have "unat (ucast w * avail) = unat w * unat avail"
    using assms(4) a uw by (simp add: unat_mult_no_wrap)
  define r where "r = drop_bit 1 ((ucast w * avail) div ucast (total_weight gs) :: u64)"
  have r: "unat r = unat w * unat avail div unat (total_weight gs) div 2"
    using uw \<open>unat (ucast w * avail) = unat w * unat avail\<close>
    by (simp add: r_def unat_drop_bit_eq drop_bit_eq_div unat_div)
  have run: "calculate_effective_rate gs e = (if r = 0 then 1 else r)"
    using assms(1,2) by (simp add: calculate_effective_rate_def avail_def Let_def r_def)
  have "unat (if r = 0 then 1 else r) = max 1 (unat r)"
    by (simp add: max_def Suc_le_eq unat_gt_0)
  then show ?thesis unfolding run r a by simp
qed

text \<open>The entries that share by weight, and the total of their weights, without wrap-around.\<close>

definition weight_ids :: "('u, 'f) group_scheduler \<Rightarrow> u32 set" where
  "weight_ids gs = {i. \<exists>w. shares gs i = Some (Weight w)}"

definition booked_weights :: "('u, 'f) group_scheduler \<Rightarrow> nat" where
  "booked_weights gs = (\<Sum>i \<in> weight_ids gs. unat (allocation_weight (the (shares gs i))))"

lemma shares_entry:
  "shares gs i = Some a \<Longrightarrow> i \<in> conf_ids (entries gs) \<and> allocation (entry_at (entries gs) i) = a"
  by (auto simp: conf_ids_def shares_def entry_at_def split: option.splits if_splits)

lemma weight_ids_conf: "weight_ids gs \<subseteq> conf_ids (entries gs)"
  by (auto simp: weight_ids_def conf_ids_def shares_def split: option.splits if_splits)

lemma total_weight_booked:
  assumes "entries_inv gs" "booked_weights gs < 2 ^ 32"
  shows "unat (total_weight gs) = booked_weights gs"
proof -
  have "(\<Sum>i \<in> conf_ids (entries gs). unat (weight_share (entry_at (entries gs) i))) =
      (\<Sum>i \<in> weight_ids gs. unat (weight_share (entry_at (entries gs) i)))"
  proof (rule sum.mono_neutral_right [OF _ weight_ids_conf])
    show "\<forall>i \<in> conf_ids (entries gs) - weight_ids gs. unat (weight_share (entry_at (entries gs) i)) = 0"
    proof
      fix i assume i: "i \<in> conf_ids (entries gs) - weight_ids gs"
      then show "unat (weight_share (entry_at (entries gs) i)) = 0"
        using rate_share_shares(1) [of i gs] entries_invD(2) [OF assms(1), of i]
        by (auto simp: weight_ids_def weight_share_def valid_allocation_def split: hwfq_allocation.splits)
    qed
  qed simp
  also have "\<dots> = booked_weights gs"
    unfolding booked_weights_def
  proof (rule sum.cong [OF refl])
    fix i assume "i \<in> weight_ids gs"
    then obtain w where w: "shares gs i = Some (Weight w)" by (auto simp: weight_ids_def)
    show "unat (weight_share (entry_at (entries gs) i)) = unat (allocation_weight (the (shares gs i)))"
      using shares_entry [OF w] by (simp add: weight_share_def w)
  qed
  finally have "total_weight gs = of_nat (booked_weights gs)"
    unfolding entries_invD(5) [OF assms(1)] by (metis word_sum_nat finite_conf_ids)
  then show ?thesis using assms(2) by (simp add: unat_of_nat take_bit_nat_eq_self)
qed

lemma div_add_le: "a div n + b div n \<le> (a + b) div (n :: nat)"
proof (cases "n = 0")
  case False
  have "(a div n + b div n) * n \<le> a + b" by (simp add: distrib_right add_mono)
  with False show ?thesis by (simp add: less_eq_div_iff_mult_less_eq)
qed simp

lemma sum_div_le: "finite A \<Longrightarrow> (\<Sum>i \<in> A. f i div n) \<le> (\<Sum>i \<in> A. f i :: nat) div n"
proof (induction A rule: finite_induct)
  case (insert x A)
  then have "f x div n + (\<Sum>i \<in> A. f i div n) \<le> f x div n + (\<Sum>i \<in> A. f i) div n" by simp
  also have "\<dots> \<le> (f x + (\<Sum>i \<in> A. f i)) div n" by (rule div_add_le)
  finally show ?case using insert by simp
qed simp
lemma weight_rates_nat:
  assumes inv: "entries_inv gs" and cap: "allocated_rate_capacity gs \<le> total_capacity gs"
    and w: "booked_weights gs < 2 ^ 32" "booked_weights gs * unat (total_capacity gs) < 2 ^ 64"
    and i: "i \<in> weight_ids gs"
  shows "unat (calculate_effective_rate gs (entry_at (entries gs) i)) =
    max 1 (unat (allocation_weight (the (shares gs i))) *
      (unat (total_capacity gs) - unat (allocated_rate_capacity gs)) div booked_weights gs div 2)"
proof -
  obtain k where k: "shares gs i = Some (Weight k)" using i by (auto simp: weight_ids_def)
  have al: "i \<in> conf_ids (entries gs)" "allocation (entry_at (entries gs) i) = Weight k"
    using shares_entry [OF k] by simp_all
  have fin: "finite (weight_ids gs)" by (rule finite_subset [OF weight_ids_conf]) simp
  have le: "unat k \<le> booked_weights gs"
    unfolding booked_weights_def using member_le_sum [OF i _ fin, of "\<lambda>i. unat (allocation_weight (the (shares gs i)))"] k by simp
  have "k \<noteq> 0" using entries_invD(2) [OF inv al(1)] al(2) by (simp add: valid_allocation_def)
  then have "0 < unat k" by (simp add: unat_gt_0)
  then have tw: "total_weight gs \<noteq> 0" using le total_weight_booked [OF inv w(1)] by auto
  have "unat k * (unat (total_capacity gs) - unat (allocated_rate_capacity gs)) \<le>
      booked_weights gs * unat (total_capacity gs)" using le by (intro mult_le_mono) auto
  then have "unat k * (unat (total_capacity gs) - unat (allocated_rate_capacity gs)) < 2 ^ 64" using w(2) by linarith
  from effective_rate_nat [OF al(2) tw cap this] show ?thesis
    unfolding k total_weight_booked [OF inv w(1)] by simp
qed

lemma weight_rates_sum:
  assumes inv: "entries_inv gs" and cap: "allocated_rate_capacity gs \<le> total_capacity gs"
    and w: "booked_weights gs < 2 ^ 32" "booked_weights gs * unat (total_capacity gs) < 2 ^ 64"
  shows "(\<Sum>i \<in> weight_ids gs. unat (calculate_effective_rate gs (entry_at (entries gs) i))) \<le>
    (unat (total_capacity gs) - unat (allocated_rate_capacity gs)) div 2 + card (weight_ids gs)"
proof -
  define avail where "avail = unat (total_capacity gs) - unat (allocated_rate_capacity gs)"
  define wt where "wt i = unat (allocation_weight (the (shares gs i)))" for i
  have fin: "finite (weight_ids gs)" by (rule finite_subset [OF weight_ids_conf]) simp
  have "(\<Sum>i \<in> weight_ids gs. unat (calculate_effective_rate gs (entry_at (entries gs) i))) \<le>
      (\<Sum>i \<in> weight_ids gs. wt i * avail div booked_weights gs div 2 + 1)"
  proof (rule sum_mono)
    fix i assume "i \<in> weight_ids gs"
    from weight_rates_nat [OF inv cap w this]
    show "unat (calculate_effective_rate gs (entry_at (entries gs) i)) \<le> wt i * avail div booked_weights gs div 2 + 1"
      by (simp add: wt_def avail_def)
  qed
  also have "\<dots> = (\<Sum>i \<in> weight_ids gs. wt i * avail div booked_weights gs div 2) + card (weight_ids gs)"
    by (simp add: sum_Suc)
  also have "(\<Sum>i \<in> weight_ids gs. wt i * avail div booked_weights gs div 2) \<le>
      (\<Sum>i \<in> weight_ids gs. wt i * avail) div booked_weights gs div 2"
    using sum_div_le [OF fin, of "\<lambda>i. wt i * avail div booked_weights gs" 2]
      div_le_mono [OF sum_div_le [OF fin, of "\<lambda>i. wt i * avail" "booked_weights gs"], of 2] by linarith
  also have "(\<Sum>i \<in> weight_ids gs. wt i * avail) = booked_weights gs * avail"
    by (simp add: booked_weights_def wt_def sum_distrib_right)
  also have "booked_weights gs * avail div booked_weights gs div 2 \<le> avail div 2" by (simp add: div_le_mono)
  finally show ?thesis by (simp add: avail_def)
qed

section \<open>Properties of the configuration\<close>

lemma entries_inv_empty:
  assumes "ce_inv (entries gs)" "conf_ids (entries gs) = {}" "configured_entries_head gs = None"
    "allocated_rate_capacity gs = 0" "total_weight gs = 0"
  shows "entries_inv gs" "shares gs = Map.empty"
proof -
  have "conf_chain (entries gs) (configured_entries_head gs) [] \<and> distinct ([] :: u32 list) \<and> set [] = conf_ids (entries gs)"
    using assms(2,3) by simp
  then show "entries_inv gs" unfolding entries_inv_def using assms by auto
  show "shares gs = Map.empty" using rate_share_shares(2) assms(2) by blast
qed

lemma configure_entry_ok:
  fixes gs :: "('u, 'f) group_scheduler"
  assumes "entries_inv gs" "i \<in> live_ids (entries gs)" "i < gs_max_entries gs" "valid_allocation alloc"
    and "\<And>r. alloc = Rate r \<Longrightarrow> booked_without gs i + r \<le> total_capacity gs"
  obtains gs' where "group_scheduler_configure_entry i alloc gs = Some (Inr (), gs')" "entries_inv gs'"
    "shares gs' = (shares gs)(i \<mapsto> alloc)" "config_frame gs' gs" "writes (entries gs) (entries gs')"
    "entry_info gs' = (entry_info gs)(i := map_option (\<lambda>(c, a, l, st, tr). (True, alloc, 0, st, tr)) (entry_info gs i))"
proof (cases rule: configure_entry_cases [OF assms(1,2), of alloc, case_names invalid over ok])
  case invalid
  then show ?thesis using assms(3,4) by (simp add: not_le)
next
  case (over r)
  then show ?thesis using assms(5) [of r] by (simp add: not_less)
next
  case (ok gs')
  from that [OF ok(4-8,10)] show ?thesis .
qed

text \<open>
  The examples' scheduler: a storage with two entries in use, and an empty calendar of 16 groups.
  In \<open>gs_one\<close> the first entry has the rate 60 of the capacity 100, in \<open>gs_two\<close> also the second one the
  weight 5.
\<close>

definition two_entries :: chunked_entries where
  "two_entries = one_entry
     \<lparr>chunks := [Some ((replicate 1024 zero_entry)[0 := zero_entry\<lparr>entry_id := 0, configured := False\<rparr>,
        1 := zero_entry\<lparr>entry_id := 1, configured := False\<rparr>])],
      num_allocated := 2, num_configured := 2\<rparr>"

lemma two_entries_inv: "ce_inv two_entries" "live_ids two_entries = {0, 1}" "conf_ids two_entries = {}"
proof -
  have "hwfq_chunked_entries_alloc (True, True) one_entry = Some (Inr 1, two_entries)"
    by (simp add: hwfq_chunked_entries_alloc_def hwfq_chunked_entries_init_def max_ids_def one_entry_def
        two_entries_def alloc_from_free_list_def hwfq_chunked_decode_def hwfq_chunked_encode_def
        allocate_chunk_def entry_store_def Let_def word_le_nat_alt)
  then show inv: "ce_inv two_entries" "live_ids two_entries = {0, 1}"
    using entries.alloc_ok [OF one_entry_inv(1)] one_entry_inv(2) by auto
  have "slot_of two_entries (unat (0 :: u32)) = Some (zero_entry\<lparr>entry_id := 0, configured := False\<rparr>)"
    "slot_of two_entries (unat (1 :: u32)) = Some (zero_entry\<lparr>entry_id := 1, configured := False\<rparr>)"
    by (simp_all add: two_entries_def one_entry_def slot_of_def)
  then have "0 \<notin> conf_ids two_entries" "1 \<notin> conf_ids two_entries" by (simp_all add: conf_ids_def)
  moreover have "conf_ids two_entries \<subseteq> {0, 1}" using conf_ids_live [OF inv(1)] inv(2) by simp
  ultimately show "conf_ids two_entries = {}" by blast
qed

definition gs_zero :: "(unit, unit) group_scheduler" where
  "gs_zero = cal_zero\<lparr>entries := two_entries, active_session_count := 0, sessions := Map.empty\<rparr>"

definition gs_one :: "(unit, unit) group_scheduler" where
  "gs_one = snd (the (group_scheduler_configure_entry 0 (Rate 60) gs_zero))"

definition gs_two :: "(unit, unit) group_scheduler" where
  "gs_two = snd (the (group_scheduler_configure_entry 1 (Weight 5) gs_one))"

lemma gs_zero_inv: "entries_inv gs_zero" "shares gs_zero = Map.empty" "live_ids (entries gs_zero) = {0, 1}"
    "gs_max_entries gs_zero = 10" "total_capacity gs_zero = 100" "allocated_rate_capacity gs_zero = 0"
proof -
  have e: "entries gs_zero = two_entries" by (simp add: gs_zero_def)
  show "live_ids (entries gs_zero) = {0, 1}" by (simp add: e two_entries_inv)
  show "gs_max_entries gs_zero = 10" "total_capacity gs_zero = 100" "allocated_rate_capacity gs_zero = 0"
    by (simp_all add: gs_zero_def cal_zero_def)
  show "entries_inv gs_zero" "shares gs_zero = Map.empty"
    using entries_inv_empty [of gs_zero] two_entries_inv(1,3) e by (simp_all add: gs_zero_def cal_zero_def)
qed

lemma gs_one_inv: "group_scheduler_configure_entry 0 (Rate 60) gs_zero = Some (Inr (), gs_one)"
  "entries_inv gs_one" "shares gs_one = [0 \<mapsto> Rate 60]" "live_ids (entries gs_one) = {0, 1}"
  "gs_max_entries gs_one = 10" "total_capacity gs_one = 100" "config_frame gs_one gs_zero"
  "entry_info gs_one =
    (entry_info gs_zero)(0 := map_option (\<lambda>(c, a, l, st, tr). (True, Rate 60, 0, st, tr)) (entry_info gs_zero 0))"
proof -
  have "0 < gs_max_entries gs_zero" "valid_allocation (Rate 60)" by (simp_all add: gs_zero_inv valid_allocation_def)
  moreover have "booked_without gs_zero 0 + r \<le> total_capacity gs_zero" if "Rate 60 = Rate r" for r
    using that by (auto simp: booked_without_def gs_zero_inv)
  moreover have "0 \<in> live_ids (entries gs_zero)" by (simp add: gs_zero_inv)
  ultimately obtain gs' where g: "group_scheduler_configure_entry 0 (Rate 60) gs_zero = Some (Inr (), gs')"
      "entries_inv gs'" "shares gs' = (shares gs_zero)(0 \<mapsto> Rate 60)" "config_frame gs' gs_zero"
      "writes (entries gs_zero) (entries gs')" "entry_info gs' =
        (entry_info gs_zero)(0 := map_option (\<lambda>(c, a, l, st, tr). (True, Rate 60, 0, st, tr)) (entry_info gs_zero 0))"
    by (metis configure_entry_ok [OF gs_zero_inv(1)])
  have "gs_one = gs'" by (simp add: gs_one_def g(1))
  with g show "group_scheduler_configure_entry 0 (Rate 60) gs_zero = Some (Inr (), gs_one)"
    "entries_inv gs_one" "shares gs_one = [0 \<mapsto> Rate 60]" "live_ids (entries gs_one) = {0, 1}"
    "gs_max_entries gs_one = 10" "total_capacity gs_one = 100" "config_frame gs_one gs_zero"
    "entry_info gs_one =
      (entry_info gs_zero)(0 := map_option (\<lambda>(c, a, l, st, tr). (True, Rate 60, 0, st, tr)) (entry_info gs_zero 0))"
    using config_frameD(4,10) [OF g(4)] writesD(2) [OF g(5)] by (simp_all add: gs_zero_inv)
qed

lemma gs_two_inv: "group_scheduler_configure_entry 1 (Weight 5) gs_one = Some (Inr (), gs_two)"
  "entries_inv gs_two" "shares gs_two = [0 \<mapsto> Rate 60, 1 \<mapsto> Weight 5]" "live_ids (entries gs_two) = {0, 1}"
  "gs_max_entries gs_two = 10" "total_capacity gs_two = 100" "config_frame gs_two gs_zero"
  "entry_info gs_two =
    (entry_info gs_one)(1 := map_option (\<lambda>(c, a, l, st, tr). (True, Weight 5, 0, st, tr)) (entry_info gs_one 1))"
proof -
  have "1 < gs_max_entries gs_one" "valid_allocation (Weight 5)" "1 \<in> live_ids (entries gs_one)"
    by (simp_all add: gs_one_inv valid_allocation_def)
  then obtain gs' where g: "group_scheduler_configure_entry 1 (Weight 5) gs_one = Some (Inr (), gs')"
      "entries_inv gs'" "shares gs' = (shares gs_one)(1 \<mapsto> Weight 5)" "config_frame gs' gs_one"
      "writes (entries gs_one) (entries gs')" "entry_info gs' =
        (entry_info gs_one)(1 := map_option (\<lambda>(c, a, l, st, tr). (True, Weight 5, 0, st, tr)) (entry_info gs_one 1))"
    by (metis configure_entry_ok [OF gs_one_inv(2)] hwfq_allocation.distinct(1))
  have "gs_two = gs'" by (simp add: gs_two_def g(1))
  with g show "group_scheduler_configure_entry 1 (Weight 5) gs_one = Some (Inr (), gs_two)"
    "entries_inv gs_two" "shares gs_two = [0 \<mapsto> Rate 60, 1 \<mapsto> Weight 5]" "live_ids (entries gs_two) = {0, 1}"
    "gs_max_entries gs_two = 10" "total_capacity gs_two = 100" "config_frame gs_two gs_zero"
    "entry_info gs_two =
      (entry_info gs_one)(1 := map_option (\<lambda>(c, a, l, st, tr). (True, Weight 5, 0, st, tr)) (entry_info gs_one 1))"
    using config_frameD(4,10) [OF g(4)] writesD(2) [OF g(5)] config_frame_trans [OF _ gs_one_inv(7)]
    by (simp_all add: gs_one_inv)
qed

lemma gs_two_entries: "entry_info gs_two 0 = Some (True, Rate 60, 0, zero_stats, zero_tracking)"
  "entry_info gs_two 1 = Some (True, Weight 5, 0, zero_stats, zero_tracking)"
proof -
  have "entries gs_zero = two_entries" by (simp add: gs_zero_def)
  then have "entry_info gs_zero 0 = Some (False, Weight 0, 0, zero_stats, zero_tracking)"
    "entry_info gs_zero 1 = Some (False, Weight 0, 0, zero_stats, zero_tracking)"
    by (simp_all add: entry_info_def entry_view_def two_entries_def one_entry_def slot_of_def zero_entry_def)
  then show "entry_info gs_two 0 = Some (True, Rate 60, 0, zero_stats, zero_tracking)"
    "entry_info gs_two 1 = Some (True, Weight 5, 0, zero_stats, zero_tracking)"
    by (simp_all add: gs_two_inv(8) gs_one_inv(8))
qed

lemma gs_two_booked: "booked_rates gs_one = 60" "booked_rates gs_two = 60" "booked_weights gs_two = 5"
    "weight_ids gs_two = {1}" "allocated_rate_capacity gs_two \<le> total_capacity gs_two"
proof -
  have "booked_rates gs_zero = 0" by (simp add: booked_rates_shares gs_zero_inv(2) rate_of_def)
  then show one: "booked_rates gs_one = 60"
    using booked_rates_update [of gs_one gs_zero 0 "Some (Rate 60)"] by (simp add: gs_one_inv gs_zero_inv rate_of_def)
  then show two: "booked_rates gs_two = 60"
    using booked_rates_update [of gs_two gs_one 1 "Some (Weight 5)"] by (simp add: gs_one_inv gs_two_inv rate_of_def)
  show ids: "weight_ids gs_two = {1}" by (auto simp: weight_ids_def gs_two_inv(3) split: if_splits)
  show "booked_weights gs_two = 5" by (simp add: booked_weights_def ids gs_two_inv(3))
  show "allocated_rate_capacity gs_two \<le> total_capacity gs_two"
    using allocated_is_booked [OF gs_two_inv(2)] by (simp add: two gs_two_inv(6) word_le_nat_alt)
qed

text \<open>
  C31. Configuring an entry that is in use never leaves the storage and keeps the invariant.  It is
  refused, and nothing at all changes, just when the ID or the allocation is invalid or when the requested
  rate, added in 64 bits to what is booked for the other entries, gives more than the capacity -- a sum that
  wraps around, so that a rate near \<open>2 ^ 64\<close> need not be refused.  Otherwise the entry has the new
  allocation, its last finish time restarts at 0 and its statistics stay, and all other entries keep
  allocation, last finish time and statistics.
\<close>

theorem configure_entry_correct:
  assumes "entries_inv gs" "i \<in> live_ids (entries gs)"
  shows "\<exists>ret gs'. group_scheduler_configure_entry i alloc gs = Some (ret, gs') \<and> entries_inv gs' \<and>
    ret = (if gs_max_entries gs \<le> i \<or> \<not> valid_allocation alloc then Inl HWFQ_ERR_INVALID_ARG
      else if \<exists>r. alloc = Rate r \<and> total_capacity gs < booked_without gs i + r then Inl HWFQ_ERR_OVERBOOKED
      else Inr ()) \<and>
    (case ret of Inl e \<Rightarrow> gs' = gs | Inr _ \<Rightarrow> shares gs' = (shares gs)(i \<mapsto> alloc) \<and>
      entry_info gs' = (entry_info gs)(i := map_option (\<lambda>(c, a, l, st, tr). (True, alloc, 0, st, tr)) (entry_info gs i)))"
proof (cases rule: configure_entry_cases [OF assms, of alloc, case_names invalid over ok])
  case invalid
  then show ?thesis using assms(1) by simp
next
  case (over r)
  then have "\<not> (gs_max_entries gs \<le> i \<or> \<not> valid_allocation alloc)" by (simp add: not_le)
  moreover have "\<exists>r. alloc = Rate r \<and> total_capacity gs < booked_without gs i + r" using over by blast
  ultimately show ?thesis using over(5) assms(1) by simp
next
  case (ok gs')
  then have "\<not> (gs_max_entries gs \<le> i \<or> \<not> valid_allocation alloc)" by (simp add: not_le)
  moreover have "\<not> (\<exists>r. alloc = Rate r \<and> total_capacity gs < booked_without gs i + r)"
    using ok(3) by (auto simp: not_less)
  ultimately show ?thesis using ok(4-6,10) by simp
qed

theorem configure_entry_correct_witness:
  "\<exists>ret gs'. group_scheduler_configure_entry 0 (Weight 5) gs_one = Some (ret, gs') \<and> entries_inv gs' \<and>
    ret = (if gs_max_entries gs_one \<le> 0 \<or> \<not> valid_allocation (Weight 5) then Inl HWFQ_ERR_INVALID_ARG
      else if \<exists>r. Weight 5 = Rate r \<and> total_capacity gs_one < booked_without gs_one 0 + r
      then Inl HWFQ_ERR_OVERBOOKED else Inr ()) \<and>
    (case ret of Inl e \<Rightarrow> gs' = gs_one | Inr _ \<Rightarrow> shares gs' = (shares gs_one)(0 \<mapsto> Weight 5) \<and>
      entry_info gs' = (entry_info gs_one)
        (0 := map_option (\<lambda>(c, a, l, st, tr). (True, Weight 5, 0, st, tr)) (entry_info gs_one 0)))"
  by (rule configure_entry_correct [OF gs_one_inv(2)]) (simp add: gs_one_inv)

text \<open>
  C32. Removing an entry keeps the invariant: a configured entry loses its allocation and gives its
  share back, all others keep theirs; an ID that is not configured is reported, and nothing changes.
\<close>

theorem remove_entry_correct:
  assumes "entries_inv gs"
  shows "\<exists>ret gs'. group_scheduler_remove_entry i gs = Some (ret, gs') \<and> entries_inv gs' \<and>
    ret = (if gs_max_entries gs \<le> i then Inl HWFQ_ERR_INVALID_ARG
      else if shares gs i = None then Inl HWFQ_ERR_NOT_FOUND else Inr ()) \<and>
    (case ret of Inl e \<Rightarrow> gs' = gs | Inr _ \<Rightarrow> shares gs' = (shares gs)(i := None))"
proof (cases rule: remove_entry_cases [OF assms, of i, case_names invalid missing ok])
  case invalid
  then show ?thesis using assms by simp
next
  case missing
  then show ?thesis using assms by (simp add: not_le)
next
  case (ok a gs')
  then show ?thesis by (simp add: not_le)
qed

theorem remove_entry_correct_witness:
  "\<exists>ret gs'. group_scheduler_remove_entry 0 gs_one = Some (ret, gs') \<and> entries_inv gs' \<and>
    ret = (if gs_max_entries gs_one \<le> 0 then Inl HWFQ_ERR_INVALID_ARG
      else if shares gs_one 0 = None then Inl HWFQ_ERR_NOT_FOUND else Inr ()) \<and>
    (case ret of Inl e \<Rightarrow> gs' = gs_one | Inr _ \<Rightarrow> shares gs' = (shares gs_one)(0 := None))"
  by (rule remove_entry_correct [OF gs_one_inv(2)])

text \<open>
  C33. Rates do not become overbooked: when they are not, and as long as a requested rate plus the capacity stays within 64 bits,
  no configuration makes the rates of all entries together exceed the capacity.
\<close>

theorem rates_never_overbooked:
  assumes "entries_inv gs" "i \<in> live_ids (entries gs)" "booked_rates gs \<le> unat (total_capacity gs)"
    and "unat (rate_of (Some alloc)) + unat (total_capacity gs) < 2 ^ 64"
    and "group_scheduler_configure_entry i alloc gs = Some (ret, gs')"
  shows "booked_rates gs' \<le> unat (total_capacity gs')"
proof (cases rule: configure_entry_cases [OF assms(1,2), of alloc, case_names invalid over ok])
  case invalid
  then show ?thesis using assms by simp
next
  case (over r)
  then show ?thesis using assms by simp
next
  case (ok gs1)
  have small: "booked_rates gs < 2 ^ 64" using assms(3) unat_lt_2p [of "total_capacity gs"] by simp
  note others = booked_without_nat [OF assms(1) small, of i]
  have "unat (booked_without gs i + rate_of (Some alloc)) = unat (booked_without gs i) + unat (rate_of (Some alloc))"
    by (rule unat_add_no_wrap) (use others assms(3,4) in simp)
  moreover have "booked_without gs i + rate_of (Some alloc) \<le> total_capacity gs \<or> rate_of (Some alloc) = 0"
    using ok(3) by (simp add: rate_of_def split: hwfq_allocation.split)
  ultimately have "unat (booked_without gs i) + unat (rate_of (Some alloc)) \<le> unat (total_capacity gs)"
    using others assms(3) by (auto simp: word_le_nat_alt)
  then show ?thesis
    using booked_rates_update [OF ok(6)] others ok(4) assms(5) config_frameD(10) [OF ok(7)] by simp
qed

theorem rates_never_overbooked_witness: "booked_rates gs_two \<le> unat (total_capacity gs_two)"
  by (rule rates_never_overbooked [OF gs_one_inv(2) _ _ _ gs_two_inv(1)])
    (simp_all add: gs_one_inv gs_two_booked rate_of_def)

text \<open>
  C34. The check is done in 64-bit arithmetic that wraps: a rate so large that its sum with the booked
  rates passes \<open>2 ^ 64\<close> and comes out within the capacity is accepted, and the scheduler is overbooked.
\<close>

theorem overbooking_check_wraps:
  assumes "entries_inv gs" "i \<in> live_ids (entries gs)" "i < gs_max_entries gs"
    and "booked_rates gs \<le> unat (total_capacity gs)" "shares gs i = None"
    and "2 ^ 64 \<le> booked_rates gs + unat r" "booked_rates gs + unat r - 2 ^ 64 \<le> unat (total_capacity gs)"
  shows "\<exists>gs'. group_scheduler_configure_entry i (Rate r) gs = Some (Inr (), gs') \<and>
    unat (total_capacity gs') < booked_rates gs'"
proof -
  have small: "booked_rates gs < 2 ^ 64" using assms(4) unat_lt_2p [of "total_capacity gs"] by simp
  have bw: "unat (booked_without gs i) = booked_rates gs"
    using booked_without_nat [OF assms(1) small, of i] assms(5) by (simp add: rate_of_def)
  have "r \<noteq> 0" using assms(6) small by auto
  then have "valid_allocation (Rate r)" by (simp add: valid_allocation_def)
  moreover have "booked_without gs i + r \<le> total_capacity gs"
    using assms(6,7) bw unat_lt_2p [of r] small
    by (simp add: word_le_nat_alt unat_word_ariths mod_if)
  ultimately obtain gs' where g: "group_scheduler_configure_entry i (Rate r) gs = Some (Inr (), gs')"
      "shares gs' = (shares gs)(i \<mapsto> Rate r)" "config_frame gs' gs"
    by (metis configure_entry_ok [OF assms(1-3)] hwfq_allocation.inject(2))
  have "booked_rates gs' = booked_rates gs + unat r"
    using booked_rates_update [OF g(2)] assms(5) by (simp add: rate_of_def)
  then have "unat (total_capacity gs') < booked_rates gs'"
    using assms(6) unat_lt_2p [of "total_capacity gs'"] by simp
  with g(1) show ?thesis by blast
qed

theorem overbooking_check_wraps_witness:
  "\<exists>gs'. group_scheduler_configure_entry 1 (Rate UINT64_MAX) gs_one = Some (Inr (), gs') \<and>
    unat (total_capacity gs') < booked_rates gs'"
  by (rule overbooking_check_wraps) (simp_all add: gs_one_inv gs_two_booked unat_max_word)

text \<open>
  What weights give out: with totals that fit their types, the effective rates of the entries
  that share by weight add up to at most half of the capacity that rates leave, and one unit for
  each of them.
\<close>

theorem weight_rates_fit:
  assumes "entries_inv gs" "allocated_rate_capacity gs \<le> total_capacity gs"
    and "booked_weights gs < 2 ^ 32" "booked_weights gs * unat (total_capacity gs) < 2 ^ 64"
  shows "(\<Sum>i \<in> weight_ids gs. unat (calculate_effective_rate gs (entry_at (entries gs) i))) \<le>
    (unat (total_capacity gs) - unat (allocated_rate_capacity gs)) div 2 + card (weight_ids gs)"
  by (rule weight_rates_sum [OF assms])

theorem weight_rates_fit_witness:
  "(\<Sum>i \<in> weight_ids gs_two. unat (calculate_effective_rate gs_two (entry_at (entries gs_two) i))) \<le>
    (unat (total_capacity gs_two) - unat (allocated_rate_capacity gs_two)) div 2 + card (weight_ids gs_two)"
  by (rule weight_rates_fit [OF gs_two_inv(2) gs_two_booked(5)])
    (simp_all add: gs_two_booked gs_two_inv)

end
