(* ===== verification/Group_Queue.thy ===== *)
theory Group_Queue
  imports Group_Scheduler
begin

text \<open>
  The queue of one scheduling level: what enqueuing, dequeuing, removing a session and advancing the
  virtual time do, over the invariant \<open>gs_inv\<close> that ties the calendar, the entry storage and the
  session count together.
\<close>

section \<open>The invariant of a level\<close>

definition gs_inv :: "('u, 'f) group_scheduler \<Rightarrow> bool" where
  "gs_inv gs \<longleftrightarrow>
     cal_inv gs \<and> cal_config gs \<and> entries_inv gs \<and>
     finite (queued gs) \<and> card (queued gs) = unat (active_session_count gs) \<and>
     (\<forall>a \<in> queued gs. start_of gs a \<le> finish_of gs a)"

lemma gs_invD:
  assumes "gs_inv gs"
  shows "cal_inv gs" "cal_config gs" "entries_inv gs" "finite (queued gs)"
    "card (queued gs) = unat (active_session_count gs)"
    "\<And>a. a \<in> queued gs \<Longrightarrow> start_of gs a \<le> finish_of gs a"
  using assms by (simp_all add: gs_inv_def)

lemma gs_inv_empty: "gs_inv gs \<Longrightarrow> active_session_count gs = 0 \<longleftrightarrow> queued gs = {}"
  using gs_invD(4,5) [of gs] by (metis card_eq_0_iff unat_0 unat_eq_zero)

text \<open>Fields on which the calendar's invariant does not depend.\<close>

lemma cal_inv_update [simp]:
  "cal_inv (gs\<lparr>min_finish_time := m'\<rparr>) = cal_inv gs"
  "cal_inv (gs\<lparr>virtual_time := v\<rparr>) = cal_inv gs"
  "cal_inv (gs\<lparr>active_session_count := n\<rparr>) = cal_inv gs"
  "cal_inv (gs\<lparr>entries := ce\<rparr>) = cal_inv gs"
  by (simp_all add: cal_inv_def cal_wf_def)

lemma cal_config_update [simp]:
  "cal_config (gs\<lparr>min_finish_time := m'\<rparr>) = cal_config gs"
  "cal_config (gs\<lparr>virtual_time := v\<rparr>) = cal_config gs"
  "cal_config (gs\<lparr>active_session_count := n\<rparr>) = cal_config gs"
  "cal_config (gs\<lparr>entries := ce\<rparr>) = cal_config gs"
  "cal_config (gs\<lparr>sessions := H\<rparr>) = cal_config gs"
  by (simp_all add: cal_config_def)

text \<open>The entries' invariant depends on the storage, the list head and the two totals.\<close>

definition same_entries :: "('u, 'f) group_scheduler \<Rightarrow> ('u, 'f) group_scheduler \<Rightarrow> bool" where
  "same_entries gs' gs \<longleftrightarrow>
     entries gs' = entries gs \<and> configured_entries_head gs' = configured_entries_head gs \<and>
     allocated_rate_capacity gs' = allocated_rate_capacity gs \<and> total_weight gs' = total_weight gs"

lemma same_entriesD:
  assumes "same_entries gs' gs"
  shows "entries_inv gs' = entries_inv gs" "shares gs' = shares gs" "entries gs' = entries gs"
proof -
  have e: "entries gs' = entries gs" "configured_entries_head gs' = configured_entries_head gs"
    "allocated_rate_capacity gs' = allocated_rate_capacity gs" "total_weight gs' = total_weight gs"
    using assms by (simp_all add: same_entries_def)
  show "entries gs' = entries gs" by (rule e)
  show "entries_inv gs' = entries_inv gs" unfolding entries_inv_def e by (rule refl)
  show "shares gs' = shares gs" unfolding shares_def [abs_def] e by (rule refl)
qed

lemma cal_frame_entries: "cal_frame gs' gs \<Longrightarrow> same_entries gs' gs"
  by (simp add: same_entries_def cal_frameD)

text \<open>Sessions outside the queue may come and go.\<close>

lemma cal_wf_heap:
  assumes w: "cal_wf gs L" and H: "\<And>a. a \<in> queued gs \<Longrightarrow> H a = sessions gs a"
  shows "cal_wf (gs\<lparr>sessions := H\<rparr>) L"
proof -
  note wf = cal_wfD [OF w]
  have same: "H a = sessions gs a" if "a \<in> set (L b)" for a b
    using H that queued_iff [OF w] by blast
  have "cal_lists (gs\<lparr>sessions := H\<rparr>) L"
    unfolding cal_lists_def
  proof (intro allI conjI ballI)
    fix b
    have "dll H (bin_heads gs ! b) (L b) = dll (sessions gs) (bin_heads gs ! b) (L b)"
      by (rule dll_cong) (use same in auto)
    then show "if b < unat (num_bins (gs\<lparr>sessions := H\<rparr>))
        then dll (sessions (gs\<lparr>sessions := H\<rparr>)) (bin_heads (gs\<lparr>sessions := H\<rparr>) ! b) (L b) else L b = []"
      using cal_listsD(1,2) [OF wf(2), of b] by auto
    show "distinct (L b)" by (rule cal_listsD(3) [OF wf(2)])
    have "map (finish_of (gs\<lparr>sessions := H\<rparr>)) (L b) = map (finish_of gs) (L b)"
      by (rule map_cong) (use same in auto)
    then show "sorted (map (finish_of (gs\<lparr>sessions := H\<rparr>)) (L b))" using cal_listsD(4) [OF wf(2)] by metis
    show "\<exists>s. sessions (gs\<lparr>sessions := H\<rparr>) a = Some s \<and> unat (bin_index s) = b" if "a \<in> set (L b)" for a
      using cal_listsD(5) [OF wf(2) that] same [OF that] by simp
  qed
  moreover have "cal_mins (gs\<lparr>sessions := H\<rparr>) L"
    using wf(4) same unfolding cal_mins_def by (simp cong: ball_cong bex_cong)
  ultimately show ?thesis using wf by (simp add: cal_wf_def cal_shape_def cal_bits_def)
qed

lemma queued_heap:
  assumes inv: "cal_inv gs" and H: "\<And>a. a \<in> queued gs \<Longrightarrow> H a = sessions gs a"
  shows "cal_inv (gs\<lparr>sessions := H\<rparr>)" "queued (gs\<lparr>sessions := H\<rparr>) = queued gs"
proof -
  obtain L where L: "cal_wf gs L" using inv by (auto simp: cal_inv_def)
  show "cal_inv (gs\<lparr>sessions := H\<rparr>)" using cal_wf_heap [OF L H] by (auto simp: cal_inv_def)
  show "queued (gs\<lparr>sessions := H\<rparr>) = queued gs"
    using queued_eq [OF cal_wf_heap [OF L H]] queued_eq [OF L] by simp
qed

lemma session_times_of:
  assumes "session_times gs' a = session_times gs a" "sessions gs a = Some s"
  obtains s' where "sessions gs' a = Some s'" "start_time s' = start_time s" "finish_time s' = finish_time s"
  using assms by (cases "sessions gs' a") (auto simp: session_times_def)

text \<open>Times of queued sessions that an operation left alone.\<close>

lemma kept_times:
  assumes inv: "cal_inv gs" and t: "\<And>c. c \<in> A \<Longrightarrow> session_times gs' c = session_times gs c"
    and le: "\<And>a. a \<in> queued gs \<Longrightarrow> start_of gs a \<le> finish_of gs a" and A: "A \<subseteq> queued gs" and a: "a \<in> A"
  shows "start_of gs' a \<le> finish_of gs' a"
proof -
  obtain s where s: "sessions gs a = Some s" using queued_session [OF inv, of a] A a by blast
  obtain s' where "sessions gs' a = Some s'" "start_time s' = start_time s" "finish_time s' = finish_time s"
    by (rule session_times_of [OF t [OF a] s])
  then show ?thesis using le [of a] A a s by auto
qed

section \<open>Enqueuing\<close>

text \<open>The times WF2Q+ gives to a new session, and the group its interval falls into.\<close>

definition session_start :: "('u, 'f) group_scheduler \<Rightarrow> u32 \<Rightarrow> u64" where
  "session_start gs i = max (virtual_time gs) (last_finish_time (entry_at (entries gs) i))"

definition session_interval :: "('u, 'f) group_scheduler \<Rightarrow> u32 \<Rightarrow> u64 \<Rightarrow> u64" where
  "session_interval gs i work = service_interval_of work (session_rate gs (entry_at (entries gs) i))"

definition session_finish :: "('u, 'f) group_scheduler \<Rightarrow> u32 \<Rightarrow> u64 \<Rightarrow> u64" where
  "session_finish gs i work =
     (if UINT64_MAX - session_interval gs i work < session_start gs i then UINT64_MAX
      else session_start gs i + session_interval gs i work)"

definition session_group :: "('u, 'f) group_scheduler \<Rightarrow> u32 \<Rightarrow> u64 \<Rightarrow> u32" where
  "session_group gs i work = the (calculate_group_index_from_interval (session_interval gs i work) 1)"

lemma service_interval_pos: "service_interval_of work rate \<noteq> 0"
  by (simp add: service_interval_of_def Let_def)

lemma service_interval_nat:
  assumes "rate \<noteq> 0"
  shows "unat (service_interval_of work rate) =
    max 1 (min (2 ^ 64 - 1) (unat work * 2 ^ 20) div unat rate)"
proof -
  have lim: "unat (drop_bit 20 (UINT64_MAX :: u64)) = 2 ^ 44 - 1"
    by (simp add: unat_drop_bit_eq unat_max_word drop_bit_eq_div)
  define scaled where "scaled = (if drop_bit 20 UINT64_MAX < work then UINT64_MAX else push_bit 20 work)"
  have scaled: "unat scaled = min (2 ^ 64 - 1) (unat work * 2 ^ 20)"
  proof (cases "drop_bit 20 UINT64_MAX < work")
    case True
    then have "2 ^ 44 \<le> unat work" using lim by (simp add: word_less_nat_alt)
    then show ?thesis using True by (simp add: scaled_def unat_max_word)
  next
    case False
    then have "unat work \<le> 2 ^ 44 - 1" using lim by (simp add: word_less_nat_alt)
    then have "unat work * 2 ^ 20 \<le> 2 ^ 64 - 1" by simp
    then show ?thesis
      using False unat_mult_no_wrap [of work 1048576] by (simp add: scaled_def push_bit_eq_mult)
  qed
  have "unat (scaled div rate) = min (2 ^ 64 - 1) (unat work * 2 ^ 20) div unat rate"
    by (simp only: unat_div scaled)
  moreover have "unat (if scaled div rate = 0 then 1 else scaled div rate) = max 1 (unat (scaled div rate))"
    by (simp add: max_def Suc_le_eq unat_gt_0)
  ultimately show ?thesis unfolding service_interval_of_def Let_def scaled_def [symmetric] by simp
qed

lemma session_finish_nat:
  "unat (session_finish gs i work) = min (2 ^ 64 - 1) (unat (session_start gs i) + unat (session_interval gs i work))"
proof -
  define s n where "s = session_start gs i" and "n = session_interval gs i work"
  have m: "unat (UINT64_MAX - n) = 2 ^ 64 - 1 - unat n" by (simp add: unat_sub unat_max_word)
  have "unat (if UINT64_MAX - n < s then UINT64_MAX else s + n) = min (2 ^ 64 - 1) (unat s + unat n)"
  proof (cases "UINT64_MAX - n < s")
    case True
    then have "2 ^ 64 - 1 < unat s + unat n" using m unat_lt_2p [of n] by (simp add: word_less_nat_alt)
    then show ?thesis using True by (simp add: unat_max_word)
  next
    case False
    then have "unat s + unat n \<le> 2 ^ 64 - 1" using m unat_lt_2p [of n] by (simp add: word_less_nat_alt)
    then show ?thesis using False by (simp add: unat_add_no_wrap)
  qed
  then show ?thesis unfolding session_finish_def s_def n_def .
qed

lemma session_start_le_finish: "session_start gs i \<le> session_finish gs i work"
  unfolding word_le_nat_alt session_finish_nat using unat_lt_2p [of "session_start gs i"] by simp

lemma session_group_range:
  "calculate_group_index_from_interval (session_interval gs i work) 1 = Some (session_group gs i work)"
  "session_group gs i work \<le> 15"
proof -
  have "1 \<le> session_interval gs i work"
    using service_interval_pos by (simp add: session_interval_def word_le_nat_alt Suc_le_eq unat_gt_0)
  then obtain g where "calculate_group_index_from_interval (session_interval gs i work) 1 = Some g" "g \<le> 15"
    using group_index_range [of 1 "session_interval gs i work"] by (metis zero_neq_one)
  then show "calculate_group_index_from_interval (session_interval gs i work) 1 = Some (session_group gs i work)"
    "session_group gs i work \<le> 15" by (simp_all add: session_group_def)
qed

text \<open>When and with which code an enqueue is refused.\<close>

definition enqueue_error :: "addr option \<Rightarrow> u32 \<Rightarrow> u64 \<Rightarrow> ('u, 'f) group_scheduler \<Rightarrow> hwfq_error option" where
  "enqueue_error mem i work gs =
     (if work = 0 \<or> gs_max_entries gs \<le> i then Some HWFQ_ERR_INVALID_ARG
      else if shares gs i = None then Some HWFQ_ERR_NOT_FOUND
      else if session_rate gs (entry_at (entries gs) i) = 0 then Some HWFQ_ERR_INTERNAL
      else if mem = None then Some HWFQ_ERR_NO_MEMORY
      else if num_groups gs \<le> session_group gs i work then Some HWFQ_ERR_INTERNAL
      else None)"

text \<open>What a session carries, beside its links and its place in the calendar.\<close>

definition session_info :: "('u, 'f) group_scheduler \<Rightarrow> addr \<Rightarrow>
    (u32 \<times> 'u option \<times> u64 \<times> 'f option \<times> u64 \<times> u64) option" where
  "session_info gs a =
     map_option (\<lambda>s. (sess_entry_id s, user_data s, work_size s, cleanup_fn s, start_time s, finish_time s)) (sessions gs a)"

lemma session_info_times: "session_info gs' a = session_info gs b \<Longrightarrow> session_times gs' a = session_times gs b"
  by (cases "sessions gs' a"; cases "sessions gs b") (auto simp: session_info_def session_times_def)

lemma same_data_info:
  assumes "same_data (sessions gs') (sessions gs)"
  shows "session_info gs' a = session_info gs a"
proof (cases "sessions gs a")
  case None
  then show ?thesis using same_data_dom [OF assms, of a] by (auto simp: session_info_def)
next
  case (Some s)
  obtain s' where "sessions gs' a = Some s'" "unlinked s' = unlinked s" by (rule same_dataE [OF assms Some])
  then show ?thesis using Some unlinked_fields [of s' s] by (simp add: session_info_def)
qed

text \<open>The parameters of a level and its totals.\<close>

definition level_config :: "('u, 'f) group_scheduler \<Rightarrow> u32 \<times> u64 \<times> u32 \<times> u32 \<times> u64 \<times> u32 \<times> u32 option" where
  "level_config gs = (gs_max_entries gs, total_capacity gs, num_groups gs, bins_per_group gs,
     allocated_rate_capacity gs, total_weight gs, configured_entries_head gs)"

lemma cal_frame_level: "cal_frame gs' gs \<Longrightarrow> level_config gs' = level_config gs"
  by (simp add: level_config_def cal_frameD)

lemma enqueue_refused:
  assumes "entries_inv gs" "enqueue_error mem i work gs = Some err"
    and "work = 0 \<or> gs_max_entries gs \<le> i \<or> shares gs i = None \<or>
      session_rate gs (entry_at (entries gs) i) = 0 \<or> mem = None"
  shows "group_scheduler_enqueue mem ts i work data cleanup gs = Some (Inl err, gs)"
proof -
  note find = find_entry_eq [OF assms(1), of i]
  have load: "entry_load (entries gs) i = Some (entry_at (entries gs) i)" if "shares gs i \<noteq> None"
    using that by (simp add: entry_load_slot shares_def entry_at_def split: option.splits)
  show ?thesis
    using assms(2,3) load
    by (auto simp: enqueue_error_def group_scheduler_enqueue_def find Let_def split: if_splits option.split)
qed

text \<open>The session that an enqueue hands to the calendar.\<close>

definition new_session ::
  "u64 \<times> u64 \<Rightarrow> u32 \<Rightarrow> u64 \<Rightarrow> 'u option \<Rightarrow> 'f option \<Rightarrow> ('u, 'f) group_scheduler \<Rightarrow> ('u, 'f) session_state" where
  "new_session ts i work data cleanup gs =
     \<lparr>sess_entry_id = i, start_time = session_start gs i, finish_time = session_finish gs i work,
      service_interval = session_interval gs i work, group_index = session_group gs i work, bin_index = 0,
      user_data = data, work_size = work, bin_next = None, bin_prev = None, enqueue_time_ns = clock_ns ts,
      cleanup_fn = cleanup\<rparr>"

lemma enqueue_run:
  fixes gs :: "('u, 'f) group_scheduler"
  assumes inv: "entries_inv gs" and base: "base_interval gs = 1"
    and ok: "work \<noteq> 0" "i < gs_max_entries gs" "shares gs i \<noteq> None"
      "session_rate gs (entry_at (entries gs) i) \<noteq> 0"
  shows "group_scheduler_enqueue (Some a) ts i work data cleanup gs = do {
     (ret, gs) \<leftarrow> calendar_insert_session a
       (gs\<lparr>sessions := (sessions gs)(a \<mapsto> new_session ts i work data cleanup gs)\<rparr>);
     case ret of
       Inl err \<Rightarrow> do { H \<leftarrow> hwfq_free a (sessions gs); Some (Inl err, gs\<lparr>sessions := H\<rparr>) }
     | Inr _ \<Rightarrow> do {
         s \<leftarrow> sessions gs a;
         e \<leftarrow> entry_load (entries gs) i;
         ce \<leftarrow> entry_store i (e\<lparr>last_finish_time := finish_time s\<rparr>) (entries gs);
         Some (Inr a, gs\<lparr>entries := ce, active_session_count := active_session_count gs + 1\<rparr>)
       }
   }"
proof -
  define e where "e = entry_at (entries gs) i"
  have load: "entry_load (entries gs) i = Some e"
    using ok(3) by (simp add: entry_load_slot shares_def entry_at_def e_def split: option.splits)
  have find: "group_scheduler_find_entry gs i = Some (Some i)" using find_entry_eq [OF inv, of i] ok(3) by simp
  have start: "(if last_finish_time e < virtual_time gs then virtual_time gs else last_finish_time e) = session_start gs i"
    by (auto simp: session_start_def e_def max_def)
  have interval: "service_interval_of work (session_rate gs e) = session_interval gs i work"
    by (simp add: session_interval_def e_def)
  have fin: "(if UINT64_MAX - session_interval gs i work < session_start gs i then UINT64_MAX
      else session_start gs i + session_interval gs i work) = session_finish gs i work"
    by (simp add: session_finish_def)
  show ?thesis
    unfolding group_scheduler_enqueue_def find Option.bind.simps option.case load Let_def interval start fin
      base session_group_range(1) new_session_def
    using ok(1,4) ok(2) [unfolded not_le [symmetric]] by (simp add: e_def)
qed

lemma info_times: "session_info gs c = Some (i, d, w, f, st, fin) \<Longrightarrow> start_of gs c = st \<and> finish_of gs c = fin"
  by (auto simp: session_info_def)

lemma info_same_times:
  "session_info gs' c = session_info gs c \<Longrightarrow> sessions gs c \<noteq> None \<Longrightarrow>
   start_of gs' c = start_of gs c \<and> finish_of gs' c = finish_of gs c"
  by (auto simp: session_info_def)

lemma unat_plus_one: "n \<noteq> - 1 \<Longrightarrow> unat (n + 1 :: 'a::len word) = unat n + 1"
proof -
  assume "n \<noteq> - 1"
  then have "unat n \<noteq> unat (- 1 :: 'a word)" by simp
  then have "unat n \<noteq> 2 ^ LENGTH('a) - 1" unfolding unat_max_word .
  then have "unat n + unat (1 :: 'a word) < 2 ^ LENGTH('a)" using unat_lt_2p [of n] by (metis Suc_eq_plus1 Suc_lessI diff_Suc_1 unsigned_1)
  from unat_add_no_wrap [OF this] show ?thesis by simp
qed

text \<open>Writing the last finish time of an entry keeps the entries' invariant.\<close>

lemma same_slot_shares:
  assumes inv: "entries_inv gs" and wr: "writes (entries gs) (entries gs')"
    and slots: "\<And>(j :: u32) e. slot_of (entries gs) (unat j) = Some e \<Longrightarrow>
      \<exists>e'. slot_of (entries gs') (unat j) = Some e' \<and> same_shares e' e"
    and keep: "configured_entries_head gs' = configured_entries_head gs"
      "allocated_rate_capacity gs' = allocated_rate_capacity gs" "total_weight gs' = total_weight gs"
  shows "entries_inv gs'" "shares gs' = shares gs"
proof -
  show "entries_inv gs'" by (rule entries_inv_same_shares(1) [OF inv wr slots refl keep])
  show "shares gs' = shares gs"
  proof
    fix i
    show "shares gs' i = shares gs i"
    proof (cases "slot_of (entries gs) (unat i)")
      case None
      then have "slot_of (entries gs') (unat i) = None" using writesD(3) [OF wr, of "unat i"] by simp
      then show ?thesis using None by (simp add: shares_def)
    next
      case (Some e)
      from slots [OF Some] show ?thesis using Some by (auto simp: shares_def same_sharesD(1,2))
    qed
  qed
qed

lemma same_shares_finish: "same_shares (e\<lparr>last_finish_time := f\<rparr>) e"
  by (cases "allocation e") (simp_all add: same_shares_def)

text \<open>The allocator answers NULL or an address that is not in use.\<close>

definition fresh_in :: "('u, 'f) group_scheduler \<Rightarrow> addr option \<Rightarrow> bool" where
  "fresh_in gs mem \<longleftrightarrow> (case mem of None \<Rightarrow> True | Some a \<Rightarrow> sessions gs a = None)"

text \<open>
  What the calendar holds once the new session is in: the level that an accepted enqueue leaves, \<open>g\<close> being the
  level after the insertion into the calendar.
\<close>

lemma enqueued_level:
  fixes gs :: "('u, 'f) group_scheduler"
  assumes inv: "gs_inv gs" and a: "a \<notin> queued gs" and room: "active_session_count gs \<noteq> UINT32_MAX"
    and s: "s = new_session ts i work data cleanup gs"
    and g0: "g0 = gs\<lparr>sessions := (sessions gs)(a \<mapsto> s)\<rparr>" "queued g0 = queued gs" "cal_config g0"
    and g1: "cal_inv g1" "queued g1 = insert a (queued g0)" "cal_frame g1 g0" "virtual_time g1 = virtual_time g0"
      "same_data (sessions g1) ((sessions g0)(a \<mapsto> s\<lparr>bin_index := idx\<rparr>))"
    and e: "slot_of (entries gs) (unat i) = Some e" and live: "i \<in> live_ids (entries gs)"
    and g2: "g2 = g1\<lparr>entries := put_slot (unat i) (e\<lparr>last_finish_time := session_finish gs i work\<rparr>) (entries gs),
      active_session_count := active_session_count gs + 1\<rparr>"
  shows "gs_inv g2" "queued g2 = insert a (queued gs)"
    "session_info g2 a = Some (i, data, work, cleanup, session_start gs i, session_finish gs i work)"
    "\<And>c. c \<noteq> a \<Longrightarrow> session_info g2 c = session_info gs c"
    "virtual_time g2 = virtual_time gs" "level_config g2 = level_config gs" "shares g2 = shares gs"
    "writes (entries gs) (entries g2)"
    "\<And>j. slot_of (entries g2) (unat j) = (if j = i
       then map_option (\<lambda>e. e\<lparr>last_finish_time := session_finish gs i work\<rparr>) (slot_of (entries gs) (unat j))
       else slot_of (entries gs) (unat j))"
proof -
  note gi = gs_invD [OF inv]
  note st = entry_store_live [OF entries_invD(1) [OF gi(3)] live, of "e\<lparr>last_finish_time := session_finish gs i work\<rparr>"]
  show q: "queued g2 = insert a (queued gs)" using g1(2) g0(2) by (simp add: g2)
  show info: "session_info g2 a = Some (i, data, work, cleanup, session_start gs i, session_finish gs i work)"
  proof -
    obtain s2 where "sessions g1 a = Some s2" "unlinked s2 = unlinked (s\<lparr>bin_index := idx\<rparr>)"
      by (rule same_dataE [OF g1(5), of a "s\<lparr>bin_index := idx\<rparr>"]) simp
    then show ?thesis
      using unlinked_fields [of s2 "s\<lparr>bin_index := idx\<rparr>"] by (simp add: session_info_def g2 s new_session_def)
  qed
  show others: "session_info g2 c = session_info gs c" if "c \<noteq> a" for c
  proof -
    have "session_info g1 c = session_info (g0\<lparr>sessions := (sessions g0)(a \<mapsto> s\<lparr>bin_index := idx\<rparr>)\<rparr>) c"
      by (rule same_data_info) (simp add: g1(5))
    then show ?thesis using that by (simp add: session_info_def g2 g0(1))
  qed
  show wr: "writes (entries gs) (entries g2)" using st(2) by (simp add: g2)
  show slots: "slot_of (entries g2) (unat j) = (if j = i
     then map_option (\<lambda>e. e\<lparr>last_finish_time := session_finish gs i work\<rparr>) (slot_of (entries gs) (unat j))
     else slot_of (entries gs) (unat j))" for j
    using st(3) [of "unat j"] e by (simp add: g2)
  have keep: "configured_entries_head g2 = configured_entries_head gs"
      "allocated_rate_capacity g2 = allocated_rate_capacity gs" "total_weight g2 = total_weight gs"
    using cal_frameD(3-5) [OF g1(3)] by (simp_all add: g2 g0(1))
  have "\<exists>e'. slot_of (entries g2) (unat j) = Some e' \<and> same_shares e' e"
    if "slot_of (entries gs) (unat j) = Some e" for j :: u32 and e
    using that slots [of j] same_shares_finish [of _ e] same_shares_refl [of e] by (cases "j = i") auto
  note ent = same_slot_shares [OF gi(3) wr this keep]
  then show "shares g2 = shares gs" by blast
  have count: "card (queued g2) = unat (active_session_count g2)"
    using q a gi(4,5) unat_plus_one [OF room] by (simp add: g2)
  have times: "start_of g2 c \<le> finish_of g2 c" if c: "c \<in> queued g2" for c
  proof (cases "c = a")
    case True
    then show ?thesis using info_times [OF info] session_start_le_finish by simp
  next
    case False
    then have "c \<in> queued gs" using c q by simp
    with gi(6) show ?thesis by (metis info_same_times [OF others [OF False]] queued_session [OF gi(1)] option.distinct(1))
  qed
  have "cal_inv g2" "cal_config g2" using g1(1) g0(3) cal_frame_config [OF g1(3)] by (simp_all add: g2)
  then show "gs_inv g2" using ent count times gi(4) q by (simp add: gs_inv_def)
  show "virtual_time g2 = virtual_time gs" "level_config g2 = level_config gs"
    using g1(4) cal_frame_level [OF g1(3)] by (simp_all add: g2 g0(1) level_config_def)
qed

lemma enqueue_cases:
  fixes gs :: "('u, 'f) group_scheduler"
  assumes inv: "gs_inv gs" and fresh: "fresh_in gs mem"
    and room: "active_session_count gs \<noteq> UINT32_MAX"
  obtains (refused) err where "enqueue_error mem i work gs = Some err"
      "group_scheduler_enqueue mem ts i work data cleanup gs = Some (Inl err, gs)"
    | (ok) a gs' where "enqueue_error mem i work gs = None" "mem = Some a"
      "group_scheduler_enqueue mem ts i work data cleanup gs = Some (Inr a, gs')"
      "gs_inv gs'" "a \<notin> queued gs" "queued gs' = insert a (queued gs)"
      "session_info gs' a = Some (i, data, work, cleanup, session_start gs i, session_finish gs i work)"
      "\<And>c. c \<noteq> a \<Longrightarrow> session_info gs' c = session_info gs c"
      "active_session_count gs' = active_session_count gs + 1"
      "virtual_time gs' = virtual_time gs" "level_config gs' = level_config gs" "shares gs' = shares gs"
      "writes (entries gs) (entries gs')"
      "\<And>j. slot_of (entries gs') (unat j) = (if j = i
         then map_option (\<lambda>e. e\<lparr>last_finish_time := session_finish gs i work\<rparr>) (slot_of (entries gs) (unat j))
         else slot_of (entries gs) (unat j))"
proof -
  note gi = gs_invD [OF inv]
  show ?thesis
  proof (cases "work = 0 \<or> gs_max_entries gs \<le> i \<or> shares gs i = None \<or>
      session_rate gs (entry_at (entries gs) i) = 0 \<or> mem = None")
    case True
    then have "enqueue_error mem i work gs \<noteq> None" unfolding enqueue_error_def by auto
    then obtain err where "enqueue_error mem i work gs = Some err" by blast
    from refused [OF this enqueue_refused [OF gi(3) this True]] show ?thesis .
  next
    case False
    then obtain a where run: "work \<noteq> 0" "i < gs_max_entries gs" "shares gs i \<noteq> None"
      "session_rate gs (entry_at (entries gs) i) \<noteq> 0" "mem = Some a" by (auto simp: not_le)
    have free: "sessions gs a = None" using fresh run(5) by (simp add: fresh_in_def)
    then have a: "a \<notin> queued gs" using queued_session [OF gi(1)] by (metis option.distinct(1))
    define s where "s = new_session ts i work data cleanup gs"
    define g0 where "g0 = gs\<lparr>sessions := (sessions gs)(a \<mapsto> s)\<rparr>"
    have base: "base_interval gs = 1" using gi(2) by (simp add: cal_config_def)
    note step = enqueue_run [OF gi(3) base run(1-4), of a ts data cleanup, folded s_def, folded g0_def, folded run(5)]
    have H: "((sessions gs)(a \<mapsto> s)) c = sessions gs c" if "c \<in> queued gs" for c using a that by auto
    have g0: "cal_inv g0" "queued g0 = queued gs" "cal_config g0"
      using queued_heap [OF gi(1), of "(sessions gs)(a \<mapsto> s)", OF H] gi(2) by (simp_all add: g0_def)
    have s: "sessions g0 a = Some s" "group_index s \<le> 15" "a \<notin> queued g0"
      using a g0(2) session_group_range(2) by (auto simp: g0_def s_def new_session_def)
    show ?thesis
    proof (cases rule: calendar_insert_cases [OF g0(1,3) s(3,1,2), case_names ok' no_group])
      case no_group
      have "(sessions gs)(a := None) = sessions gs" using free by auto
      then have "group_scheduler_enqueue mem ts i work data cleanup gs = Some (Inl HWFQ_ERR_INTERNAL, gs)"
        unfolding step no_group(2) by (simp add: hwfq_free_def g0_def)
      moreover have "enqueue_error mem i work gs = Some HWFQ_ERR_INTERNAL"
        using no_group(1) run by (simp add: enqueue_error_def not_le not_less g0_def s_def new_session_def)
      ultimately show ?thesis using refused by blast
    next
      case (ok' g1)
      obtain idx where sd: "same_data (sessions g1) ((sessions g0)(a \<mapsto> s\<lparr>bin_index := idx\<rparr>))" using ok'(9) by blast
      obtain s1 where s1: "sessions g1 a = Some s1" "finish_time s1 = finish_time s"
        by (rule session_times_of [OF ok'(7) s(1)])
      define e where "e = entry_at (entries gs) i"
      have e: "slot_of (entries gs) (unat i) = Some e"
        using run(3) by (simp add: shares_def entry_at_def e_def split: option.splits)
      have live: "i \<in> live_ids (entries gs)"
        using run(3) shares_entry [of gs i] conf_ids_live [OF entries_invD(1) [OF gi(3)]] by auto
      have g1: "entries g1 = entries gs" "active_session_count g1 = active_session_count gs"
        using cal_frameD [OF ok'(5)] by (simp_all add: g0_def)
      have f: "finish_time s1 = session_finish gs i work" using s1(2) by (simp add: s_def new_session_def)
      define g2 where "g2 = g1\<lparr>entries := put_slot (unat i) (e\<lparr>last_finish_time := session_finish gs i work\<rparr>) (entries gs),
        active_session_count := active_session_count gs + 1\<rparr>"
      have enq: "group_scheduler_enqueue mem ts i work data cleanup gs = Some (Inr a, g2)"
        unfolding step ok'(2) g2_def
        by (simp only: Option.bind.simps prod.case sum.case s1(1) g1 entry_load_slot e f
            entry_store_live(1) [OF entries_invD(1) [OF gi(3)] live])
      note lv = enqueued_level [OF inv a room s_def g0_def g0(2,3) ok'(3-6) sd e live g2_def]
      have none: "enqueue_error mem i work gs = None"
        using ok'(1) run by (simp add: enqueue_error_def not_le s_def new_session_def g0_def)
      have "active_session_count g2 = active_session_count gs + 1" by (simp add: g2_def)
      from ok [OF none run(5) enq lv(1) a lv(2-4) this lv(5-9)] show ?thesis .
    qed
  qed
qed

section \<open>Dequeuing and removing\<close>

lemma unat_minus_one': "n \<noteq> 0 \<Longrightarrow> unat (n - 1 :: 'a::len word) = unat n - 1"
  using unat_sub_le [of 1 n] by (simp add: word_le_nat_alt Suc_le_eq unat_gt_0)

lemma queued_count_pos: "gs_inv gs \<Longrightarrow> a \<in> queued gs \<Longrightarrow> active_session_count gs \<noteq> 0"
  using gs_inv_empty by auto

text \<open>Removing a queued session from the calendar, as far as the invariant of the level goes.\<close>

lemma calendar_removed:
  fixes gs :: "('u, 'f) group_scheduler"
  assumes inv: "gs_inv gs" and a: "a \<in> queued gs"
  obtains g1 where "calendar_remove_session a gs = Some (Inr (), g1)" "cal_inv g1" "queued g1 = queued gs - {a}"
    "cal_frame g1 gs" "virtual_time g1 = virtual_time gs" "\<And>c. session_info g1 c = session_info gs c"
    "\<And>c. c \<notin> queued gs \<Longrightarrow> sessions g1 c = sessions gs c"
    "gs_inv (g1\<lparr>active_session_count := active_session_count g1 - 1\<rparr>)"
proof -
  note gi = gs_invD [OF inv]
  obtain g1 where g1: "calendar_remove_session a gs = Some (Inr (), g1)" "cal_inv g1" "queued g1 = queued gs - {a}"
      "cal_frame g1 gs" "virtual_time g1 = virtual_time gs" "\<And>c. session_times g1 c = session_times gs c"
      "same_data (sessions g1) (sessions gs)" "\<And>c. c \<notin> queued gs \<Longrightarrow> sessions g1 c = sessions gs c"
    using calendar_remove_inv [OF gi(1) a] by metis
  have n: "active_session_count g1 = active_session_count gs" by (rule cal_frameD(12) [OF g1(4)])
  let ?g = "g1\<lparr>active_session_count := active_session_count g1 - 1\<rparr>"
  have "card (queued gs - {a}) = unat (active_session_count g1 - 1)"
    using gi(4,5) a by (simp add: n unat_minus_one' [OF queued_count_pos [OF inv a]])
  moreover have "entries_inv ?g"
  proof -
    have "same_entries ?g gs" using cal_frame_entries [OF g1(4)] by (simp add: same_entries_def)
    then show ?thesis using same_entriesD(1) gi(3) by metis
  qed
  moreover have "start_of ?g c \<le> finish_of ?g c" if "c \<in> queued gs - {a}" for c
    by (rule kept_times [OF gi(1) _ gi(6) _ that]) (use g1(6) in \<open>auto simp: session_times_def\<close>)
  ultimately have "gs_inv ?g"
    using g1(2,3) gi(2,4) cal_frame_config [OF g1(4)] by (simp add: gs_inv_def)
  from that [OF g1(1-5) same_data_info [OF g1(7)] g1(8) this] show ?thesis .
qed

lemma dequeue_cases:
  fixes gs :: "('u, 'f) group_scheduler"
  assumes inv: "gs_inv gs"
  obtains (empty) "queued gs = {}" "group_scheduler_dequeue gs = Some (None, gs)"
    | (blocked) "queued gs \<noteq> {}" "selectable gs (search_time gs) = {}"
      "group_scheduler_dequeue gs = Some (None, gs\<lparr>virtual_time := search_time gs\<rparr>)"
      "gs_inv (gs\<lparr>virtual_time := search_time gs\<rparr>)"
    | (ok) a gs' where "a \<in> selectable gs (search_time gs)"
      "\<And>c. c \<in> selectable gs (search_time gs) \<Longrightarrow> finish_of gs a \<le> finish_of gs c"
      "group_scheduler_dequeue gs = Some (Some a, gs')" "gs_inv gs'" "queued gs' = queued gs - {a}"
      "\<And>c. session_info gs' c = session_info gs c" "\<And>c. c \<notin> queued gs \<Longrightarrow> sessions gs' c = sessions gs c"
      "virtual_time gs' = search_time gs"
      "active_session_count gs' = active_session_count gs - 1" "level_config gs' = level_config gs"
      "same_entries gs' gs"
proof (cases "active_session_count gs = 0")
  case True
  then have "queued gs = {}" using gs_inv_empty [OF inv] by simp
  from empty [OF this] show ?thesis by (simp add: group_scheduler_dequeue_def True)
next
  case False
  note gi = gs_invD [OF inv]
  obtain L where w: "cal_wf gs L" using gi(1) by (auto simp: cal_inv_def)
  have ne: "queued gs \<noteq> {}" using False gs_inv_empty [OF inv] by simp
  have upd: "gs_inv (gs\<lparr>virtual_time := v\<rparr>)" "gs_inv (gs\<lparr>virtual_time := v, min_finish_time := m\<rparr>)" for v m
    using inv same_entriesD(1) [of "gs\<lparr>virtual_time := v\<rparr>" gs] same_entriesD(1) [of "gs\<lparr>virtual_time := v, min_finish_time := m\<rparr>" gs]
    by (simp_all add: gs_inv_def same_entries_def)
  show ?thesis
  proof (cases rule: calendar_find_min_ok [OF w False, case_names none some])
    case none
    from blocked [OF ne none(1) _ upd(1)] show ?thesis by (simp add: group_scheduler_dequeue_def False none(2))
  next
    case (some a)
    let ?g = "gs\<lparr>virtual_time := search_time gs, min_finish_time := finish_of gs a\<rparr>"
    have a: "a \<in> queued ?g" using some(1) by (simp add: selectable_def)
    obtain g1 where g1: "calendar_remove_session a ?g = Some (Inr (), g1)" "cal_inv g1" "queued g1 = queued ?g - {a}"
      "cal_frame g1 ?g" "virtual_time g1 = virtual_time ?g" "\<And>c. session_info g1 c = session_info ?g c"
      "\<And>c. c \<notin> queued ?g \<Longrightarrow> sessions g1 c = sessions ?g c"
      "gs_inv (g1\<lparr>active_session_count := active_session_count g1 - 1\<rparr>)"
      using calendar_removed [OF upd(2) a] by metis
    let ?g' = "g1\<lparr>active_session_count := active_session_count g1 - 1\<rparr>"
    have n: "active_session_count g1 = active_session_count gs" using cal_frameD(12) [OF g1(4)] by simp
    have run: "group_scheduler_dequeue gs = Some (Some a, ?g')"
      by (simp add: group_scheduler_dequeue_def False some(3) g1(1))
    have q: "queued ?g' = queued gs - {a}" using g1(3) by simp
    have info: "session_info ?g' c = session_info gs c" for c using g1(6) [of c] by (simp add: session_info_def)
    have heap: "sessions ?g' c = sessions gs c" if "c \<notin> queued gs" for c using g1(7) [of c] that by simp
    have vt: "virtual_time ?g' = search_time gs" using g1(5) by simp
    have cnt: "active_session_count ?g' = active_session_count gs - 1" by (simp add: n)
    have lev: "level_config ?g' = level_config gs"
      using cal_frame_level [OF g1(4)] by (simp add: level_config_def)
    have same: "same_entries ?g' gs" using cal_frame_entries [OF g1(4)] by (simp add: same_entries_def)
    from ok [OF some(1,2) run g1(8) q info heap vt cnt lev same] show ?thesis .
  qed
qed

text \<open>Cells outside the queue may change.\<close>

lemma gs_inv_heap:
  assumes inv: "gs_inv gs" and H: "\<And>a. a \<in> queued gs \<Longrightarrow> H a = sessions gs a"
  shows "gs_inv (gs\<lparr>sessions := H\<rparr>)" "queued (gs\<lparr>sessions := H\<rparr>) = queued gs"
proof -
  note h = queued_heap [OF gs_invD(1) [OF inv], of H, OF H]
  have "same_entries (gs\<lparr>sessions := H\<rparr>) gs" by (simp add: same_entries_def)
  then have "entries_inv (gs\<lparr>sessions := H\<rparr>)" by (simp only: same_entriesD(1) gs_invD(3) [OF inv])
  moreover have "start_of (gs\<lparr>sessions := H\<rparr>) c \<le> finish_of (gs\<lparr>sessions := H\<rparr>) c" if "c \<in> queued gs" for c
    using gs_invD(6) [OF inv that] H [OF that] by simp
  moreover have "cal_config (gs\<lparr>sessions := H\<rparr>)" "active_session_count (gs\<lparr>sessions := H\<rparr>) = active_session_count gs"
    using gs_invD(2) [OF inv] by simp_all
  ultimately show "gs_inv (gs\<lparr>sessions := H\<rparr>)" using h gs_invD(4,5) [OF inv] by (simp add: gs_inv_def)
  show "queued (gs\<lparr>sessions := H\<rparr>) = queued gs" by (rule h(2))
qed

lemma remove_session_ok:
  fixes gs :: "('u, 'f) group_scheduler"
  assumes inv: "gs_inv gs" and a: "a \<in> queued gs"
  obtains gs' where "group_scheduler_remove_session a gs = Some (Inr (), gs')" "gs_inv gs'"
    "queued gs' = queued gs - {a}" "sessions gs' a = None"
    "\<And>c. c \<noteq> a \<Longrightarrow> session_info gs' c = session_info gs c"
    "virtual_time gs' = virtual_time gs" "active_session_count gs' = active_session_count gs - 1"
    "level_config gs' = level_config gs" "same_entries gs' gs"
proof -
  obtain g1 where g1: "calendar_remove_session a gs = Some (Inr (), g1)" "cal_inv g1" "queued g1 = queued gs - {a}"
      "cal_frame g1 gs" "virtual_time g1 = virtual_time gs" "\<And>c. session_info g1 c = session_info gs c"
      "\<And>c. c \<notin> queued gs \<Longrightarrow> sessions g1 c = sessions gs c"
      "gs_inv (g1\<lparr>active_session_count := active_session_count g1 - 1\<rparr>)"
    using calendar_removed [OF inv a] by metis
  define g2 where "g2 = g1\<lparr>active_session_count := active_session_count g1 - 1\<rparr>"
  define g3 where "g3 = g2\<lparr>sessions := (sessions g2)(a := None)\<rparr>"
  have n: "active_session_count g1 = active_session_count gs" by (rule cal_frameD(12) [OF g1(4)])
  obtain s where "sessions gs a = Some s" by (rule queued_session [OF gs_invD(1) [OF inv] a])
  then obtain s1 where s1: "sessions g1 a = Some s1"
    using g1(6) [of a] by (cases "sessions g1 a") (auto simp: session_info_def)
  have run: "group_scheduler_remove_session a gs = Some (Inr (), g3)"
    by (simp add: group_scheduler_remove_session_def g1(1) hwfq_free_def s1 g3_def g2_def)
  have i2: "gs_inv g2" using g1(8) by (simp add: g2_def)
  have q2: "queued g2 = queued gs - {a}" using g1(3) by (simp add: g2_def)
  have H: "((sessions g2)(a := None)) c = sessions g2 c" if "c \<in> queued g2" for c using that q2 by auto
  have inv3: "gs_inv g3" and q: "queued g3 = queued gs - {a}"
    using gs_inv_heap [OF i2, of "(sessions g2)(a := None)", OF H, folded g3_def] q2 by simp_all
  have e3: "same_entries g3 gs" using cal_frame_entries [OF g1(4)] by (simp add: same_entries_def g3_def g2_def)
  have gone: "sessions g3 a = None" by (simp add: g3_def)
  have info: "session_info g3 c = session_info gs c" if "c \<noteq> a" for c
    using g1(6) [of c] that by (simp add: session_info_def g3_def g2_def)
  have rest: "virtual_time g3 = virtual_time gs" "active_session_count g3 = active_session_count gs - 1"
    "level_config g3 = level_config gs"
    using g1(5) n cal_frame_level [OF g1(4)] by (simp_all add: g3_def g2_def level_config_def)
  from that [OF run inv3 q gone info rest e3] show ?thesis .
qed

section \<open>Rebasing\<close>

lemma rebase_time_nat: "unat (rebase_time off t) = unat t - unat off"
  by (simp add: rebase_time_def unat_sub word_le_nat_alt)

lemma rebase_time_mono: "t \<le> t' \<Longrightarrow> rebase_time off t \<le> rebase_time off t'"
  by (simp add: word_le_nat_alt rebase_time_nat diff_le_mono)

lemma rebase_time_cmp: "off \<le> v \<Longrightarrow> rebase_time off t \<le> rebase_time off v \<longleftrightarrow> t \<le> v"
  unfolding word_le_nat_alt rebase_time_nat by linarith

definition rebased :: "u64 \<Rightarrow> ('u, 'f) session_state \<Rightarrow> ('u, 'f) session_state" where
  "rebased off s = s\<lparr>start_time := rebase_time off (start_time s), finish_time := rebase_time off (finish_time s)\<rparr>"

lemma rebased_fields [simp]:
  "start_time (rebased off s) = rebase_time off (start_time s)" "finish_time (rebased off s) = rebase_time off (finish_time s)"
  "bin_next (rebased off s) = bin_next s" "bin_prev (rebased off s) = bin_prev s" "bin_index (rebased off s) = bin_index s"
  "links (rebased off s) = links s"
  by (simp_all add: rebased_def links_def)

text \<open>\<open>rebased_on off A H\<close>: the sessions of \<open>A\<close> rebased.\<close>

definition rebased_on :: "u64 \<Rightarrow> addr set \<Rightarrow> ('u, 'f) session_heap \<Rightarrow> ('u, 'f) session_heap" where
  "rebased_on off A H = (\<lambda>a. if a \<in> A then map_option (rebased off) (H a) else H a)"

lemma rebased_on_empty: "rebased_on off {} H = H"
  by (simp add: rebased_on_def)

lemma rebased_on_links: "map_option links (rebased_on off A H a) = map_option links (H a)"
  by (cases "H a") (simp_all add: rebased_on_def)

lemma rebased_on_dll: "dll (rebased_on off A H) h xs = dll H h xs"
  by (rule dll_cong) (rule rebased_on_links)

lemma rebased_on_union: "A \<inter> B = {} \<Longrightarrow> rebased_on off A (rebased_on off B H) = rebased_on off (B \<union> A) H"
  by (auto simp: rebased_on_def fun_eq_iff)

lemma rebase_bin_eq:
  "seg H p h xs None l \<Longrightarrow> distinct xs \<Longrightarrow> rebase_bin off h H = Some (rebased_on off (set xs) H)"
proof (induction xs arbitrary: p h H)
  case Nil
  then show ?case using rebase_bin.simps [of off h H] by (simp add: rebased_on_empty)
next
  case (Cons a xs)
  then obtain s where s: "h = Some a" "H a = Some s" "seg H (Some a) (bin_next s) xs None l"
    by (auto split: option.splits)
  define H' where "H' = H(a \<mapsto> rebased off s)"
  have "seg H' (Some a) (bin_next s) xs None l = seg H (Some a) (bin_next s) xs None l"
    by (rule seg_cong) (use Cons.prems(2) in \<open>auto simp: H'_def\<close>)
  then have "rebase_bin off (bin_next s) H' = Some (rebased_on off (set xs) H')"
    using Cons.IH s(3) Cons.prems(2) by simp
  moreover have "rebase_bin off h H = rebase_bin off (bin_next s) H'"
    using rebase_bin.simps [of off h H] s by (simp add: modify_session_def rebased_def H'_def)
  moreover have "H' = rebased_on off {a} H" using s(2) by (auto simp: H'_def rebased_on_def)
  then have "rebased_on off (set xs) H' = rebased_on off (set (a # xs)) H"
    using rebased_on_union [of "set xs" "{a}"] Cons.prems(2) by simp
  ultimately show ?case by simp
qed

lemma rebase_bins_eq:
  assumes lists: "cal_lists gs L" and len: "length (bin_heads gs) = unat (num_bins gs)"
  shows "n \<le> unat (num_bins gs) \<Longrightarrow>
    foldM (\<lambda>bin H. do { head \<leftarrow> arr_get (bin_heads gs) bin; rebase_bin off head H }) [0..<n] (sessions gs) =
      Some (rebased_on off (\<Union>b < n. set (L b)) (sessions gs))"
proof (induction n)
  case 0
  then show ?case by (simp add: rebased_on_empty)
next
  case (Suc n)
  let ?H = "rebased_on off (\<Union>b < n. set (L b)) (sessions gs)"
  have "dll ?H (bin_heads gs ! n) (L n)"
    using cal_listsD(1) [OF lists, of n] Suc.prems by (simp add: rebased_on_dll)
  then obtain l where "seg ?H None (bin_heads gs ! n) (L n) None l" by (auto simp: dll_def)
  then have "rebase_bin off (bin_heads gs ! n) ?H = Some (rebased_on off (set (L n)) ?H)"
    by (rule rebase_bin_eq) (rule cal_listsD(3) [OF lists])
  moreover have "set (L n) \<inter> (\<Union>b < n. set (L b)) = {}" using cal_lists_bin [OF lists] by fastforce
  then have "rebased_on off (set (L n)) ?H = rebased_on off (\<Union>b < Suc n. set (L b)) (sessions gs)"
    by (simp add: rebased_on_union lessThan_Suc Un_commute)
  ultimately show ?case using Suc len by (simp add: foldM_append)
qed

lemma rebase_calendar:
  assumes w: "cal_wf gs L" and starts: "\<And>a. a \<in> queued gs \<Longrightarrow> start_of gs a \<noteq> UINT64_MAX"
    and gs': "gs' = gs\<lparr>virtual_time := v, min_start_time := ms, min_finish_time := mf,
        sessions := rebased_on off (queued gs) (sessions gs), entries := ce\<rparr>"
      "ms = (if min_start_time gs = UINT64_MAX then UINT64_MAX else rebase_time off (min_start_time gs))"
  shows "cal_wf gs' L"
proof -
  note wf = cal_wfD [OF w]
  let ?H = "rebased_on off (queued gs) (sessions gs)"
  have q: "a \<in> queued gs" if "a \<in> set (L b)" for a b using queued_iff [OF w] that by auto
  have cell: "\<exists>s. sessions gs a = Some s \<and> ?H a = Some (rebased off s) \<and> unat (bin_index s) = b"
    if "a \<in> set (L b)" for a b
    using cal_listsD(5) [OF wf(2) that] q [OF that] by (auto simp: rebased_on_def)
  have "cal_shape gs'" using wf(1) by (simp add: gs'(1) cal_shape_def)
  moreover have "cal_bits gs' L" using wf(3) by (simp add: gs'(1) cal_bits_def)
  moreover have "cal_lists gs' L"
    unfolding cal_lists_def
  proof (intro allI conjI ballI)
    fix b
    show "if b < unat (num_bins gs') then dll (sessions gs') (bin_heads gs' ! b) (L b) else L b = []"
      using cal_listsD(1,2) [OF wf(2), of b] by (auto simp: gs'(1) rebased_on_dll)
    show "distinct (L b)" by (rule cal_listsD(3) [OF wf(2)])
    have eq: "map (finish_of gs') (L b) = map (\<lambda>a. rebase_time off (finish_of gs a)) (L b)"
      by (rule map_cong [OF refl]) (use cell in \<open>force simp: gs'(1)\<close>)
    show "sorted (map (finish_of gs') (L b))"
      unfolding eq using cal_listsD(4) [OF wf(2), of b] rebase_time_mono by (auto simp: sorted_iff_nth_mono)
    show "\<exists>s. sessions gs' a = Some s \<and> unat (bin_index s) = b" if "a \<in> set (L b)" for a
      using cell [OF that] by (auto simp: gs'(1))
  qed
  moreover have "cal_mins gs' L"
    unfolding cal_mins_def
  proof (intro conjI allI impI ballI)
    have st: "start_of gs' a = rebase_time off (start_of gs a)" if "a \<in> set (L b)" for a b
      using cell [OF that] by (auto simp: gs'(1))
    have ms: "min_start_time gs' = ms" "min_session gs' = min_session gs" by (simp_all add: gs'(1))
    have lo: "min_start_time gs \<le> start_of gs a" if "a \<in> set (L b)" for a b
      using wf(4) that by (auto simp: cal_mins_def)
    show "min_start_time gs' \<le> start_of gs' a" if a: "a \<in> set (L b)" for a b
    proof -
      have "min_start_time gs \<noteq> UINT64_MAX" using lo [OF a] starts [OF q [OF a]] by auto
      then show ?thesis using rebase_time_mono [OF lo [OF a]] st [OF a] by (simp add: ms(1) gs'(2))
    qed
    show "min_start_time gs' = UINT64_MAX \<or> (\<exists>b. \<exists>a \<in> set (L b). start_of gs' a = min_start_time gs')"
    proof (cases "min_start_time gs = UINT64_MAX")
      case True
      then show ?thesis by (simp add: ms(1) gs'(2))
    next
      case False
      then obtain b a where a: "a \<in> set (L b)" "start_of gs a = min_start_time gs"
        using wf(4) by (auto simp: cal_mins_def)
      then have "start_of gs' a = min_start_time gs'" using st [OF a(1)] False by (simp add: ms(1) gs'(2))
      then show ?thesis using a(1) by blast
    qed
    show "\<exists>b. a \<in> set (L b)" if "min_session gs' = Some a" for a
      using wf(4) that by (simp add: cal_mins_def ms(2))
  qed
  ultimately show ?thesis by (simp add: cal_wf_def)
qed
text \<open>How much a level is set back, and what becomes of a session.\<close>

definition rebase_offset :: "('u, 'f) group_scheduler \<Rightarrow> u64" where
  "rebase_offset gs = (if virtual_time gs < HWFQ_REBASE_THRESHOLD then 0 else virtual_time gs div 2)"

definition rebase_info :: "u64 \<Rightarrow> u32 \<times> 'u option \<times> u64 \<times> 'f option \<times> u64 \<times> u64 \<Rightarrow>
    u32 \<times> 'u option \<times> u64 \<times> 'f option \<times> u64 \<times> u64" where
  "rebase_info off = (\<lambda>(i, d, w, f, s, t). (i, d, w, f, rebase_time off s, rebase_time off t))"

lemma rebase_time_0 [simp]: "rebase_time 0 t = t"
  by (simp add: rebase_time_def)

lemma rebase_info_0 [simp]: "rebase_info 0 = id"
  by (auto simp: rebase_info_def)

lemma rebase_run:
  fixes gs :: "('u, 'f) group_scheduler"
  assumes inv: "gs_inv gs" and V: "\<not> virtual_time gs < HWFQ_REBASE_THRESHOLD"
  obtains mf ms ce where
    "group_scheduler_rebase_if_needed gs = Some (gs\<lparr>virtual_time := virtual_time gs - rebase_offset gs,
        min_start_time := ms, min_finish_time := mf,
        sessions := rebased_on (rebase_offset gs) (queued gs) (sessions gs), entries := ce\<rparr>)"
    "ms = (if min_start_time gs = UINT64_MAX then UINT64_MAX else rebase_time (rebase_offset gs) (min_start_time gs))"
    "writes (entries gs) ce"
    "\<forall>i. slot_of ce (unat i) = (if i \<in> conf_ids (entries gs)
       then map_option (\<lambda>e. e\<lparr>last_finish_time := rebase_time (rebase_offset gs) (last_finish_time e)\<rparr>)
         (slot_of (entries gs) (unat i))
       else slot_of (entries gs) (unat i))"
proof -
  note gi = gs_invD [OF inv]
  obtain L where w: "cal_wf gs L" using gi(1) by (auto simp: cal_inv_def)
  note wf = cal_wfD [OF w]
  let ?off = "virtual_time gs div 2"
  let ?f = "\<lambda>e. e\<lparr>last_finish_time := rebase_time ?off (last_finish_time e)\<rparr>"
  have off: "rebase_offset gs = ?off" using V by (simp add: rebase_offset_def)
  define ms where "ms = (if min_start_time gs = UINT64_MAX then UINT64_MAX else rebase_time ?off (min_start_time gs))"
  define mf where "mf = (if min_finish_time gs = UINT64_MAX then UINT64_MAX else rebase_time ?off (min_finish_time gs))"
  obtain cl where cl: "conf_chain (entries gs) (configured_entries_head gs) cl" "distinct cl"
      "set cl = conf_ids (entries gs)" "set cl \<subseteq> live_ids (entries gs)"
    by (rule entries_chainE [OF gi(3)])
  obtain ce where ce: "map_configured ?f (configured_entries_head gs) (entries gs) = Some ce" "writes (entries gs) ce"
      "\<And>i. slot_of ce (unat i) = (if i \<in> set cl then map_option ?f (slot_of (entries gs) (unat i)) else slot_of (entries gs) (unat i))"
    using map_configured_ok [of ?f, OF _ entries_invD(1) [OF gi(3)] cl(1,2,4)] by auto
  have "b < unat (num_bins gs)" if "a \<in> set (L b)" for a b
    using cal_listsD(2) [OF wf(2), of b] that by (cases "L b") auto
  then have q: "(\<Union>b < unat (num_bins gs). set (L b)) = queued gs"
    unfolding queued_eq [OF w] by auto
  note bins = rebase_bins_eq [OF wf(2) cal_shapeD(1) [OF wf(1)] order.refl, of ?off, unfolded q]
  have run: "group_scheduler_rebase_if_needed gs = Some (gs\<lparr>virtual_time := virtual_time gs - ?off,
        min_start_time := ms, min_finish_time := mf,
        sessions := rebased_on ?off (queued gs) (sessions gs), entries := ce\<rparr>)"
    by (cases "min_start_time gs = UINT64_MAX"; cases "min_finish_time gs = UINT64_MAX")
      (simp_all add: group_scheduler_rebase_if_needed_def V Let_def bins ce(1) ms_def mf_def)
  from that [OF run [folded off] ms_def [folded off] ce(2) allI [OF ce(3) [unfolded cl(3), folded off]]] show ?thesis .
qed

lemma rebase_ok:
  fixes gs :: "('u, 'f) group_scheduler"
  assumes inv: "gs_inv gs" and starts: "\<And>a. a \<in> queued gs \<Longrightarrow> start_of gs a \<noteq> UINT64_MAX"
  obtains gs' where "group_scheduler_rebase_if_needed gs = Some gs'" "gs_inv gs'" "queued gs' = queued gs"
    "virtual_time gs' = rebase_time (rebase_offset gs) (virtual_time gs)"
    "\<And>a. session_info gs' a = (if a \<in> queued gs then map_option (rebase_info (rebase_offset gs)) (session_info gs a)
       else session_info gs a)"
    "active_session_count gs' = active_session_count gs" "level_config gs' = level_config gs" "shares gs' = shares gs"
    "writes (entries gs) (entries gs')"
    "\<And>i. slot_of (entries gs') (unat i) = (if i \<in> conf_ids (entries gs)
       then map_option (\<lambda>e. e\<lparr>last_finish_time := rebase_time (rebase_offset gs) (last_finish_time e)\<rparr>)
         (slot_of (entries gs) (unat i))
       else slot_of (entries gs) (unat i))"
proof (cases "virtual_time gs < HWFQ_REBASE_THRESHOLD")
  case True
  have off: "rebase_offset gs = 0" using True by (simp add: rebase_offset_def)
  have run: "group_scheduler_rebase_if_needed gs = Some gs" by (simp add: group_scheduler_rebase_if_needed_def True)
  have slots: "slot_of (entries gs) (unat (i :: u32)) = (if i \<in> conf_ids (entries gs)
       then map_option (\<lambda>e. e\<lparr>last_finish_time := rebase_time (rebase_offset gs) (last_finish_time e)\<rparr>)
         (slot_of (entries gs) (unat i))
       else slot_of (entries gs) (unat i))" for i
    by (cases "slot_of (entries gs) (unat i)") (simp_all add: off)
  have info: "session_info gs a = (if a \<in> queued gs then map_option (rebase_info (rebase_offset gs)) (session_info gs a)
       else session_info gs a)" for a by (simp add: off option.map_id)
  have vt: "virtual_time gs = rebase_time (rebase_offset gs) (virtual_time gs)" by (simp add: off)
  from that [OF run inv refl vt info refl refl refl writes_refl [OF entries_invD(1) [OF gs_invD(3) [OF inv]]] slots]
  show ?thesis .
next
  case False
  let ?off = "rebase_offset gs"
  note gi = gs_invD [OF inv]
  obtain L where w: "cal_wf gs L" using gi(1) by (auto simp: cal_inv_def)
  obtain mf ms ce where r:
    "group_scheduler_rebase_if_needed gs = Some (gs\<lparr>virtual_time := virtual_time gs - ?off,
        min_start_time := ms, min_finish_time := mf,
        sessions := rebased_on ?off (queued gs) (sessions gs), entries := ce\<rparr>)"
    "ms = (if min_start_time gs = UINT64_MAX then UINT64_MAX else rebase_time ?off (min_start_time gs))"
    "writes (entries gs) ce"
    "\<forall>i. slot_of ce (unat i) = (if i \<in> conf_ids (entries gs)
       then map_option (\<lambda>e. e\<lparr>last_finish_time := rebase_time ?off (last_finish_time e)\<rparr>)
         (slot_of (entries gs) (unat i))
       else slot_of (entries gs) (unat i))" by (rule rebase_run [OF inv False])
  define gs' where "gs' = gs\<lparr>virtual_time := virtual_time gs - ?off, min_start_time := ms, min_finish_time := mf,
        sessions := rebased_on ?off (queued gs) (sessions gs), entries := ce\<rparr>"
  have w': "cal_wf gs' L" by (rule rebase_calendar [OF w starts gs'_def r(2)])
  have q: "queued gs' = queued gs" using queued_eq [OF w'] queued_eq [OF w] by simp
  have wr: "writes (entries gs) (entries gs')" using r(3) by (simp add: gs'_def)
  have slots: "slot_of (entries gs') (unat i) = (if i \<in> conf_ids (entries gs)
       then map_option (\<lambda>e. e\<lparr>last_finish_time := rebase_time ?off (last_finish_time e)\<rparr>)
         (slot_of (entries gs) (unat i))
       else slot_of (entries gs) (unat i))" for i using r(4) by (simp add: gs'_def)
  have keep: "configured_entries_head gs' = configured_entries_head gs"
      "allocated_rate_capacity gs' = allocated_rate_capacity gs" "total_weight gs' = total_weight gs"
      "active_session_count gs' = active_session_count gs" "level_config gs' = level_config gs"
      "cal_config gs' = cal_config gs"
    by (simp_all add: gs'_def level_config_def cal_config_def)
  have "\<exists>e'. slot_of (entries gs') (unat j) = Some e' \<and> same_shares e' e"
    if "slot_of (entries gs) (unat j) = Some e" for j :: u32 and e
    using that slots [of j] same_shares_finish [of _ e] same_shares_refl [of e]
    by (cases "j \<in> conf_ids (entries gs)") auto
  note ent = same_slot_shares [OF gi(3) wr this keep(1-3)]
  have info: "session_info gs' a = (if a \<in> queued gs then map_option (rebase_info ?off) (session_info gs a)
       else session_info gs a)" for a
    by (cases "sessions gs a") (simp_all add: session_info_def gs'_def rebased_on_def rebase_info_def rebased_def)
  have times: "start_of gs' a \<le> finish_of gs' a" if a: "a \<in> queued gs" for a
  proof -
    obtain s where s: "sessions gs a = Some s" by (rule queued_session [OF gi(1) a])
    then show ?thesis
      using rebase_time_mono [OF gi(6) [OF a], of ?off] a by (simp add: gs'_def rebased_on_def)
  qed
  have "cal_inv gs'" using w' by (auto simp: cal_inv_def)
  then have inv': "gs_inv gs'" using ent(1) times gi(2,4,5) by (simp add: gs_inv_def q keep)
  have "?off \<le> virtual_time gs" by (simp add: rebase_offset_def word_le_nat_alt unat_div)
  then have vt: "virtual_time gs' = rebase_time ?off (virtual_time gs)" by (simp add: gs'_def rebase_time_def)
  from that [OF r(1) [folded gs'_def] inv' q vt info keep(4,5) ent(2) wr slots] show ?thesis .
qed

section \<open>Virtual time\<close>

text \<open>The virtual time an update arrives at before a rebase.\<close>

definition advanced_time :: "u64 \<Rightarrow> ('u, 'f) group_scheduler \<Rightarrow> u64" where
  "advanced_time work gs =
     (let scaled = push_bit 20 work;
          delta = (if 0 < total_capacity gs
            then let d = scaled div total_capacity gs in if d = 0 then 1 else d
            else scaled);
          normal = (if UINT64_MAX - delta < virtual_time gs then UINT64_MAX else virtual_time gs + delta)
      in max normal (min_start_time gs))"

lemma saturating_add_nat:
  "unat (if UINT64_MAX - d < v then UINT64_MAX else v + d) = min (2 ^ 64 - 1) (unat v + unat d)"
proof (cases "UINT64_MAX - d < v")
  case True
  then have "2 ^ 64 - 1 - unat d < unat v" by (simp add: word_less_nat_alt unat_sub unat_max_word)
  then show ?thesis using True unat_lt_2p [of d] by (simp add: unat_max_word)
next
  case False
  then have "unat v \<le> 2 ^ 64 - 1 - unat d" by (simp add: word_less_nat_alt unat_sub unat_max_word)
  then show ?thesis using False unat_lt_2p [of d] by (simp add: unat_add_no_wrap)
qed

lemma unat_max_of: "unat (max a b) = max (unat a) (unat (b :: 'a::len word))"
  by (simp add: max_def word_le_nat_alt)

lemma advanced_time_nat:
  assumes "total_capacity gs \<noteq> 0" "unat work < 2 ^ 44"
  shows "unat (advanced_time work gs) =
    max (min (2 ^ 64 - 1) (unat (virtual_time gs) + max 1 (unat work * 2 ^ 20 div unat (total_capacity gs))))
      (unat (min_start_time gs))"
proof -
  have s: "unat (push_bit 20 work) = unat work * 2 ^ 20"
    using assms(2) unat_mult_no_wrap [of work 1048576] by (simp add: push_bit_eq_mult)
  define d where "d = push_bit 20 work div total_capacity gs"
  define delta where "delta = (if d = 0 then 1 else d)"
  have "unat d = unat work * 2 ^ 20 div unat (total_capacity gs)" by (simp only: d_def unat_div s)
  moreover have "unat delta = max 1 (unat d)" by (simp add: delta_def max_def Suc_le_eq unat_gt_0)
  moreover have "0 < total_capacity gs" using assms(1) by (simp add: word_less_nat_alt unat_gt_0)
  then have "advanced_time work gs =
      max (if UINT64_MAX - delta < virtual_time gs then UINT64_MAX else virtual_time gs + delta) (min_start_time gs)"
    unfolding advanced_time_def Let_def delta_def d_def by simp
  ultimately show ?thesis by (simp only: unat_max_of saturating_add_nat)
qed

lemma update_virtual_time_run:
  "group_scheduler_update_virtual_time work gs =
     group_scheduler_rebase_if_needed (gs\<lparr>virtual_time := advanced_time work gs\<rparr>)"
proof -
  have "(if m < n then n else m) = max n m" for n m :: u64 by (auto simp: max_def)
  then show ?thesis
    unfolding group_scheduler_update_virtual_time_def advanced_time_def Let_def by simp
qed

lemma gs_inv_virtual_time [simp]: "gs_inv (gs\<lparr>virtual_time := v\<rparr>) = gs_inv gs"
  using same_entriesD(1) [of "gs\<lparr>virtual_time := v\<rparr>" gs] by (simp add: gs_inv_def same_entries_def)

lemma update_ok:
  fixes gs :: "('u, 'f) group_scheduler"
  assumes inv: "gs_inv gs" and starts: "\<And>a. a \<in> queued gs \<Longrightarrow> start_of gs a \<noteq> UINT64_MAX"
    and off: "off = (if advanced_time work gs < HWFQ_REBASE_THRESHOLD then 0 else advanced_time work gs div 2)"
  obtains gs' where "group_scheduler_update_virtual_time work gs = Some gs'" "gs_inv gs'" "queued gs' = queued gs"
    "virtual_time gs' = rebase_time off (advanced_time work gs)"
    "\<And>a. session_info gs' a = (if a \<in> queued gs then map_option (rebase_info off) (session_info gs a)
       else session_info gs a)"
    "active_session_count gs' = active_session_count gs" "level_config gs' = level_config gs" "shares gs' = shares gs"
    "writes (entries gs) (entries gs')"
    "\<And>i. slot_of (entries gs') (unat i) = (if i \<in> conf_ids (entries gs)
       then map_option (\<lambda>e. e\<lparr>last_finish_time := rebase_time off (last_finish_time e)\<rparr>)
         (slot_of (entries gs) (unat i))
       else slot_of (entries gs) (unat i))"
proof (rule rebase_ok [of "gs\<lparr>virtual_time := advanced_time work gs\<rparr>"])
  let ?g = "gs\<lparr>virtual_time := advanced_time work gs\<rparr>"
  have off': "rebase_offset ?g = off" by (simp add: rebase_offset_def off)
  have info: "session_info ?g a = session_info gs a" for a by (simp add: session_info_def)
  have sh: "shares ?g = shares gs" by (simp add: shares_def fun_eq_iff)
  show "gs_inv ?g" using inv by simp
  show "start_of ?g a \<noteq> UINT64_MAX" if "a \<in> queued ?g" for a using starts that by simp
  fix gs'
  assume r: "group_scheduler_rebase_if_needed ?g = Some gs'" "gs_inv gs'" "queued gs' = queued ?g"
    "virtual_time gs' = rebase_time (rebase_offset ?g) (virtual_time ?g)"
    "\<And>a. session_info gs' a = (if a \<in> queued ?g then map_option (rebase_info (rebase_offset ?g)) (session_info ?g a)
       else session_info ?g a)"
    "active_session_count gs' = active_session_count ?g" "level_config gs' = level_config ?g" "shares gs' = shares ?g"
    "writes (entries ?g) (entries gs')"
    "\<And>i. slot_of (entries gs') (unat i) = (if i \<in> conf_ids (entries ?g)
       then map_option (\<lambda>e. e\<lparr>last_finish_time := rebase_time (rebase_offset ?g) (last_finish_time e)\<rparr>)
         (slot_of (entries ?g) (unat i))
       else slot_of (entries ?g) (unat i))"
  have run: "group_scheduler_update_virtual_time work gs = Some gs'" using r(1) by (simp add: update_virtual_time_run)
  have r': "queued gs' = queued gs" "virtual_time gs' = rebase_time off (advanced_time work gs)"
    "active_session_count gs' = active_session_count gs" "level_config gs' = level_config gs"
    "writes (entries gs) (entries gs')"
    using r(3,4,6,7,9) by (simp_all add: off' level_config_def)
  from that [OF run r(2) r'(1,2) r(5) [unfolded info off' queued_update] r'(3,4) r(8) [unfolded sh] r'(5)]
  show thesis using r(10) by (simp add: off')
qed

section \<open>Creation and destruction\<close>

lemma init_ok:
  assumes "groups \<noteq> 0" "bins \<noteq> 0" "ids \<noteq> 0" "unat groups * unat bins \<le> 32768"
    and ce: "ce_inv ce" "conf_ids ce = {}"
  obtains gs :: "('u, 'f) group_scheduler" where
    "group_scheduler_init_with_entries (True, True, True) groups bins capacity ids ce = Some gs"
    "gs_inv gs" "queued gs = {}" "sessions gs = Map.empty" "shares gs = Map.empty" "entries gs = ce"
    "virtual_time gs = 0" "active_session_count gs = 0"
    "level_config gs = (ids, capacity, groups, bins, 0, 0, None)"
proof -
  have n: "unat (groups * bins) = unat groups * unat bins" using assms(4) by (simp add: unat_mult_no_wrap)
  have n0: "0 < unat (groups * bins)" using assms(1,2) by (simp add: n unat_gt_0)
  have w: "unat ((groups * bins + 31) div 32) = (unat (groups * bins) + 31) div 32"
    using assms(4) by (simp add: unat_div unat_add_no_wrap n)
  define gs :: "('u, 'f) group_scheduler" where
    "gs = \<lparr>bin_bitfield = replicate (unat ((groups * bins + 31) div 32)) 0,
          bin_heads = replicate (unat (groups * bins)) None,
          group_bitfield = replicate 32 0, entries = ce, gs_max_entries = ids,
          configured_entries_head = None, allocated_rate_capacity = 0, total_weight = 0,
          num_groups = groups, bins_per_group = bins, num_bins = groups * bins,
          bin_bitfield_size = (groups * bins + 31) div 32,
          base_interval = 1, total_capacity = capacity, virtual_time = 0, active_session_count = 0,
          min_finish_time = UINT64_MAX, min_start_time = UINT64_MAX, min_session = None,
          sessions = (\<lambda>_. None)\<rparr>"
  have f: "bin_bitfield gs = replicate (unat ((groups * bins + 31) div 32)) 0"
    "bin_heads gs = replicate (unat (groups * bins)) None" "group_bitfield gs = replicate 32 0"
    "entries gs = ce" "configured_entries_head gs = None" "allocated_rate_capacity gs = 0" "total_weight gs = 0"
    "num_groups gs = groups" "bins_per_group gs = bins" "num_bins gs = groups * bins"
    "bin_bitfield_size gs = (groups * bins + 31) div 32" "base_interval gs = 1" "min_start_time gs = UINT64_MAX"
    "min_session gs = None" "active_session_count gs = 0" "virtual_time gs = 0" "sessions gs = Map.empty"
    "gs_max_entries gs = ids" "total_capacity gs = capacity"
    by (simp_all only: gs_def group_scheduler.select_convs)
  have "group_scheduler_init_common (True, True, True) groups bins capacity ids ce = Some gs"
    using assms(1-3) n0 w unfolding gs_def
    by (simp add: group_scheduler_init_common_def Let_def hwfq_alloc_def)
  moreover have "gs\<lparr>entries := ce\<rparr> = gs" by (simp add: gs_def)
  ultimately have run: "group_scheduler_init_with_entries (True, True, True) groups bins capacity ids ce = Some gs"
    by (simp add: group_scheduler_init_with_entries_def)
  have shape: "cal_shape gs"
    unfolding cal_shape_def f length_replicate using w n assms(4) by simp
  note cal = empty_calendar_inv [OF shape f(1,3,2,13,14)]
  have ent: "entries_inv gs" "shares gs = Map.empty" using entries_inv_empty [of gs] ce f(4-7) by simp_all
  have "cal_config gs" unfolding cal_config_def f using assms(2) n by simp
  then have "gs_inv gs" using cal ent(1) f(15) by (simp add: gs_inv_def)
  moreover have "level_config gs = (ids, capacity, groups, bins, 0, 0, None)" unfolding level_config_def f ..
  ultimately show ?thesis using that run cal(2) f(17) ent(2) f(4,16,15) by metis
qed

text \<open>The cleanup calls for the sessions in a list.\<close>

definition cleanup_calls :: "('u, 'f) group_scheduler \<Rightarrow> addr list \<Rightarrow> ('f \<times> 'u option) list" where
  "cleanup_calls gs xs = concat (map (\<lambda>a. case sessions gs a of
     Some s \<Rightarrow> (case cleanup_fn s of None \<Rightarrow> [] | Some f \<Rightarrow> [(f, user_data s)]) | None \<Rightarrow> []) xs)"

definition without :: "addr set \<Rightarrow> ('u, 'f) session_heap \<Rightarrow> ('u, 'f) session_heap" where
  "without A H = (\<lambda>a. if a \<in> A then None else H a)"

lemma without_simps: "without {} H = H" "without A (without B H) = without (B \<union> A) H"
  by (auto simp: without_def fun_eq_iff)

lemma destroy_bin_eq:
  "seg H p h xs None l \<Longrightarrow> distinct xs \<Longrightarrow> (\<And>a. a \<in> set xs \<Longrightarrow> map_option unlinked (H a) = map_option unlinked (sessions gs a)) \<Longrightarrow>
   destroy_bin H h calls = Some (calls @ cleanup_calls gs xs, without (set xs) H)"
proof (induction xs arbitrary: p h H calls)
  case Nil
  then show ?case using destroy_bin.simps [of H h calls] by (simp add: without_simps cleanup_calls_def)
next
  case (Cons a xs)
  then obtain s where s: "h = Some a" "H a = Some s" "seg H (Some a) (bin_next s) xs None l"
    by (auto split: option.splits)
  obtain s0 where s0: "sessions gs a = Some s0" "unlinked s = unlinked s0"
    using Cons.prems(3) [of a] s(2) by (cases "sessions gs a") auto
  define calls' where "calls' = (case cleanup_fn s of None \<Rightarrow> calls | Some f \<Rightarrow> calls @ [(f, user_data s)])"
  have "calls' @ cleanup_calls gs xs = calls @ cleanup_calls gs (a # xs)"
    using unlinked_fields [OF s0(2)]
    by (simp add: calls'_def cleanup_calls_def s0(1) split: option.split)
  moreover define H' where "H' = without {a} H"
  have "seg H' (Some a) (bin_next s) xs None l = seg H (Some a) (bin_next s) xs None l"
    by (rule seg_cong) (use Cons.prems(2) in \<open>auto simp: H'_def without_def\<close>)
  then have "seg H' (Some a) (bin_next s) xs None l" using s(3) by simp
  moreover have "map_option unlinked (H' b) = map_option unlinked (sessions gs b)" if "b \<in> set xs" for b
    using Cons.prems(2,3) that by (auto simp: H'_def without_def)
  ultimately have "destroy_bin H' (bin_next s) calls' = Some (calls @ cleanup_calls gs (a # xs), without (set xs) H')"
    using Cons.IH [of H' "Some a" "bin_next s" calls'] Cons.prems(2) by simp
  moreover have "destroy_bin H h calls = destroy_bin H' (bin_next s) calls'"
    using destroy_bin.simps [of H h calls] s by (simp add: hwfq_free_def calls'_def H'_def without_def fun_upd_def)
  moreover have "without (set xs) H' = without (set (a # xs)) H" by (simp add: H'_def without_simps)
  ultimately show ?case by simp
qed

lemma destroy_ok:
  fixes gs :: "('u, 'f) group_scheduler"
  assumes inv: "cal_inv gs" "cal_config gs"
  obtains xs where "distinct xs" "set xs = queued gs"
    "group_scheduler_destroy gs = Some (cleanup_calls gs xs, without (queued gs) (sessions gs))"
proof -
  obtain L where w: "cal_wf gs L" using inv(1) by (auto simp: cal_inv_def)
  note wf = cal_wfD [OF w]
  have len: "length (bin_heads gs) = unat (num_bins gs)" by (rule cal_shapeD(1) [OF wf(1)])
  have n: "unat (num_groups gs * bins_per_group gs) = unat (num_bins gs)"
    using inv(2) cal_shapeD(2) [OF wf(1)] by (simp add: cal_config_def unat_mult_no_wrap)
  define ys where "ys n = concat (map L [0..<n])" for n
  have step: "foldM (\<lambda>i (calls, H). do { head \<leftarrow> arr_get (bin_heads gs) i; destroy_bin H head calls })
      [0..<n] ([], sessions gs) = Some (cleanup_calls gs (ys n), without (set (ys n)) (sessions gs)) \<and> distinct (ys n)"
    if "n \<le> unat (num_bins gs)" for n
    using that
  proof (induction n)
    case 0
    then show ?case by (simp add: ys_def cleanup_calls_def without_simps)
  next
    case (Suc n)
    let ?H = "without (set (ys n)) (sessions gs)"
    have disj: "set (L n) \<inter> set (ys n) = {}" using cal_lists_bin [OF wf(2)] by (fastforce simp: ys_def)
    have "dll ?H (bin_heads gs ! n) (L n) = dll (sessions gs) (bin_heads gs ! n) (L n)"
      by (rule dll_cong) (use disj in \<open>auto simp: without_def\<close>)
    then obtain l where seg: "seg ?H None (bin_heads gs ! n) (L n) None l"
      using cal_listsD(1) [OF wf(2), of n] Suc.prems by (auto simp: dll_def)
    have "destroy_bin ?H (bin_heads gs ! n) (cleanup_calls gs (ys n)) =
        Some (cleanup_calls gs (ys n) @ cleanup_calls gs (L n), without (set (L n)) ?H)"
      by (rule destroy_bin_eq [OF seg cal_listsD(3) [OF wf(2)]]) (use disj in \<open>auto simp: without_def\<close>)
    moreover have "ys (Suc n) = ys n @ L n" by (simp add: ys_def)
    ultimately show ?case
      using Suc len disj cal_listsD(3) [OF wf(2), of n]
      by (simp add: foldM_append cleanup_calls_def without_simps Int_commute)
  qed
  define xs where "xs = ys (unat (num_bins gs))"
  have "b < unat (num_bins gs)" if "a \<in> set (L b)" for a b
    using cal_listsD(2) [OF wf(2), of b] that by (cases "L b") auto
  then have "(\<Union>b. set (L b)) = (\<Union>b < unat (num_bins gs). set (L b))" by auto
  then have "set xs = queued gs" unfolding queued_eq [OF w] by (simp add: xs_def ys_def atLeast0LessThan)
  moreover have "group_scheduler_destroy gs = Some (cleanup_calls gs xs, without (set xs) (sessions gs))"
    using step [OF order.refl] by (simp add: group_scheduler_destroy_def Let_def n xs_def)
  ultimately show ?thesis using that [of xs] step [OF order.refl] by (simp add: xs_def)
qed

section \<open>Configuring a level with queued work\<close>

lemma config_frame_cal:
  assumes "config_frame gs' gs"
  shows "cal_inv gs' = cal_inv gs" "queued gs' = queued gs" "cal_config gs' = cal_config gs"
    "session_info gs' a = session_info gs a"
proof -
  note f = config_frameD [OF assms]
  have "cal_wf gs' L = cal_wf gs L" for L
    by (simp add: cal_wf_def cal_shape_def cal_lists_def cal_bits_def cal_mins_def f)
  then show "cal_inv gs' = cal_inv gs" by (simp add: cal_inv_def)
  show "queued gs' = queued gs" by (simp add: queued_def f)
  show "cal_config gs' = cal_config gs" by (simp add: cal_config_def f)
  show "session_info gs' a = session_info gs a" by (simp add: session_info_def f)
qed

lemma gs_inv_config:
  assumes inv: "gs_inv gs" and frame: "config_frame gs' gs" and ent: "entries_inv gs'"
  shows "gs_inv gs'"
proof -
  note gi = gs_invD [OF inv]
  have "start_of gs' a \<le> finish_of gs' a" if "a \<in> queued gs" for a
    using gi(6) [OF that] by (simp add: config_frameD(16) [OF frame])
  then show ?thesis
    using gi ent by (simp add: gs_inv_def config_frame_cal [OF frame] config_frameD(12) [OF frame])
qed

section \<open>Properties\<close>

lemma gs_two_level: "gs_inv gs_two" "queued gs_two = {}" "active_session_count gs_two = 0"
  "sessions gs_two = Map.empty" "virtual_time gs_two = 0" "num_groups gs_two = 16"
proof -
  have fz: "gs_zero = cal_zero\<lparr>sessions := Map.empty, active_session_count := 0, entries := two_entries\<rparr>"
    by (simp add: gs_zero_def)
  have z: "cal_inv gs_zero" "queued gs_zero = {}" "cal_config gs_zero"
    using queued_heap [OF cal_zero_inv(1), of Map.empty] cal_zero_inv(2,3) by (simp_all add: fz)
  have "gs_inv gs_zero"
    using z gs_zero_inv(1) by (simp add: gs_inv_def) (simp add: gs_zero_def)
  then show "gs_inv gs_two" by (rule gs_inv_config [OF _ gs_two_inv(7,2)])
  show "queued gs_two = {}" using config_frame_cal(2) [OF gs_two_inv(7)] z(2) by simp
  show "active_session_count gs_two = 0" "sessions gs_two = Map.empty" "virtual_time gs_two = 0" "num_groups gs_two = 16"
    using config_frameD(12,16,11,5) [OF gs_two_inv(7)] by (simp_all add: gs_zero_def cal_zero_def)
qed

text \<open>
  C35. With fresh memory and a counter of sessions that is not full, enqueuing work never reads or writes outside the level and keeps its invariant.  It is refused,
  with the code \<open>enqueue_error\<close> names and without any change, or it queues one more session, with
  the start time \<open>max(V, last finish)\<close> and the start time plus the service interval as finish time,
  saturating at 64 bits; the sessions that were queued keep their data and their times.
\<close>

theorem enqueue_correct:
  assumes "gs_inv gs" "fresh_in gs mem" "active_session_count gs \<noteq> UINT32_MAX"
  shows "\<exists>ret gs'. group_scheduler_enqueue mem ts i work data cleanup gs = Some (ret, gs') \<and> gs_inv gs' \<and>
    (case ret of
       Inl err \<Rightarrow> enqueue_error mem i work gs = Some err \<and> gs' = gs
     | Inr a \<Rightarrow> enqueue_error mem i work gs = None \<and> mem = Some a \<and> a \<notin> queued gs \<and>
         queued gs' = insert a (queued gs) \<and>
         (\<exists>st fin. session_info gs' a = Some (i, data, work, cleanup, st, fin) \<and>
           unat st = max (unat (virtual_time gs)) (unat (last_finish_time (entry_at (entries gs) i))) \<and>
           unat fin = min (2 ^ 64 - 1) (unat st + max 1
             (min (2 ^ 64 - 1) (unat work * 2 ^ 20) div unat (session_rate gs (entry_at (entries gs) i)))) \<and>
           last_finish_time (entry_at (entries gs') i) = fin) \<and>
         (\<forall>c. c \<noteq> a \<longrightarrow> session_info gs' c = session_info gs c) \<and> shares gs' = shares gs)"
proof (cases rule: enqueue_cases [OF assms, where i = i and work = work and ts = ts and data = data and cleanup = cleanup, case_names refused ok])
    case (refused err)
    then show ?thesis using assms(1) by simp
  next
    case (ok a gs')
    have rate: "session_rate gs (entry_at (entries gs) i) \<noteq> 0" and "shares gs i \<noteq> None"
      using ok(1) by (auto simp: enqueue_error_def split: if_splits)
    then obtain e where e: "slot_of (entries gs) (unat i) = Some e" by (auto simp: shares_def split: option.splits)
    have body: "\<exists>st fin. session_info gs' a = Some (i, data, work, cleanup, st, fin) \<and>
           unat st = max (unat (virtual_time gs)) (unat (last_finish_time (entry_at (entries gs) i))) \<and>
           unat fin = min (2 ^ 64 - 1) (unat st + max 1
             (min (2 ^ 64 - 1) (unat work * 2 ^ 20) div unat (session_rate gs (entry_at (entries gs) i)))) \<and>
           last_finish_time (entry_at (entries gs') i) = fin"
  proof (intro exI conjI)
    show "session_info gs' a = Some (i, data, work, cleanup, session_start gs i, session_finish gs i work)" by (rule ok(7))
    show "unat (session_start gs i) = max (unat (virtual_time gs)) (unat (last_finish_time (entry_at (entries gs) i)))"
      by (simp add: session_start_def unat_max_of)
    show "unat (session_finish gs i work) = min (2 ^ 64 - 1) (unat (session_start gs i) + max 1
        (min (2 ^ 64 - 1) (unat work * 2 ^ 20) div unat (session_rate gs (entry_at (entries gs) i))))"
      unfolding session_finish_nat by (simp only: session_interval_def service_interval_nat [OF rate])
    show "last_finish_time (entry_at (entries gs') i) = session_finish gs i work"
      using ok(14) [of i] e by (simp add: entry_at_def)
  qed
  have others: "\<forall>c. c \<noteq> a \<longrightarrow> session_info gs' c = session_info gs c" using ok(8) by simp
  show ?thesis
    by (intro exI [of _ "Inr a"] exI [of _ gs'] conjI ok(3,4), unfold sum.case)
      (intro conjI ok(1,2,5,6,12) body others)
qed

theorem enqueue_correct_witness:
  "\<exists>ret gs'. group_scheduler_enqueue (Some 7) (1, 2) 0 4096 (Some ()) None gs_two = Some (ret, gs') \<and> gs_inv gs' \<and>
    (case ret of
       Inl err \<Rightarrow> enqueue_error (Some 7) 0 4096 gs_two = Some err \<and> gs' = gs_two
     | Inr a \<Rightarrow> enqueue_error (Some 7) 0 4096 gs_two = None \<and> Some 7 = Some a \<and> a \<notin> queued gs_two \<and>
         queued gs' = insert a (queued gs_two) \<and>
         (\<exists>st fin. session_info gs' a = Some (0, Some (), 4096, None, st, fin) \<and>
           unat st = max (unat (virtual_time gs_two)) (unat (last_finish_time (entry_at (entries gs_two) 0))) \<and>
           unat fin = min (2 ^ 64 - 1) (unat st + max 1
             (min (2 ^ 64 - 1) (unat (4096 :: u64) * 2 ^ 20) div unat (session_rate gs_two (entry_at (entries gs_two) 0)))) \<and>
           last_finish_time (entry_at (entries gs') 0) = fin) \<and>
         (\<forall>c. c \<noteq> a \<longrightarrow> session_info gs' c = session_info gs_two c) \<and> shares gs' = shares gs_two)"
  by (rule enqueue_correct [OF gs_two_level(1)]) (simp_all add: gs_two_level fresh_in_def)

text \<open>The level of the examples with one session, at address 7, of the entry with rate 60.\<close>

definition gs_three :: "(unit, unit) group_scheduler" where
  "gs_three = snd (the (group_scheduler_enqueue (Some 7) (1, 2) 0 4096 (Some ()) None gs_two))"

lemma gs_three_run: "group_scheduler_enqueue (Some 7) (1, 2) 0 4096 (Some ()) None gs_two = Some (Inr 7, gs_three)"
  and gs_three_level: "gs_inv gs_three" "queued gs_three = {7}" "start_of gs_three 7 = 0"
  "virtual_time gs_three = 0" "total_capacity gs_three = 100"
proof -
  have e: "entry_view (entry_at (entries gs_two) 0) = (True, Rate 60, 0, zero_stats, zero_tracking)"
    using gs_two_entries(1) by (auto simp: entry_info_def entry_at_def)
  then have al: "allocation (entry_at (entries gs_two) 0) = Rate 60" "last_finish_time (entry_at (entries gs_two) 0) = 0"
    by (simp_all add: entry_view_def)
  have "0 \<in> conf_ids (entries gs_two)" using shares_entry [of gs_two 0] gs_two_inv(3) by simp
  then have rate: "session_rate gs_two (entry_at (entries gs_two) 0) = 60"
    using entries_invD(3) [OF gs_two_inv(2)] al(1) by (simp add: session_rate_def)
  have "session_group gs_two 0 4096 \<le> 15" by (rule session_group_range(2))
  then have "session_group gs_two 0 4096 < num_groups gs_two" by (simp add: gs_two_level(6) word_nat)
  then have none: "enqueue_error (Some 7) 0 4096 gs_two = None"
    by (simp add: enqueue_error_def rate gs_two_inv(3,5) not_le [symmetric])
  have "fresh_in gs_two (Some 7)" "active_session_count gs_two \<noteq> UINT32_MAX" by (simp_all add: fresh_in_def gs_two_level)
  note cases = enqueue_cases [OF gs_two_level(1) this, where i = 0 and work = 4096 and ts = "(1, 2)"
      and data = "Some ()" and cleanup = None, case_names refused ok]
  have "\<exists>gs'. group_scheduler_enqueue (Some 7) (1, 2) 0 4096 (Some ()) None gs_two = Some (Inr 7, gs') \<and>
      gs_inv gs' \<and> queued gs' = {7} \<and> virtual_time gs' = 0 \<and> total_capacity gs' = 100 \<and> start_of gs' 7 = 0"
  proof (cases rule: cases)
    case (refused err)
    then show ?thesis using none by simp
  next
    case (ok a gs')
    have a: "a = 7" using ok(2) by simp
    have "queued gs' = {7}" "virtual_time gs' = 0" using ok(6,10) by (simp_all only: a gs_two_level)
    moreover have "total_capacity gs' = 100" using ok(11) gs_two_inv(6) by (simp only: level_config_def prod.inject)
    moreover have "start_of gs' 7 = 0"
      using info_times [OF ok(7)] by (simp only: a session_start_def gs_two_level(5) al(2)) simp
    ultimately show ?thesis using ok(3,4) unfolding a by metis
  qed
  then obtain gs' where g: "group_scheduler_enqueue (Some 7) (1, 2) 0 4096 (Some ()) None gs_two = Some (Inr 7, gs')"
      "gs_inv gs'" "queued gs' = {7}" "virtual_time gs' = 0" "total_capacity gs' = 100" "start_of gs' 7 = 0"
    by (elim exE conjE)
  have "gs_three = gs'" by (simp only: gs_three_def g(1) option.sel snd_conv)
  with g show "group_scheduler_enqueue (Some 7) (1, 2) 0 4096 (Some ()) None gs_two = Some (Inr 7, gs_three)"
    "gs_inv gs_three" "queued gs_three = {7}" "start_of gs_three 7 = 0"
    "virtual_time gs_three = 0" "total_capacity gs_three = 100" by simp_all
qed

text \<open>
  C36. Dequeuing is WF2Q+'s choice at one level, up to saturated finish times: it answers NULL only when at
  the time the search arrives at every eligible session (start time at or before it) has the finish time
  \<open>UINT64_MAX\<close>, or there is none; otherwise it takes an eligible session with a finish time below
  \<open>UINT64_MAX\<close> out of the queue, the least of all eligible ones.  The invariant holds again, and what is
  left keeps its data and times.
\<close>

theorem dequeue_correct:
  assumes "gs_inv gs"
  shows "\<exists>ret gs'. group_scheduler_dequeue gs = Some (ret, gs') \<and> gs_inv gs' \<and>
    virtual_time gs' = (if queued gs = {} then virtual_time gs else search_time gs) \<and>
    shares gs' = shares gs \<and> (\<forall>c. session_info gs' c = session_info gs c) \<and>
    (case ret of
       None \<Rightarrow> queued gs' = queued gs \<and> (\<forall>c \<in> eligible gs (search_time gs). finish_of gs c = UINT64_MAX)
     | Some a \<Rightarrow> a \<in> eligible gs (search_time gs) \<and> finish_of gs a \<noteq> UINT64_MAX \<and> queued gs' = queued gs - {a} \<and>
         (\<forall>c \<in> eligible gs (search_time gs). finish_of gs a \<le> finish_of gs c))"
proof (cases rule: dequeue_cases [OF assms, case_names empty blocked ok])
  case empty
  then show ?thesis using assms by (simp add: eligible_def)
next
  case blocked
  moreover have "shares (gs\<lparr>virtual_time := search_time gs\<rparr>) = shares gs"
    "\<forall>c. session_info (gs\<lparr>virtual_time := search_time gs\<rparr>) c = session_info gs c"
    by (simp_all add: shares_def session_info_def fun_eq_iff)
  ultimately show ?thesis by (simp add: selectable_empty)
next
  case (ok a gs')
  then have "queued gs \<noteq> {}" by (auto simp: selectable_def)
  moreover have "\<forall>c \<in> eligible gs (search_time gs). finish_of gs a \<le> finish_of gs c" by (rule selectable_least) (rule ok(2))
  ultimately show ?thesis using ok(1,3-10) same_entriesD(2) [OF ok(11)] by (simp add: selectable_iff)
qed

theorem dequeue_correct_witness:
  "\<exists>ret gs'. group_scheduler_dequeue gs_three = Some (ret, gs') \<and> gs_inv gs' \<and>
    virtual_time gs' = (if queued gs_three = {} then virtual_time gs_three else search_time gs_three) \<and>
    shares gs' = shares gs_three \<and> (\<forall>c. session_info gs' c = session_info gs_three c) \<and>
    (case ret of
       None \<Rightarrow> queued gs' = queued gs_three \<and>
         (\<forall>c \<in> eligible gs_three (search_time gs_three). finish_of gs_three c = UINT64_MAX)
     | Some a \<Rightarrow> a \<in> eligible gs_three (search_time gs_three) \<and> finish_of gs_three a \<noteq> UINT64_MAX \<and>
         queued gs' = queued gs_three - {a} \<and>
         (\<forall>c \<in> eligible gs_three (search_time gs_three). finish_of gs_three a \<le> finish_of gs_three c))"
  by (rule dequeue_correct [OF gs_three_level(1)])

lemma rebased_times:
  assumes "cal_inv gs" "a \<in> queued gs" "session_info gs' a = map_option (rebase_info off) (session_info gs a)"
  shows "start_of gs' a = rebase_time off (start_of gs a) \<and> finish_of gs' a = rebase_time off (finish_of gs a)"
proof -
  obtain s where "sessions gs a = Some s" by (rule queued_session [OF assms(1,2)])
  then show ?thesis using assms(3) by (auto simp: session_info_def rebase_info_def)
qed

text \<open>
  C37. As long as no queued session has the start time \<open>UINT64_MAX\<close>, a rebase keeps the schedule.  Below
  \<open>HWFQ_REBASE_THRESHOLD\<close> it does nothing; from there on the virtual time, the start and finish time of
  every queued session and the last finish time of every configured entry are set back by half the virtual
  time (stopping at 0).  The queue, the shares and the invariant stay, the same sessions may start, and no
  two finish times change their order, though times that stop at 0 become equal.
\<close>

theorem rebase_preserves_order:
  assumes "gs_inv gs" "\<forall>a \<in> queued gs. start_of gs a \<noteq> UINT64_MAX"
    and "off = (if virtual_time gs < HWFQ_REBASE_THRESHOLD then 0 else unat (virtual_time gs) div 2)"
  shows "\<exists>gs'. group_scheduler_rebase_if_needed gs = Some gs' \<and> gs_inv gs' \<and> queued gs' = queued gs \<and>
    (virtual_time gs < HWFQ_REBASE_THRESHOLD \<longrightarrow> gs' = gs) \<and>
    unat (virtual_time gs') = unat (virtual_time gs) - off \<and>
    (\<forall>a \<in> queued gs. unat (start_of gs' a) = unat (start_of gs a) - off \<and>
       unat (finish_of gs' a) = unat (finish_of gs a) - off \<and>
       (start_of gs' a \<le> virtual_time gs' \<longleftrightarrow> start_of gs a \<le> virtual_time gs) \<and>
       (\<forall>b \<in> queued gs. finish_of gs a \<le> finish_of gs b \<longrightarrow> finish_of gs' a \<le> finish_of gs' b)) \<and>
    (\<forall>i \<in> conf_ids (entries gs). unat (last_finish_time (entry_at (entries gs') i)) =
       unat (last_finish_time (entry_at (entries gs) i)) - off) \<and> shares gs' = shares gs"
proof -
  have starts: "\<And>a. a \<in> queued gs \<Longrightarrow> start_of gs a \<noteq> UINT64_MAX" using assms(2) by simp
  have offn: "unat (rebase_offset gs) = off" by (simp add: assms(3) rebase_offset_def unat_div)
  then have off: "rebase_offset gs \<le> virtual_time gs" by (simp add: word_le_nat_alt assms(3))
  have low: "group_scheduler_rebase_if_needed gs = Some gs" if "virtual_time gs < HWFQ_REBASE_THRESHOLD"
    by (simp add: group_scheduler_rebase_if_needed_def that)
  show ?thesis
  proof (rule rebase_ok [OF assms(1) starts])
    fix gs'
    assume r: "group_scheduler_rebase_if_needed gs = Some gs'" "gs_inv gs'" "queued gs' = queued gs"
      "virtual_time gs' = rebase_time (rebase_offset gs) (virtual_time gs)"
      "\<And>a. session_info gs' a = (if a \<in> queued gs then map_option (rebase_info (rebase_offset gs)) (session_info gs a)
         else session_info gs a)" "shares gs' = shares gs"
      "\<And>i. slot_of (entries gs') (unat i) = (if i \<in> conf_ids (entries gs)
         then map_option (\<lambda>e. e\<lparr>last_finish_time := rebase_time (rebase_offset gs) (last_finish_time e)\<rparr>)
           (slot_of (entries gs) (unat i))
         else slot_of (entries gs) (unat i))"
    have t: "start_of gs' a = rebase_time (rebase_offset gs) (start_of gs a) \<and>
        finish_of gs' a = rebase_time (rebase_offset gs) (finish_of gs a)"
      if a: "a \<in> queued gs" for a
      using rebased_times [OF gs_invD(1) [OF assms(1)] a] r(5) [of a] a by simp
    have "\<forall>a \<in> queued gs. unat (start_of gs' a) = unat (start_of gs a) - off \<and>
       unat (finish_of gs' a) = unat (finish_of gs a) - off \<and>
       (start_of gs' a \<le> virtual_time gs' \<longleftrightarrow> start_of gs a \<le> virtual_time gs) \<and>
       (\<forall>b \<in> queued gs. finish_of gs a \<le> finish_of gs b \<longrightarrow> finish_of gs' a \<le> finish_of gs' b)"
      using t rebase_time_mono rebase_time_cmp [OF off] r(4) by (simp add: rebase_time_nat offn)
    moreover have "\<forall>i \<in> conf_ids (entries gs). unat (last_finish_time (entry_at (entries gs') i)) =
       unat (last_finish_time (entry_at (entries gs) i)) - off"
    proof
      fix i assume i: "i \<in> conf_ids (entries gs)"
      then obtain e where "slot_of (entries gs) (unat i) = Some e" by (auto simp: conf_ids_def)
      then show "unat (last_finish_time (entry_at (entries gs') i)) =
          unat (last_finish_time (entry_at (entries gs) i)) - off"
        using r(7) [of i] i by (simp add: entry_at_def rebase_time_nat offn)
    qed
    moreover have "unat (virtual_time gs') = unat (virtual_time gs) - off"
      using r(4) by (simp add: rebase_time_nat offn)
    ultimately show ?thesis using r(1-3,6) low by (intro exI [of _ gs']) auto
  qed
qed

text \<open>A level at the virtual time \<open>2 ^ 63\<close>, past the threshold.\<close>

abbreviation gs_late :: "(unit, unit) group_scheduler" where
  "gs_late \<equiv> gs_three\<lparr>virtual_time := 2 ^ 63\<rparr>"

theorem rebase_preserves_order_witness:
  "\<exists>gs'. group_scheduler_rebase_if_needed gs_late = Some gs' \<and> gs_inv gs' \<and> queued gs' = queued gs_late \<and>
    (virtual_time gs_late < HWFQ_REBASE_THRESHOLD \<longrightarrow> gs' = gs_late) \<and>
    unat (virtual_time gs') = unat (virtual_time gs_late) - 2 ^ 62 \<and>
    (\<forall>a \<in> queued gs_late. unat (start_of gs' a) = unat (start_of gs_late a) - 2 ^ 62 \<and>
       unat (finish_of gs' a) = unat (finish_of gs_late a) - 2 ^ 62 \<and>
       (start_of gs' a \<le> virtual_time gs' \<longleftrightarrow> start_of gs_late a \<le> virtual_time gs_late) \<and>
       (\<forall>b \<in> queued gs_late. finish_of gs_late a \<le> finish_of gs_late b \<longrightarrow> finish_of gs' a \<le> finish_of gs' b)) \<and>
    (\<forall>i \<in> conf_ids (entries gs_late). unat (last_finish_time (entry_at (entries gs') i)) =
       unat (last_finish_time (entry_at (entries gs_late) i)) - 2 ^ 62) \<and>
    shares gs' = shares gs_late"
  by (rule rebase_preserves_order) (simp_all add: gs_three_level word_less_nat_alt)

text \<open>
  The condition on the start times is needed.  When every queued session starts at \<open>UINT64_MAX\<close>, so does
  the cached least start time, which the rebase takes for the mark of an empty queue and leaves alone while
  it sets the sessions back: the cache no longer bounds them from below and the invariant is lost.
\<close>

theorem rebase_stale_minimum:
  assumes "gs_inv gs" "\<not> virtual_time gs < HWFQ_REBASE_THRESHOLD" "a \<in> queued gs"
    and "\<And>c. c \<in> queued gs \<Longrightarrow> start_of gs c = UINT64_MAX"
  shows "\<exists>gs'. group_scheduler_rebase_if_needed gs = Some gs' \<and> min_start_time gs' = UINT64_MAX \<and>
    unat (start_of gs' a) = unat UINT64_MAX - unat (virtual_time gs) div 2 \<and> \<not> cal_inv gs'"
proof -
  obtain L where w: "cal_wf gs L" using gs_invD(1) [OF assms(1)] by (auto simp: cal_inv_def)
  have m: "min_start_time gs = UINT64_MAX"
    using cal_wfD(4) [OF w] queued_iff [OF w] assms(4) unfolding cal_mins_def by metis
  let ?off = "rebase_offset gs"
  obtain mf ms ce where r: "group_scheduler_rebase_if_needed gs = Some (gs\<lparr>virtual_time := virtual_time gs - ?off,
        min_start_time := ms, min_finish_time := mf, sessions := rebased_on ?off (queued gs) (sessions gs), entries := ce\<rparr>)"
    "ms = (if min_start_time gs = UINT64_MAX then UINT64_MAX else rebase_time ?off (min_start_time gs))"
    by (rule rebase_run [OF assms(1,2)])
  define gs' where "gs' = gs\<lparr>virtual_time := virtual_time gs - ?off, min_start_time := ms, min_finish_time := mf,
        sessions := rebased_on ?off (queued gs) (sessions gs), entries := ce\<rparr>"
  have off: "unat ?off = unat (virtual_time gs) div 2" using assms(2) by (simp add: rebase_offset_def unat_div)
  obtain s where s: "sessions gs a = Some s" by (rule queued_session [OF gs_invD(1) [OF assms(1)] assms(3)])
  then have "start_of gs' a = rebase_time ?off (start_of gs a)" using assms(3) by (simp add: gs'_def rebased_on_def)
  then have t: "unat (start_of gs' a) = unat UINT64_MAX - unat (virtual_time gs) div 2"
    using assms(4) [OF assms(3)] by (simp add: rebase_time_nat off)
  have "bin_heads gs' = bin_heads gs" "sessions gs' = rebased_on ?off (queued gs) (sessions gs)" by (simp_all add: gs'_def)
  then have q: "queued gs' = queued gs" by (simp add: queued_def rebased_on_dll)
  have V: "2 \<le> unat (virtual_time gs)" using assms(2) by (simp add: word_less_nat_alt)
  then have "unat (virtual_time gs) div 2 \<noteq> 0" by simp
  have "\<not> cal_inv gs'"
  proof
    assume "cal_inv gs'"
    then obtain L' where w': "cal_wf gs' L'" by (auto simp: cal_inv_def)
    have "min_start_time gs' \<le> start_of gs' a"
      using cal_wfD(4) [OF w'] queued_iff [OF w'] q assms(3) unfolding cal_mins_def by blast
    then have "unat UINT64_MAX \<le> unat (start_of gs' a)" using r(2) m by (simp add: gs'_def word_le_nat_alt)
    then show False using t V by (simp add: unat_max_word)
  qed
  then show ?thesis using r m t by (intro exI [of _ gs']) (simp add: gs'_def)
qed

text \<open>
  The virtual time follows WF2Q+'s rule: it advances by the work done over the capacity, in units
  of \<open>2 ^ 20\<close>, by at least 1 and never past 64 bits, and at least to the least start time; from
  \<open>2 ^ 63 - 1\<close> on it is halved, with all session times set back along with it.
\<close>

theorem virtual_time_advances:
  assumes "gs_inv gs" "\<forall>a \<in> queued gs. start_of gs a \<noteq> UINT64_MAX"
    and "total_capacity gs \<noteq> 0" "unat work < 2 ^ 44"
    and "v = max (min (2 ^ 64 - 1) (unat (virtual_time gs) + max 1 (unat work * 2 ^ 20 div unat (total_capacity gs))))
      (unat (min_start_time gs))"
  shows "\<exists>gs'. group_scheduler_update_virtual_time work gs = Some gs' \<and> gs_inv gs' \<and> queued gs' = queued gs \<and>
    unat (virtual_time gs') = (if v < 2 ^ 63 - 1 then v else v - v div 2) \<and>
    (\<forall>a \<in> queued gs. start_of gs' a \<le> virtual_time gs' \<longleftrightarrow> unat (start_of gs a) \<le> v)"
proof -
  define V where "V = advanced_time work gs"
  have V: "unat V = v" unfolding V_def assms(5) by (rule advanced_time_nat [OF assms(3,4)])
  define off where "off = (if V < HWFQ_REBASE_THRESHOLD then 0 else V div 2)"
  have starts: "\<And>a. a \<in> queued gs \<Longrightarrow> start_of gs a \<noteq> UINT64_MAX" using assms(2) by simp
  have lt: "V < HWFQ_REBASE_THRESHOLD \<longleftrightarrow> v < 2 ^ 63 - 1" by (simp add: word_less_nat_alt V)
  show ?thesis
  proof (rule update_ok [OF assms(1) starts off_def [unfolded V_def]])
    fix gs'
    assume r: "group_scheduler_update_virtual_time work gs = Some gs'" "gs_inv gs'" "queued gs' = queued gs"
      "virtual_time gs' = rebase_time off (advanced_time work gs)"
      "\<And>a. session_info gs' a = (if a \<in> queued gs then map_option (rebase_info off) (session_info gs a)
         else session_info gs a)"
    have "off \<le> V" by (simp add: off_def word_le_nat_alt unat_div)
    then have "\<forall>a \<in> queued gs. start_of gs' a \<le> virtual_time gs' \<longleftrightarrow> unat (start_of gs a) \<le> v"
      using rebased_times [OF gs_invD(1) [OF assms(1)]] r(4,5) rebase_time_cmp [of off V]
      by (simp add: V [symmetric] word_le_nat_alt [symmetric] flip: V_def)
    moreover have "unat (virtual_time gs') = (if v < 2 ^ 63 - 1 then v else v - v div 2)"
      unfolding r(4) V_def [symmetric] rebase_time_nat off_def lt by (simp add: V unat_div)
    ultimately show ?thesis using r(1-3) by blast
  qed
qed

theorem virtual_time_advances_witness:
  "\<exists>gs'. group_scheduler_update_virtual_time 4096 gs_three = Some gs' \<and> gs_inv gs' \<and> queued gs' = queued gs_three \<and>
    unat (virtual_time gs') =
      (let v = max (min (2 ^ 64 - 1) (unat (virtual_time gs_three) +
          max 1 (unat (4096 :: u64) * 2 ^ 20 div unat (total_capacity gs_three)))) (unat (min_start_time gs_three))
       in if v < 2 ^ 63 - 1 then v else v - v div 2) \<and>
    (\<forall>a \<in> queued gs_three. start_of gs' a \<le> virtual_time gs' \<longleftrightarrow> unat (start_of gs_three a) \<le>
      max (min (2 ^ 64 - 1) (unat (virtual_time gs_three) +
          max 1 (unat (4096 :: u64) * 2 ^ 20 div unat (total_capacity gs_three)))) (unat (min_start_time gs_three)))"
  unfolding Let_def by (rule virtual_time_advances [OF gs_three_level(1) _ _ _ refl]) (simp_all add: gs_three_level)

lemma empty_min_start:
  assumes "cal_inv gs" "queued gs = {}"
  shows "min_start_time gs = UINT64_MAX"
proof -
  obtain L where w: "cal_wf gs L" using assms(1) by (auto simp: cal_inv_def)
  then show ?thesis using cal_wfD(4) [OF w] queued_eq [OF w] assms(2) by (auto simp: cal_mins_def)
qed

text \<open>
  C38. With an empty queue the least start time is the largest 64-bit number, and the update jumps to
  it: whatever the work, the virtual time becomes \<open>2 ^ 63\<close>, and every configured entry's last finish
  time is set back by \<open>2 ^ 63 - 1\<close>, which erases what the entries had consumed.
\<close>

theorem idle_update_jumps:
  assumes "gs_inv gs" "queued gs = {}"
  shows "\<exists>gs'. group_scheduler_update_virtual_time work gs = Some gs' \<and> gs_inv gs' \<and>
    virtual_time gs' = 2 ^ 63 \<and>
    (\<forall>i \<in> conf_ids (entries gs). unat (last_finish_time (entry_at (entries gs') i)) =
       unat (last_finish_time (entry_at (entries gs) i)) - (2 ^ 63 - 1))"
proof -
  have V: "advanced_time work gs = UINT64_MAX"
    using empty_min_start [OF gs_invD(1) [OF assms(1)] assms(2)]
    by (simp add: advanced_time_def Let_def max_def)
  define off where "off = (if advanced_time work gs < HWFQ_REBASE_THRESHOLD then 0 else advanced_time work gs div 2)"
  have offn: "unat off = 2 ^ 63 - 1" by (simp add: off_def V unat_div unat_max_word)
  have starts: "\<And>a. a \<in> queued gs \<Longrightarrow> start_of gs a \<noteq> UINT64_MAX" using assms(2) by simp
  show ?thesis
  proof (rule update_ok [OF assms(1) starts off_def])
    fix gs'
    assume r: "group_scheduler_update_virtual_time work gs = Some gs'" "gs_inv gs'"
      "virtual_time gs' = rebase_time off (advanced_time work gs)"
      "\<And>i. slot_of (entries gs') (unat i) = (if i \<in> conf_ids (entries gs)
         then map_option (\<lambda>e. e\<lparr>last_finish_time := rebase_time off (last_finish_time e)\<rparr>) (slot_of (entries gs) (unat i))
         else slot_of (entries gs) (unat i))"
    have "unat (virtual_time gs') = unat (2 ^ 63 :: u64)" unfolding r(3) rebase_time_nat V offn by (simp add: unat_max_word)
    then have "virtual_time gs' = 2 ^ 63" by (simp only: unat_inject)
    moreover have "\<forall>i \<in> conf_ids (entries gs). unat (last_finish_time (entry_at (entries gs') i)) =
       unat (last_finish_time (entry_at (entries gs) i)) - (2 ^ 63 - 1)"
    proof
      fix i assume i: "i \<in> conf_ids (entries gs)"
      then obtain e where "slot_of (entries gs) (unat i) = Some e" by (auto simp: conf_ids_def)
      then show "unat (last_finish_time (entry_at (entries gs') i)) =
          unat (last_finish_time (entry_at (entries gs) i)) - (2 ^ 63 - 1)"
        using r(4) [of i] i by (simp add: entry_at_def rebase_time_nat offn)
    qed
    ultimately show ?thesis using r(1,2) by blast
  qed
qed

theorem idle_update_jumps_witness:
  "\<exists>gs'. group_scheduler_update_virtual_time 1 gs_two = Some gs' \<and> gs_inv gs' \<and> virtual_time gs' = 2 ^ 63 \<and>
    (\<forall>i \<in> conf_ids (entries gs_two). unat (last_finish_time (entry_at (entries gs') i)) =
       unat (last_finish_time (entry_at (entries gs_two) i)) - (2 ^ 63 - 1))"
  by (rule idle_update_jumps [OF gs_two_level(1,2)])

text \<open>
  Destroying a level never leaves its arrays: each queued session is visited once, its cleanup
  function is called with its data if it has one, and its memory, and no other, is freed.
\<close>

theorem destroy_cleans_up:
  assumes "gs_inv gs"
  shows "\<exists>xs. distinct xs \<and> set xs = queued gs \<and>
    group_scheduler_destroy gs = Some (cleanup_calls gs xs, without (queued gs) (sessions gs))"
  using destroy_ok [OF gs_invD(1,2) [OF assms]] by metis

theorem destroy_cleans_up_witness:
  "\<exists>xs. distinct xs \<and> set xs = queued gs_three \<and>
    group_scheduler_destroy gs_three = Some (cleanup_calls gs_three xs, without (queued gs_three) (sessions gs_three))"
  by (rule destroy_cleans_up [OF gs_three_level(1)])

text \<open>
  A new level is empty and satisfies the invariant, as long as its bins number at most 32768,
  which is what its fixed bitmap of groups can address.
\<close>

theorem init_establishes_invariant:
  assumes "groups \<noteq> 0" "bins \<noteq> 0" "ids \<noteq> 0" "unat groups * unat bins \<le> 32768"
    and "ce_inv ce" "conf_ids ce = {}"
  shows "\<exists>gs :: ('u, 'f) group_scheduler.
    group_scheduler_init_with_entries (True, True, True) groups bins capacity ids ce = Some gs \<and>
    gs_inv gs \<and> queued gs = {} \<and> shares gs = Map.empty \<and> entries gs = ce \<and> virtual_time gs = 0"
  using init_ok [OF assms, where 'u = 'u and 'f = 'f and capacity = capacity] by metis

theorem init_establishes_invariant_witness:
  "\<exists>gs :: (unit, unit) group_scheduler.
    group_scheduler_init_with_entries (True, True, True) 16 2048 1000 10 two_entries = Some gs \<and>
    gs_inv gs \<and> queued gs = {} \<and> shares gs = Map.empty \<and> entries gs = two_entries \<and> virtual_time gs = 0"
  by (rule init_establishes_invariant) (simp_all add: two_entries_inv)

end
