(* ===== verification/Level_Runs.thy ===== *)
theory Level_Runs
  imports Group_Queue "HOL-Library.Multiset"
begin

text \<open>
  A level over many calls: the calls of \<^verbatim>\<open>src/hwfq_group_scheduler.c\<close> as a step relation, with the sessions a
  level accepted, handed out and removed, and the balance of them that every sequence of calls keeps.
\<close>

section \<open>A level in operation\<close>

text \<open>
  The calls that may be made on a level, in any order.  Beside the scheduler, the state has the sessions
  accepted, handed out and removed so far.  A session that was handed out belongs to the caller, who may free
  it; its address, and that of a removed session, may be given to a session accepted later.
\<close>

inductive level_step :: "('u, 'f) group_scheduler \<times> addr list \<times> addr list \<times> addr list \<Rightarrow>
    ('u, 'f) group_scheduler \<times> addr list \<times> addr list \<times> addr list \<Rightarrow> bool" where
  enqueue: "fresh_in gs mem \<Longrightarrow> active_session_count gs \<noteq> UINT32_MAX \<Longrightarrow>
    group_scheduler_enqueue mem ts i work data cleanup gs = Some (ret, gs') \<Longrightarrow>
    level_step (gs, accepted, served, removed) (gs', (case ret of Inl err \<Rightarrow> accepted | Inr a \<Rightarrow> accepted @ [a]), served, removed)"
| dequeue: "group_scheduler_dequeue gs = Some (ret, gs') \<Longrightarrow>
    level_step (gs, accepted, served, removed) (gs', accepted, (case ret of None \<Rightarrow> served | Some a \<Rightarrow> served @ [a]), removed)"
| release: "a \<notin> queued gs \<Longrightarrow> hwfq_free a (sessions gs) = Some H \<Longrightarrow>
    level_step (gs, accepted, served, removed) (gs\<lparr>sessions := H\<rparr>, accepted, served, removed)"
| remove_session: "a \<in> queued gs \<Longrightarrow> group_scheduler_remove_session a gs = Some (ret, gs') \<Longrightarrow>
    level_step (gs, accepted, served, removed) (gs', accepted, served, removed @ [a])"
| advance: "\<forall>a \<in> queued gs. start_of gs a \<noteq> UINT64_MAX \<Longrightarrow>
    group_scheduler_update_virtual_time work gs = Some gs' \<Longrightarrow>
    level_step (gs, accepted, served, removed) (gs', accepted, served, removed)"
| configure: "i \<in> live_ids (entries gs) \<Longrightarrow> group_scheduler_configure_entry i alloc gs = Some (ret, gs') \<Longrightarrow>
    level_step (gs, accepted, served, removed) (gs', accepted, served, removed)"
| remove: "group_scheduler_remove_entry i gs = Some (ret, gs') \<Longrightarrow>
    level_step (gs, accepted, served, removed) (gs', accepted, served, removed)"

definition level_inv :: "('u, 'f) group_scheduler \<times> addr list \<times> addr list \<times> addr list \<Rightarrow> bool" where
  "level_inv = (\<lambda>(gs, accepted, served, removed).
     gs_inv gs \<and> mset accepted = mset_set (queued gs) + mset served + mset removed)"

lemma queued_take:
  assumes "gs_inv gs" "a \<in> queued gs"
  shows "mset_set (queued gs) = add_mset a (mset_set (queued gs - {a}))"
  by (rule mset_set.remove [OF gs_invD(4) [OF assms(1)] assms(2)])

lemma level_config_step:
  assumes "level_inv (gs, accepted, served, removed)" "gs' = gs \<or> config_frame gs' gs \<and> entries_inv gs'"
  shows "level_inv (gs', accepted, served, removed)"
  using assms(2)
proof
  assume f: "config_frame gs' gs \<and> entries_inv gs'"
  then show ?thesis
    using assms(1) gs_inv_config [of gs gs'] config_frame_cal(2) [OF conjunct1 [OF f]] by (simp add: level_inv_def)
qed (use assms(1) in simp)

lemma level_inv_step:
  "level_step st st' \<Longrightarrow> level_inv st \<Longrightarrow> level_inv st'"
proof (induction rule: level_step.induct)
  case (enqueue gs mem ts i work data cleanup ret gs' accepted served removed)
  then have inv: "gs_inv gs" by (simp add: level_inv_def)
  show ?case
  proof (cases rule: enqueue_cases [OF inv enqueue(1,2), where i = i and work = work and ts = ts and data = data
        and cleanup = cleanup, case_names refused ok])
    case (refused err)
    then show ?thesis using enqueue(3,4) by simp
  next
    case (ok a gs1)
    have r: "ret = Inr a" "gs' = gs1" using ok(3) enqueue(3) by simp_all
    show ?thesis using ok(4-6) enqueue(4) gs_invD(4) [OF inv] unfolding r by (simp add: level_inv_def)
  qed
next
  case (dequeue gs ret gs' accepted served removed)
  then have inv: "gs_inv gs" by (simp add: level_inv_def)
  show ?case
  proof (cases rule: dequeue_cases [OF inv, case_names empty blocked ok])
    case empty
    then show ?thesis using dequeue by simp
  next
    case blocked
    then have "ret = None" "gs' = gs\<lparr>virtual_time := search_time gs\<rparr>" using dequeue(1) by simp_all
    then show ?thesis using dequeue(2) blocked(4) by (simp add: level_inv_def)
  next
    case (ok a gs1)
    have r: "ret = Some a" "gs' = gs1" using ok(3) dequeue(1) by simp_all
    have "a \<in> queued gs" using ok(1) by (simp add: selectable_def)
    then show ?thesis using ok(4,5) dequeue(2) queued_take [OF inv] unfolding r by (simp add: level_inv_def)
  qed
next
  case (release a gs H accepted served removed)
  then have inv: "gs_inv gs" and H: "H = (sessions gs)(a := None)"
    by (auto simp: level_inv_def hwfq_free_def split: bind_splits)
  have "H c = sessions gs c" if "c \<in> queued gs" for c using that release(1) by (auto simp: H)
  from gs_inv_heap [OF inv, of H, OF this] show ?case using release(3) by (simp add: level_inv_def)
next
  case (remove_session a gs ret gs' accepted served removed)
  then have inv: "gs_inv gs" by (simp add: level_inv_def)
  obtain g where g: "group_scheduler_remove_session a gs = Some (Inr (), g)" "gs_inv g" "queued g = queued gs - {a}"
    by (rule remove_session_ok [OF inv remove_session(1)])
  then have "gs' = g" using remove_session(2) by simp
  then show ?case using g remove_session(3) queued_take [OF inv remove_session(1)] by (simp add: level_inv_def)
next
  case (advance gs work gs' accepted served removed)
  then have inv: "gs_inv gs" by (simp add: level_inv_def)
  have starts: "\<And>a. a \<in> queued gs \<Longrightarrow> start_of gs a \<noteq> UINT64_MAX" using advance(1) by simp
  show ?case
  proof (rule update_ok [OF inv starts refl, of work])
    fix gs1
    assume "group_scheduler_update_virtual_time work gs = Some gs1" "gs_inv gs1" "queued gs1 = queued gs"
    then show ?thesis using advance(2,3) by (simp add: level_inv_def)
  qed
next
  case (configure i gs alloc ret gs' accepted served removed)
  then have "entries_inv gs" by (simp add: level_inv_def gs_invD(3))
  from configure_entry_cases [OF this configure(1), of alloc] have "gs' = gs \<or> config_frame gs' gs \<and> entries_inv gs'"
    by cases (use configure(2) in auto)
  then show ?case by (rule level_config_step [OF configure(3)])
next
  case (remove i gs ret gs' accepted served removed)
  then have "entries_inv gs" by (simp add: level_inv_def gs_invD(3))
  from remove_entry_cases [OF this, of i] have "gs' = gs \<or> config_frame gs' gs \<and> entries_inv gs'"
    by cases (use remove(1) in auto)
  then show ?case by (rule level_config_step [OF remove(2)])
qed

text \<open>
  C39. No work is lost or handed out twice.  Make any calls on a level that starts empty: enqueue a session, into
  fresh memory and while the counter of sessions is not full; dequeue; free a session that is not queued; remove
  a queued session; advance the virtual time while no queued session has the start time \<open>UINT64_MAX\<close>;
  configure an entry whose ID is in use; remove an entry.  Then every session that was accepted is still queued, was
  handed out, or was taken out by \<open>group_scheduler_remove_session\<close>: exactly one of the three, exactly once,
  also when an address serves several sessions one after the other.
\<close>

theorem level_conserves_sessions:
  assumes "level_step\<^sup>*\<^sup>* (gs0, [], [], []) (gs, accepted, served, removed)" "gs_inv gs0" "queued gs0 = {}"
  shows "gs_inv gs \<and> mset accepted = mset_set (queued gs) + mset served + mset removed"
proof -
  have "level_inv (gs0, [], [], [])" using assms(2,3) by (simp add: level_inv_def)
  with assms(1) have "level_inv (gs, accepted, served, removed)"
    by (induction rule: rtranclp_induct) (auto dest: level_inv_step)
  then show ?thesis by (simp add: level_inv_def)
qed

theorem level_conserves_sessions_witness:
  "\<exists>gs :: (unit, unit) group_scheduler. queued gs = {} \<and> gs_inv gs \<and> mset [7] = mset_set (queued gs) + mset [] + mset [7]"
proof -
  have step: "level_step (gs_two, [], [], []) (gs_three, [7], [], [])"
    using level_step.enqueue [OF _ _ gs_three_run, of "[]" "[]" "[]"] by (simp add: fresh_in_def gs_two_level)
  obtain gs where gs: "group_scheduler_remove_session 7 gs_three = Some (Inr (), gs)" "queued gs = queued gs_three - {7}"
    by (rule remove_session_ok [OF gs_three_level(1), of 7]) (simp_all add: gs_three_level)
  have "level_step (gs_three, [7], [], []) (gs, [7], [], [7])"
    using level_step.remove_session [OF _ gs(1), of "[7]" "[]" "[]"] by (simp add: gs_three_level)
  with step have "level_step\<^sup>*\<^sup>* (gs_two, [], [], []) (gs, [7], [], [7])" by simp
  from level_conserves_sessions [OF this gs_two_level(1,2)] gs(2) show ?thesis
    by (intro exI [of _ gs]) (simp add: gs_three_level)
qed

end
