(* ===== verification/In_Flight.thy ===== *)
theory In_Flight
  imports HWFQ_Types "HOL-Library.Sublist"
begin

text \<open>
  The work handed out and not yet completed: the static functions at the head of
  \<^verbatim>\<open>src/hwfq_scheduler.c\<close> and the fields \<open>in_flight_*\<close> of \<open>hwfq_scheduler_t\<close>.

  Each entry is linked into two structures: a hash table of 1024 buckets, keyed by the pointer the
  user gave, and a doubly-linked list in the order of dequeuing.  The entries are heap objects; an
  access through an address that holds none is undefined.  A user pointer is its 64-bit value, 0 for
  NULL, because the hash depends on it.
\<close>

section \<open>Data\<close>

type_synonym if_addr = nat

record in_flight_entry =
  if_tenant_id :: u32
  if_flow_id :: u32
  if_work_size :: u64
  dequeue_time_ns :: u64
  if_timeout_ns :: u64
  if_user_data :: u64
  hash_next :: "if_addr option"
  list_next :: "if_addr option"
  list_prev :: "if_addr option"

type_synonym if_heap = "if_addr \<Rightarrow> in_flight_entry option"

record in_flight =
  in_flight_work_size :: u64
  in_flight_count :: u32
  in_flight_hash :: "if_addr option list"
  in_flight_head :: "if_addr option"
  in_flight_tail :: "if_addr option"
  if_entries :: if_heap

abbreviation HWFQ_IN_FLIGHT_HASH_BUCKETS :: nat where "HWFQ_IN_FLIGHT_HASH_BUCKETS \<equiv> 1024"
abbreviation HWFQ_IN_FLIGHT_HASH_MASK :: u64 where "HWFQ_IN_FLIGHT_HASH_MASK \<equiv> 1023"

section \<open>Operations\<close>

definition hash_user_data :: "u64 \<Rightarrow> u32" where
  "hash_user_data user_data = ucast ((user_data * 2654435761) AND HWFQ_IN_FLIGHT_HASH_MASK)"

definition modify_entry :: "if_addr \<Rightarrow> (in_flight_entry \<Rightarrow> in_flight_entry) \<Rightarrow> in_flight \<Rightarrow> in_flight option" where
  "modify_entry a f st = do { e \<leftarrow> if_entries st a; Some (st\<lparr>if_entries := (if_entries st)(a \<mapsto> f e)\<rparr>) }"

definition in_flight_insert :: "if_addr \<Rightarrow> in_flight \<Rightarrow> in_flight option" where
  "in_flight_insert entry st = do {
     e \<leftarrow> if_entries st entry;
     let bucket = unat (hash_user_data (if_user_data e));
     head \<leftarrow> arr_get (in_flight_hash st) bucket;
     st \<leftarrow> modify_entry entry (\<lambda>e. e\<lparr>hash_next := head\<rparr>) st;
     hash \<leftarrow> arr_set (in_flight_hash st) bucket (Some entry);
     let st = st\<lparr>in_flight_hash := hash\<rparr>;
     st \<leftarrow> modify_entry entry (\<lambda>e. e\<lparr>list_next := None\<rparr>) st;
     st \<leftarrow> modify_entry entry (\<lambda>e. e\<lparr>list_prev := in_flight_tail st\<rparr>) st;
     st \<leftarrow> (case in_flight_tail st of
         Some t \<Rightarrow> modify_entry t (\<lambda>e. e\<lparr>list_next := Some entry\<rparr>) st
       | None \<Rightarrow> Some (st\<lparr>in_flight_head := Some entry\<rparr>));
     Some (st\<lparr>in_flight_tail := Some entry\<rparr>)
   }"

text \<open>
  The pointer to a pointer that walks a bucket points into the table (\<open>None\<close>) or to the \<open>hash_next\<close>
  of an entry.
\<close>

definition load_link :: "nat \<Rightarrow> if_addr option \<Rightarrow> in_flight \<Rightarrow> if_addr option option" where
  "load_link bucket prev st =
     (case prev of
        None \<Rightarrow> arr_get (in_flight_hash st) bucket
      | Some p \<Rightarrow> do { e \<leftarrow> if_entries st p; Some (hash_next e) })"

definition store_link :: "nat \<Rightarrow> if_addr option \<Rightarrow> if_addr option \<Rightarrow> in_flight \<Rightarrow> in_flight option" where
  "store_link bucket prev q st =
     (case prev of
        None \<Rightarrow> do { hash \<leftarrow> arr_set (in_flight_hash st) bucket q; Some (st\<lparr>in_flight_hash := hash\<rparr>) }
      | Some p \<Rightarrow> modify_entry p (\<lambda>e. e\<lparr>hash_next := q\<rparr>) st)"

partial_function (option) hash_unlink :: "nat \<Rightarrow> if_addr \<Rightarrow> if_addr option \<Rightarrow> in_flight \<Rightarrow> in_flight option" where
  "hash_unlink bucket entry prev st = do {
     cur \<leftarrow> load_link bucket prev st;
     case cur of
       None \<Rightarrow> Some st
     | Some c \<Rightarrow>
         if c = entry then do { e \<leftarrow> if_entries st entry; store_link bucket prev (hash_next e) st }
         else hash_unlink bucket entry (Some c) st
   }"

definition list_unlink :: "if_addr \<Rightarrow> in_flight \<Rightarrow> in_flight option" where
  "list_unlink entry st = do {
     e \<leftarrow> if_entries st entry;
     st \<leftarrow> (case list_prev e of
         Some p \<Rightarrow> modify_entry p (\<lambda>r. r\<lparr>list_next := list_next e\<rparr>) st
       | None \<Rightarrow> Some (st\<lparr>in_flight_head := list_next e\<rparr>));
     e \<leftarrow> if_entries st entry;
     (case list_next e of
         Some n \<Rightarrow> modify_entry n (\<lambda>r. r\<lparr>list_prev := list_prev e\<rparr>) st
       | None \<Rightarrow> Some (st\<lparr>in_flight_tail := list_prev e\<rparr>))
   }"

definition in_flight_remove :: "if_addr \<Rightarrow> in_flight \<Rightarrow> in_flight option" where
  "in_flight_remove entry st = do {
     e \<leftarrow> if_entries st entry;
     st \<leftarrow> hash_unlink (unat (hash_user_data (if_user_data e))) entry None st;
     list_unlink entry st
   }"

text \<open>The two searches: along a bucket, and along the list.\<close>

partial_function (option) find_in_bucket :: "if_heap \<Rightarrow> u64 \<Rightarrow> u32 \<Rightarrow> u32 \<Rightarrow> if_addr option \<Rightarrow> if_addr option option" where
  "find_in_bucket H user_data tenant_id flow_id entry =
     (case entry of
        None \<Rightarrow> Some None
      | Some a \<Rightarrow> do {
          e \<leftarrow> H a;
          if if_user_data e = user_data \<and> if_tenant_id e = tenant_id \<and> if_flow_id e = flow_id
          then Some (Some a)
          else find_in_bucket H user_data tenant_id flow_id (hash_next e)
        })"

definition in_flight_find :: "u64 \<Rightarrow> u32 \<Rightarrow> u32 \<Rightarrow> in_flight \<Rightarrow> if_addr option option" where
  "in_flight_find user_data tenant_id flow_id st = do {
     head \<leftarrow> arr_get (in_flight_hash st) (unat (hash_user_data user_data));
     find_in_bucket (if_entries st) user_data tenant_id flow_id head
   }"

text \<open>The walk along the list that the completion and the cancellation without a user pointer share.\<close>

partial_function (option) find_in_list :: "if_heap \<Rightarrow> (in_flight_entry \<Rightarrow> bool) \<Rightarrow> if_addr option \<Rightarrow> if_addr option option" where
  "find_in_list H P entry =
     (case entry of
        None \<Rightarrow> Some None
      | Some a \<Rightarrow> do {
          e \<leftarrow> H a;
          if P e then Some (Some a) else find_in_list H P (list_next e)
        })"

section \<open>Chains\<close>

text \<open>
  \<open>chain H h xs\<close>: the bucket from \<open>h\<close> holds \<open>xs\<close>; \<open>lseg H p h xs n l\<close>: the list from \<open>h\<close> runs through
  \<open>xs\<close> up to \<open>n\<close>, with \<open>p\<close> before it and \<open>l\<close> as its last entry.
\<close>

fun chain :: "if_heap \<Rightarrow> if_addr option \<Rightarrow> if_addr list \<Rightarrow> if_addr option \<Rightarrow> bool" where
  "chain H h [] n \<longleftrightarrow> h = n"
| "chain H h (a # as) n \<longleftrightarrow> h = Some a \<and> (case H a of None \<Rightarrow> False | Some e \<Rightarrow> chain H (hash_next e) as n)"

fun lseg :: "if_heap \<Rightarrow> if_addr option \<Rightarrow> if_addr option \<Rightarrow> if_addr list \<Rightarrow> if_addr option \<Rightarrow> if_addr option \<Rightarrow> bool" where
  "lseg H p h [] n l \<longleftrightarrow> h = n \<and> l = p"
| "lseg H p h (a # as) n l \<longleftrightarrow>
     h = Some a \<and> (case H a of None \<Rightarrow> False | Some e \<Rightarrow> list_prev e = p \<and> lseg H (Some a) (list_next e) as n l)"

lemma chain_append: "chain H h (xs @ ys) n \<longleftrightarrow> (\<exists>m. chain H h xs m \<and> chain H m ys n)"
  by (induction xs arbitrary: h) (auto split: option.splits)

lemma lseg_append: "lseg H p h (xs @ ys) n l \<longleftrightarrow> (\<exists>m q. lseg H p h xs m q \<and> lseg H q m ys n l)"
  by (induction xs arbitrary: p h) (auto split: option.splits)

lemma chain_cong:
  "(\<And>a. a \<in> set xs \<Longrightarrow> map_option hash_next (H' a) = map_option hash_next (H a)) \<Longrightarrow> chain H' h xs n = chain H h xs n"
proof (induction xs arbitrary: h)
  case (Cons a xs)
  have "map_option hash_next (H' a) = map_option hash_next (H a)" using Cons.prems by simp
  then show ?case using Cons.IH Cons.prems by (cases "H a"; cases "H' a") auto
qed simp

definition list_links :: "in_flight_entry \<Rightarrow> if_addr option \<times> if_addr option" where
  "list_links e = (list_prev e, list_next e)"

lemma lseg_cong:
  "(\<And>a. a \<in> set xs \<Longrightarrow> map_option list_links (H' a) = map_option list_links (H a)) \<Longrightarrow>
   lseg H' p h xs n l = lseg H p h xs n l"
proof (induction xs arbitrary: p h)
  case (Cons a xs)
  have "map_option list_links (H' a) = map_option list_links (H a)" using Cons.prems by simp
  then show ?case using Cons.IH Cons.prems by (cases "H a"; cases "H' a") (auto simp: list_links_def)
qed simp

lemma chain_defined: "chain H h xs n \<Longrightarrow> a \<in> set xs \<Longrightarrow> \<exists>e. H a = Some e"
  by (induction xs arbitrary: h) (auto split: option.splits)

lemma lseg_defined: "lseg H p h xs n l \<Longrightarrow> a \<in> set xs \<Longrightarrow> \<exists>e. H a = Some e"
  by (induction xs arbitrary: p h) (auto split: option.splits)

lemma lseg_last: "lseg H p h (xs @ [a]) n l \<Longrightarrow> l = Some a"
  by (auto simp: lseg_append split: option.splits)

text \<open>What an entry is about.\<close>

definition if_data :: "in_flight_entry \<Rightarrow> u32 \<times> u32 \<times> u64 \<times> u64 \<times> u64 \<times> u64" where
  "if_data e = (if_tenant_id e, if_flow_id e, if_work_size e, dequeue_time_ns e, if_timeout_ns e, if_user_data e)"

definition if_info :: "in_flight \<Rightarrow> if_addr \<Rightarrow> (u32 \<times> u32 \<times> u64 \<times> u64 \<times> u64 \<times> u64) option" where
  "if_info st a = map_option if_data (if_entries st a)"

definition bucket_of :: "in_flight \<Rightarrow> if_addr \<Rightarrow> nat" where
  "bucket_of st a = unat (hash_user_data (if_user_data (the (if_entries st a))))"

text \<open>The entries in flight are \<open>xs\<close>, in the order of dequeuing, and bucket \<open>b\<close> holds \<open>B b\<close>.\<close>

definition ifl_wf :: "in_flight \<Rightarrow> if_addr list \<Rightarrow> (nat \<Rightarrow> if_addr list) \<Rightarrow> bool" where
  "ifl_wf st xs B \<longleftrightarrow>
     length (in_flight_hash st) = 1024 \<and> distinct xs \<and>
     lseg (if_entries st) None (in_flight_head st) xs None (in_flight_tail st) \<and>
     (\<forall>b < 1024. chain (if_entries st) (in_flight_hash st ! b) (B b) None \<and> distinct (B b) \<and>
       set (B b) = {a \<in> set xs. bucket_of st a = b})"

lemma bucket_bound: "unat (hash_user_data k) < 1024"
proof -
  have "(1023 :: u64) = mask 10" by (simp add: mask_eq_exp_minus_1)
  then have "(k * 2654435761) AND 1023 = take_bit 10 (k * 2654435761)" by (simp add: take_bit_eq_mask)
  then have "unat ((k * 2654435761) AND 1023) = take_bit 10 (unat (k * 2654435761))"
    by (simp add: unsigned_take_bit_eq)
  also have "\<dots> < 2 ^ 10" by (rule take_bit_nat_less_exp)
  finally show ?thesis by (simp add: hash_user_data_def unsigned_ucast_eq take_bit_nat_eq_self)
qed

lemma chain_fun: "chain H h xs n \<Longrightarrow> xs \<noteq> [] \<Longrightarrow> h = Some (hd xs)"
  by (cases xs) auto

lemma lseg_ends:
  "lseg H p h xs n l \<Longrightarrow> h = (if xs = [] then n else Some (hd xs)) \<and> l = (if xs = [] then p else Some (last xs))"
proof (induction xs arbitrary: p h)
  case (Cons a xs)
  then obtain e where "H a = Some e" "lseg H (Some a) (list_next e) xs n l" by (auto split: option.splits)
  then have "l = (if xs = [] then Some a else Some (last xs))" using Cons.IH by blast
  then show ?case using Cons.prems by simp
qed simp

text \<open>Redirecting the link out of the last element of a chain, or the one out of the last element of the list.\<close>

lemma chain_redirect:
  assumes "chain H h (us @ [p]) n" "distinct (us @ [p])" "H p = Some e"
    and "\<And>a. a \<in> set us \<Longrightarrow> map_option hash_next (H' a) = map_option hash_next (H a)"
    and "H' p = Some e'" "hash_next e' = m"
  shows "chain H' h (us @ [p]) m"
proof -
  obtain k where "chain H h us k" "chain H k [p] n" using assms(1) by (auto simp: chain_append)
  moreover have "chain H' h us k = chain H h us k" by (rule chain_cong) (rule assms(4))
  ultimately show ?thesis using assms(5,6) by (auto simp: chain_append)
qed

lemma lseg_redirect:
  assumes "lseg H q h (us @ [p]) n l" "distinct (us @ [p])" "H p = Some e"
    and "\<And>a. a \<in> set us \<Longrightarrow> map_option list_links (H' a) = map_option list_links (H a)"
    and "H' p = Some e'" "list_next e' = m" "list_prev e' = list_prev e"
  shows "lseg H' q h (us @ [p]) m l"
proof -
  obtain k r where "lseg H q h us k r" "lseg H r k [p] n l" using assms(1) by (auto simp: lseg_append)
  moreover have "lseg H' q h us k r = lseg H q h us k r" by (rule lseg_cong) (rule assms(4))
  ultimately show ?thesis using assms(3,5-7) by (auto simp: lseg_append)
qed

lemma lseg_restart:
  assumes "lseg H q h (x # xs) n l" "H x = Some e"
    and "\<And>a. a \<in> set xs \<Longrightarrow> map_option list_links (H' a) = map_option list_links (H a)"
    and "H' x = Some e'" "list_next e' = list_next e" "list_prev e' = p"
  shows "lseg H' p h (x # xs) n l"
proof -
  have "lseg H' (Some x) (list_next e) xs n l = lseg H (Some x) (list_next e) xs n l"
    by (rule lseg_cong) (rule assms(3))
  then show ?thesis using assms(1,2,4-6) by simp
qed

lemma ifl_wfD:
  assumes "ifl_wf st xs B"
  shows "length (in_flight_hash st) = 1024" "distinct xs"
    "lseg (if_entries st) None (in_flight_head st) xs None (in_flight_tail st)"
    "\<And>b. b < 1024 \<Longrightarrow> chain (if_entries st) (in_flight_hash st ! b) (B b) None"
    "\<And>b. b < 1024 \<Longrightarrow> distinct (B b)" "\<And>b. b < 1024 \<Longrightarrow> set (B b) = {a \<in> set xs. bucket_of st a = b}"
  using assms by (simp_all add: ifl_wf_def)

lemma ifl_wfI:
  assumes "length (in_flight_hash st) = 1024" "distinct xs"
    "lseg (if_entries st) None (in_flight_head st) xs None (in_flight_tail st)"
    "\<And>b. b < 1024 \<Longrightarrow> chain (if_entries st) (in_flight_hash st ! b) (B b) None"
    "\<And>b. b < 1024 \<Longrightarrow> distinct (B b)" "\<And>b. b < 1024 \<Longrightarrow> set (B b) = {a \<in> set xs. bucket_of st a = b}"
  shows "ifl_wf st xs B"
  using assms by (simp add: ifl_wf_def)

lemma bucket_of_bound: "bucket_of st a < 1024"
  by (simp add: bucket_of_def bucket_bound)

lemma bucket_of_entry: "if_entries st a = Some e \<Longrightarrow> unat (hash_user_data (if_user_data e)) = bucket_of st a"
  by (simp add: bucket_of_def)

lemma if_info_Some: "if_info st a = Some d \<Longrightarrow> \<exists>e. if_entries st a = Some e \<and> if_data e = d"
  by (auto simp: if_info_def)

lemma if_info_bucket: "if_info st' a = if_info st a \<Longrightarrow> bucket_of st' a = bucket_of st a"
  by (cases "if_entries st a"; cases "if_entries st' a") (auto simp: if_info_def if_data_def bucket_of_def)

lemma modify_entry_eq:
  "if_entries st a = Some e \<Longrightarrow> modify_entry a f st = Some (st\<lparr>if_entries := (if_entries st)(a \<mapsto> f e)\<rparr>)"
  by (simp add: modify_entry_def)

section \<open>Insertion\<close>

lemma insert_run:
  assumes e: "if_entries st a = Some e" and len: "length (in_flight_hash st) = 1024"
    and tail: "\<And>t. in_flight_tail st = Some t \<Longrightarrow> t \<noteq> a \<and> if_entries st t = Some et"
  shows "in_flight_insert a st =
    (let b = bucket_of st a;
         e' = e\<lparr>hash_next := in_flight_hash st ! b, list_next := None, list_prev := in_flight_tail st\<rparr>
     in Some (case in_flight_tail st of
         None \<Rightarrow> st\<lparr>if_entries := (if_entries st)(a \<mapsto> e'), in_flight_hash := (in_flight_hash st)[b := Some a],
             in_flight_head := Some a, in_flight_tail := Some a\<rparr>
       | Some t \<Rightarrow> st\<lparr>if_entries := (if_entries st)(a \<mapsto> e', t \<mapsto> et\<lparr>list_next := Some a\<rparr>),
             in_flight_hash := (in_flight_hash st)[b := Some a], in_flight_tail := Some a\<rparr>))"
  using e tail bucket_of_bound [of st a] len
  by (cases "in_flight_tail st")
    (simp_all add: in_flight_insert_def bucket_of_entry [OF e] modify_entry_def Let_def)

lemma insert_ok:
  assumes wf: "ifl_wf st xs B" and e: "if_entries st a = Some e" and new: "a \<notin> set xs"
  obtains st' where "in_flight_insert a st = Some st'"
    "ifl_wf st' (xs @ [a]) (B(bucket_of st a := a # B (bucket_of st a)))"
    "if_info st' = if_info st" "in_flight_work_size st' = in_flight_work_size st"
    "in_flight_count st' = in_flight_count st" "\<And>c. c \<noteq> a \<Longrightarrow> c \<notin> set xs \<Longrightarrow> if_entries st' c = if_entries st c"
proof -
  note w = ifl_wfD [OF wf]
  let ?b = "bucket_of st a"
  let ?e = "e\<lparr>hash_next := in_flight_hash st ! ?b, list_next := None, list_prev := in_flight_tail st\<rparr>"
  have tail: "in_flight_tail st = (if xs = [] then None else Some (last xs))"
    and head: "in_flight_head st = (if xs = [] then None else Some (hd xs))"
    using lseg_ends [OF w(3)] by auto
  have "\<exists>et. \<forall>t. in_flight_tail st = Some t \<longrightarrow> t \<noteq> a \<and> if_entries st t = Some et"
    using lseg_defined [OF w(3), of "last xs"] tail new by (cases "xs = []") auto
  then obtain et where et: "\<And>t. in_flight_tail st = Some t \<Longrightarrow> t \<noteq> a \<and> if_entries st t = Some et" by blast
  define H where "H = (case in_flight_tail st of None \<Rightarrow> (if_entries st)(a \<mapsto> ?e)
    | Some t \<Rightarrow> (if_entries st)(a \<mapsto> ?e, t \<mapsto> et\<lparr>list_next := Some a\<rparr>))"
  define st' where "st' = st\<lparr>if_entries := H, in_flight_hash := (in_flight_hash st)[?b := Some a],
    in_flight_head := (if xs = [] then Some a else in_flight_head st), in_flight_tail := Some a\<rparr>"
  have run: "in_flight_insert a st = Some st'"
    unfolding st'_def H_def by (subst insert_run [OF e w(1), of et]) (use et in \<open>auto simp: Let_def tail head\<close>)
  have Ha: "H a = Some ?e" using et by (auto simp: H_def split: option.splits)
  have other: "H c = if_entries st c" if "c \<noteq> a" "in_flight_tail st \<noteq> Some c" for c
    using that by (auto simp: H_def split: option.splits)
  have hash: "map_option hash_next (H c) = map_option hash_next (if_entries st c)" if "c \<noteq> a" for c
    using that et by (auto simp: H_def split: option.splits)
  have data: "if_info st' = if_info st"
  proof
    fix c show "if_info st' c = if_info st c"
      using et e by (auto simp: H_def st'_def if_info_def if_data_def split: option.splits)
  qed
  have bucket: "bucket_of st' c = bucket_of st c" for c by (rule if_info_bucket) (simp add: data)
  have list: "lseg H None (in_flight_head st') (xs @ [a]) None (Some a)"
  proof (cases "xs = []")
    case True
    then show ?thesis using Ha tail by (simp add: st'_def)
  next
    case False
    then obtain ys t where xs: "xs = ys @ [t]" by (cases xs rule: rev_cases) auto
    have t: "t \<noteq> a \<and> if_entries st t = Some et" using et tail xs by simp
    have Ht: "H t = Some (et\<lparr>list_next := Some a\<rparr>)" by (simp add: H_def tail xs)
    have "lseg H None (in_flight_head st) (ys @ [t]) (Some a) (in_flight_tail st)"
    proof (rule lseg_redirect [where e' = "et\<lparr>list_next := Some a\<rparr>", OF w(3) [unfolded xs] w(2) [unfolded xs] t [THEN conjunct2]])
      fix c assume "c \<in> set ys"
      then have "H c = if_entries st c" using new w(2) xs tail by (intro other) auto
      then show "map_option list_links (H c) = map_option list_links (if_entries st c)" by simp
    qed (simp_all add: Ht)
    moreover have "lseg H (in_flight_tail st) (Some a) [a] None (Some a)" using Ha by simp
    ultimately have "lseg H None (in_flight_head st) ((ys @ [t]) @ [a]) None (Some a)"
      by (subst lseg_append) (intro exI conjI)
    then show ?thesis using xs by (simp add: st'_def)
  qed
  have "ifl_wf st' (xs @ [a]) (B(?b := a # B ?b))"
  proof (rule ifl_wfI)
    show "length (in_flight_hash st') = 1024" using w(1) by (simp add: st'_def)
    show "distinct (xs @ [a])" using w(2) new by simp
    show "lseg (if_entries st') None (in_flight_head st') (xs @ [a]) None (in_flight_tail st')"
      using list by (simp add: st'_def)
  next
    fix c :: nat assume c: "c < 1024"
    have "chain H (in_flight_hash st ! c) (B c) None"
      using w(4,6) [OF c] new by (subst chain_cong [where H = "if_entries st"]) (auto intro!: hash)
    then show "chain (if_entries st') (in_flight_hash st' ! c) ((B(?b := a # B ?b)) c) None"
      using Ha c w(1) bucket_of_bound [of st a] by (auto simp: st'_def nth_list_update)
    show "distinct ((B(?b := a # B ?b)) c)" using w(5,6) [OF c] new by auto
    show "set ((B(?b := a # B ?b)) c) = {x \<in> set (xs @ [a]). bucket_of st' x = c}"
      using w(6) [OF c] by (auto simp: bucket)
  qed
  moreover have "if_entries st' c = if_entries st c" if "c \<noteq> a" "c \<notin> set xs" for c
  proof -
    have "xs \<noteq> [] \<Longrightarrow> last xs \<noteq> c" using that(2) last_in_set by blast
    then show ?thesis using that(1) other [of c] tail by (cases "xs = []") (auto simp: st'_def)
  qed
  ultimately show ?thesis using that [OF run _ data] by (simp add: st'_def)
qed

section \<open>Removal\<close>

lemma hash_unlink_eq:
  "load_link b prev st = Some h \<Longrightarrow> chain (if_entries st) h (us @ a # vs) None \<Longrightarrow> distinct (us @ a # vs) \<Longrightarrow>
   if_entries st a = Some e \<Longrightarrow>
   hash_unlink b a prev st = store_link b (if us = [] then prev else Some (last us)) (hash_next e) st"
proof (induction us arbitrary: prev h)
  case Nil
  then show ?case by (simp add: hash_unlink.simps [of b a prev])
next
  case (Cons u us)
  obtain eu where u: "h = Some u" "if_entries st u = Some eu" "chain (if_entries st) (hash_next eu) (us @ a # vs) None"
    using Cons.prems(2) by (auto split: option.splits)
  have "load_link b (Some u) st = Some (hash_next eu)" using u by (simp add: load_link_def)
  note IH = Cons.IH [OF this u(3) _ Cons.prems(4)]
  have "u \<noteq> a" using Cons.prems(3) by auto
  then have "hash_unlink b a prev st = hash_unlink b a (Some u) st"
    using Cons.prems(1) u by (subst hash_unlink.simps) simp
  also have "\<dots> = store_link b (if us = [] then Some u else Some (last us)) (hash_next e) st"
    using IH Cons.prems(3) by simp
  finally show ?case by simp
qed

text \<open>What an operation on the links of other entries leaves alone.\<close>

definition same_but :: "if_addr set \<Rightarrow> in_flight \<Rightarrow> in_flight \<Rightarrow> bool" where
  "same_but A st' st \<longleftrightarrow>
     if_info st' = if_info st \<and> in_flight_work_size st' = in_flight_work_size st \<and>
     in_flight_count st' = in_flight_count st \<and> length (in_flight_hash st') = length (in_flight_hash st) \<and>
     (\<forall>c. c \<notin> A \<longrightarrow> if_entries st' c = if_entries st c)"

lemma if_info_upd:
  "if_entries st p = Some e \<Longrightarrow> if_data e' = if_data e \<Longrightarrow> if_info (st\<lparr>if_entries := (if_entries st)(p \<mapsto> e')\<rparr>) = if_info st"
  by (auto simp: if_info_def fun_eq_iff)

lemma if_data_links [simp]:
  "if_data (e\<lparr>hash_next := h\<rparr>) = if_data e" "if_data (e\<lparr>list_next := h\<rparr>) = if_data e"
  "if_data (e\<lparr>list_prev := h\<rparr>) = if_data e"
  by (simp_all add: if_data_def)

lemma hash_unlink_ok:
  assumes len: "length (in_flight_hash st) = 1024" and b: "b < 1024"
    and ch: "chain (if_entries st) (in_flight_hash st ! b) (us @ a # vs) None" and d: "distinct (us @ a # vs)"
    and e: "if_entries st a = Some e"
  obtains st' where "hash_unlink b a None st = Some st'" "same_but (set us) st' st"
    "chain (if_entries st') (in_flight_hash st' ! b) (us @ vs) None"
    "\<And>c. c \<noteq> b \<Longrightarrow> in_flight_hash st' ! c = in_flight_hash st ! c"
    "\<And>c. map_option list_links (if_entries st' c) = map_option list_links (if_entries st c)"
    "in_flight_head st' = in_flight_head st" "in_flight_tail st' = in_flight_tail st"
proof -
  have "load_link b None st = Some (in_flight_hash st ! b)" using b len by (simp add: load_link_def)
  note run = hash_unlink_eq [OF this ch d e]
  obtain k where us: "chain (if_entries st) (in_flight_hash st ! b) us k" "k = Some a"
    and vs: "chain (if_entries st) (hash_next e) vs None"
    using ch e by (auto simp: chain_append)
  show ?thesis
  proof (cases us rule: rev_cases)
    case Nil
    let ?st = "st\<lparr>in_flight_hash := (in_flight_hash st)[b := hash_next e]\<rparr>"
    have "hash_unlink b a None st = Some ?st" using run Nil b len by (simp add: store_link_def)
    then show ?thesis using that [of ?st] vs Nil b len by (simp add: same_but_def if_info_def fun_eq_iff)
  next
    case (snoc ys p)
    obtain ep where p: "if_entries st p = Some ep" using chain_defined [OF us(1)] snoc by auto
    let ?st = "st\<lparr>if_entries := (if_entries st)(p \<mapsto> ep\<lparr>hash_next := hash_next e\<rparr>)\<rparr>"
    have st: "hash_unlink b a None st = Some ?st" using run snoc p by (simp add: store_link_def modify_entry_eq)
    have "chain (if_entries ?st) (in_flight_hash st ! b) us (hash_next e)"
      unfolding snoc by (rule chain_redirect [where e' = "ep\<lparr>hash_next := hash_next e\<rparr>", OF us(1) [unfolded snoc] _ p]) (use d snoc in auto)
    moreover have "chain (if_entries ?st) (hash_next e) vs None"
      using vs d snoc by (subst chain_cong [where H = "if_entries st"]) auto
    ultimately have "chain (if_entries ?st) (in_flight_hash st ! b) (us @ vs) None" by (auto simp: chain_append)
    then show ?thesis using p snoc
      by (intro that [OF st]) (auto simp: same_but_def if_info_upd list_links_def)
  qed
qed

lemma list_unlink_ok:
  assumes l: "lseg (if_entries st) None (in_flight_head st) (ys @ a # zs) None (in_flight_tail st)"
    and d: "distinct (ys @ a # zs)"
  obtains st' where "list_unlink a st = Some st'" "same_but (set (ys @ zs)) st' st"
    "lseg (if_entries st') None (in_flight_head st') (ys @ zs) None (in_flight_tail st')"
    "\<And>c. map_option hash_next (if_entries st' c) = map_option hash_next (if_entries st c)"
    "in_flight_hash st' = in_flight_hash st"
proof -
  let ?H = "if_entries st"
  obtain k q where ys: "lseg ?H None (in_flight_head st) ys k q" "lseg ?H q k (a # zs) None (in_flight_tail st)"
    using l by (auto simp: lseg_append)
  then obtain e where e: "?H a = Some e" "k = Some a" "list_prev e = q"
    and zs: "lseg ?H (Some a) (list_next e) zs None (in_flight_tail st)" by (auto split: option.splits)
  note ends = lseg_ends [OF ys(1)] lseg_ends [OF zs]
  let ?st1 = "case q of None \<Rightarrow> st\<lparr>in_flight_head := list_next e\<rparr>
    | Some p \<Rightarrow> st\<lparr>if_entries := ?H(p \<mapsto> (the (?H p))\<lparr>list_next := list_next e\<rparr>)\<rparr>"
  have ydef: "\<exists>ep. ?H c = Some ep" if "c \<in> set ys" for c using lseg_defined [OF ys(1) that] .
  have zdef: "\<exists>en. ?H c = Some en" if "c \<in> set zs" for c using lseg_defined [OF zs that] .
  define st1 where "st1 = ?st1"
  have step1: "(case list_prev e of Some p \<Rightarrow> modify_entry p (\<lambda>r. r\<lparr>list_next := list_next e\<rparr>) st
      | None \<Rightarrow> Some (st\<lparr>in_flight_head := list_next e\<rparr>)) = Some st1"
    using e ends ydef [of "last ys"] by (cases "ys = []") (auto simp: st1_def modify_entry_eq)
  have l1: "lseg (if_entries st1) None (in_flight_head st1) ys (list_next e) q"
  proof (cases ys rule: rev_cases)
    case Nil then show ?thesis using ys(1) ends by (simp add: st1_def)
  next
    case (snoc us p)
    then obtain ep where p: "?H p = Some ep" using ydef by auto
    have q: "q = Some p" using ends snoc by simp
    have "lseg (if_entries st1) None (in_flight_head st) ys (list_next e) q"
      unfolding snoc by (rule lseg_redirect [where e' = "ep\<lparr>list_next := list_next e\<rparr>",
        OF ys(1) [unfolded snoc] _ p]) (use d snoc q p in \<open>auto simp: st1_def\<close>)
    then show ?thesis by (simp add: st1_def q)
  qed
  have st1: "same_but (set ys) st1 st" "in_flight_hash st1 = in_flight_hash st" "in_flight_tail st1 = in_flight_tail st"
      "map_option hash_next (if_entries st1 c) = map_option hash_next (if_entries st c)" for c
    using ends ydef [of "last ys"] by (cases "ys = []"; auto simp: st1_def same_but_def if_info_upd if_info_def fun_eq_iff)+
  have a1: "if_entries st1 a = Some e" using st1(1) d e by (simp add: same_but_def)
  have z1: "lseg (if_entries st1) (Some a) (list_next e) zs None (in_flight_tail st)"
    using zs st1(1) d by (subst lseg_cong [where H = ?H]) (auto simp: same_but_def)
  define st2 where "st2 = (case list_next e of None \<Rightarrow> st1\<lparr>in_flight_tail := q\<rparr>
    | Some n \<Rightarrow> st1\<lparr>if_entries := (if_entries st1)(n \<mapsto> (the (if_entries st1 n))\<lparr>list_prev := q\<rparr>)\<rparr>)"
  have zdef1: "\<exists>en. if_entries st1 c = Some en" if "c \<in> set zs" for c using lseg_defined [OF z1 that] .
  have step2: "(case list_next e of Some n \<Rightarrow> modify_entry n (\<lambda>r. r\<lparr>list_prev := list_prev e\<rparr>) st1
      | None \<Rightarrow> Some (st1\<lparr>in_flight_tail := list_prev e\<rparr>)) = Some st2"
    using e ends zdef1 [of "hd zs"] by (cases "zs = []") (auto simp: st2_def modify_entry_eq)
  have st2: "same_but (set zs) st2 st1" "in_flight_hash st2 = in_flight_hash st1" "in_flight_head st2 = in_flight_head st1"
      "map_option hash_next (if_entries st2 c) = map_option hash_next (if_entries st1 c)" for c
    using ends zdef1 [of "hd zs"] by (cases "zs = []"; auto simp: st2_def same_but_def if_info_upd if_info_def fun_eq_iff)+
  have "lseg (if_entries st2) q (list_next e) zs None (in_flight_tail st2)"
  proof (cases zs)
    case Nil then show ?thesis using ends by (simp add: st2_def)
  next
    case (Cons n ws)
    then obtain en where n: "if_entries st1 n = Some en" using zdef1 by auto
    have nx: "list_next e = Some n" using ends Cons by simp
    have "lseg (if_entries st2) q (list_next e) zs None (in_flight_tail st)"
      unfolding Cons by (rule lseg_restart [where e' = "en\<lparr>list_prev := q\<rparr>", OF z1 [unfolded Cons] n])
        (use d Cons nx n in \<open>auto simp: st2_def\<close>)
    then show ?thesis using st1(3) by (simp add: st2_def nx)
  qed
  moreover have "lseg (if_entries st2) None (in_flight_head st2) ys (list_next e) q"
    using l1 st2(1,3) d by (subst lseg_cong [where H = "if_entries st1"]) (auto simp: same_but_def)
  ultimately have "lseg (if_entries st2) None (in_flight_head st2) (ys @ zs) None (in_flight_tail st2)"
    by (auto simp: lseg_append)
  moreover have "same_but (set (ys @ zs)) st2 st" using st1(1) st2(1) by (simp add: same_but_def)
  moreover have "list_unlink a st = Some st2"
    using step1 step2 a1 by (simp add: list_unlink_def e(1) del: option.case)
  ultimately show ?thesis using that [of st2] st1(2,4) st2(2,4) by simp
qed

lemma same_butD:
  assumes "same_but A st' st"
  shows "if_info st' = if_info st" "in_flight_work_size st' = in_flight_work_size st"
    "in_flight_count st' = in_flight_count st" "length (in_flight_hash st') = length (in_flight_hash st)"
    "\<And>c. c \<notin> A \<Longrightarrow> if_entries st' c = if_entries st c" "\<And>c. bucket_of st' c = bucket_of st c"
  using assms if_info_bucket [of st'] by (simp_all add: same_but_def)

lemma remove_ok:
  assumes wf: "ifl_wf st xs B" and a: "a \<in> set xs"
  obtains st' where "in_flight_remove a st = Some st'" "ifl_wf st' (remove1 a xs) (\<lambda>b. remove1 a (B b))"
    "same_but (set (remove1 a xs)) st' st"
proof -
  note w = ifl_wfD [OF wf]
  let ?b = "bucket_of st a"
  have b: "?b < 1024" by (rule bucket_of_bound)
  have "a \<in> set (B ?b)" using w(6) [OF b] a by simp
  then obtain us vs where B: "B ?b = us @ a # vs" using split_list by fast
  obtain ys zs where xs: "xs = ys @ a # zs" using a split_list by fast
  obtain e where e: "if_entries st a = Some e" using lseg_defined [OF w(3) a] by blast
  have dB: "distinct (us @ a # vs)" using w(5) [OF b] B by simp
  have dx: "distinct (ys @ a # zs)" using w(2) xs by simp
  have keep: "remove1 a xs = ys @ zs" "remove1 a (B ?b) = us @ vs"
    using dx dB by (simp_all add: xs B remove1_append)
  have other: "a \<notin> set (B c)" "set us \<inter> set (B c) = {}" if "c < 1024" "c \<noteq> ?b" for c
    using w(6) [OF that(1)] w(6) [OF b] B that(2) by auto
  have sub: "set us \<subseteq> set (ys @ zs)" using w(6) [OF b] B dB xs by auto
  obtain st1 where h: "hash_unlink ?b a None st = Some st1" "same_but (set us) st1 st"
    "chain (if_entries st1) (in_flight_hash st1 ! ?b) (us @ vs) None"
    "\<And>c. c \<noteq> ?b \<Longrightarrow> in_flight_hash st1 ! c = in_flight_hash st ! c"
    "\<And>c. map_option list_links (if_entries st1 c) = map_option list_links (if_entries st c)"
    "in_flight_head st1 = in_flight_head st" "in_flight_tail st1 = in_flight_tail st"
    using hash_unlink_ok [OF w(1) b w(4) [OF b, unfolded B] dB e] by metis
  have "lseg (if_entries st1) None (in_flight_head st1) (ys @ a # zs) None (in_flight_tail st1)"
    using w(3) h(5-7) xs by (subst lseg_cong [where H = "if_entries st"]) simp_all
  then obtain st2 where l: "list_unlink a st1 = Some st2" "same_but (set (ys @ zs)) st2 st1"
    "lseg (if_entries st2) None (in_flight_head st2) (ys @ zs) None (in_flight_tail st2)"
    "\<And>c. map_option hash_next (if_entries st2 c) = map_option hash_next (if_entries st1 c)"
    "in_flight_hash st2 = in_flight_hash st1"
    using list_unlink_ok [OF _ dx] by metis
  have run: "in_flight_remove a st = Some st2"
    using h(1) l(1) e by (simp add: in_flight_remove_def bucket_of_entry)
  have same: "same_but (set (ys @ zs)) st2 st" using h(2) l(2) sub by (auto simp: same_but_def)
  have chains: "chain (if_entries st2) (in_flight_hash st2 ! c) (remove1 a (B c)) None" if c: "c < 1024" for c
  proof (cases "c = ?b")
    case True
    then show ?thesis using h(3) l(4,5) keep by (subst chain_cong [where H = "if_entries st1"]) simp_all
  next
    case False
    have "chain (if_entries st1) (in_flight_hash st ! c) (B c) None"
    proof (subst chain_cong [where H = "if_entries st"])
      fix x assume "x \<in> set (B c)"
      then have "x \<notin> set us" using other(2) [OF c False] by blast
      then show "map_option hash_next (if_entries st1 x) = map_option hash_next (if_entries st x)"
        using same_butD(5) [OF h(2)] by simp
    qed (rule w(4) [OF c])
    then show ?thesis using l(4,5) h(4) [OF False] other(1) [OF c False]
      by (subst chain_cong [where H = "if_entries st1"]) (simp_all add: remove1_idem)
  qed
  have "ifl_wf st2 (remove1 a xs) (\<lambda>b. remove1 a (B b))"
  proof (rule ifl_wfI)
    show "distinct (remove1 a xs)" using w(2) by (rule distinct_remove1)
  next
    fix c :: nat assume c: "c < 1024"
    show "chain (if_entries st2) (in_flight_hash st2 ! c) (remove1 a (B c)) None" by (rule chains [OF c])
    show "distinct (remove1 a (B c))" using w(5) [OF c] by (rule distinct_remove1)
    show "set (remove1 a (B c)) = {x \<in> set (remove1 a xs). bucket_of st2 x = c}"
      using w(2,5,6) c by (auto simp: set_remove1_eq same_butD(6) [OF same])
  qed (use w(1) l(3) keep same in \<open>simp_all add: same_but_def\<close>)
  then show ?thesis using that [OF run] same keep by simp
qed

section \<open>Searches\<close>

lemma find_in_bucket_eq:
  "chain H h xs None \<Longrightarrow> find_in_bucket H k t f h = Some (find (\<lambda>a. \<exists>e. H a = Some e \<and>
     if_user_data e = k \<and> if_tenant_id e = t \<and> if_flow_id e = f) xs)"
proof (induction xs arbitrary: h)
  case Nil
  then show ?case by (simp add: find_in_bucket.simps)
next
  case (Cons a xs)
  then obtain e where "h = Some a" "H a = Some e" "chain H (hash_next e) xs None" by (auto split: option.splits)
  then show ?case using Cons.IH by (subst find_in_bucket.simps) simp
qed

lemma find_in_list_eq:
  "lseg H p h xs None l \<Longrightarrow> find_in_list H P h = Some (find (\<lambda>a. \<exists>e. H a = Some e \<and> P e) xs)"
proof (induction xs arbitrary: p h)
  case Nil
  then show ?case by (simp add: find_in_list.simps)
next
  case (Cons a xs)
  then obtain e where "h = Some a" "H a = Some e" "lseg H (Some a) (list_next e) xs None l"
    by (auto split: option.splits)
  then show ?case using Cons.IH by (subst find_in_list.simps) simp
qed

lemma in_flight_find_eq:
  assumes wf: "ifl_wf st xs B"
  shows "in_flight_find k t f st = Some (find (\<lambda>a. \<exists>e. if_entries st a = Some e \<and>
     if_user_data e = k \<and> if_tenant_id e = t \<and> if_flow_id e = f) (B (unat (hash_user_data k))))"
  using ifl_wfD(1) [OF wf] bucket_bound [of k]
  by (simp add: in_flight_find_def find_in_bucket_eq [OF ifl_wfD(4) [OF wf bucket_bound]])

section \<open>The sequence of work in flight\<close>

text \<open>A bucket holds its entries in the reverse of the order of dequeuing.\<close>

definition in_flight_seq :: "in_flight \<Rightarrow> if_addr list \<Rightarrow> bool" where
  "in_flight_seq st xs \<longleftrightarrow> ifl_wf st xs (\<lambda>b. rev (filter (\<lambda>a. bucket_of st a = b) xs))"

lemma filter_remove1: "distinct xs \<Longrightarrow> filter P (remove1 a xs) = remove1 a (filter P xs)"
  by (induction xs) (auto simp: remove1_idem)

lemma rev_remove1: "distinct xs \<Longrightarrow> rev (remove1 a xs) = remove1 a (rev xs)"
  by (simp add: distinct_remove1_removeAll removeAll_filter_not_eq rev_filter)

lemma find_filter: "(\<And>x. P x \<Longrightarrow> Q x) \<Longrightarrow> find P (filter Q xs) = find P xs"
  by (induction xs) auto

lemma seq_insert:
  assumes s: "in_flight_seq st xs" and e: "if_entries st a = Some e" and new: "a \<notin> set xs"
  obtains st' where "in_flight_insert a st = Some st'" "in_flight_seq st' (xs @ [a])"
    "if_info st' = if_info st" "in_flight_work_size st' = in_flight_work_size st"
    "in_flight_count st' = in_flight_count st" "\<And>c. c \<noteq> a \<Longrightarrow> c \<notin> set xs \<Longrightarrow> if_entries st' c = if_entries st c"
proof -
  obtain st' where i: "in_flight_insert a st = Some st'"
    "ifl_wf st' (xs @ [a]) ((\<lambda>b. rev (filter (\<lambda>a. bucket_of st a = b) xs))
      (bucket_of st a := a # rev (filter (\<lambda>c. bucket_of st c = bucket_of st a) xs)))"
    "if_info st' = if_info st" "in_flight_work_size st' = in_flight_work_size st"
    "in_flight_count st' = in_flight_count st" "\<And>c. c \<noteq> a \<Longrightarrow> c \<notin> set xs \<Longrightarrow> if_entries st' c = if_entries st c"
    using insert_ok [OF s [unfolded in_flight_seq_def] e new] by metis
  have "bucket_of st' c = bucket_of st c" for c by (rule if_info_bucket) (simp add: i(3))
  moreover have "(\<lambda>b. rev (filter (\<lambda>a. bucket_of st a = b) xs))
      (bucket_of st a := a # rev (filter (\<lambda>c. bucket_of st c = bucket_of st a) xs)) =
    (\<lambda>b. rev (filter (\<lambda>c. bucket_of st c = b) (xs @ [a])))"
    by (auto simp: fun_eq_iff)
  ultimately have "in_flight_seq st' (xs @ [a])" using i(2) by (simp add: in_flight_seq_def)
  then show ?thesis using that [OF i(1) _ i(3-5)] i(6) by blast
qed

lemma seq_remove:
  assumes s: "in_flight_seq st xs" and a: "a \<in> set xs"
  obtains st' where "in_flight_remove a st = Some st'" "in_flight_seq st' (remove1 a xs)"
    "same_but (set (remove1 a xs)) st' st"
proof -
  obtain st' where r: "in_flight_remove a st = Some st'"
    "ifl_wf st' (remove1 a xs) (\<lambda>b. remove1 a (rev (filter (\<lambda>a. bucket_of st a = b) xs)))"
    "same_but (set (remove1 a xs)) st' st"
    by (rule remove_ok [OF s [unfolded in_flight_seq_def] a])
  have "distinct xs" using ifl_wfD(2) [OF s [unfolded in_flight_seq_def]] .
  then have "in_flight_seq st' (remove1 a xs)"
    using r(2) by (simp add: in_flight_seq_def filter_remove1 rev_remove1 same_butD(6) [OF r(3)])
  then show ?thesis using that r by blast
qed

definition if_match :: "(in_flight_entry \<Rightarrow> bool) \<Rightarrow> in_flight \<Rightarrow> if_addr \<Rightarrow> bool" where
  "if_match P st a \<longleftrightarrow> (\<exists>e. if_entries st a = Some e \<and> P e)"

lemma seq_find:
  assumes s: "in_flight_seq st xs"
  shows "in_flight_find k t f st = Some (find (if_match (\<lambda>e. if_user_data e = k \<and> if_tenant_id e = t \<and> if_flow_id e = f) st) (rev xs))"
    "find_in_list (if_entries st) P (in_flight_head st) = Some (find (if_match P st) xs)"
proof -
  let ?P = "if_match (\<lambda>e. if_user_data e = k \<and> if_tenant_id e = t \<and> if_flow_id e = f) st"
  have "?P a \<Longrightarrow> bucket_of st a = unat (hash_user_data k)" for a
    by (auto simp: if_match_def bucket_of_def)
  then have "find ?P (filter (\<lambda>a. bucket_of st a = unat (hash_user_data k)) (rev xs)) = find ?P (rev xs)"
    by (rule find_filter)
  then show "in_flight_find k t f st = Some (find ?P (rev xs))"
    by (simp add: in_flight_find_eq [OF s [unfolded in_flight_seq_def]] if_match_def [abs_def] rev_filter)
  show "find_in_list (if_entries st) P (in_flight_head st) = Some (find (if_match P st) xs)"
    using find_in_list_eq [OF ifl_wfD(3) [OF s [unfolded in_flight_seq_def]]] by (simp add: if_match_def [abs_def])
qed

section \<open>Properties\<close>

definition example_entry :: "u64 \<Rightarrow> in_flight_entry" where
  "example_entry k = \<lparr>if_tenant_id = 0, if_flow_id = 1, if_work_size = 10, dequeue_time_ns = 100, if_timeout_ns = 0,
     if_user_data = k, hash_next = None, list_next = None, list_prev = None\<rparr>"

definition if_zero :: in_flight where
  "if_zero = \<lparr>in_flight_work_size = 0, in_flight_count = 0, in_flight_hash = replicate 1024 None,
     in_flight_head = None, in_flight_tail = None, if_entries = [5 \<mapsto> example_entry 64, 6 \<mapsto> example_entry 64]\<rparr>"

definition if_one :: in_flight where
  "if_one = the (in_flight_insert 5 if_zero)"

lemma if_zero_seq: "in_flight_seq if_zero []"
  by (simp add: in_flight_seq_def ifl_wf_def if_zero_def)

lemma if_one_seq: "in_flight_seq if_one [5]" "if_info if_one = if_info if_zero"
proof -
  have "if_entries if_zero 5 = Some (example_entry 64)" "5 \<notin> set []" by (simp_all add: if_zero_def)
  then obtain st' where "in_flight_insert 5 if_zero = Some st'" "in_flight_seq st' ([] @ [5])" "if_info st' = if_info if_zero"
    using seq_insert [OF if_zero_seq] by metis
  then show "in_flight_seq if_one [5]" "if_info if_one = if_info if_zero" by (simp_all add: if_one_def)
qed

lemma if_one_entry: "\<exists>e. if_entries if_one 6 = Some e"
  using fun_cong [OF if_one_seq(2), of 6] by (auto simp: if_info_def if_zero_def)

text \<open>
  C16. The table and the list of the work in flight always represent one sequence \<open>xs\<close> of entries, in
  the order of dequeuing: \<^const>\<open>in_flight_insert\<close> appends a new entry to it and
  \<^const>\<open>in_flight_remove\<close> takes out one that it holds, in both structures at once, and neither
  touches what an entry says of its work.
\<close>

theorem in_flight_tracks_sequence:
  assumes "in_flight_seq st xs"
  shows "(\<forall>a e. if_entries st a = Some e \<and> a \<notin> set xs \<longrightarrow>
      (\<exists>st'. in_flight_insert a st = Some st' \<and> in_flight_seq st' (xs @ [a]) \<and> if_info st' = if_info st)) \<and>
    (\<forall>a \<in> set xs. \<exists>st'. in_flight_remove a st = Some st' \<and> in_flight_seq st' (remove1 a xs) \<and> if_info st' = if_info st)"
proof (intro conjI allI ballI impI)
  fix a e assume "if_entries st a = Some e \<and> a \<notin> set xs"
  then show "\<exists>st'. in_flight_insert a st = Some st' \<and> in_flight_seq st' (xs @ [a]) \<and> if_info st' = if_info st"
    using seq_insert [OF assms] by metis
next
  fix a assume "a \<in> set xs"
  then show "\<exists>st'. in_flight_remove a st = Some st' \<and> in_flight_seq st' (remove1 a xs) \<and> if_info st' = if_info st"
    using seq_remove [OF assms] same_butD(1) by metis
qed

theorem in_flight_tracks_sequence_witness:
  "(\<exists>st'. in_flight_insert 6 if_one = Some st' \<and> in_flight_seq st' [5, 6] \<and> if_info st' = if_info if_one) \<and>
    (\<exists>st'. in_flight_remove 5 if_one = Some st' \<and> in_flight_seq st' [] \<and> if_info st' = if_info if_one)"
  using in_flight_tracks_sequence [OF if_one_seq(1)] if_one_entry by auto

text \<open>
  A search with a user pointer finds the matching entry that was dequeued last; the search without
  one, along the list, finds the matching entry that was dequeued first.  Both end, and both answer
  nothing exactly when no entry in flight matches.
\<close>

theorem in_flight_search_order:
  assumes "in_flight_seq st xs"
  shows "in_flight_find k t f st = Some (find (if_match (\<lambda>e. if_user_data e = k \<and> if_tenant_id e = t \<and> if_flow_id e = f) st) (rev xs)) \<and>
    find_in_list (if_entries st) (\<lambda>e. if_tenant_id e = t \<and> if_flow_id e = f) (in_flight_head st) =
      Some (find (if_match (\<lambda>e. if_tenant_id e = t \<and> if_flow_id e = f) st) xs)"
  using seq_find [OF assms] by blast

theorem in_flight_search_order_witness:
  "in_flight_find 64 0 1 if_one = Some (find (if_match (\<lambda>e. if_user_data e = 64 \<and> if_tenant_id e = 0 \<and> if_flow_id e = 1) if_one) (rev [5])) \<and>
    find_in_list (if_entries if_one) (\<lambda>e. if_tenant_id e = 0 \<and> if_flow_id e = 1) (in_flight_head if_one) =
      Some (find (if_match (\<lambda>e. if_tenant_id e = 0 \<and> if_flow_id e = 1) if_one) [5])"
  by (rule in_flight_search_order [OF if_one_seq(1)])

end
