(* ===== verification/HWFQ_State.thy ===== *)
theory HWFQ_State
  imports Group_Queue In_Flight
begin

text \<open>
  The state of the hierarchical scheduler: \<^verbatim>\<open>src/hwfq_internal.h\<close>, with the configuration and the
  session of \<^verbatim>\<open>include/hwfq.h\<close>.

  Both levels are group schedulers over \<open>addr\<close>: the user data of a session of the system level is the
  address of a tenant, that of a session of a tenant's level the address of a flow context.  The only
  cleanup callback the library passes to a level is \<open>flow_context_cleanup\<close>.

  \<^item> The entry storage of a level, \<open>tenant_entries\<close> of the scheduler and \<open>flow_entries\<close> of a tenant, is
    the field \<open>entries\<close> of the level that points to it.
  \<^item> Tenants, flow contexts and in-flight entries are heap objects, each kind in a map from addresses.
  \<^item> \<open>flow_scheduler\<close> and \<open>system_scheduler\<close> are set before the object that holds them becomes
    reachable and reset only when it is freed, so they are never NULL here.
  \<^item> The function pointers of the configuration are kept as "is set".  What the library calls through
    them, and through the cleanup function of a session, is the list of \<open>event\<close>s a call returns.
    The allocator and the clock are arguments of the calls that use them.
\<close>

section \<open>Data\<close>

type_synonym user_ptr = u64 \<comment> \<open>0 is NULL\<close>
type_synonym user_fn = nat

datatype level_cleanup = Flow_context_cleanup

type_synonym level = "(addr, level_cleanup) group_scheduler"

record hwfq_config =
  cfg_max_tenants :: u32
  cfg_max_flows_per_tenant :: u32
  cfg_max_total_flows :: u32
  cfg_num_groups :: u32
  cfg_bins_per_group :: u32
  cfg_total_capacity :: u64
  enable_statistics :: bool
  session_available_set :: bool
  session_timeout_set :: bool

record hwfq_capacity_info =
  info_total_capacity :: u64
  allocated_capacity :: u64
  available_capacity :: u64
  info_num_configured_tenants :: u32
  num_active_flows :: u32
  utilization_percent :: double_expr

record hwfq_session =
  sn_user_data :: user_ptr
  sn_work_size :: u64
  sn_timestamp :: u64
  sn_timeout_ns :: u64
  sn_cleanup_fn :: "user_fn option"

record tenant_config =
  tenant_id :: u32
  tenant_allocation :: hwfq_allocation
  tenant_configured :: bool
  flow_scheduler :: level
  has_backlog :: bool
  tenant_session :: "addr option"
  tenant_stats :: hwfq_stats
  tenant_tracking :: rate_tracking

record flow_session_context =
  ctx_tenant_id :: u32
  ctx_flow_id :: u32
  ctx_user_data :: user_ptr
  ctx_work_size :: u64
  ctx_enqueue_time_ns :: u64
  ctx_timeout_ns :: u64
  ctx_cleanup_fn :: "user_fn option"

record hwfq_scheduler =
  hwfq_cfg :: hwfq_config
  tenants :: "addr option list"
  num_configured_tenants :: u32
  total_active_flows :: u32
  hwfq_allocated_rate_capacity :: u64
  system_scheduler :: level
  flight :: in_flight
  tenant_heap :: "addr \<Rightarrow> tenant_config option"
  context_heap :: "addr \<Rightarrow> flow_session_context option"

datatype event =
    Session_available
  | Session_timeout u32 u32 user_ptr u64 u64
  | Cleanup user_fn user_ptr

abbreviation HWFQ_DEFAULT_NUM_GROUPS :: u32 where "HWFQ_DEFAULT_NUM_GROUPS \<equiv> 16"
abbreviation HWFQ_DEFAULT_BINS_PER_GROUP :: u32 where "HWFQ_DEFAULT_BINS_PER_GROUP \<equiv> 2048"
abbreviation HWFQ_ALL_TENANTS :: u32 where "HWFQ_ALL_TENANTS \<equiv> 0xFFFFFFFF"
abbreviation HWFQ_ALL_FLOWS :: u32 where "HWFQ_ALL_FLOWS \<equiv> 0xFFFFFFFF"
abbreviation HWFQ_FLOW_ID_RESERVED :: u32 where "HWFQ_FLOW_ID_RESERVED \<equiv> 0"

section \<open>Access to the objects\<close>

text \<open>\<open>tenant_at\<close> is the load \<open>scheduler->tenants[tenant_id]\<close>; \<open>put_tenant\<close> writes back a tenant.\<close>

definition tenant_at :: "u32 \<Rightarrow> hwfq_scheduler \<Rightarrow> addr option option" where
  "tenant_at i s = arr_get (tenants s) (unat i)"

definition put_tenant :: "addr \<Rightarrow> tenant_config \<Rightarrow> hwfq_scheduler \<Rightarrow> hwfq_scheduler" where
  "put_tenant a t s = s\<lparr>tenant_heap := (tenant_heap s)(a \<mapsto> t)\<rparr>"

text \<open>
  The lookup that the calls share: the tenant's address and object, or \<open>NOT_FOUND\<close> when the slot is
  empty or the tenant is not configured.
\<close>

definition configured_tenant :: "u32 \<Rightarrow> hwfq_scheduler \<Rightarrow> (hwfq_error + addr \<times> tenant_config) option" where
  "configured_tenant i s = do {
     p \<leftarrow> tenant_at i s;
     case p of
       None \<Rightarrow> Some (Inl HWFQ_ERR_NOT_FOUND)
     | Some a \<Rightarrow> do {
         t \<leftarrow> tenant_heap s a;
         Some (if tenant_configured t then Inr (a, t) else Inl HWFQ_ERR_NOT_FOUND)
       }
   }"

text \<open>An update of the entry that a flow ID selects, in the storage of a level.\<close>

definition modify_flow_entry :: "u32 \<Rightarrow> (entry_config \<Rightarrow> entry_config) \<Rightarrow> level \<Rightarrow> level option" where
  "modify_flow_entry p f gs = do {
     e \<leftarrow> entry_load (entries gs) p;
     ce \<leftarrow> entry_store p (f e) (entries gs);
     Some (gs\<lparr>entries := ce\<rparr>)
   }"

text \<open>The callback that a level runs for the sessions it still holds when it is destroyed.\<close>

definition flow_context_cleanup :: "addr option \<Rightarrow> hwfq_scheduler \<Rightarrow> (event list \<times> hwfq_scheduler) option" where
  "flow_context_cleanup context s =
     (case context of
        None \<Rightarrow> Some ([], s)
      | Some c \<Rightarrow> do {
          ctx \<leftarrow> context_heap s c;
          let calls = (case ctx_cleanup_fn ctx of None \<Rightarrow> [] | Some f \<Rightarrow> [Cleanup f (ctx_user_data ctx)]);
          H \<leftarrow> hwfq_free c (context_heap s);
          Some (calls, s\<lparr>context_heap := H\<rparr>)
        })"

fun run_cleanups :: "(level_cleanup \<times> addr option) list \<Rightarrow> hwfq_scheduler \<Rightarrow> (event list \<times> hwfq_scheduler) option" where
  "run_cleanups [] s = Some ([], s)"
| "run_cleanups ((Flow_context_cleanup, context) # calls) s = do {
     (ev, s) \<leftarrow> flow_context_cleanup context s;
     (ev', s) \<leftarrow> run_cleanups calls s;
     Some (ev @ ev', s)
   }"

end
