(* ===== verification/HWFQ_Config.thy ===== *)
theory HWFQ_Config
  imports HWFQ_State
begin

text \<open>
  \<^verbatim>\<open>src/hwfq_config.c\<close>: creating and destroying a scheduler, adding, changing and removing tenants
  and flows, and the statistics.

  An allocation that a caller passes by pointer is \<^term>\<open>None\<close> when the pointer is NULL.  The answers
  of the allocator are the argument \<open>mem\<close>, in the order in which the function asks for memory.
\<close>

section \<open>Allocations and capacity\<close>

definition validate_allocation :: "hwfq_allocation option \<Rightarrow> bool" where
  "validate_allocation alloc \<longleftrightarrow>
     (case alloc of
        None \<Rightarrow> False
      | Some (Invalid_Allocation b) \<Rightarrow> False
      | Some (Weight w) \<Rightarrow> w \<noteq> 0
      | Some (Rate r) \<Rightarrow> r \<noteq> 0)"

definition would_exceed_capacity :: "hwfq_scheduler \<Rightarrow> hwfq_allocation \<Rightarrow> hwfq_allocation option \<Rightarrow> bool" where
  "would_exceed_capacity s new_allocation old_allocation \<longleftrightarrow>
     (case new_allocation of
        Rate r \<Rightarrow>
          (let current = (case old_allocation of
               Some (Rate q) \<Rightarrow> hwfq_allocated_rate_capacity s - q
             | _ \<Rightarrow> hwfq_allocated_rate_capacity s)
           in cfg_total_capacity (hwfq_cfg s) < current + r)
      | _ \<Rightarrow> False)"

section \<open>The scheduler\<close>

definition hwfq_init ::
  "bool \<times> bool \<times> (bool \<times> bool \<times> bool) \<times> bool \<Rightarrow> hwfq_config option \<Rightarrow> (hwfq_error + hwfq_scheduler) option" where
  "hwfq_init mem config =
     (case config of
        None \<Rightarrow> Some (Inl HWFQ_ERR_INVALID_ARG)
      | Some c \<Rightarrow>
          let (scheduler_ok, tenants_ok, level_mem, hash_ok) = mem in
          if cfg_max_tenants c = 0 \<or> cfg_max_flows_per_tenant c = 0 then Some (Inl HWFQ_ERR_INVALID_ARG)
          else if cfg_total_capacity c = 0 then Some (Inl HWFQ_ERR_INVALID_ARG)
          else if \<not> scheduler_ok then Some (Inl HWFQ_ERR_NO_MEMORY)
          else
            let c = (if cfg_num_groups c = 0 then c\<lparr>cfg_num_groups := HWFQ_DEFAULT_NUM_GROUPS\<rparr> else c);
                c = (if cfg_bins_per_group c = 0 then c\<lparr>cfg_bins_per_group := HWFQ_DEFAULT_BINS_PER_GROUP\<rparr> else c)
            in if \<not> tenants_ok then Some (Inl HWFQ_ERR_NO_MEMORY)
            else (case group_scheduler_init_with_entries level_mem (cfg_num_groups c) (cfg_bins_per_group c)
                (cfg_total_capacity c) (cfg_max_tenants c) (hwfq_chunked_entries_init (cfg_max_tenants c)) of
              None \<Rightarrow> Some (Inl HWFQ_ERR_NO_MEMORY)
            | Some gs \<Rightarrow>
                if \<not> hash_ok then do {
                  _ \<leftarrow> group_scheduler_destroy gs;
                  Some (Inl HWFQ_ERR_NO_MEMORY)
                }
                else Some (Inr \<lparr>hwfq_cfg = c, tenants = replicate (unat (cfg_max_tenants c)) None,
                  num_configured_tenants = 0, total_active_flows = 0, hwfq_allocated_rate_capacity = 0,
                  system_scheduler = gs,
                  flight = \<lparr>in_flight_work_size = 0, in_flight_count = 0,
                    in_flight_hash = replicate HWFQ_IN_FLIGHT_HASH_BUCKETS None, in_flight_head = None,
                    in_flight_tail = None, if_entries = Map.empty\<rparr>,
                  tenant_heap = Map.empty, context_heap = Map.empty\<rparr>)))"

definition remove_tenant :: "addr \<Rightarrow> hwfq_scheduler \<Rightarrow> (event list \<times> hwfq_scheduler) option" where
  "remove_tenant a s = do {
     t \<leftarrow> tenant_heap s a;
     let used = hwfq_chunked_entries_count (entries (flow_scheduler t));
     let s = (if 0 < used
       then let user_flows = used - 1 in
         s\<lparr>total_active_flows :=
           (if user_flows \<le> total_active_flows s then total_active_flows s - user_flows else 0)\<rparr>
       else s);
     (calls, _) \<leftarrow> group_scheduler_destroy (flow_scheduler t);
     (ev, s) \<leftarrow> run_cleanups calls s;
     let s = (case tenant_allocation t of
         Rate r \<Rightarrow> if tenant_configured t
           then s\<lparr>hwfq_allocated_rate_capacity := hwfq_allocated_rate_capacity s - r\<rparr> else s
       | _ \<Rightarrow> s);
     H \<leftarrow> hwfq_free a (tenant_heap s);
     Some (ev, s\<lparr>tenant_heap := H\<rparr>)
   }"

text \<open>The loop of \<open>hwfq_destroy\<close> that frees the in-flight entries.\<close>

partial_function (option) free_in_flight :: "if_addr option \<Rightarrow> if_heap \<Rightarrow> if_heap option" where
  "free_in_flight entry H =
     (case entry of
        None \<Rightarrow> Some H
      | Some a \<Rightarrow> do {
          e \<leftarrow> H a;
          H \<leftarrow> hwfq_free a H;
          free_in_flight (list_next e) H
        })"

definition destroy_slot :: "nat \<Rightarrow> event list \<times> hwfq_scheduler \<Rightarrow> (event list \<times> hwfq_scheduler) option" where
  "destroy_slot i st = do {
     let (ev, s) = st;
     p \<leftarrow> arr_get (tenants s) i;
     case p of
       None \<Rightarrow> Some (ev, s)
     | Some a \<Rightarrow> do {
         (ev', s) \<leftarrow> remove_tenant a s;
         ts \<leftarrow> arr_set (tenants s) i None;
         Some (ev @ ev', s\<lparr>tenants := ts\<rparr>)
       }
   }"

definition hwfq_destroy :: "hwfq_scheduler \<Rightarrow> (event list \<times> hwfq_scheduler) option" where
  "hwfq_destroy s = do {
     (calls, H) \<leftarrow> group_scheduler_destroy (system_scheduler s);
     (ev, s) \<leftarrow> run_cleanups calls (s\<lparr>system_scheduler := (system_scheduler s)\<lparr>sessions := H\<rparr>\<rparr>);
     (ev, s) \<leftarrow> foldM destroy_slot [0..<unat (cfg_max_tenants (hwfq_cfg s))] (ev, s);
     let ce = hwfq_chunked_entries_destroy (entries (system_scheduler s));
     F \<leftarrow> free_in_flight (in_flight_head (flight s)) (if_entries (flight s));
     Some (ev, s\<lparr>tenants := [], system_scheduler := (system_scheduler s)\<lparr>entries := ce\<rparr>,
       flight := (flight s)\<lparr>if_entries := F, in_flight_hash := []\<rparr>\<rparr>)
   }"

section \<open>Tenants\<close>

text \<open>The loop of \<open>hwfq_add_tenant\<close> that looks for an empty slot.\<close>

fun free_slot :: "nat list \<Rightarrow> addr option list \<Rightarrow> nat option option" where
  "free_slot [] ts = Some None"
| "free_slot (i # is) ts = do {
     p \<leftarrow> arr_get ts i;
     case p of None \<Rightarrow> Some (Some i) | Some _ \<Rightarrow> free_slot is ts
   }"

text \<open>The flow entries of a new tenant, with the slot of flow ID 0 taken; a failure to take it is ignored.\<close>

definition reserve_flow_zero :: "bool \<times> bool \<Rightarrow> chunked_entries \<Rightarrow> chunked_entries option" where
  "reserve_flow_zero mem ce = do {
     (ret, ce) \<leftarrow> hwfq_chunked_entries_alloc mem ce;
     case ret of
       Inl _ \<Rightarrow> Some ce
     | Inr reserved_id \<Rightarrow> do {
         entry \<leftarrow> hwfq_chunked_get ce reserved_id;
         case entry of
           None \<Rightarrow> Some ce
         | Some p \<Rightarrow> do { e \<leftarrow> entry_load ce p; entry_store p (e\<lparr>configured := False\<rparr>) ce }
       }
   }"

definition tenant_capacity :: "hwfq_allocation \<Rightarrow> hwfq_scheduler \<Rightarrow> u64" where
  "tenant_capacity alloc s = (case alloc of Rate r \<Rightarrow> r | _ \<Rightarrow> cfg_total_capacity (hwfq_cfg s))"

type_synonym add_tenant_mem = "addr option \<times> (bool \<times> bool) \<times> (bool \<times> bool \<times> bool) \<times> (bool \<times> bool)"

definition hwfq_add_tenant ::
  "add_tenant_mem \<Rightarrow> hwfq_allocation option \<Rightarrow> hwfq_scheduler \<Rightarrow> ((hwfq_error + u32) \<times> hwfq_scheduler) option" where
  "hwfq_add_tenant mem alloc s =
     (let (tenant_mem, reserve_mem, level_mem, id_mem) = mem in
      if \<not> validate_allocation alloc then Some (Inl HWFQ_ERR_INVALID_ARG, s)
      else do {
        let alloc = the alloc;
        found \<leftarrow> free_slot [0..<unat (cfg_max_tenants (hwfq_cfg s))] (tenants s);
        if found = None then Some (Inl HWFQ_ERR_NO_MEMORY, s)
        else if would_exceed_capacity s alloc None then Some (Inl HWFQ_ERR_OVERBOOKED, s)
        else (case tenant_mem of
          None \<Rightarrow> Some (Inl HWFQ_ERR_NO_MEMORY, s)
        | Some a \<Rightarrow> do {
            let flow_ids = cfg_max_flows_per_tenant (hwfq_cfg s) + 1;
            fe \<leftarrow> reserve_flow_zero reserve_mem (hwfq_chunked_entries_init flow_ids);
            (case group_scheduler_init_with_entries level_mem (cfg_num_groups (hwfq_cfg s))
                (cfg_bins_per_group (hwfq_cfg s)) (tenant_capacity alloc s) flow_ids fe of
              None \<Rightarrow> Some (Inl HWFQ_ERR_NO_MEMORY, s)
            | Some fs \<Rightarrow> do {
                (ret, te) \<leftarrow> hwfq_chunked_entries_alloc id_mem (entries (system_scheduler s));
                let s = s\<lparr>system_scheduler := (system_scheduler s)\<lparr>entries := te\<rparr>\<rparr>;
                case ret of
                  Inl _ \<Rightarrow> do { _ \<leftarrow> group_scheduler_destroy fs; Some (Inl HWFQ_ERR_NO_MEMORY, s) }
                | Inr i \<Rightarrow> do {
                    (ret, sys) \<leftarrow> group_scheduler_configure_entry i alloc (system_scheduler s);
                    case ret of
                      Inl err \<Rightarrow> do {
                        te \<leftarrow> hwfq_chunked_entries_free i (entries sys);
                        _ \<leftarrow> group_scheduler_destroy fs;
                        Some (Inl err, s\<lparr>system_scheduler := sys\<lparr>entries := te\<rparr>\<rparr>)
                      }
                    | Inr _ \<Rightarrow> do {
                        let t = \<lparr>tenant_id = i, tenant_allocation = alloc, tenant_configured = True,
                          flow_scheduler = fs, has_backlog = False, tenant_session = None,
                          tenant_stats = zero_stats, tenant_tracking = zero_tracking\<rparr>;
                        ts \<leftarrow> arr_set (tenants s) (unat i) (Some a);
                        Some (Inr i, (put_tenant a t s)\<lparr>system_scheduler := sys, tenants := ts,
                          num_configured_tenants := num_configured_tenants s + 1,
                          hwfq_allocated_rate_capacity := hwfq_allocated_rate_capacity s +
                            (case alloc of Rate r \<Rightarrow> r | _ \<Rightarrow> 0)\<rparr>)
                      }
                  }
              })
          })
      })"

definition hwfq_configure_tenant ::
  "u32 \<Rightarrow> hwfq_allocation option \<Rightarrow> hwfq_scheduler \<Rightarrow> ((hwfq_error + unit) \<times> hwfq_scheduler) option" where
  "hwfq_configure_tenant i alloc s =
     (if alloc = None then Some (Inl HWFQ_ERR_INVALID_ARG, s)
      else if cfg_max_tenants (hwfq_cfg s) \<le> i then Some (Inl HWFQ_ERR_INVALID_ARG, s)
      else if \<not> validate_allocation alloc then Some (Inl HWFQ_ERR_INVALID_ARG, s)
      else do {
        let alloc = the alloc;
        found \<leftarrow> configured_tenant i s;
        case found of
          Inl err \<Rightarrow> Some (Inl err, s)
        | Inr (a, t) \<Rightarrow>
            if would_exceed_capacity s alloc (Some (tenant_allocation t)) then Some (Inl HWFQ_ERR_OVERBOOKED, s)
            else do {
              let released = (case tenant_allocation t of Rate q \<Rightarrow> q | _ \<Rightarrow> 0);
              let booked = (case alloc of Rate r \<Rightarrow> r | _ \<Rightarrow> 0);
              let s = (put_tenant a (t\<lparr>tenant_allocation := alloc\<rparr>) s)
                \<lparr>hwfq_allocated_rate_capacity := hwfq_allocated_rate_capacity s - released + booked\<rparr>;
              (_, sys) \<leftarrow> group_scheduler_configure_entry i alloc (system_scheduler s);
              Some (Inr (), s\<lparr>system_scheduler := sys\<rparr>)
            }
      })"

definition hwfq_remove_tenant ::
  "u32 \<Rightarrow> hwfq_scheduler \<Rightarrow> ((hwfq_error + unit) \<times> event list \<times> hwfq_scheduler) option" where
  "hwfq_remove_tenant i s =
     (if cfg_max_tenants (hwfq_cfg s) \<le> i then Some (Inl HWFQ_ERR_INVALID_ARG, [], s)
      else do {
        found \<leftarrow> configured_tenant i s;
        case found of
          Inl err \<Rightarrow> Some (Inl err, [], s)
        | Inr (a, t) \<Rightarrow>
            if has_backlog t then Some (Inl HWFQ_ERR_TENANT_HAS_BACKLOG, [], s)
            else do {
              (_, sys) \<leftarrow> group_scheduler_remove_entry i (system_scheduler s);
              te \<leftarrow> hwfq_chunked_entries_free i (entries sys);
              (ev, s) \<leftarrow> remove_tenant a (s\<lparr>system_scheduler := sys\<lparr>entries := te\<rparr>\<rparr>);
              ts \<leftarrow> arr_set (tenants s) (unat i) None;
              Some (Inr (), ev, s\<lparr>tenants := ts, num_configured_tenants := num_configured_tenants s - 1\<rparr>)
            }
      })"

section \<open>Flows\<close>

definition hwfq_add_flow ::
  "bool \<times> bool \<Rightarrow> u32 \<Rightarrow> hwfq_allocation option \<Rightarrow> hwfq_scheduler \<Rightarrow> ((hwfq_error + u32) \<times> hwfq_scheduler) option" where
  "hwfq_add_flow mem i alloc s =
     (if alloc = None then Some (Inl HWFQ_ERR_INVALID_ARG, s)
      else if cfg_max_tenants (hwfq_cfg s) \<le> i then Some (Inl HWFQ_ERR_INVALID_ARG, s)
      else if \<not> validate_allocation alloc then Some (Inl HWFQ_ERR_INVALID_ARG, s)
      else do {
        let alloc = the alloc;
        found \<leftarrow> configured_tenant i s;
        case found of
          Inl err \<Rightarrow> Some (Inl err, s)
        | Inr (a, t) \<Rightarrow>
            if 0 < cfg_max_total_flows (hwfq_cfg s) \<and> cfg_max_total_flows (hwfq_cfg s) \<le> total_active_flows s
            then Some (Inl HWFQ_ERR_NO_MEMORY, s)
            else do {
              (ret, fe) \<leftarrow> hwfq_chunked_entries_alloc mem (entries (flow_scheduler t));
              let t = t\<lparr>flow_scheduler := (flow_scheduler t)\<lparr>entries := fe\<rparr>\<rparr>;
              case ret of
                Inl _ \<Rightarrow> Some (Inl HWFQ_ERR_NO_MEMORY, put_tenant a t s)
              | Inr f \<Rightarrow> do {
                  (ret, fs) \<leftarrow> group_scheduler_configure_entry f alloc (flow_scheduler t);
                  case ret of
                    Inl err \<Rightarrow> do {
                      fe \<leftarrow> hwfq_chunked_entries_free f (entries fs);
                      Some (Inl err, put_tenant a (t\<lparr>flow_scheduler := fs\<lparr>entries := fe\<rparr>\<rparr>) s)
                    }
                  | Inr _ \<Rightarrow> Some (Inr f, (put_tenant a (t\<lparr>flow_scheduler := fs\<rparr>) s)
                      \<lparr>total_active_flows := total_active_flows s + 1\<rparr>)
                }
            }
      })"

definition hwfq_remove_flow ::
  "u32 \<Rightarrow> u32 \<Rightarrow> hwfq_scheduler \<Rightarrow> ((hwfq_error + unit) \<times> hwfq_scheduler) option" where
  "hwfq_remove_flow i f s =
     (if cfg_max_tenants (hwfq_cfg s) \<le> i then Some (Inl HWFQ_ERR_INVALID_ARG, s)
      else do {
        found \<leftarrow> configured_tenant i s;
        case found of
          Inl err \<Rightarrow> Some (Inl err, s)
        | Inr (a, t) \<Rightarrow> do {
            entry \<leftarrow> group_scheduler_find_entry (flow_scheduler t) f;
            case entry of
              None \<Rightarrow> Some (Inl HWFQ_ERR_NOT_FOUND, s)
            | Some p \<Rightarrow> do {
                e \<leftarrow> entry_load (entries (flow_scheduler t)) p;
                if 0 < current_backlog (stats e) then Some (Inl HWFQ_ERR_TENANT_HAS_BACKLOG, s)
                else do {
                  (_, fs) \<leftarrow> group_scheduler_remove_entry f (flow_scheduler t);
                  fe \<leftarrow> hwfq_chunked_entries_free f (entries fs);
                  let s = put_tenant a (t\<lparr>flow_scheduler := fs\<lparr>entries := fe\<rparr>\<rparr>) s;
                  Some (Inr (), if 0 < total_active_flows s
                    then s\<lparr>total_active_flows := total_active_flows s - 1\<rparr> else s)
                }
              }
          }
      })"

definition hwfq_reconfigure_flow ::
  "u32 \<Rightarrow> u32 \<Rightarrow> hwfq_allocation option \<Rightarrow> hwfq_scheduler \<Rightarrow> ((hwfq_error + unit) \<times> hwfq_scheduler) option" where
  "hwfq_reconfigure_flow i f alloc s =
     (if alloc = None then Some (Inl HWFQ_ERR_INVALID_ARG, s)
      else if f = HWFQ_FLOW_ID_RESERVED then Some (Inl HWFQ_ERR_INVALID_ARG, s)
      else if cfg_max_tenants (hwfq_cfg s) \<le> i then Some (Inl HWFQ_ERR_INVALID_ARG, s)
      else if \<not> validate_allocation alloc then Some (Inl HWFQ_ERR_INVALID_ARG, s)
      else do {
        found \<leftarrow> configured_tenant i s;
        case found of
          Inl err \<Rightarrow> Some (Inl err, s)
        | Inr (a, t) \<Rightarrow> do {
            entry \<leftarrow> group_scheduler_find_entry (flow_scheduler t) f;
            case entry of
              None \<Rightarrow> Some (Inl HWFQ_ERR_NOT_FOUND, s)
            | Some p \<Rightarrow> do {
                (ret, fs) \<leftarrow> group_scheduler_configure_entry f (the alloc) (flow_scheduler t);
                Some (ret, put_tenant a (t\<lparr>flow_scheduler := fs\<rparr>) s)
              }
          }
      })"

section \<open>Capacity and statistics\<close>

definition hwfq_get_capacity_info :: "hwfq_scheduler \<Rightarrow> hwfq_capacity_info" where
  "hwfq_get_capacity_info s =
     (let total = cfg_total_capacity (hwfq_cfg s); allocated = hwfq_allocated_rate_capacity s in
      \<lparr>info_total_capacity = total, allocated_capacity = allocated, available_capacity = total - allocated,
       info_num_configured_tenants = num_configured_tenants s, num_active_flows = total_active_flows s,
       utilization_percent = (if 0 < total then Double_percent allocated total else Double_zero)\<rparr>)"

definition hwfq_get_tenant_stats :: "u32 \<Rightarrow> hwfq_scheduler \<Rightarrow> (hwfq_error + hwfq_stats) option" where
  "hwfq_get_tenant_stats i s =
     (if cfg_max_tenants (hwfq_cfg s) \<le> i then Some (Inl HWFQ_ERR_INVALID_ARG)
      else do {
        p \<leftarrow> tenant_at i s;
        case p of
          None \<Rightarrow> Some (Inl HWFQ_ERR_NOT_FOUND)
        | Some a \<Rightarrow> do { t \<leftarrow> tenant_heap s a; Some (Inr (tenant_stats t)) }
      })"

definition hwfq_get_flow_stats :: "u32 \<Rightarrow> u32 \<Rightarrow> hwfq_scheduler \<Rightarrow> (hwfq_error + hwfq_stats) option" where
  "hwfq_get_flow_stats i f s =
     (if cfg_max_tenants (hwfq_cfg s) \<le> i then Some (Inl HWFQ_ERR_INVALID_ARG)
      else do {
        found \<leftarrow> configured_tenant i s;
        case found of
          Inl err \<Rightarrow> Some (Inl err)
        | Inr (a, t) \<Rightarrow> do {
            entry \<leftarrow> group_scheduler_find_entry (flow_scheduler t) f;
            case entry of
              None \<Rightarrow> Some (Inl HWFQ_ERR_NOT_FOUND)
            | Some p \<Rightarrow> do { e \<leftarrow> entry_load (entries (flow_scheduler t)) p; Some (Inr (stats e)) }
          }
      })"

definition reset_tenant_stats :: "tenant_config \<Rightarrow> tenant_config" where
  "reset_tenant_stats t =
     t\<lparr>tenant_stats := zero_stats\<lparr>current_backlog := current_backlog (tenant_stats t)\<rparr>,
       tenant_tracking := zero_tracking\<rparr>"

definition reset_flow_stats :: "entry_config \<Rightarrow> entry_config" where
  "reset_flow_stats e =
     (if configured e
      then e\<lparr>stats := zero_stats\<lparr>current_backlog := current_backlog (stats e)\<rparr>, tracking := zero_tracking\<rparr>
      else e)"

definition reset_chunk :: "entry_config list \<Rightarrow> entry_config list option" where
  "reset_chunk es = foldM (\<lambda>i es. do {
     e \<leftarrow> arr_get es i;
     if configured e then arr_set es i (reset_flow_stats e) else Some es
   }) [0..<unat HWFQ_CHUNK_SIZE] es"

definition reset_all_flow_stats :: "tenant_config \<Rightarrow> tenant_config option" where
  "reset_all_flow_stats t = do {
     let ce = entries (flow_scheduler t);
     cs \<leftarrow> foldM (\<lambda>c cs. do {
         chunk \<leftarrow> arr_get cs c;
         case chunk of
           None \<Rightarrow> Some cs
         | Some es \<Rightarrow> do { es \<leftarrow> reset_chunk es; arr_set cs c (Some es) }
       }) [0..<unat (num_chunks ce)] (chunks ce);
     Some (t\<lparr>flow_scheduler := (flow_scheduler t)\<lparr>entries := ce\<lparr>chunks := cs\<rparr>\<rparr>\<rparr>)
   }"

definition reset_tenant :: "nat \<Rightarrow> hwfq_scheduler \<Rightarrow> hwfq_scheduler option" where
  "reset_tenant i s = do {
     p \<leftarrow> arr_get (tenants s) i;
     case p of
       None \<Rightarrow> Some s
     | Some a \<Rightarrow> do {
         t \<leftarrow> tenant_heap s a;
         if tenant_configured t
         then do { t \<leftarrow> reset_all_flow_stats (reset_tenant_stats t); Some (put_tenant a t s) }
         else Some s
       }
   }"

definition hwfq_reset_stats :: "u32 \<Rightarrow> u32 \<Rightarrow> hwfq_scheduler \<Rightarrow> hwfq_scheduler option" where
  "hwfq_reset_stats i f s =
     (if i = HWFQ_ALL_TENANTS then foldM reset_tenant [0..<unat (cfg_max_tenants (hwfq_cfg s))] s
      else if i < cfg_max_tenants (hwfq_cfg s) then
        if f = HWFQ_ALL_FLOWS then reset_tenant (unat i) s
        else do {
          found \<leftarrow> configured_tenant i s;
          case found of
            Inl _ \<Rightarrow> Some s
          | Inr (a, t) \<Rightarrow> do {
              entry \<leftarrow> hwfq_chunked_get (entries (flow_scheduler t)) f;
              case entry of
                None \<Rightarrow> Some s
              | Some p \<Rightarrow> do {
                  fs \<leftarrow> modify_flow_entry p reset_flow_stats (flow_scheduler t);
                  Some (put_tenant a (t\<lparr>flow_scheduler := fs\<rparr>) s)
                }
            }
        }
      else Some s)"

end
