(* ===== verification/HWFQ_Scheduler.thy ===== *)
theory HWFQ_Scheduler
  imports HWFQ_State
begin

text \<open>
  \<^verbatim>\<open>src/hwfq_scheduler.c\<close>: enqueuing and dequeuing through both levels, completing, cancelling and
  timing out the work in flight.

  The record \<open>env\<close> holds what one call gets from outside: the time \<open>get_time_ns\<close> reads, the answers
  of the allocator for the objects the call asks for, and the clock the two levels read when a session
  enters them.  A call asks for each kind of object at most once.
\<close>

section \<open>Environment and statistics\<close>

abbreviation TENANT_QUANTUM_SIZE :: u64 where "TENANT_QUANTUM_SIZE \<equiv> 4096"
abbreviation RATE_WINDOW_NS :: u64 where "RATE_WINDOW_NS \<equiv> 1000000000"

record env =
  env_time :: "u64 \<times> u64"
  env_context :: "addr option"
  env_flow_session :: "addr option"
  env_flow_time :: "u64 \<times> u64"
  env_tenant_session :: "addr option"
  env_tenant_time :: "u64 \<times> u64"
  env_entry :: "addr option"

definition get_time_ns :: "env \<Rightarrow> u64" where
  "get_time_ns env = clock_ns (env_time env)"

text \<open>
  \<open>rate_window\<close> is the computation that the two rate-tracking functions share: the new window, and
  the new rate when one is computed.
\<close>

definition rate_window :: "rate_tracking \<Rightarrow> u64 \<Rightarrow> u64 \<Rightarrow> rate_tracking \<times> double_expr option" where
  "rate_window rt work now_ns =
     (if window_start_ns rt = 0 then (\<lparr>window_start_ns = now_ns, window_work_units = work\<rparr>, None)
      else
        let elapsed = now_ns - window_start_ns rt in
        if RATE_WINDOW_NS \<le> elapsed
        then (\<lparr>window_start_ns = now_ns, window_work_units = work\<rparr>,
              if 0 < elapsed then Some (Double_rate (window_work_units rt) elapsed) else None)
        else
          let rt = rt\<lparr>window_work_units := window_work_units rt + work\<rparr>
          in (rt, if 0 < elapsed then Some (Double_rate (window_work_units rt) elapsed) else None))"

definition set_rate :: "double_expr option \<Rightarrow> hwfq_stats \<Rightarrow> hwfq_stats" where
  "set_rate r st = (case r of None \<Rightarrow> st | Some d \<Rightarrow> st\<lparr>effective_rate := d\<rparr>)"

definition update_tenant_rate_tracking :: "u64 \<Rightarrow> u64 \<Rightarrow> tenant_config \<Rightarrow> tenant_config" where
  "update_tenant_rate_tracking work now_ns t =
     (let (rt, r) = rate_window (tenant_tracking t) work now_ns
      in t\<lparr>tenant_tracking := rt, tenant_stats := set_rate r (tenant_stats t)\<rparr>)"

definition update_entry_rate_tracking :: "u64 \<Rightarrow> u64 \<Rightarrow> entry_config \<Rightarrow> entry_config" where
  "update_entry_rate_tracking work now_ns e =
     (let (rt, r) = rate_window (tracking e) work now_ns
      in e\<lparr>tracking := rt, stats := set_rate r (stats e)\<rparr>)"

section \<open>Flow entries and the backlog of a tenant\<close>

definition find_flow_entry :: "tenant_config \<Rightarrow> u32 \<Rightarrow> u32 option option" where
  "find_flow_entry t f = do {
     entry \<leftarrow> hwfq_chunked_get (entries (flow_scheduler t)) f;
     case entry of
       None \<Rightarrow> Some None
     | Some p \<Rightarrow> do {
         e \<leftarrow> entry_load (entries (flow_scheduler t)) p;
         Some (if configured e then Some p else None)
       }
   }"

definition ensure_flow_entry :: "tenant_config \<Rightarrow> u32 \<Rightarrow> (hwfq_error + unit) option" where
  "ensure_flow_entry t f = do {
     entry \<leftarrow> find_flow_entry t f;
     Some (case entry of None \<Rightarrow> Inl HWFQ_ERR_NOT_FOUND | Some _ \<Rightarrow> Inr ())
   }"

text \<open>An update of the statistics of the flow entry that \<open>find_flow_entry\<close> answered, if any.\<close>

definition with_flow_entry :: "u32 option \<Rightarrow> (entry_config \<Rightarrow> entry_config) \<Rightarrow> tenant_config \<Rightarrow> tenant_config option" where
  "with_flow_entry entry f t =
     (case entry of
        None \<Rightarrow> Some t
      | Some p \<Rightarrow> do {
          fs \<leftarrow> modify_flow_entry p f (flow_scheduler t);
          Some (t\<lparr>flow_scheduler := fs\<rparr>)
        })"

definition add_backlog :: "u32 \<Rightarrow> hwfq_stats \<Rightarrow> hwfq_stats" where
  "add_backlog n st = st\<lparr>current_backlog := current_backlog st + n\<rparr>"

definition drop_backlog :: "hwfq_stats \<Rightarrow> hwfq_stats" where
  "drop_backlog st = (if 0 < current_backlog st then st\<lparr>current_backlog := current_backlog st - 1\<rparr> else st)"

definition add_wait :: "u64 \<Rightarrow> hwfq_stats \<Rightarrow> hwfq_stats" where
  "add_wait w st = st\<lparr>total_wait_time_ns := total_wait_time_ns st + w\<rparr>"

definition add_completed :: "u64 \<Rightarrow> hwfq_stats \<Rightarrow> hwfq_stats" where
  "add_completed work st =
     st\<lparr>work_units_processed := work_units_processed st + work, operations_completed := operations_completed st + 1\<rparr>"

definition register_tenant_backlog ::
  "env \<Rightarrow> addr \<Rightarrow> hwfq_scheduler \<Rightarrow> ((hwfq_error + unit) \<times> hwfq_scheduler) option" where
  "register_tenant_backlog env a s = do {
     t \<leftarrow> tenant_heap s a;
     if has_backlog t then Some (Inr (), s)
     else do {
       (ret, sys) \<leftarrow> group_scheduler_enqueue (env_tenant_session env) (env_tenant_time env) (tenant_id t)
         TENANT_QUANTUM_SIZE (Some a) None (system_scheduler s);
       let s = s\<lparr>system_scheduler := sys\<rparr>;
       case ret of
         Inl err \<Rightarrow> Some (Inl err, s)
       | Inr session \<Rightarrow> Some (Inr (), put_tenant a (t\<lparr>tenant_session := Some session, has_backlog := True\<rparr>) s)
     }
   }"

section \<open>Enqueuing\<close>

definition hwfq_enqueue ::
  "env \<Rightarrow> u32 \<Rightarrow> u32 \<Rightarrow> hwfq_session option \<Rightarrow> hwfq_scheduler \<Rightarrow>
   ((hwfq_error + unit) \<times> event list \<times> hwfq_scheduler) option" where
  "hwfq_enqueue env i f work s =
     (case work of
        None \<Rightarrow> Some (Inl HWFQ_ERR_INVALID_ARG, [], s)
      | Some w \<Rightarrow>
          if sn_work_size w = 0 then Some (Inl HWFQ_ERR_INVALID_ARG, [], s)
          else if cfg_max_tenants (hwfq_cfg s) \<le> i then Some (Inl HWFQ_ERR_INVALID_ARG, [], s)
          else if f = HWFQ_FLOW_ID_RESERVED then Some (Inl HWFQ_ERR_INVALID_ARG, [], s)
          else do {
            found \<leftarrow> configured_tenant i s;
            case found of
              Inl err \<Rightarrow> Some (Inl err, [], s)
            | Inr (a, t) \<Rightarrow> do {
                ret \<leftarrow> ensure_flow_entry t f;
                case ret of
                  Inl err \<Rightarrow> Some (Inl err, [], s)
                | Inr _ \<Rightarrow>
                    (case env_context env of
                      None \<Rightarrow> Some (Inl HWFQ_ERR_NO_MEMORY, [], s)
                    | Some c \<Rightarrow> do {
                        let ctx = \<lparr>ctx_tenant_id = i, ctx_flow_id = f, ctx_user_data = sn_user_data w,
                          ctx_work_size = sn_work_size w,
                          ctx_enqueue_time_ns = (if enable_statistics (hwfq_cfg s) then get_time_ns env else 0),
                          ctx_timeout_ns = sn_timeout_ns w, ctx_cleanup_fn = sn_cleanup_fn w\<rparr>;
                        let s = s\<lparr>context_heap := (context_heap s)(c \<mapsto> ctx)\<rparr>;
                        let t = t\<lparr>tenant_stats := add_backlog 1 (tenant_stats t)\<rparr>;
                        entry \<leftarrow> find_flow_entry t f;
                        t \<leftarrow> with_flow_entry entry (\<lambda>e. e\<lparr>stats := add_backlog 1 (stats e)\<rparr>) t;
                        (ret, fs) \<leftarrow> group_scheduler_enqueue (env_flow_session env) (env_flow_time env) f
                          (sn_work_size w) (Some c) (Some Flow_context_cleanup) (flow_scheduler t);
                        let t = t\<lparr>flow_scheduler := fs\<rparr>;
                        case ret of
                          Inl err \<Rightarrow> do {
                            let t = t\<lparr>tenant_stats := add_backlog (- 1) (tenant_stats t)\<rparr>;
                            entry \<leftarrow> find_flow_entry t f;
                            t \<leftarrow> with_flow_entry entry (\<lambda>e. e\<lparr>stats := add_backlog (- 1) (stats e)\<rparr>) t;
                            H \<leftarrow> hwfq_free c (context_heap s);
                            Some (Inl err, [], put_tenant a t (s\<lparr>context_heap := H\<rparr>))
                          }
                        | Inr _ \<Rightarrow> do {
                            let s = put_tenant a t s;
                            (_, s) \<leftarrow> (if \<not> has_backlog t then register_tenant_backlog env a s else Some (Inr (), s));
                            let notify = (session_available_set (hwfq_cfg s) \<and>
                              in_flight_work_size (flight s) < cfg_total_capacity (hwfq_cfg s));
                            Some (Inr (), if notify then [Session_available] else [], s)
                          }
                      })
              }
          })"

section \<open>Dequeuing\<close>

text \<open>
  What \<open>hwfq_dequeue\<close> does with work it cannot hand out: back to the end of its flow, the old
  session freed.
\<close>

definition requeue ::
  "env \<Rightarrow> addr \<Rightarrow> addr \<Rightarrow> addr \<Rightarrow> flow_session_context \<Rightarrow> hwfq_scheduler \<Rightarrow> hwfq_scheduler option" where
  "requeue env a session c ctx s = do {
     (_, s) \<leftarrow> register_tenant_backlog env a s;
     t \<leftarrow> tenant_heap s a;
     (_, fs) \<leftarrow> group_scheduler_enqueue (env_flow_session env) (env_flow_time env) (ctx_flow_id ctx)
       (ctx_work_size ctx) (Some c) (Some Flow_context_cleanup) (flow_scheduler t);
     H \<leftarrow> hwfq_free session (sessions fs);
     Some (put_tenant a (t\<lparr>flow_scheduler := fs\<lparr>sessions := H\<rparr>\<rparr>) s)
   }"

text \<open>The first half: the system level chooses a tenant, its session is freed and the system's time advances.\<close>

definition dequeue_tenant :: "hwfq_scheduler \<Rightarrow> ((hwfq_error + addr) \<times> hwfq_scheduler) option" where
  "dequeue_tenant s =
     (if group_scheduler_is_empty (system_scheduler s) then Some (Inl HWFQ_ERR_NO_WORK, s)
      else do {
        (session, sys) \<leftarrow> group_scheduler_dequeue (system_scheduler s);
        let s = s\<lparr>system_scheduler := sys\<rparr>;
        case session of
          None \<Rightarrow> Some (Inl HWFQ_ERR_NO_WORK, s)
        | Some q \<Rightarrow> do {
            so \<leftarrow> sessions sys q;
            H \<leftarrow> hwfq_free q (sessions sys);
            let sys = sys\<lparr>sessions := H\<rparr>;
            case session_get_user_data (Some so) of
              None \<Rightarrow> Some (Inl HWFQ_ERR_INTERNAL, s\<lparr>system_scheduler := sys\<rparr>)
            | Some a \<Rightarrow> do {
                t \<leftarrow> tenant_heap s a;
                let s = put_tenant a (t\<lparr>has_backlog := False, tenant_session := None\<rparr>) s;
                sys \<leftarrow> group_scheduler_update_virtual_time (session_get_work_size (Some so)) sys;
                Some (Inr a, s\<lparr>system_scheduler := sys\<rparr>)
              }
          }
      })"

text \<open>The last part: the work becomes an entry in flight, and the context and the session are freed.\<close>

definition hand_out ::
  "env \<Rightarrow> addr \<Rightarrow> addr \<Rightarrow> addr \<Rightarrow> flow_session_context \<Rightarrow> addr \<Rightarrow> hwfq_scheduler \<Rightarrow> hwfq_scheduler option" where
  "hand_out env a session c ctx entry s = do {
     let dequeue_time = get_time_ns env;
     let e = \<lparr>if_tenant_id = ctx_tenant_id ctx, if_flow_id = ctx_flow_id ctx, if_work_size = ctx_work_size ctx,
       dequeue_time_ns = dequeue_time, if_timeout_ns = ctx_timeout_ns ctx, if_user_data = ctx_user_data ctx,
       hash_next = None, list_next = None, list_prev = None\<rparr>;
     fl \<leftarrow> in_flight_insert entry ((flight s)\<lparr>if_entries := (if_entries (flight s))(entry \<mapsto> e)\<rparr>);
     let s = s\<lparr>flight := fl\<lparr>in_flight_work_size := in_flight_work_size fl + ctx_work_size ctx,
       in_flight_count := in_flight_count fl + 1\<rparr>\<rparr>;
     t \<leftarrow> tenant_heap s a;
     t \<leftarrow> (if enable_statistics (hwfq_cfg s) then do {
         flow_entry \<leftarrow> find_flow_entry t (ctx_flow_id ctx);
         case flow_entry of
           None \<Rightarrow> Some t
         | Some p \<Rightarrow> do {
             let wait = (if 0 < ctx_enqueue_time_ns ctx then dequeue_time - ctx_enqueue_time_ns ctx else 0);
             let t = t\<lparr>tenant_stats := add_wait wait (tenant_stats t)\<rparr>;
             with_flow_entry (Some p) (\<lambda>e. e\<lparr>stats := add_wait wait (stats e)\<rparr>) t
           }
       } else Some t);
     C \<leftarrow> hwfq_free c (context_heap s);
     H \<leftarrow> hwfq_free session (sessions (flow_scheduler t));
     let t = t\<lparr>flow_scheduler := (flow_scheduler t)\<lparr>sessions := H\<rparr>\<rparr>;
     let s = put_tenant a t (s\<lparr>context_heap := C\<rparr>);
     (_, s) \<leftarrow> (if \<not> group_scheduler_is_empty (flow_scheduler t) then register_tenant_backlog env a s
       else Some (Inr (), s));
     Some s
   }"

text \<open>
  A successful call returns the user data, the work size and the timestamp of the session, and the two
  IDs.
\<close>

definition hwfq_dequeue ::
  "env \<Rightarrow> hwfq_scheduler \<Rightarrow> ((hwfq_error + user_ptr \<times> u64 \<times> u64 \<times> u32 \<times> u32) \<times> hwfq_scheduler) option" where
  "hwfq_dequeue env s = do {
     (ret, s) \<leftarrow> dequeue_tenant s;
     case ret of
       Inl err \<Rightarrow> Some (Inl err, s)
     | Inr a \<Rightarrow> do {
         t \<leftarrow> tenant_heap s a;
         (session, fs) \<leftarrow> group_scheduler_dequeue (flow_scheduler t);
         let t = t\<lparr>flow_scheduler := fs\<rparr>;
         let s = put_tenant a t s;
         case session of
           None \<Rightarrow> Some (Inl HWFQ_ERR_INTERNAL, s)
         | Some q \<Rightarrow> do {
             so \<leftarrow> sessions fs q;
             case session_get_user_data (Some so) of
               None \<Rightarrow> do {
                 H \<leftarrow> hwfq_free q (sessions fs);
                 Some (Inl HWFQ_ERR_INTERNAL, put_tenant a (t\<lparr>flow_scheduler := fs\<lparr>sessions := H\<rparr>\<rparr>) s)
               }
             | Some c \<Rightarrow> do {
                 ctx \<leftarrow> context_heap s c;
                 if 0 < cfg_total_capacity (hwfq_cfg s) \<and>
                    cfg_total_capacity (hwfq_cfg s) < in_flight_work_size (flight s) + ctx_work_size ctx
                 then do { s \<leftarrow> requeue env a q c ctx s; Some (Inl HWFQ_ERR_NO_WORK, s) }
                 else do {
                   fs \<leftarrow> group_scheduler_update_virtual_time (ctx_work_size ctx) fs;
                   let s = put_tenant a (t\<lparr>flow_scheduler := fs\<rparr>) s;
                   case env_entry env of
                     None \<Rightarrow> do { s \<leftarrow> requeue env a q c ctx s; Some (Inl HWFQ_ERR_NO_MEMORY, s) }
                   | Some entry \<Rightarrow> do {
                       s \<leftarrow> hand_out env a q c ctx entry s;
                       Some (Inr (ctx_user_data ctx, ctx_work_size ctx, ctx_enqueue_time_ns ctx,
                         ctx_tenant_id ctx, ctx_flow_id ctx), s)
                     }
                 }
               }
           }
       }
   }"

section \<open>Completing and cancelling\<close>

text \<open>
  The search that both calls make, with the session they are given: by user pointer when there is one,
  else the first entry of the tenant and the flow.
\<close>

definition search_in_flight :: "hwfq_session option \<Rightarrow> u32 \<Rightarrow> u32 \<Rightarrow> in_flight \<Rightarrow> if_addr option option" where
  "search_in_flight work i f fl =
     (let data = (case work of None \<Rightarrow> 0 | Some w \<Rightarrow> sn_user_data w) in
      if data \<noteq> 0 then in_flight_find data i f fl
      else find_in_list (if_entries fl) (\<lambda>e. if_tenant_id e = i \<and> if_flow_id e = f) (in_flight_head fl))"

text \<open>Taking an entry out of flight: the structures, the sum of the work and the count.\<close>

definition take_out :: "addr \<Rightarrow> in_flight \<Rightarrow> in_flight option" where
  "take_out entry fl = do {
     fl \<leftarrow> in_flight_remove entry fl;
     e \<leftarrow> if_entries fl entry;
     Some (fl\<lparr>in_flight_work_size := in_flight_work_size fl - if_work_size e,
       in_flight_count := in_flight_count fl - 1\<rparr>)
   }"

text \<open>The tenant of an ID, when it is in range and its slot is filled, and the entry of its flow.\<close>

definition tenant_and_flow ::
  "u32 \<Rightarrow> u32 \<Rightarrow> hwfq_scheduler \<Rightarrow> ((addr \<times> tenant_config \<times> u32 option) option) option" where
  "tenant_and_flow i f s =
     (if i < cfg_max_tenants (hwfq_cfg s) then do {
        p \<leftarrow> tenant_at i s;
        case p of
          None \<Rightarrow> Some None
        | Some a \<Rightarrow> do {
            t \<leftarrow> tenant_heap s a;
            entry \<leftarrow> (if tenant_configured t then find_flow_entry t f else Some None);
            Some (Some (a, t, entry))
          }
      } else Some None)"

definition has_capacity :: "hwfq_scheduler \<Rightarrow> bool" where
  "has_capacity s \<longleftrightarrow> in_flight_work_size (flight s) < cfg_total_capacity (hwfq_cfg s)"

definition hwfq_complete ::
  "env \<Rightarrow> hwfq_session option \<Rightarrow> u32 \<Rightarrow> u32 \<Rightarrow> u64 \<Rightarrow> hwfq_scheduler \<Rightarrow>
   ((hwfq_error + unit) \<times> event list \<times> hwfq_scheduler) option" where
  "hwfq_complete env work i f completion_time_ns s = do {
     found \<leftarrow> search_in_flight work i f (flight s);
     case found of
       None \<Rightarrow> Some (Inl HWFQ_ERR_NOT_FOUND, [], s)
     | Some entry \<Rightarrow> do {
         fl \<leftarrow> take_out entry (flight s);
         e \<leftarrow> if_entries fl entry;
         let s = s\<lparr>flight := fl\<rparr>;
         place \<leftarrow> tenant_and_flow i f s;
         s \<leftarrow> (case place of
             None \<Rightarrow> Some s
           | Some (a, t, flow) \<Rightarrow> do {
               let t = t\<lparr>tenant_stats := drop_backlog (tenant_stats t)\<rparr>;
               t \<leftarrow> with_flow_entry flow (\<lambda>e. e\<lparr>stats := drop_backlog (stats e)\<rparr>) t;
               t \<leftarrow> (if enable_statistics (hwfq_cfg s) then do {
                   let t = t\<lparr>tenant_stats := add_completed (if_work_size e) (tenant_stats t)\<rparr>;
                   t \<leftarrow> with_flow_entry flow (\<lambda>fe. fe\<lparr>stats := add_completed (if_work_size e) (stats fe)\<rparr>) t;
                   let t = update_tenant_rate_tracking (if_work_size e) completion_time_ns t;
                   with_flow_entry flow (update_entry_rate_tracking (if_work_size e) completion_time_ns) t
                 } else Some t);
               Some (put_tenant a t s)
             });
         F \<leftarrow> hwfq_free entry (if_entries (flight s));
         let s = s\<lparr>flight := (flight s)\<lparr>if_entries := F\<rparr>\<rparr>;
         let capacity = has_capacity s;
         let work_left = (\<not> group_scheduler_is_empty (system_scheduler s));
         (work_left, s) \<leftarrow> (case place of
             None \<Rightarrow> Some (work_left, s)
           | Some (a, _, _) \<Rightarrow> do {
               t \<leftarrow> tenant_heap s a;
               if \<not> group_scheduler_is_empty (flow_scheduler t)
               then do { (_, s) \<leftarrow> register_tenant_backlog env a s; Some (True, s) }
               else Some (work_left, s)
             });
         Some (Inr (),
           if capacity \<and> work_left \<and> session_available_set (hwfq_cfg s) then [Session_available] else [], s)
       }
   }"

definition hwfq_cancel ::
  "hwfq_session option \<Rightarrow> u32 \<Rightarrow> u32 \<Rightarrow> hwfq_scheduler \<Rightarrow>
   ((hwfq_error + unit) \<times> event list \<times> hwfq_scheduler) option" where
  "hwfq_cancel work i f s = do {
     found \<leftarrow> search_in_flight work i f (flight s);
     case found of
       None \<Rightarrow> Some (Inl HWFQ_ERR_NOT_FOUND, [], s)
     | Some entry \<Rightarrow> do {
         fl \<leftarrow> take_out entry (flight s);
         e \<leftarrow> if_entries fl entry;
         let s = s\<lparr>flight := fl\<rparr>;
         place \<leftarrow> tenant_and_flow (if_tenant_id e) (if_flow_id e) s;
         s \<leftarrow> (case place of
             None \<Rightarrow> Some s
           | Some (a, t, flow) \<Rightarrow> do {
               let t = t\<lparr>tenant_stats := drop_backlog (tenant_stats t)\<rparr>;
               t \<leftarrow> with_flow_entry flow (\<lambda>e. e\<lparr>stats := drop_backlog (stats e)\<rparr>) t;
               Some (put_tenant a t s)
             });
         let capacity = has_capacity s;
         let work_left = (\<not> group_scheduler_is_empty (system_scheduler s));
         F \<leftarrow> hwfq_free entry (if_entries (flight s));
         let s = s\<lparr>flight := (flight s)\<lparr>if_entries := F\<rparr>\<rparr>;
         Some (Inr (),
           if capacity \<and> work_left \<and> session_available_set (hwfq_cfg s) then [Session_available] else [], s)
       }
   }"

section \<open>Timeouts\<close>

definition is_timed_out :: "u64 \<Rightarrow> in_flight_entry \<Rightarrow> bool" where
  "is_timed_out now e \<longleftrightarrow> 0 < if_timeout_ns e \<and> if_timeout_ns e \<le> now - dequeue_time_ns e"

text \<open>
  The walk along the list; the entries that timed out are unlinked and collected in a list of their
  own, linked through \<open>hash_next\<close>.
\<close>

partial_function (option) collect_timeouts ::
  "u64 \<Rightarrow> addr option \<Rightarrow> addr option \<Rightarrow> u32 \<Rightarrow> in_flight \<Rightarrow> (addr option \<times> u32 \<times> in_flight) option" where
  "collect_timeouts now entry timed_out count fl =
     (case entry of
        None \<Rightarrow> Some (timed_out, count, fl)
      | Some a \<Rightarrow> do {
          e \<leftarrow> if_entries fl a;
          if is_timed_out now e then do {
            fl \<leftarrow> take_out a fl;
            fl \<leftarrow> modify_entry a (\<lambda>e. e\<lparr>hash_next := timed_out\<rparr>) fl;
            collect_timeouts now (list_next e) (Some a) (count + 1) fl
          }
          else collect_timeouts now (list_next e) timed_out count fl
        })"

text \<open>The second loop reports them, after the lock is released, and frees them.\<close>

partial_function (option) report_timeouts ::
  "bool \<Rightarrow> addr option \<Rightarrow> event list \<Rightarrow> if_heap \<Rightarrow> (event list \<times> if_heap) option" where
  "report_timeouts report entry ev F =
     (case entry of
        None \<Rightarrow> Some (ev, F)
      | Some a \<Rightarrow> do {
          e \<leftarrow> F a;
          let ev = (if report
            then ev @ [Session_timeout (if_tenant_id e) (if_flow_id e) (if_user_data e) (if_work_size e) (if_timeout_ns e)]
            else ev);
          F \<leftarrow> hwfq_free a F;
          report_timeouts report (hash_next e) ev F
        })"

definition hwfq_check_timeouts :: "u64 \<Rightarrow> hwfq_scheduler \<Rightarrow> (u32 \<times> event list \<times> hwfq_scheduler) option" where
  "hwfq_check_timeouts current_time_ns s = do {
     (timed_out, count, fl) \<leftarrow> collect_timeouts current_time_ns (in_flight_head (flight s)) None 0 (flight s);
     let s = s\<lparr>flight := fl\<rparr>;
     let capacity = has_capacity s;
     let work_left = (\<not> group_scheduler_is_empty (system_scheduler s));
     (ev, F) \<leftarrow> report_timeouts (session_timeout_set (hwfq_cfg s)) timed_out [] (if_entries fl);
     let ev = (if 0 < count \<and> capacity \<and> work_left \<and> session_available_set (hwfq_cfg s)
       then ev @ [Session_available] else ev);
     Some (count, ev, s\<lparr>flight := fl\<lparr>if_entries := F\<rparr>\<rparr>)
   }"

end
