(* ===== verification/HWFQ_Invariant.thy ===== *)
theory HWFQ_Invariant
  imports HWFQ_Config HWFQ_Scheduler
begin

text \<open>
  What holds between two calls of the public functions: \<open>hwfq_inv\<close>.

  The tenant table and the system level agree on which IDs are in use and with which allocation; the
  sessions queued at the system level are those of the tenants whose flag \<open>has_backlog\<close> is set, one
  each; the sessions queued at a tenant's level own the flow contexts, one each; and the work in
  flight is a sequence whose sizes add up.
\<close>

section \<open>Sessions without their times\<close>

definition session_tag :: "('u, 'f) group_scheduler \<Rightarrow> addr \<Rightarrow> (u32 \<times> 'u option \<times> u64 \<times> 'f option) option" where
  "session_tag gs q = map_option (\<lambda>s. (sess_entry_id s, user_data s, work_size s, cleanup_fn s)) (sessions gs q)"

definition payload :: "('u, 'f) group_scheduler \<Rightarrow> addr \<Rightarrow> 'u option" where
  "payload gs q = (case session_tag gs q of Some (i, d, w, f) \<Rightarrow> d | None \<Rightarrow> None)"

lemma tag_info: "session_info gs' q = session_info gs r \<Longrightarrow> session_tag gs' q = session_tag gs r"
  by (cases "sessions gs' q"; cases "sessions gs r") (auto simp: session_info_def session_tag_def)

lemma tag_of_info: "session_info gs q = Some (i, d, w, f, st, fin) \<Longrightarrow> session_tag gs q = Some (i, d, w, f)"
  by (auto simp: session_info_def session_tag_def)

lemma tag_rebased: "session_info gs' q = map_option (rebase_info off) (session_info gs q) \<Longrightarrow> session_tag gs' q = session_tag gs q"
  by (cases "sessions gs' q"; cases "sessions gs q") (auto simp: session_info_def session_tag_def rebase_info_def)

lemma payload_tag: "session_tag gs' q = session_tag gs r \<Longrightarrow> payload gs' q = payload gs r"
  by (simp add: payload_def)

lemma payload_of_tag [simp]: "session_tag gs q = Some (i, d, w, f) \<Longrightarrow> payload gs q = d"
  by (simp add: payload_def)

lemma tag_session: "session_tag gs q = Some (i, d, w, f) \<Longrightarrow>
    \<exists>s. sessions gs q = Some s \<and> sess_entry_id s = i \<and> user_data s = d \<and> work_size s = w \<and> cleanup_fn s = f"
  by (auto simp: session_tag_def)

lemma tag_sessions [simp]: "session_tag (gs\<lparr>virtual_time := v\<rparr>) = session_tag gs"
  by (simp add: session_tag_def fun_eq_iff)

section \<open>The level of a tenant\<close>

text \<open>A session of a tenant's level owns the context at its payload.\<close>

definition flow_session_ok :: "(addr \<Rightarrow> flow_session_context option) \<Rightarrow> u32 \<Rightarrow> level \<Rightarrow> addr \<Rightarrow> bool" where
  "flow_session_ok C i fs q \<longleftrightarrow> (\<exists>c ctx. C c = Some ctx \<and> ctx_tenant_id ctx = i \<and> ctx_work_size ctx \<noteq> 0 \<and>
     session_tag fs q = Some (ctx_flow_id ctx, Some c, ctx_work_size ctx, Some Flow_context_cleanup))"

definition flow_level_ok :: "(addr \<Rightarrow> flow_session_context option) \<Rightarrow> u32 \<Rightarrow> level \<Rightarrow> bool" where
  "flow_level_ok C i fs \<longleftrightarrow> gs_inv fs \<and> gs_max_entries fs = max_entries (entries fs) \<and> max_entries (entries fs) \<noteq> 0 \<and>
     inj_on (payload fs) (queued fs) \<and> (\<forall>q \<in> queued fs. flow_session_ok C i fs q)"

definition contexts_of :: "level \<Rightarrow> addr set" where
  "contexts_of fs = {c. \<exists>q \<in> queued fs. payload fs q = Some c}"

lemma flow_level_okD:
  assumes "flow_level_ok C i fs"
  shows "gs_inv fs" "gs_max_entries fs = max_entries (entries fs)" "inj_on (payload fs) (queued fs)"
    "\<And>q. q \<in> queued fs \<Longrightarrow> flow_session_ok C i fs q" "max_entries (entries fs) \<noteq> 0"
  using assms by (simp_all add: flow_level_ok_def)

lemma flow_session_okE:
  assumes "flow_session_ok C i fs q"
  obtains c ctx where "C c = Some ctx" "ctx_tenant_id ctx = i" "ctx_work_size ctx \<noteq> 0"
    "session_tag fs q = Some (ctx_flow_id ctx, Some c, ctx_work_size ctx, Some Flow_context_cleanup)"
    "payload fs q = Some c"
  using assms payload_of_tag unfolding flow_session_ok_def by blast

lemma contexts_present: "flow_level_ok C i fs \<Longrightarrow> c \<in> contexts_of fs \<Longrightarrow> \<exists>ctx. C c = Some ctx \<and> ctx_tenant_id ctx = i"
  by (auto simp: contexts_of_def dest!: flow_level_okD(4) elim!: flow_session_okE)

text \<open>Only the contexts a level owns matter to it.\<close>

lemma flow_level_ok_cong:
  assumes "flow_level_ok C i fs" "\<And>c. c \<in> contexts_of fs \<Longrightarrow> C' c = C c"
  shows "flow_level_ok C' i fs"
proof -
  have "flow_session_ok C' i fs q" if q: "q \<in> queued fs" for q
  proof (rule flow_session_okE [OF flow_level_okD(4) [OF assms(1) q]])
    fix c ctx assume c: "C c = Some ctx" "ctx_tenant_id ctx = i" "ctx_work_size ctx \<noteq> 0"
      "session_tag fs q = Some (ctx_flow_id ctx, Some c, ctx_work_size ctx, Some Flow_context_cleanup)"
      "payload fs q = Some c"
    have "c \<in> contexts_of fs" using q c(5) by (auto simp: contexts_of_def)
    then show ?thesis using c assms(2) [of c] by (auto simp: flow_session_ok_def)
  qed
  then show ?thesis using assms(1) by (simp add: flow_level_ok_def)
qed

lemma writes_max_entries: "writes ce ce' \<Longrightarrow> max_entries ce' = max_entries ce"
  by (simp add: writes_def)

lemma level_config_max: "level_config gs' = level_config gs \<Longrightarrow> gs_max_entries gs' = gs_max_entries gs"
  by (simp add: level_config_def)

text \<open>A level whose queue shrinks, or whose sessions only change their times, stays well-formed.\<close>

lemma flow_level_ok_sub:
  assumes ok: "flow_level_ok C i fs" and inv: "gs_inv fs'" and sub: "queued fs' \<subseteq> queued fs"
    and tag: "\<And>q. q \<in> queued fs' \<Longrightarrow> session_tag fs' q = session_tag fs q"
    and m: "gs_max_entries fs' = gs_max_entries fs" "max_entries (entries fs') = max_entries (entries fs)"
  shows "flow_level_ok C i fs'"
proof -
  have p: "payload fs' q = payload fs q" if "q \<in> queued fs'" for q using payload_tag [OF tag [OF that]] .
  have "inj_on (payload fs) (queued fs')" using flow_level_okD(3) [OF ok] sub by (rule inj_on_subset)
  then have "inj_on (payload fs') (queued fs')" using p by (simp add: inj_on_def)
  moreover have "flow_session_ok C i fs' q" if "q \<in> queued fs'" for q
    using flow_level_okD(4) [OF ok, of q] sub that tag [OF that] by (auto simp: flow_session_ok_def)
  ultimately show ?thesis using inv m flow_level_okD(2,5) [OF ok] by (simp add: flow_level_ok_def)
qed

lemma contexts_same:
  assumes Q: "queued fs' = queued fs" and tag: "\<And>q. q \<in> queued fs \<Longrightarrow> session_tag fs' q = session_tag fs q"
  shows "contexts_of fs' = contexts_of fs"
proof -
  have "payload fs' q = payload fs q" if "q \<in> queued fs" for q using payload_tag [OF tag [OF that]] .
  then show ?thesis by (simp add: contexts_of_def Q)
qed

lemma contexts_without:
  assumes ok: "flow_level_ok C i fs" and q: "q \<in> queued fs" and p: "payload fs q = Some c"
    and Q: "queued fs' = queued fs - {q}" and tag: "\<And>r. r \<in> queued fs' \<Longrightarrow> session_tag fs' r = session_tag fs r"
  shows "contexts_of fs' = contexts_of fs - {c}" "c \<in> contexts_of fs"
proof -
  have same: "payload fs' r = payload fs r" if "r \<in> queued fs'" for r using payload_tag [OF tag [OF that]] .
  have only: "r = q" if "r \<in> queued fs" "payload fs r = Some c" for r
    using inj_onD [OF flow_level_okD(3) [OF ok], of r q] that p q by simp
  have Q': "r \<in> queued fs' \<longleftrightarrow> r \<in> queued fs \<and> r \<noteq> q" for r unfolding Q by simp
  show "contexts_of fs' = contexts_of fs - {c}"
  proof (intro set_eqI iffI)
    fix x assume "x \<in> contexts_of fs'"
    then obtain r where r: "r \<in> queued fs'" "payload fs' r = Some x" unfolding contexts_of_def by clarsimp
    have r': "r \<in> queued fs" "r \<noteq> q" using r(1) unfolding Q' by simp_all
    have x: "payload fs r = Some x" using r(2) unfolding same [OF r(1)] .
    have "x \<noteq> c" using only [OF r'(1)] x r'(2) by metis
    then show "x \<in> contexts_of fs - {c}" unfolding contexts_of_def using r'(1) x by simp metis
  next
    fix x assume "x \<in> contexts_of fs - {c}"
    then obtain r where r: "r \<in> queued fs" "payload fs r = Some x" "x \<noteq> c" unfolding contexts_of_def by clarsimp
    have r': "r \<in> queued fs'" unfolding Q' using p r by (cases "r = q") simp_all
    then show "x \<in> contexts_of fs'" unfolding contexts_of_def using r(2) same [OF r'] by simp metis
  qed
  show "c \<in> contexts_of fs" unfolding contexts_of_def using q p by simp metis
qed

lemma contexts_insert:
  assumes Q: "queued fs' = insert q (queued fs)" and tag: "\<And>r. r \<in> queued fs \<Longrightarrow> session_tag fs' r = session_tag fs r"
    and p: "payload fs' q = Some c"
  shows "contexts_of fs' = insert c (contexts_of fs)"
proof -
  have same: "payload fs' r = payload fs r" if "r \<in> queued fs" for r using payload_tag [OF tag [OF that]] .
  have "contexts_of fs' = {x. payload fs' q = Some x} \<union> {x. \<exists>r \<in> queued fs. payload fs' r = Some x}"
    unfolding contexts_of_def Q by blast
  also have "{x. \<exists>r \<in> queued fs. payload fs' r = Some x} = contexts_of fs"
    unfolding contexts_of_def using same by simp
  finally show ?thesis using p by simp
qed

text \<open>The parts of a level that neither a session nor the time concerns.\<close>

definition level_frame :: "level \<Rightarrow> level \<Rightarrow> bool" where
  "level_frame gs' gs \<longleftrightarrow> shares gs' = shares gs \<and> level_config gs' = level_config gs \<and>
     live_ids (entries gs') = live_ids (entries gs) \<and> max_entries (entries gs') = max_entries (entries gs)"

lemma level_frame_refl [simp]: "level_frame gs gs"
  by (simp add: level_frame_def)

lemma level_frame_trans: "level_frame a b \<Longrightarrow> level_frame b c \<Longrightarrow> level_frame a c"
  by (simp add: level_frame_def)

lemma level_frame_writes:
  "shares gs' = shares gs \<Longrightarrow> level_config gs' = level_config gs \<Longrightarrow> writes (entries gs) (entries gs') \<Longrightarrow> level_frame gs' gs"
  by (simp add: level_frame_def writes_def)

lemma level_frame_entries:
  "level_config gs' = level_config gs \<Longrightarrow> same_entries gs' gs \<Longrightarrow> level_frame gs' gs"
  by (simp add: level_frame_def same_entriesD same_entriesD(3))

lemma level_frame_max: "level_frame gs' gs \<Longrightarrow> gs_max_entries gs' = gs_max_entries gs \<and> max_entries (entries gs') = max_entries (entries gs)"
  by (simp add: level_frame_def level_config_def)

lemma level_frame_sessions [simp]: "level_frame (gs\<lparr>sessions := H\<rparr>) gs" "level_frame (gs\<lparr>virtual_time := v\<rparr>) gs"
  by (simp_all add: level_frame_def level_config_def shares_def fun_eq_iff)

text \<open>Freeing a session that is no longer queued.\<close>

lemma free_session_ok:
  fixes gs :: level
  assumes inv: "gs_inv gs" and q: "q \<notin> queued gs" and s: "sessions gs q \<noteq> None"
  shows "hwfq_free q (sessions gs) = Some ((sessions gs)(q := None))"
    "gs_inv (gs\<lparr>sessions := (sessions gs)(q := None)\<rparr>)"
    "queued (gs\<lparr>sessions := (sessions gs)(q := None)\<rparr>) = queued gs"
    "r \<noteq> q \<Longrightarrow> session_info (gs\<lparr>sessions := (sessions gs)(q := None)\<rparr>) r = session_info gs r"
    "r \<noteq> q \<Longrightarrow> session_tag (gs\<lparr>sessions := (sessions gs)(q := None)\<rparr>) r = session_tag gs r"
proof -
  let ?gs = "gs\<lparr>sessions := (sessions gs)(q := None)\<rparr>"
  note gi = gs_invD [OF inv]
  have eq: "((sessions gs)(q := None)) a = sessions gs a" if "a \<in> queued gs" for a
    using that q by (cases "a = q") simp_all
  note heap = queued_heap [OF gi(1) eq]
  show Q: "queued ?gs = queued gs" by (rule heap(2))
  show info: "session_info ?gs r = session_info gs r" if "r \<noteq> q" for r using that by (simp add: session_info_def)
  then show "r \<noteq> q \<Longrightarrow> session_tag ?gs r = session_tag gs r" by (rule tag_info)
  show "hwfq_free q (sessions gs) = Some ((sessions gs)(q := None))" using s by (auto simp: hwfq_free_def)
  have times: "start_of ?gs a = start_of gs a" "finish_of ?gs a = finish_of gs a" if "a \<in> queued gs" for a
    using eq [OF that] by simp_all
  show "gs_inv ?gs"
    unfolding gs_inv_def
  proof (intro conjI)
    show "cal_inv ?gs" by (rule heap(1))
    show "cal_config ?gs" using gi(2) by simp
    show "entries_inv ?gs" using same_entriesD(1) [of ?gs gs] gi(3) by (simp add: same_entries_def)
    show "finite (queued ?gs)" "card (queued ?gs) = unat (active_session_count ?gs)" using gi(4,5) by (simp_all add: Q)
    show "\<forall>a \<in> queued ?gs. start_of ?gs a \<le> finish_of ?gs a" unfolding Q using gi(6) times by simp
  qed
qed

section \<open>The operations of a tenant's level\<close>

lemma flow_enqueue_cases:
  assumes lv: "flow_level_ok C i fs" and fresh: "fresh_in fs mem" and room: "active_session_count fs \<noteq> UINT32_MAX"
    and ctx: "C c = Some ctx" "ctx_tenant_id ctx = i" and new: "c \<notin> contexts_of fs"
  obtains (refused) err where "enqueue_error mem (ctx_flow_id ctx) (ctx_work_size ctx) fs = Some err"
      "group_scheduler_enqueue mem ts (ctx_flow_id ctx) (ctx_work_size ctx) (Some c) (Some Flow_context_cleanup) fs =
        Some (Inl err, fs)"
    | (ok) q fs' where "enqueue_error mem (ctx_flow_id ctx) (ctx_work_size ctx) fs = None" "mem = Some q"
      "group_scheduler_enqueue mem ts (ctx_flow_id ctx) (ctx_work_size ctx) (Some c) (Some Flow_context_cleanup) fs =
        Some (Inr q, fs')"
      "flow_level_ok C i fs'" "contexts_of fs' = insert c (contexts_of fs)" "q \<notin> queued fs"
      "queued fs' = insert q (queued fs)" "level_frame fs' fs" "active_session_count fs' = active_session_count fs + 1"
      "\<And>r. r \<noteq> q \<Longrightarrow> session_tag fs' r = session_tag fs r"
proof (cases rule: enqueue_cases [OF flow_level_okD(1) [OF lv] fresh room,
    where i = "ctx_flow_id ctx" and work = "ctx_work_size ctx" and ts = ts and data = "Some c" and
      cleanup = "Some Flow_context_cleanup", case_names refused ok])
  case (refused err)
  show thesis by (rule that(1) [OF refused])
next
  case (ok q fs')
  have tq: "session_tag fs' q = Some (ctx_flow_id ctx, Some c, ctx_work_size ctx, Some Flow_context_cleanup)"
    by (rule tag_of_info [OF ok(7)])
  have tr: "session_tag fs' r = session_tag fs r" if "r \<noteq> q" for r by (rule tag_info [OF ok(8) [OF that]])
  have pr: "payload fs' r = payload fs r" if "r \<in> queued fs" for r
  proof -
    have "r \<noteq> q" using that ok(5) by metis
    then show ?thesis by (rule payload_tag [OF tr])
  qed
  have nonzero: "ctx_work_size ctx \<noteq> 0"
  proof
    assume "ctx_work_size ctx = 0"
    then show False using ok(1) by (simp add: enqueue_error_def)
  qed
  have contexts: "contexts_of fs' = insert c (contexts_of fs)"
  proof (rule contexts_insert [OF ok(6)])
    fix r assume "r \<in> queued fs"
    then have "r \<noteq> q" using ok(5) by metis
    then show "session_tag fs' r = session_tag fs r" by (rule tr)
  qed (simp add: payload_of_tag [OF tq])
  have inj: "inj_on (payload fs') (queued fs')"
  proof -
    have "payload fs' q \<notin> payload fs ` queued fs"
      using new unfolding payload_of_tag [OF tq] contexts_of_def by force
    moreover have "payload fs' ` queued fs = payload fs ` queued fs" using pr by (simp cong: image_cong)
    moreover have "inj_on (payload fs') (queued fs) = inj_on (payload fs) (queued fs)" using pr by (rule inj_on_cong)
    ultimately show ?thesis unfolding ok(6) using ok(5) flow_level_okD(3) [OF lv] by simp
  qed
  have frame: "level_frame fs' fs" by (rule level_frame_writes [OF ok(12,11,13)])
  have "flow_session_ok C i fs' r" if r: "r \<in> queued fs'" for r
  proof (cases "r = q")
    case True
    then show ?thesis using tq ctx nonzero by (auto simp: flow_session_ok_def)
  next
    case False
    then have "r \<in> queued fs" using r ok(6) by simp
    then have "flow_session_ok C i fs r" by (rule flow_level_okD(4) [OF lv])
    then show ?thesis by (simp add: flow_session_ok_def tr [OF False])
  qed
  then have "flow_level_ok C i fs'"
    using ok(4) inj level_frame_max [OF frame] flow_level_okD(2,5) [OF lv] by (simp add: flow_level_ok_def)
  then show thesis by (rule that(2) [OF ok(1-3) _ contexts ok(5,6) frame ok(9) tr])
qed

lemma selectable_queued: "q \<in> selectable gs now \<Longrightarrow> q \<in> queued gs"
  by (simp add: selectable_def)

lemma flow_dequeue_cases:
  assumes lv: "flow_level_ok C i fs"
  obtains (none) fs' where "group_scheduler_dequeue fs = Some (None, fs')"
      "queued fs = {} \<or> selectable fs (search_time fs) = {}"
      "flow_level_ok C i fs'" "contexts_of fs' = contexts_of fs" "queued fs' = queued fs" "level_frame fs' fs"
      "active_session_count fs' = active_session_count fs"
    | (ok) q so c ctx fs' where "group_scheduler_dequeue fs = Some (Some q, fs')"
      "q \<in> selectable fs (search_time fs)" "\<And>r. r \<in> selectable fs (search_time fs) \<Longrightarrow> finish_of fs q \<le> finish_of fs r"
      "sessions fs' q = Some so" "session_get_user_data (Some so) = Some c"
      "C c = Some ctx" "ctx_tenant_id ctx = i" "ctx_work_size ctx \<noteq> 0" "sess_entry_id so = ctx_flow_id ctx"
      "flow_level_ok C i fs'" "contexts_of fs' = contexts_of fs - {c}" "c \<in> contexts_of fs"
      "queued fs' = queued fs - {q}" "level_frame fs' fs" "active_session_count fs' = active_session_count fs - 1"
      "\<And>r. session_info fs' r = session_info fs r"
proof (cases rule: dequeue_cases [OF flow_level_okD(1) [OF lv], case_names empty blocked ok])
  case empty
  show thesis by (rule that(1) [OF empty(2) disjI1 [OF empty(1)] lv refl refl level_frame_refl refl])
next
  case blocked
  let ?fs = "fs\<lparr>virtual_time := search_time fs\<rparr>"
  have "flow_level_ok C i ?fs" by (rule flow_level_ok_sub [OF lv blocked(4)]) simp_all
  moreover have "contexts_of ?fs = contexts_of fs" by (rule contexts_same) simp_all
  ultimately show thesis by (intro that(1) [OF blocked(3) disjI2 [OF blocked(2)]]) simp_all
next
  case (ok q fs')
  have q: "q \<in> queued fs" by (rule selectable_queued [OF ok(1)])
  have tag: "session_tag fs' r = session_tag fs r" for r by (rule tag_info [OF ok(6)])
  have frame: "level_frame fs' fs" by (rule level_frame_entries [OF ok(10,11)])
  have lv': "flow_level_ok C i fs'"
    by (rule flow_level_ok_sub [OF lv ok(4)]) (simp_all add: ok(5) tag level_frame_max [OF frame])
  show thesis
  proof (rule flow_session_okE [OF flow_level_okD(4) [OF lv q]])
    fix c ctx assume c: "C c = Some ctx" "ctx_tenant_id ctx = i" "ctx_work_size ctx \<noteq> 0"
      "session_tag fs q = Some (ctx_flow_id ctx, Some c, ctx_work_size ctx, Some Flow_context_cleanup)" "payload fs q = Some c"
    obtain so where so: "sessions fs' q = Some so" "user_data so = Some c" "sess_entry_id so = ctx_flow_id ctx"
      using tag_session [OF c(4) [folded tag]] by blast
    note ctxs = contexts_without [OF lv q c(5) ok(5) tag]
    have ud: "session_get_user_data (Some so) = Some c" by (simp add: session_get_user_data_def so(2))
    show thesis
      by (rule that(2) [OF ok(3,1,2) so(1) ud c(1-3) so(3) lv' ctxs ok(5) frame ok(9) ok(6)])
  qed
qed

lemma flow_update_ok:
  assumes lv: "flow_level_ok C i fs" and starts: "\<And>a. a \<in> queued fs \<Longrightarrow> start_of fs a \<noteq> UINT64_MAX"
  obtains fs' where "group_scheduler_update_virtual_time work fs = Some fs'" "flow_level_ok C i fs'"
    "contexts_of fs' = contexts_of fs" "queued fs' = queued fs" "level_frame fs' fs"
    "active_session_count fs' = active_session_count fs" "\<And>r. session_tag fs' r = session_tag fs r"
proof (rule update_ok [OF flow_level_okD(1) [OF lv] starts refl])
  fix fs' assume u: "group_scheduler_update_virtual_time work fs = Some fs'" "gs_inv fs'" "queued fs' = queued fs"
    "\<And>a. session_info fs' a = (if a \<in> queued fs
       then map_option (rebase_info (if advanced_time work fs < HWFQ_REBASE_THRESHOLD then 0 else advanced_time work fs div 2)) (session_info fs a)
       else session_info fs a)"
    "active_session_count fs' = active_session_count fs" "level_config fs' = level_config fs" "shares fs' = shares fs"
    "writes (entries fs) (entries fs')"
  have tag: "session_tag fs' r = session_tag fs r" for r
  proof (cases "r \<in> queued fs")
    case True show ?thesis by (rule tag_rebased) (simp only: u(4) True if_True)
  next
    case False show ?thesis by (rule tag_info) (simp only: u(4) False if_False)
  qed
  have frame: "level_frame fs' fs" by (rule level_frame_writes [OF u(7,6,8)])
  have "flow_level_ok C i fs'"
    by (rule flow_level_ok_sub [OF lv u(2)]) (simp_all add: u(3) tag level_frame_max [OF frame])
  moreover have "contexts_of fs' = contexts_of fs" by (rule contexts_same [OF u(3) tag])
  ultimately show thesis by (rule that [OF u(1) _ _ u(3) frame u(5) tag])
qed

lemma flow_free_ok:
  assumes lv: "flow_level_ok C i fs" and q: "q \<notin> queued fs" "sessions fs q \<noteq> None"
  defines "fs' \<equiv> fs\<lparr>sessions := (sessions fs)(q := None)\<rparr>"
  shows "hwfq_free q (sessions fs) = Some ((sessions fs)(q := None))" "flow_level_ok C i fs'"
    "contexts_of fs' = contexts_of fs" "queued fs' = queued fs" "level_frame fs' fs"
    "active_session_count fs' = active_session_count fs"
proof -
  note free = free_session_ok [OF flow_level_okD(1) [OF lv] q, folded fs'_def]
  have tag: "session_tag fs' r = session_tag fs r" if "r \<in> queued fs" for r
  proof (rule free(5))
    show "r \<noteq> q" using that q(1) by metis
  qed
  show "hwfq_free q (sessions fs) = Some ((sessions fs)(q := None))" by (rule free(1))
  show "queued fs' = queued fs" by (rule free(3))
  show frame: "level_frame fs' fs" by (simp add: fs'_def)
  show "active_session_count fs' = active_session_count fs" by (simp add: fs'_def)
  show "flow_level_ok C i fs'"
    by (rule flow_level_ok_sub [OF lv free(2)]) (simp_all add: free(3) tag level_frame_max [OF frame])
  show "contexts_of fs' = contexts_of fs" by (rule contexts_same [OF free(3) tag])
qed

text \<open>Writing the statistics of a configured entry.\<close>

lemma modify_flow_entry_ok:
  assumes lv: "flow_level_ok C i fs" and p: "shares fs p \<noteq> None" and same: "\<And>e. same_shares (f e) e"
  obtains e fs' where "modify_flow_entry p f fs = Some fs'" "flow_level_ok C i fs'" "contexts_of fs' = contexts_of fs"
    "queued fs' = queued fs" "level_frame fs' fs" "active_session_count fs' = active_session_count fs"
    "sessions fs' = sessions fs" "virtual_time fs' = virtual_time fs"
    "slot_of (entries fs) (unat p) = Some e"
    "\<And>j. slot_of (entries fs') (unat j) = (if j = p then Some (f e) else slot_of (entries fs) (unat j))"
proof -
  note gi = gs_invD [OF flow_level_okD(1) [OF lv]]
  obtain e where e: "slot_of (entries fs) (unat p) = Some e" using p by (auto simp: shares_def split: option.splits)
  have live: "p \<in> live_ids (entries fs)"
    using p shares_entry [of fs p] conf_ids_live [OF entries_invD(1) [OF gi(3)]] by auto
  note st = entry_store_live [OF entries_invD(1) [OF gi(3)] live, of "f e"]
  define fs' where "fs' = fs\<lparr>entries := put_slot (unat p) (f e) (entries fs)\<rparr>"
  have run: "modify_flow_entry p f fs = Some fs'"
    using e st(1) by (simp add: modify_flow_entry_def entry_load_slot fs'_def)
  have slots: "slot_of (entries fs') (unat j) = (if j = p then Some (f e) else slot_of (entries fs) (unat j))" for j
    using st(3) [of "unat j"] by (simp add: fs'_def)
  have wr: "writes (entries fs) (entries fs')" using st(2) by (simp add: fs'_def)
  have "\<exists>e'. slot_of (entries fs') (unat j) = Some e' \<and> same_shares e' d" if "slot_of (entries fs) (unat j) = Some d" for j :: u32 and d
    using that slots [of j] e same [of d] same_shares_refl [of d] by (cases "j = p") auto
  note ent = same_slot_shares [OF gi(3) wr this]
  have ent': "entries_inv fs'" "shares fs' = shares fs" by (rule ent; simp add: fs'_def)+
  have frame: "level_frame fs' fs"
    by (rule level_frame_writes [OF ent'(2) _ wr]) (simp add: fs'_def level_config_def)
  have Q: "queued fs' = queued fs" by (simp add: fs'_def)
  have tag: "session_tag fs' r = session_tag fs r" for r by (simp add: session_tag_def fs'_def)
  have "gs_inv fs'" using gi ent'(1) by (simp add: gs_inv_def fs'_def)
  then have "flow_level_ok C i fs'"
    by (rule flow_level_ok_sub [OF lv]) (simp_all add: Q tag level_frame_max [OF frame])
  moreover have "contexts_of fs' = contexts_of fs" by (rule contexts_same [OF Q tag])
  moreover have "active_session_count fs' = active_session_count fs" "sessions fs' = sessions fs" "virtual_time fs' = virtual_time fs"
    by (simp_all add: fs'_def)
  ultimately show thesis by (rule that [OF run _ _ Q frame _ _ _ e slots])
qed

lemma find_flow_entry_eq: "find_flow_entry t f = group_scheduler_find_entry (flow_scheduler t) f"
  by (simp add: find_flow_entry_def group_scheduler_find_entry_def)

lemma find_flow_entry_shares:
  "flow_level_ok C i (flow_scheduler t) \<Longrightarrow>
   find_flow_entry t f = Some (if shares (flow_scheduler t) f = None then None else Some f)"
  unfolding find_flow_entry_eq by (rule find_entry_eq [OF gs_invD(3) [OF flow_level_okD(1)]])

lemma same_shares_stats [simp]: "same_shares (e\<lparr>stats := st\<rparr>) e" "same_shares (e\<lparr>tracking := tr\<rparr>) e"
    "same_shares (e\<lparr>tracking := tr, stats := st\<rparr>) e" "same_shares (e\<lparr>stats := st, tracking := tr\<rparr>) e"
  by (cases "allocation e"; simp add: same_shares_def)+

section \<open>The system level\<close>

text \<open>
  The sessions of the system level and the flags of the tenants: a queued session stands for exactly
  one tenant with the flag set, which points back to it.
\<close>

type_synonym tenants_heap = "addr \<Rightarrow> tenant_config option"

definition sys_ok :: "tenants_heap \<Rightarrow> level \<Rightarrow> bool" where
  "sys_ok T sys \<longleftrightarrow> gs_inv sys \<and>
     (\<forall>q \<in> queued sys. \<exists>a t. T a = Some t \<and> has_backlog t \<and> tenant_session t = Some q \<and>
        session_tag sys q = Some (tenant_id t, Some a, TENANT_QUANTUM_SIZE, None)) \<and>
     (\<forall>a t. T a = Some t \<longrightarrow> has_backlog t \<longrightarrow>
        (\<exists>q \<in> queued sys. tenant_session t = Some q \<and> payload sys q = Some a))"

lemma sys_okD:
  assumes "sys_ok T sys"
  shows "gs_inv sys"
    "\<And>q. q \<in> queued sys \<Longrightarrow> \<exists>a t. T a = Some t \<and> has_backlog t \<and> tenant_session t = Some q \<and>
        session_tag sys q = Some (tenant_id t, Some a, TENANT_QUANTUM_SIZE, None)"
    "\<And>a t. T a = Some t \<Longrightarrow> has_backlog t \<Longrightarrow> \<exists>q. q \<in> queued sys \<and> tenant_session t = Some q \<and> payload sys q = Some a"
  using assms unfolding sys_ok_def by (simp, blast, blast)

definition backlog_view :: "tenant_config \<Rightarrow> u32 \<times> bool \<times> addr option" where
  "backlog_view t = (tenant_id t, has_backlog t, tenant_session t)"

lemma sys_ok_cong:
  assumes ok: "sys_ok T sys" and T: "\<And>a. map_option backlog_view (T' a) = map_option backlog_view (T a)"
  shows "sys_ok T' sys"
  unfolding sys_ok_def
proof (intro conjI ballI allI impI)
  show "gs_inv sys" by (rule sys_okD(1) [OF ok])
next
  fix q assume "q \<in> queued sys"
  from sys_okD(2) [OF ok this] obtain a t where t: "T a = Some t" "has_backlog t" "tenant_session t = Some q"
    "session_tag sys q = Some (tenant_id t, Some a, TENANT_QUANTUM_SIZE, None)" by blast
  then obtain t' where "T' a = Some t'" "backlog_view t' = backlog_view t" using T [of a] by (cases "T' a") auto
  then show "\<exists>a t. T' a = Some t \<and> has_backlog t \<and> tenant_session t = Some q \<and>
      session_tag sys q = Some (tenant_id t, Some a, TENANT_QUANTUM_SIZE, None)"
    using t by (intro exI [of _ a] exI [of _ t']) (simp add: backlog_view_def)
next
  fix a t' assume t': "T' a = Some t'" "has_backlog t'"
  then obtain t where "T a = Some t" "backlog_view t' = backlog_view t" using T [of a] by (cases "T a") auto
  then show "\<exists>q \<in> queued sys. tenant_session t' = Some q \<and> payload sys q = Some a"
    using sys_okD(3) [OF ok, of a t] t'(2) by (auto simp: backlog_view_def)
qed

lemma sys_ok_frame:
  assumes ok: "sys_ok T sys" and inv: "gs_inv sys'" and Q: "queued sys' = queued sys"
    and tag: "\<And>q. q \<in> queued sys \<Longrightarrow> session_tag sys' q = session_tag sys q"
  shows "sys_ok T sys'"
  unfolding sys_ok_def Q
proof (intro conjI ballI allI impI)
  fix q assume q: "q \<in> queued sys"
  show "\<exists>a t. T a = Some t \<and> has_backlog t \<and> tenant_session t = Some q \<and>
      session_tag sys' q = Some (tenant_id t, Some a, TENANT_QUANTUM_SIZE, None)"
    unfolding tag [OF q] by (rule sys_okD(2) [OF ok q])
next
  fix a t assume "T a = Some t" "has_backlog t"
  from sys_okD(3) [OF ok this] obtain q where q: "q \<in> queued sys" "tenant_session t = Some q" "payload sys q = Some a" by blast
  then show "\<exists>q \<in> queued sys. tenant_session t = Some q \<and> payload sys' q = Some a"
    using payload_tag [OF tag [OF q(1)]] by (intro bexI [of _ q]) simp_all
qed (rule inv)

lemma sys_ok_add:
  assumes ok: "sys_ok T sys" and inv: "gs_inv sys'" and a: "T a = Some t" "\<not> has_backlog t"
    and q: "q \<notin> queued sys" "queued sys' = insert q (queued sys)"
    and tag: "session_tag sys' q = Some (tenant_id t, Some a, TENANT_QUANTUM_SIZE, None)"
      "\<And>r. r \<noteq> q \<Longrightarrow> session_tag sys' r = session_tag sys r"
  shows "sys_ok (T(a \<mapsto> t\<lparr>tenant_session := Some q, has_backlog := True\<rparr>)) sys'"
  unfolding sys_ok_def q(2)
proof (intro conjI ballI allI impI)
  let ?t = "t\<lparr>tenant_session := Some q, has_backlog := True\<rparr>"
  fix r assume r: "r \<in> insert q (queued sys)"
  show "\<exists>b u. (T(a \<mapsto> ?t)) b = Some u \<and> has_backlog u \<and> tenant_session u = Some r \<and>
      session_tag sys' r = Some (tenant_id u, Some b, TENANT_QUANTUM_SIZE, None)"
  proof (cases "r = q")
    case True
    then show ?thesis using tag(1) by (intro exI [of _ a] exI [of _ ?t]) simp
  next
    case False
    then have "r \<in> queued sys" using r by simp
    from sys_okD(2) [OF ok this] obtain b u where u: "T b = Some u" "has_backlog u" "tenant_session u = Some r"
      "session_tag sys r = Some (tenant_id u, Some b, TENANT_QUANTUM_SIZE, None)" by blast
    have "b \<noteq> a" using u(1,2) a by auto
    then show ?thesis using u tag(2) [OF False] by (intro exI [of _ b] exI [of _ u]) simp
  qed
next
  let ?t = "t\<lparr>tenant_session := Some q, has_backlog := True\<rparr>"
  fix b u assume u: "(T(a \<mapsto> ?t)) b = Some u" "has_backlog u"
  show "\<exists>r \<in> insert q (queued sys). tenant_session u = Some r \<and> payload sys' r = Some b"
  proof (cases "b = a")
    case True
    then show ?thesis using u payload_of_tag [OF tag(1)] by (intro bexI [of _ q]) auto
  next
    case False
    then have "T b = Some u" using u(1) by simp
    from sys_okD(3) [OF ok this u(2)] obtain r where r: "r \<in> queued sys" "tenant_session u = Some r" "payload sys r = Some b" by blast
    have "r \<noteq> q" using r(1) q(1) by metis
    then show ?thesis using r payload_tag [OF tag(2)] by (intro bexI [of _ r]) simp_all
  qed
qed (rule inv)

lemma sys_ok_take:
  assumes ok: "sys_ok T sys" and inv: "gs_inv sys'" and q: "q \<in> queued sys" "queued sys' = queued sys - {q}"
    and tag: "\<And>r. r \<in> queued sys' \<Longrightarrow> session_tag sys' r = session_tag sys r"
  obtains a t where "T a = Some t" "has_backlog t" "session_tag sys q = Some (tenant_id t, Some a, TENANT_QUANTUM_SIZE, None)"
    "sys_ok (T(a \<mapsto> t\<lparr>has_backlog := False, tenant_session := None\<rparr>)) sys'"
proof -
  from sys_okD(2) [OF ok q(1)] obtain a t where t: "T a = Some t" "has_backlog t" "tenant_session t = Some q"
    "session_tag sys q = Some (tenant_id t, Some a, TENANT_QUANTUM_SIZE, None)" by blast
  let ?t = "t\<lparr>has_backlog := False, tenant_session := None\<rparr>"
  have Q: "r \<in> queued sys' \<longleftrightarrow> r \<in> queued sys \<and> r \<noteq> q" for r unfolding q(2) by simp
  have "sys_ok (T(a \<mapsto> ?t)) sys'"
    unfolding sys_ok_def
  proof (intro conjI ballI allI impI)
    fix r assume r': "r \<in> queued sys'"
    then have r: "r \<in> queued sys" "r \<noteq> q" unfolding Q by simp_all
    from sys_okD(2) [OF ok r(1)] obtain b u where u: "T b = Some u" "has_backlog u" "tenant_session u = Some r"
      "session_tag sys r = Some (tenant_id u, Some b, TENANT_QUANTUM_SIZE, None)" by blast
    have "b \<noteq> a" using u(1,3) t(1,3) r(2) by auto
    then show "\<exists>b u. (T(a \<mapsto> ?t)) b = Some u \<and> has_backlog u \<and> tenant_session u = Some r \<and>
        session_tag sys' r = Some (tenant_id u, Some b, TENANT_QUANTUM_SIZE, None)"
      using u tag [OF r'] by (intro exI [of _ b] exI [of _ u]) simp
  next
    fix b u assume u: "(T(a \<mapsto> ?t)) b = Some u" "has_backlog u"
    then have b: "b \<noteq> a" "T b = Some u" by (auto split: if_splits)
    from sys_okD(3) [OF ok b(2) u(2)] obtain r where r: "r \<in> queued sys" "tenant_session u = Some r" "payload sys r = Some b" by blast
    have "r \<noteq> q" using r(3) payload_of_tag [OF t(4)] b(1) by auto
    then have r': "r \<in> queued sys'" using r(1) unfolding Q by simp
    show "\<exists>r \<in> queued sys'. tenant_session u = Some r \<and> payload sys' r = Some b"
      using r payload_tag [OF tag [OF r']] by (intro bexI [OF _ r']) simp
  qed (rule inv)
  then show thesis by (rule that [OF t(1,2,4)])
qed

section \<open>The invariant\<close>

text \<open>The tenant table, the tenants and the entries of the system level.\<close>

definition tables_ok :: "hwfq_scheduler \<Rightarrow> bool" where
  "tables_ok s \<longleftrightarrow>
     length (tenants s) = unat (cfg_max_tenants (hwfq_cfg s)) \<and>
     (\<forall>i < length (tenants s). \<forall>a. tenants s ! i = Some a \<longrightarrow>
        (\<exists>t. tenant_heap s a = Some t \<and> unat (tenant_id t) = i)) \<and>
     (\<forall>a t. tenant_heap s a = Some t \<longrightarrow> tenant_configured t \<and>
        unat (tenant_id t) < length (tenants s) \<and> tenants s ! unat (tenant_id t) = Some a \<and>
        shares (system_scheduler s) (tenant_id t) = Some (tenant_allocation t)) \<and>
     live_ids (entries (system_scheduler s)) = {i. \<exists>a t. tenant_heap s a = Some t \<and> tenant_id t = i} \<and>
     gs_max_entries (system_scheduler s) = cfg_max_tenants (hwfq_cfg s) \<and>
     max_entries (entries (system_scheduler s)) = cfg_max_tenants (hwfq_cfg s) \<and>
     cfg_max_tenants (hwfq_cfg s) \<noteq> 0 \<and>
     total_capacity (system_scheduler s) = cfg_total_capacity (hwfq_cfg s) \<and>
     hwfq_allocated_rate_capacity s = allocated_rate_capacity (system_scheduler s)"

text \<open>The work in flight: one sequence, whose sizes add up, and no other entry on the heap.\<close>

definition flight_work :: "in_flight \<Rightarrow> addr list \<Rightarrow> u64" where
  "flight_work fl xs = sum_list (map (\<lambda>a. if_work_size (the (if_entries fl a))) xs)"

definition flight_ok :: "in_flight \<Rightarrow> addr list \<Rightarrow> bool" where
  "flight_ok fl xs \<longleftrightarrow> in_flight_seq fl xs \<and> in_flight_work_size fl = flight_work fl xs \<and>
     in_flight_count fl = of_nat (length xs) \<and> dom (if_entries fl) = set xs"

definition tenants_ok :: "hwfq_scheduler \<Rightarrow> bool" where
  "tenants_ok s \<longleftrightarrow> (\<forall>a t. tenant_heap s a = Some t \<longrightarrow>
     flow_level_ok (context_heap s) (tenant_id t) (flow_scheduler t))"

definition hwfq_inv :: "hwfq_scheduler \<Rightarrow> addr list \<Rightarrow> bool" where
  "hwfq_inv s xs \<longleftrightarrow> tables_ok s \<and> sys_ok (tenant_heap s) (system_scheduler s) \<and> tenants_ok s \<and> flight_ok (flight s) xs"

text \<open>The contexts waiting in the queues of the tenants.\<close>

definition pending :: "hwfq_scheduler \<Rightarrow> addr set" where
  "pending s = {c. \<exists>a t. tenant_heap s a = Some t \<and> c \<in> contexts_of (flow_scheduler t)}"

lemma hwfq_invD:
  assumes "hwfq_inv s xs"
  shows "tables_ok s" "sys_ok (tenant_heap s) (system_scheduler s)" "tenants_ok s" "flight_ok (flight s) xs"
  using assms by (simp_all add: hwfq_inv_def)

lemma tables_okD:
  assumes "tables_ok s"
  shows "length (tenants s) = unat (cfg_max_tenants (hwfq_cfg s))"
    "\<And>i a. i < length (tenants s) \<Longrightarrow> tenants s ! i = Some a \<Longrightarrow> \<exists>t. tenant_heap s a = Some t \<and> unat (tenant_id t) = i"
    "\<And>a t. tenant_heap s a = Some t \<Longrightarrow> tenant_configured t \<and>
        unat (tenant_id t) < length (tenants s) \<and> tenants s ! unat (tenant_id t) = Some a \<and>
        shares (system_scheduler s) (tenant_id t) = Some (tenant_allocation t)"
    "live_ids (entries (system_scheduler s)) = {i. \<exists>a t. tenant_heap s a = Some t \<and> tenant_id t = i}"
    "gs_max_entries (system_scheduler s) = cfg_max_tenants (hwfq_cfg s)"
    "max_entries (entries (system_scheduler s)) = cfg_max_tenants (hwfq_cfg s)"
    "cfg_max_tenants (hwfq_cfg s) \<noteq> 0"
    "total_capacity (system_scheduler s) = cfg_total_capacity (hwfq_cfg s)"
    "hwfq_allocated_rate_capacity s = allocated_rate_capacity (system_scheduler s)"
  using assms unfolding tables_ok_def by blast+

lemma tenants_okD: "tenants_ok s \<Longrightarrow> tenant_heap s a = Some t \<Longrightarrow> flow_level_ok (context_heap s) (tenant_id t) (flow_scheduler t)"
  unfolding tenants_ok_def by blast

lemma tenant_id_unique:
  assumes "tables_ok s" "tenant_heap s a = Some t" "tenant_heap s b = Some u" "tenant_id t = tenant_id u"
  shows "a = b"
  using tables_okD(3) [OF assms(1,2)] tables_okD(3) [OF assms(1,3)] assms(4) by simp

text \<open>A call that finds a tenant finds the one with the ID.\<close>

lemma configured_tenant_cases:
  assumes tb: "tables_ok s" and i: "\<not> cfg_max_tenants (hwfq_cfg s) \<le> i"
  obtains (none) "configured_tenant i s = Some (Inl HWFQ_ERR_NOT_FOUND)" "tenant_at i s = Some None"
      "\<And>a t. tenant_heap s a = Some t \<Longrightarrow> tenant_id t \<noteq> i"
    | (some) a t where "configured_tenant i s = Some (Inr (a, t))" "tenant_heap s a = Some t" "tenant_id t = i"
      "tenant_configured t" "tenant_at i s = Some (Some a)"
proof -
  have len: "unat i < length (tenants s)" using i tables_okD(1) [OF tb] by (simp add: word_le_nat_alt)
  show thesis
  proof (cases "tenants s ! unat i")
    case None
    have "tenant_id t \<noteq> i" if "tenant_heap s a = Some t" for a t
      using tables_okD(3) [OF tb that] None by auto
    then show thesis using none None len by (simp add: configured_tenant_def tenant_at_def)
  next
    case (Some a)
    from tables_okD(2) [OF tb len Some] obtain t where t: "tenant_heap s a = Some t" "tenant_id t = i" by auto
    have "tenant_configured t" using tables_okD(3) [OF tb t(1)] by blast
    then show thesis using some t Some len by (simp add: configured_tenant_def tenant_at_def)
  qed
qed

definition tenant_key :: "tenant_config \<Rightarrow> u32 \<times> hwfq_allocation \<times> bool" where
  "tenant_key t = (tenant_id t, tenant_allocation t, tenant_configured t)"

lemma tables_ok_frame:
  assumes tb: "tables_ok s" and same: "hwfq_cfg s' = hwfq_cfg s" "tenants s' = tenants s"
      "hwfq_allocated_rate_capacity s' = hwfq_allocated_rate_capacity s"
    and T: "\<And>a. map_option tenant_key (tenant_heap s' a) = map_option tenant_key (tenant_heap s a)"
    and sys: "level_frame (system_scheduler s') (system_scheduler s)"
  shows "tables_ok s'"
proof -
  have fwd: "\<exists>t'. tenant_heap s' a = Some t' \<and> tenant_key t' = tenant_key t" if "tenant_heap s a = Some t" for a t
    using T [of a] that by (cases "tenant_heap s' a") auto
  have bwd: "\<exists>t. tenant_heap s a = Some t \<and> tenant_key t' = tenant_key t" if "tenant_heap s' a = Some t'" for a t'
    using T [of a] that by (cases "tenant_heap s a") auto
  have ids: "{i. \<exists>a t. tenant_heap s' a = Some t \<and> tenant_id t = i} = {i. \<exists>a t. tenant_heap s a = Some t \<and> tenant_id t = i}"
    using fwd bwd unfolding tenant_key_def by (intro set_eqI iffI) (clarsimp, metis prod.inject)+
  have fr: "shares (system_scheduler s') = shares (system_scheduler s)"
    "live_ids (entries (system_scheduler s')) = live_ids (entries (system_scheduler s))"
    "max_entries (entries (system_scheduler s')) = max_entries (entries (system_scheduler s))"
    "gs_max_entries (system_scheduler s') = gs_max_entries (system_scheduler s)"
    "total_capacity (system_scheduler s') = total_capacity (system_scheduler s)"
    "allocated_rate_capacity (system_scheduler s') = allocated_rate_capacity (system_scheduler s)"
    using sys by (simp_all add: level_frame_def level_config_def)
  show ?thesis
    unfolding tables_ok_def same fr ids
  proof (intro conjI allI impI)
    fix i a assume "i < length (tenants s)" "tenants s ! i = Some a"
    from tables_okD(2) [OF tb this] obtain t where t: "tenant_heap s a = Some t" "unat (tenant_id t) = i" by blast
    from fwd [OF t(1)] obtain t' where "tenant_heap s' a = Some t'" "tenant_key t' = tenant_key t" by blast
    then show "\<exists>t. tenant_heap s' a = Some t \<and> unat (tenant_id t) = i" using t(2) by (simp add: tenant_key_def)
  next
    fix a t' assume "tenant_heap s' a = Some t'"
    from bwd [OF this] obtain t where t: "tenant_heap s a = Some t" "tenant_key t' = tenant_key t" by blast
    from tables_okD(3) [OF tb t(1)] show "tenant_configured t'" "unat (tenant_id t') < length (tenants s)"
      "tenants s ! unat (tenant_id t') = Some a" "shares (system_scheduler s) (tenant_id t') = Some (tenant_allocation t')"
      using t(2) by (simp_all add: tenant_key_def)
  qed (simp_all add: tables_okD [OF tb])
qed

section \<open>How the parts of the state may change\<close>

lemma hwfq_inv_put:
  assumes inv: "hwfq_inv s xs" and t: "tenant_heap s a = Some t"
    and same: "tenant_key t' = tenant_key t" "backlog_view t' = backlog_view t"
    and lv: "flow_level_ok (context_heap s) (tenant_id t) (flow_scheduler t')"
  shows "hwfq_inv (put_tenant a t' s) xs"
proof -
  note hi = hwfq_invD [OF inv]
  have "tables_ok (put_tenant a t' s)"
    by (rule tables_ok_frame [OF hi(1)]) (use t same in \<open>simp_all add: put_tenant_def\<close>)
  moreover have "sys_ok (tenant_heap (put_tenant a t' s)) (system_scheduler s)"
    by (rule sys_ok_cong [OF hi(2)]) (use t same in \<open>simp add: put_tenant_def\<close>)
  moreover have "tenant_id t' = tenant_id t" using same(1) by (simp add: tenant_key_def)
  then have "tenants_ok (put_tenant a t' s)"
    using tenants_okD [OF hi(3)] lv by (simp add: tenants_ok_def put_tenant_def)
  ultimately show ?thesis using hi(4) by (simp add: hwfq_inv_def put_tenant_def)
qed

lemma hwfq_inv_system:
  assumes inv: "hwfq_inv s xs" and sys: "sys_ok (tenant_heap s) sys'" "level_frame sys' (system_scheduler s)"
  shows "hwfq_inv (s\<lparr>system_scheduler := sys'\<rparr>) xs"
proof -
  note hi = hwfq_invD [OF inv]
  have "tables_ok (s\<lparr>system_scheduler := sys'\<rparr>)" by (rule tables_ok_frame [OF hi(1)]) (simp_all add: sys(2))
  then show ?thesis using hi sys(1) by (simp add: hwfq_inv_def tenants_ok_def)
qed

text \<open>The system level and the backlog flag of one tenant change together.\<close>

lemma hwfq_inv_backlog:
  assumes inv: "hwfq_inv s xs" and t: "tenant_heap s a = Some t"
    and same: "tenant_key t' = tenant_key t" "flow_scheduler t' = flow_scheduler t"
    and sys: "sys_ok ((tenant_heap s)(a \<mapsto> t')) sys'" "level_frame sys' (system_scheduler s)"
  shows "hwfq_inv ((put_tenant a t' s)\<lparr>system_scheduler := sys'\<rparr>) xs"
proof -
  note hi = hwfq_invD [OF inv]
  let ?s = "(put_tenant a t' s)\<lparr>system_scheduler := sys'\<rparr>"
  have "tables_ok ?s" by (rule tables_ok_frame [OF hi(1)]) (use t same sys(2) in \<open>simp_all add: put_tenant_def\<close>)
  moreover have "tenant_id t' = tenant_id t" using same(1) by (simp add: tenant_key_def)
  then have "tenants_ok ?s"
    using tenants_okD [OF hi(3)] t same(2) by (simp add: tenants_ok_def put_tenant_def)
  ultimately show ?thesis using hi(4) sys(1) by (simp add: hwfq_inv_def put_tenant_def)
qed

lemma hwfq_inv_contexts:
  assumes inv: "hwfq_inv s xs" and C: "\<And>c. c \<in> pending s \<Longrightarrow> C' c = context_heap s c"
  shows "hwfq_inv (s\<lparr>context_heap := C'\<rparr>) xs"
proof -
  note hi = hwfq_invD [OF inv]
  have "flow_level_ok C' (tenant_id t) (flow_scheduler t)" if t: "tenant_heap s a = Some t" for a t
  proof (rule flow_level_ok_cong [OF tenants_okD [OF hi(3) t]])
    fix c assume "c \<in> contexts_of (flow_scheduler t)"
    then have "c \<in> pending s" using t unfolding pending_def by blast
    then show "C' c = context_heap s c" by (rule C)
  qed
  then have "tenants_ok (s\<lparr>context_heap := C'\<rparr>)" by (simp add: tenants_ok_def)
  moreover have "tables_ok (s\<lparr>context_heap := C'\<rparr>)" by (rule tables_ok_frame [OF hi(1)]) simp_all
  ultimately show ?thesis using hi(2,4) by (simp add: hwfq_inv_def)
qed

lemma hwfq_inv_flight:
  assumes "hwfq_inv s xs" "flight_ok fl ys"
  shows "hwfq_inv (s\<lparr>flight := fl\<rparr>) ys"
proof -
  have "tables_ok (s\<lparr>flight := fl\<rparr>)" by (rule tables_ok_frame [OF hwfq_invD(1) [OF assms(1)]]) simp_all
  then show ?thesis using assms hwfq_invD(2,3) [OF assms(1)] by (simp add: hwfq_inv_def tenants_ok_def)
qed

lemma pending_frame [simp]:
  "pending (s\<lparr>system_scheduler := sys'\<rparr>) = pending s" "pending (s\<lparr>context_heap := C\<rparr>) = pending s"
  "pending (s\<lparr>flight := fl\<rparr>) = pending s" "pending (s\<lparr>total_active_flows := n\<rparr>) = pending s"
  by (simp_all add: pending_def)

text \<open>Contexts of different tenants are different.\<close>

lemma contexts_disjoint:
  assumes inv: "hwfq_inv s xs" and t: "tenant_heap s a = Some t" "tenant_heap s b = Some u" "a \<noteq> b"
    and c: "c \<in> contexts_of (flow_scheduler t)"
  shows "c \<notin> contexts_of (flow_scheduler u)"
proof
  note hi = hwfq_invD [OF inv]
  assume c': "c \<in> contexts_of (flow_scheduler u)"
  from contexts_present [OF tenants_okD [OF hi(3) t(1)] c] contexts_present [OF tenants_okD [OF hi(3) t(2)] c']
  have "tenant_id t = tenant_id u" by auto
  from tenant_id_unique [OF hi(1) t(1,2) this] show False using t(3) by simp
qed

lemma pending_put:
  assumes inv: "hwfq_inv s xs" and t: "tenant_heap s a = Some t"
  shows "pending (put_tenant a t' s) = (pending s - contexts_of (flow_scheduler t)) \<union> contexts_of (flow_scheduler t')"
proof (intro set_eqI iffI)
  fix c assume "c \<in> pending (put_tenant a t' s)"
  then obtain b u where u: "((tenant_heap s)(a \<mapsto> t')) b = Some u" "c \<in> contexts_of (flow_scheduler u)"
    unfolding pending_def put_tenant_def by auto
  show "c \<in> (pending s - contexts_of (flow_scheduler t)) \<union> contexts_of (flow_scheduler t')"
  proof (cases "b = a")
    case True then show ?thesis using u by simp
  next
    case False
    then have b: "tenant_heap s b = Some u" using u(1) by simp
    have "c \<notin> contexts_of (flow_scheduler t)" by (rule contexts_disjoint [OF inv b t False u(2)])
    then show ?thesis using b u(2) unfolding pending_def by blast
  qed
next
  fix c assume "c \<in> (pending s - contexts_of (flow_scheduler t)) \<union> contexts_of (flow_scheduler t')"
  then consider "c \<in> contexts_of (flow_scheduler t')" | "c \<in> pending s" "c \<notin> contexts_of (flow_scheduler t)" by blast
  then show "c \<in> pending (put_tenant a t' s)"
  proof cases
    case 1
    then show ?thesis unfolding pending_def put_tenant_def by auto
  next
    case 2
    then obtain b u where u: "tenant_heap s b = Some u" "c \<in> contexts_of (flow_scheduler u)" unfolding pending_def by blast
    then have "b \<noteq> a" using t 2(2) by auto
    then show ?thesis using u unfolding pending_def put_tenant_def by auto
  qed
qed

lemma contexts_pending: "tenant_heap s a = Some t \<Longrightarrow> c \<in> contexts_of (flow_scheduler t) \<Longrightarrow> c \<in> pending s"
  unfolding pending_def by blast

lemma pending_put_same:
  assumes "hwfq_inv s xs" "tenant_heap s a = Some t" "contexts_of (flow_scheduler t') = contexts_of (flow_scheduler t)"
  shows "pending (put_tenant a t' s) = pending s"
  using pending_put [OF assms(1,2)] contexts_pending [OF assms(2)] assms(3) by blast

lemma pending_put_insert:
  assumes "hwfq_inv s xs" "tenant_heap s a = Some t" "contexts_of (flow_scheduler t') = insert c (contexts_of (flow_scheduler t))"
  shows "pending (put_tenant a t' s) = insert c (pending s)"
  using pending_put [OF assms(1,2)] contexts_pending [OF assms(2)] assms(3) by blast

lemma pending_put_remove:
  assumes "hwfq_inv s xs" "tenant_heap s a = Some t" "contexts_of (flow_scheduler t') = contexts_of (flow_scheduler t) - {c}"
    and "c \<in> contexts_of (flow_scheduler t)"
  shows "pending (put_tenant a t' s) = pending s - {c}" "c \<in> pending s"
  using pending_put [OF assms(1,2)] contexts_pending [OF assms(2)] assms(3,4) by blast+

lemma pending_present: "hwfq_inv s xs \<Longrightarrow> c \<in> pending s \<Longrightarrow> \<exists>ctx. context_heap s c = Some ctx"
  using contexts_present tenants_okD [OF hwfq_invD(3)] unfolding pending_def by blast

end
