(* ===== verification/HWFQ_Scheduling.thy ===== *)
theory HWFQ_Scheduling
  imports HWFQ_Invariant
begin

text \<open>
  The calls of \<^verbatim>\<open>src/hwfq_scheduler.c\<close> keep the invariant, and what each does to the work: an
  accepted session is a flow context in \<open>pending\<close>, a dequeued one is an entry in flight, a completed,
  cancelled or timed-out one is gone.
\<close>

section \<open>What a call may rely on\<close>

text \<open>
  The allocator answers NULL or an address that is not in use, and no level holds as many sessions as
  its 32-bit counter can count.
\<close>

definition env_fresh :: "env \<Rightarrow> hwfq_scheduler \<Rightarrow> bool" where
  "env_fresh env s \<longleftrightarrow>
     (case env_context env of None \<Rightarrow> True | Some c \<Rightarrow> context_heap s c = None) \<and>
     (case env_entry env of None \<Rightarrow> True | Some e \<Rightarrow> if_entries (flight s) e = None) \<and>
     fresh_in (system_scheduler s) (env_tenant_session env) \<and>
     (\<forall>a t. tenant_heap s a = Some t \<longrightarrow> fresh_in (flow_scheduler t) (env_flow_session env))"

definition has_room :: "hwfq_scheduler \<Rightarrow> bool" where
  "has_room s \<longleftrightarrow> active_session_count (system_scheduler s) \<noteq> UINT32_MAX \<and>
     (\<forall>a t. tenant_heap s a = Some t \<longrightarrow> active_session_count (flow_scheduler t) \<noteq> UINT32_MAX)"

text \<open>No start time is saturated: the precondition under which a level keeps its order over a rebase.\<close>

definition unsaturated :: "level \<Rightarrow> bool" where
  "unsaturated gs \<longleftrightarrow> (\<forall>q \<in> queued gs. start_of gs q \<noteq> UINT64_MAX)"

definition times_fit :: "hwfq_scheduler \<Rightarrow> bool" where
  "times_fit s \<longleftrightarrow> unsaturated (system_scheduler s) \<and>
     (\<forall>a t. tenant_heap s a = Some t \<longrightarrow> unsaturated (flow_scheduler t))"

section \<open>Registering a tenant\<close>

lemma put_tenant_simps [simp]:
  "tenant_heap (put_tenant a t s) = (tenant_heap s)(a \<mapsto> t)" "hwfq_cfg (put_tenant a t s) = hwfq_cfg s"
  "tenants (put_tenant a t s) = tenants s" "flight (put_tenant a t s) = flight s"
  "context_heap (put_tenant a t s) = context_heap s" "system_scheduler (put_tenant a t s) = system_scheduler s"
  "total_active_flows (put_tenant a t s) = total_active_flows s"
  "num_configured_tenants (put_tenant a t s) = num_configured_tenants s"
  "hwfq_allocated_rate_capacity (put_tenant a t s) = hwfq_allocated_rate_capacity s"
  by (simp_all add: put_tenant_def)

lemma register_cases:
  assumes inv: "hwfq_inv s xs" and t: "tenant_heap s a = Some t"
    and fresh: "fresh_in (system_scheduler s) (env_tenant_session env)"
    and room: "active_session_count (system_scheduler s) \<noteq> UINT32_MAX"
  obtains (already) "has_backlog t" "register_tenant_backlog env a s = Some (Inr (), s)"
    | (refused) err where "\<not> has_backlog t"
      "enqueue_error (env_tenant_session env) (tenant_id t) TENANT_QUANTUM_SIZE (system_scheduler s) = Some err"
      "register_tenant_backlog env a s = Some (Inl err, s)"
    | (ok) q sys' t' s' where "\<not> has_backlog t"
      "enqueue_error (env_tenant_session env) (tenant_id t) TENANT_QUANTUM_SIZE (system_scheduler s) = None"
      "t' = t\<lparr>tenant_session := Some q, has_backlog := True\<rparr>"
      "s' = (put_tenant a t' s)\<lparr>system_scheduler := sys'\<rparr>"
      "register_tenant_backlog env a s = Some (Inr (), s')" "hwfq_inv s' xs"
      "queued sys' = insert q (queued (system_scheduler s))" "q \<notin> queued (system_scheduler s)"
proof (cases "has_backlog t")
  case True
  then show thesis using already t by (simp add: register_tenant_backlog_def)
next
  case False
  note hi = hwfq_invD [OF inv]
  show thesis
  proof (cases rule: enqueue_cases [OF sys_okD(1) [OF hi(2)] fresh room, where i = "tenant_id t" and
      work = TENANT_QUANTUM_SIZE and ts = "env_tenant_time env" and data = "Some a" and cleanup = None,
      case_names refused' ok'])
    case (refused' err)
    have "register_tenant_backlog env a s = Some (Inl err, s)"
      using refused'(2) t False by (simp add: register_tenant_backlog_def)
    then show thesis by (rule refused [OF False refused'(1)])
  next
    case (ok' q sys')
    let ?t = "t\<lparr>tenant_session := Some q, has_backlog := True\<rparr>"
    let ?s = "(put_tenant a ?t s)\<lparr>system_scheduler := sys'\<rparr>"
    have tag: "session_tag sys' r = session_tag (system_scheduler s) r" if "r \<noteq> q" for r
      by (rule tag_info [OF ok'(8) [OF that]])
    have sys: "sys_ok ((tenant_heap s)(a \<mapsto> ?t)) sys'"
      by (rule sys_ok_add [OF hi(2) ok'(4) t False ok'(5,6) tag_of_info [OF ok'(7)] tag])
    have "hwfq_inv ?s xs"
      by (rule hwfq_inv_backlog [OF inv t _ _ sys level_frame_writes [OF ok'(12,11,13)]])
        (simp_all add: tenant_key_def)
    moreover have "register_tenant_backlog env a s = Some (Inr (), ?s)"
      using ok'(3) t False by (simp add: register_tenant_backlog_def put_tenant_def)
    ultimately show thesis by (intro ok [OF False ok'(1) refl refl _ _ ok'(6,5)])
  qed
qed

text \<open>In short: everything but the flag of the tenant and the queue of the system level is as before.\<close>

lemma register_ok:
  assumes "hwfq_inv s xs" and t: "tenant_heap s a = Some t"
    and "fresh_in (system_scheduler s) (env_tenant_session env)" "active_session_count (system_scheduler s) \<noteq> UINT32_MAX"
  obtains ret s' t' where "register_tenant_backlog env a s = Some (ret, s')" "hwfq_inv s' xs"
    "pending s' = pending s" "tenant_heap s' = (tenant_heap s)(a \<mapsto> t')" "flow_scheduler t' = flow_scheduler t"
    "tenant_id t' = tenant_id t" "tenant_key t' = tenant_key t" "tenant_stats t' = tenant_stats t"
    "context_heap s' = context_heap s" "flight s' = flight s"
    "hwfq_cfg s' = hwfq_cfg s"
    "has_backlog t' \<longleftrightarrow> has_backlog t \<or>
      enqueue_error (env_tenant_session env) (tenant_id t) TENANT_QUANTUM_SIZE (system_scheduler s) = None"
    "has_backlog t \<Longrightarrow> s' = s"
proof (cases rule: register_cases [OF assms, case_names already refused ok])
  case already
  then show thesis using t by (intro that [of _ s t]) (simp_all add: assms(1) fun_upd_triv fun_upd_idem)
next
  case (refused err)
  then show thesis using t by (intro that [of _ s t]) (simp_all add: assms(1) fun_upd_idem)
next
  case (ok q sys' t' s')
  have "pending (put_tenant a t' s) = pending s"
    by (rule pending_put_same [OF assms(1) t]) (simp add: ok(3))
  then have "pending s' = pending s" unfolding ok(4) by simp
  then show thesis by (intro that [where t' = t', OF ok(5,6)]) (simp_all add: ok(1-4) tenant_key_def)
qed

section \<open>Enqueuing\<close>

text \<open>The tenant of an ID.\<close>

definition tenant_of :: "u32 \<Rightarrow> hwfq_scheduler \<Rightarrow> (addr \<times> tenant_config) option" where
  "tenant_of i s =
     (if unat i < length (tenants s) then do { a \<leftarrow> tenants s ! unat i; t \<leftarrow> tenant_heap s a; Some (a, t) } else None)"

lemma tenant_of_iff:
  assumes tb: "tables_ok s"
  shows "tenant_of i s = Some (a, t) \<longleftrightarrow> tenant_heap s a = Some t \<and> tenant_id t = i"
proof
  assume l: "tenant_of i s = Some (a, t)"
  then have i: "unat i < length (tenants s)" "tenants s ! unat i = Some a" "tenant_heap s a = Some t"
    by (auto simp: tenant_of_def bind_Some_iff split: if_splits)
  from tables_okD(2) [OF tb i(1,2)] show "tenant_heap s a = Some t \<and> tenant_id t = i" using i(3) by auto
next
  assume r: "tenant_heap s a = Some t \<and> tenant_id t = i"
  then show "tenant_of i s = Some (a, t)" using tables_okD(3) [OF tb, of a t] by (auto simp: tenant_of_def)
qed

lemma tenant_of_range: "tables_ok s \<Longrightarrow> cfg_max_tenants (hwfq_cfg s) \<le> i \<Longrightarrow> tenant_of i s = None"
  by (simp add: tenant_of_def tables_okD(1) word_le_nat_alt)

lemma configured_tenant_eq:
  assumes tb: "tables_ok s" and i: "\<not> cfg_max_tenants (hwfq_cfg s) \<le> i"
  shows "configured_tenant i s = Some (case tenant_of i s of None \<Rightarrow> Inl HWFQ_ERR_NOT_FOUND | Some (a, t) \<Rightarrow> Inr (a, t))"
proof (cases rule: configured_tenant_cases [OF tb i, case_names none some])
  case none
  then have "tenant_of i s = None" using tenant_of_iff [OF tb, of i] by (cases "tenant_of i s") auto
  then show ?thesis using none(1) by simp
next
  case (some a t)
  then have "tenant_of i s = Some (a, t)" using tenant_of_iff [OF tb] by blast
  then show ?thesis using some(1) by simp
qed

text \<open>Writing the statistics of an entry changes nothing that an enqueue depends on.\<close>

lemma session_rate_same:
  assumes "level_frame fs' fs" "same_shares e' e"
  shows "session_rate fs' e' = session_rate fs e"
proof -
  have "total_weight fs' = total_weight fs" "total_capacity fs' = total_capacity fs"
    "allocated_rate_capacity fs' = allocated_rate_capacity fs"
    using assms(1) by (simp_all add: level_frame_def level_config_def)
  then show ?thesis
    using same_sharesD(1,6) [OF assms(2)]
    by (cases "allocation e") (simp_all add: session_rate_def calculate_effective_rate_def Let_def)
qed

lemma enqueue_error_same:
  assumes frame: "level_frame fs' fs"
    and slot: "slot_of (entries fs) (unat f) = Some e" "slot_of (entries fs') (unat f) = Some e'" "same_shares e' e"
  shows "enqueue_error mem f w fs' = enqueue_error mem f w fs"
proof -
  have at: "entry_at (entries fs') f = e'" "entry_at (entries fs) f = e" using slot(1,2) by (simp_all add: entry_at_def)
  have rate: "session_rate fs' e' = session_rate fs e" by (rule session_rate_same [OF frame slot(3)])
  have "session_group fs' f w = session_group fs f w" by (simp add: session_group_def session_interval_def at rate)
  moreover have "shares fs' = shares fs" "gs_max_entries fs' = gs_max_entries fs" "num_groups fs' = num_groups fs"
    using frame by (simp_all add: level_frame_def level_config_def)
  ultimately show ?thesis by (simp add: enqueue_error_def at rate)
qed

text \<open>When a session is refused, and with which error.\<close>

definition enqueue_refusal :: "env \<Rightarrow> u32 \<Rightarrow> u32 \<Rightarrow> hwfq_session option \<Rightarrow> hwfq_scheduler \<Rightarrow> hwfq_error option" where
  "enqueue_refusal env i f work s =
     (case work of
        None \<Rightarrow> Some HWFQ_ERR_INVALID_ARG
      | Some w \<Rightarrow>
          if sn_work_size w = 0 \<or> cfg_max_tenants (hwfq_cfg s) \<le> i \<or> f = HWFQ_FLOW_ID_RESERVED
          then Some HWFQ_ERR_INVALID_ARG
          else (case tenant_of i s of
            None \<Rightarrow> Some HWFQ_ERR_NOT_FOUND
          | Some (a, t) \<Rightarrow>
              if shares (flow_scheduler t) f = None then Some HWFQ_ERR_NOT_FOUND
              else if env_context env = None then Some HWFQ_ERR_NO_MEMORY
              else enqueue_error (env_flow_session env) f (sn_work_size w) (flow_scheduler t)))"

definition new_context :: "env \<Rightarrow> u32 \<Rightarrow> u32 \<Rightarrow> hwfq_session \<Rightarrow> hwfq_scheduler \<Rightarrow> flow_session_context" where
  "new_context env i f w s = \<lparr>ctx_tenant_id = i, ctx_flow_id = f, ctx_user_data = sn_user_data w,
     ctx_work_size = sn_work_size w,
     ctx_enqueue_time_ns = (if enable_statistics (hwfq_cfg s) then get_time_ns env else 0),
     ctx_timeout_ns = sn_timeout_ns w, ctx_cleanup_fn = sn_cleanup_fn w\<rparr>"

lemma put_slot_restore:
  assumes "slot_of ce k = Some e"
  shows "put_slot k e (put_slot k e' ce) = ce"
proof -
  obtain es where es: "k div 1024 < length (chunks ce)" "chunks ce ! (k div 1024) = Some es" "k mod 1024 < length es"
    "es ! (k mod 1024) = e"
    using assms by (auto simp: slot_of_def bind_Some_iff arr_get_Some_iff)
  have "es[k mod 1024 := e] = es" "(chunks ce)[k div 1024 := Some es] = chunks ce"
    using es(2,4) list_update_id by metis+
  then show ?thesis using es by (simp add: put_slot_def)
qed

lemma modify_flow_entry_undo:
  assumes "modify_flow_entry p f fs = Some fs'" "\<And>e. g (f e) = e"
  shows "modify_flow_entry p g fs' = Some fs"
proof -
  obtain e where e: "slot_of (entries fs) (unat p) = Some e"
      "fs' = fs\<lparr>entries := put_slot (unat p) (f e) (entries fs)\<rparr>"
    using assms(1) entry_store_put [of "entries fs" p]
    by (auto simp: modify_flow_entry_def bind_Some_iff entry_load_slot)
  have "slot_of (put_slot (unat p) (f e) (entries fs)) (unat p) = Some (f e)" using e(1) by (simp add: slot_of_put)
  then show ?thesis
    using entry_store_put [of "put_slot (unat p) (f e) (entries fs)" p "f e" e] e assms(2)
    by (simp add: modify_flow_entry_def entry_load_slot put_slot_restore)
qed

lemma add_backlog_undo [simp]: "add_backlog (- 1) (add_backlog 1 st) = st" "add_backlog n st\<lparr>current_backlog := m\<rparr> = st\<lparr>current_backlog := m\<rparr>"
  by (simp_all add: add_backlog_def)

text \<open>The part of the call between the guards and the registration of the tenant.\<close>

lemma enqueue_flow:
  assumes inv: "hwfq_inv s xs" and t: "tenant_heap s a = Some t" and f: "shares (flow_scheduler t) f \<noteq> None"
    and c: "context_heap s c = None" and ctx: "ctx_tenant_id ctx = tenant_id t" "ctx_flow_id ctx = f"
    and fresh: "fresh_in (flow_scheduler t) (env_flow_session env)"
    and room: "active_session_count (flow_scheduler t) \<noteq> UINT32_MAX"
  defines "s0 \<equiv> s\<lparr>context_heap := (context_heap s)(c \<mapsto> ctx)\<rparr>"
    and "g \<equiv> \<lambda>e. e\<lparr>stats := add_backlog 1 (stats e)\<rparr>" and "h \<equiv> \<lambda>e. e\<lparr>stats := add_backlog (- 1) (stats e)\<rparr>"
    and "t1 \<equiv> t\<lparr>tenant_stats := add_backlog 1 (tenant_stats t)\<rparr>"
  obtains (refused) fs1 err where "find_flow_entry t1 f = Some (Some f)"
      "with_flow_entry (Some f) g t1 = Some (t1\<lparr>flow_scheduler := fs1\<rparr>)"
      "enqueue_error (env_flow_session env) f (ctx_work_size ctx) (flow_scheduler t) = Some err"
      "group_scheduler_enqueue (env_flow_session env) (env_flow_time env) f (ctx_work_size ctx) (Some c)
         (Some Flow_context_cleanup) fs1 = Some (Inl err, fs1)"
      "find_flow_entry (t\<lparr>flow_scheduler := fs1\<rparr>) f = Some (Some f)"
      "with_flow_entry (Some f) h (t\<lparr>flow_scheduler := fs1\<rparr>) = Some t"
    | (ok) fs1 fs2 q where "find_flow_entry t1 f = Some (Some f)"
      "with_flow_entry (Some f) g t1 = Some (t1\<lparr>flow_scheduler := fs1\<rparr>)"
      "enqueue_error (env_flow_session env) f (ctx_work_size ctx) (flow_scheduler t) = None"
      "group_scheduler_enqueue (env_flow_session env) (env_flow_time env) f (ctx_work_size ctx) (Some c)
         (Some Flow_context_cleanup) fs1 = Some (Inr q, fs2)"
      "hwfq_inv (put_tenant a (t1\<lparr>flow_scheduler := fs2\<rparr>) s0) xs"
      "contexts_of fs2 = insert c (contexts_of (flow_scheduler t))" "level_frame fs2 (flow_scheduler t)"
proof -
  have np: "c \<notin> pending s" using pending_present [OF inv, of c] c by auto
  have inv0: "hwfq_inv s0 xs" unfolding s0_def
    by (rule hwfq_inv_contexts [OF inv]) (use np in auto)
  have t0: "tenant_heap s0 a = Some t" using t by (simp add: s0_def)
  have lv: "flow_level_ok (context_heap s0) (tenant_id t) (flow_scheduler t)"
    by (rule tenants_okD [OF hwfq_invD(3) [OF inv0] t0])
  have same: "same_shares (g e) e" for e by (simp add: g_def)
  have ff: "find_flow_entry t1 f = Some (Some f)" "find_flow_entry t f = Some (Some f)"
    using find_flow_entry_shares [OF lv, of f] f by (simp_all add: find_flow_entry_eq t1_def)
  obtain e fs1 where m: "modify_flow_entry f g (flow_scheduler t) = Some fs1"
    "flow_level_ok (context_heap s0) (tenant_id t) fs1" "contexts_of fs1 = contexts_of (flow_scheduler t)"
    "queued fs1 = queued (flow_scheduler t)" "level_frame fs1 (flow_scheduler t)"
    "active_session_count fs1 = active_session_count (flow_scheduler t)"
    "sessions fs1 = sessions (flow_scheduler t)" "virtual_time fs1 = virtual_time (flow_scheduler t)" "slot_of (entries (flow_scheduler t)) (unat f) = Some e"
    "\<And>j. slot_of (entries fs1) (unat j) = (if j = f then Some (g e) else slot_of (entries (flow_scheduler t)) (unat j))"
    by (rule modify_flow_entry_ok [OF lv f same], rule that)
  have w1: "with_flow_entry (Some f) g t1 = Some (t1\<lparr>flow_scheduler := fs1\<rparr>)"
    using m(1) by (simp add: with_flow_entry_def t1_def)
  have err: "enqueue_error (env_flow_session env) f (ctx_work_size ctx) fs1 =
      enqueue_error (env_flow_session env) f (ctx_work_size ctx) (flow_scheduler t)"
    by (rule enqueue_error_same [OF m(5,9) _ same]) (simp add: m(10))
  have fresh1: "fresh_in fs1 (env_flow_session env)" using fresh unfolding fresh_in_def m(7) .
  have room1: "active_session_count fs1 \<noteq> UINT32_MAX" using room m(6) by simp
  have cctx: "context_heap s0 c = Some ctx" by (simp add: s0_def)
  have new: "c \<notin> contexts_of fs1" using np contexts_pending [OF t] unfolding m(3) by blast
  show thesis
  proof (cases rule: flow_enqueue_cases [OF m(2) fresh1 room1 cctx ctx(1) new, where ts = "env_flow_time env",
      unfolded ctx(2), case_names no yes])
    case (no err)
    have u: "modify_flow_entry f h fs1 = Some (flow_scheduler t)"
      by (rule modify_flow_entry_undo [OF m(1)]) (simp add: g_def h_def)
    have "find_flow_entry (t\<lparr>flow_scheduler := fs1\<rparr>) f = Some (Some f)"
      using find_flow_entry_shares [of "context_heap s0" "tenant_id t" "t\<lparr>flow_scheduler := fs1\<rparr>" f] m(2,5) f
      by (simp add: level_frame_def)
    moreover have "with_flow_entry (Some f) h (t\<lparr>flow_scheduler := fs1\<rparr>) = Some t" using u by (simp add: with_flow_entry_def)
    ultimately show thesis by (intro refused [OF ff(1) w1 no(1) [unfolded err] no(2)])
  next
    case (yes q fs2)
    have "hwfq_inv (put_tenant a (t1\<lparr>flow_scheduler := fs2\<rparr>) s0) xs"
      by (rule hwfq_inv_put [OF inv0 t0]) (simp_all add: tenant_key_def backlog_view_def t1_def yes(4))
    then show thesis
      by (intro ok [OF ff(1) w1 yes(1) [unfolded err] yes(3)]) (simp_all add: yes(5) m(3) level_frame_trans [OF yes(8) m(5)])
  qed
qed

lemma enqueue_refused_early:
  assumes inv: "hwfq_inv s xs" and r: "enqueue_refusal env i f work s = Some err"
    and early: "\<And>w a t c. \<lbrakk>work = Some w; tenant_of i s = Some (a, t); env_context env = Some c;
      sn_work_size w \<noteq> 0; \<not> cfg_max_tenants (hwfq_cfg s) \<le> i; f \<noteq> 0; shares (flow_scheduler t) f \<noteq> None\<rbrakk> \<Longrightarrow> False"
  shows "hwfq_enqueue env i f work s = Some (Inl err, [], s)"
proof (cases "\<exists>w. work = Some w \<and> sn_work_size w \<noteq> 0 \<and> \<not> cfg_max_tenants (hwfq_cfg s) \<le> i \<and> f \<noteq> 0")
  case False
  then show ?thesis using r by (auto simp: hwfq_enqueue_def enqueue_refusal_def split: option.splits if_splits)
next
  case True
  then obtain w where w: "work = Some w" "sn_work_size w \<noteq> 0" "\<not> cfg_max_tenants (hwfq_cfg s) \<le> i" "f \<noteq> 0" by blast
  note conf = configured_tenant_eq [OF hwfq_invD(1) [OF inv] w(3)]
  show ?thesis
  proof (cases "tenant_of i s")
    case None
    then show ?thesis using r w conf by (simp add: hwfq_enqueue_def enqueue_refusal_def)
  next
    case (Some at)
    then obtain a t where at: "tenant_of i s = Some (a, t)" by (cases at) simp
    then have t: "tenant_heap s a = Some t" using tenant_of_iff [OF hwfq_invD(1) [OF inv]] by blast
    have ff: "find_flow_entry t f = Some (if shares (flow_scheduler t) f = None then None else Some f)"
      by (rule find_flow_entry_shares [OF tenants_okD [OF hwfq_invD(3) [OF inv] t]])
    show ?thesis
    proof (cases "shares (flow_scheduler t) f")
      case None
      then show ?thesis using r w conf at ff by (simp add: hwfq_enqueue_def enqueue_refusal_def ensure_flow_entry_def)
    next
      case (Some al)
      then have "env_context env = None" using early [OF w(1) at _ w(2-4)] by (cases "env_context env") auto
      then show ?thesis using r w conf at ff Some by (simp add: hwfq_enqueue_def enqueue_refusal_def ensure_flow_entry_def)
    qed
  qed
qed

lemma hwfq_enqueue_cases:
  assumes inv: "hwfq_inv s xs" and fresh: "env_fresh env s" and room: "has_room s"
  obtains (refused) err where "enqueue_refusal env i f work s = Some err"
      "hwfq_enqueue env i f work s = Some (Inl err, [], s)"
    | (ok) w c a t t' s' ev where "enqueue_refusal env i f work s = None" "work = Some w" "env_context env = Some c"
      "tenant_heap s a = Some t" "tenant_id t = i"
      "hwfq_enqueue env i f work s = Some (Inr (), ev, s')" "hwfq_inv s' xs"
      "c \<notin> pending s" "pending s' = insert c (pending s)"
      "context_heap s' = (context_heap s)(c \<mapsto> new_context env i f w s)" "flight s' = flight s" "hwfq_cfg s' = hwfq_cfg s"
      "tenant_heap s' = (tenant_heap s)(a \<mapsto> t')" "c \<in> contexts_of (flow_scheduler t')"
      "tenant_stats t' = add_backlog 1 (tenant_stats t)" "tenant_id t' = i"
      "has_backlog t' \<longleftrightarrow> has_backlog t \<or>
        enqueue_error (env_tenant_session env) i TENANT_QUANTUM_SIZE (system_scheduler s) = None"
      "ev = (if session_available_set (hwfq_cfg s) \<and> in_flight_work_size (flight s) < cfg_total_capacity (hwfq_cfg s)
        then [Session_available] else [])"
proof (cases "\<exists>w a t c. work = Some w \<and> tenant_of i s = Some (a, t) \<and> env_context env = Some c \<and>
      sn_work_size w \<noteq> 0 \<and> \<not> cfg_max_tenants (hwfq_cfg s) \<le> i \<and> f \<noteq> 0 \<and> shares (flow_scheduler t) f \<noteq> None")
  case False
  have "enqueue_refusal env i f work s \<noteq> None"
    using False tenant_of_range [OF hwfq_invD(1) [OF inv], of i]
    by (auto simp: enqueue_refusal_def split: option.splits)
  then obtain err where r: "enqueue_refusal env i f work s = Some err" by blast
  show thesis by (rule refused [OF r enqueue_refused_early [OF inv r]]) (use False in blast)
next
  case True
  then obtain w a t c where w: "work = Some w" "tenant_of i s = Some (a, t)" "env_context env = Some c"
      "sn_work_size w \<noteq> 0" "\<not> cfg_max_tenants (hwfq_cfg s) \<le> i" "f \<noteq> 0" "shares (flow_scheduler t) f \<noteq> None" by blast
  have t: "tenant_heap s a = Some t" "tenant_id t = i" using tenant_of_iff [OF hwfq_invD(1) [OF inv]] w(2) by blast+
  let ?ctx = "new_context env i f w s"
  let ?s0 = "s\<lparr>context_heap := (context_heap s)(c \<mapsto> ?ctx)\<rparr>"
  have c: "context_heap s c = None" using fresh w(3) by (simp add: env_fresh_def)
  have np: "c \<notin> pending s" using pending_present [OF inv, of c] c by auto
  have ctx: "ctx_tenant_id ?ctx = tenant_id t" "ctx_flow_id ?ctx = f" "ctx_work_size ?ctx = sn_work_size w"
    using t(2) by (simp_all add: new_context_def)
  have fr: "fresh_in (flow_scheduler t) (env_flow_session env)" "fresh_in (system_scheduler s) (env_tenant_session env)"
    using fresh t(1) by (simp_all add: env_fresh_def)
  have rm: "active_session_count (flow_scheduler t) \<noteq> UINT32_MAX" "active_session_count (system_scheduler s) \<noteq> UINT32_MAX"
    using room t(1) by (simp_all add: has_room_def)
  have refusal: "enqueue_refusal env i f work s = enqueue_error (env_flow_session env) f (sn_work_size w) (flow_scheduler t)"
    using w by (auto simp: enqueue_refusal_def)
  have conf: "configured_tenant i s = Some (Inr (a, t))"
    using configured_tenant_eq [OF hwfq_invD(1) [OF inv] w(5)] w(2) by simp
  have ensure: "ensure_flow_entry t f = Some (Inr ())"
    using find_flow_entry_shares [OF tenants_okD [OF hwfq_invD(3) [OF inv] t(1)], of f] w(7) by (simp add: ensure_flow_entry_def)
  note flow = enqueue_flow [OF inv t(1) w(7) c ctx(1,2) fr(1) rm(1), unfolded ctx(3)]
  show thesis
  proof (cases rule: flow [case_names no yes])
    case (no fs1 err)
    have restore: "put_tenant a t (?s0\<lparr>context_heap := (context_heap s)(c := None)\<rparr>) = s"
      using t(1) c by (simp add: put_tenant_def fun_upd_idem)
    have "hwfq_enqueue env i f work s = Some (Inl err, [], s)"
      using w conf ensure no restore
      by (simp add: hwfq_enqueue_def new_context_def [symmetric] hwfq_free_def)
    then show thesis using refused no(3) refusal by simp
  next
    case (yes fs1 fs2 q)
    define t2 where "t2 = t\<lparr>tenant_stats := add_backlog 1 (tenant_stats t), flow_scheduler := fs2\<rparr>"
    define s2 where "s2 = put_tenant a t2 ?s0"
    have inv2: "hwfq_inv s2 xs" using yes(5) by (simp add: s2_def t2_def)
    have t2: "tenant_heap s2 a = Some t2" by (simp add: s2_def)
    have sys2: "system_scheduler s2 = system_scheduler s" by (simp add: s2_def)
    have inv0: "hwfq_inv ?s0 xs" by (rule hwfq_inv_contexts [OF inv]) (use np in auto)
    have "pending s2 = insert c (pending ?s0)"
      unfolding s2_def by (rule pending_put_insert [OF inv0]) (simp_all add: t(1) t2_def yes(6))
    then have p2: "pending s2 = insert c (pending s)" by simp
    have fr2: "fresh_in (system_scheduler s2) (env_tenant_session env)"
      "active_session_count (system_scheduler s2) \<noteq> UINT32_MAX" using fr(2) rm(2) by (simp_all add: sys2)
    obtain ret s' t' where g: "register_tenant_backlog env a s2 = Some (ret, s')" "hwfq_inv s' xs"
      "pending s' = pending s2" "tenant_heap s' = (tenant_heap s2)(a \<mapsto> t')" "flow_scheduler t' = flow_scheduler t2"
      "tenant_id t' = tenant_id t2" "tenant_key t' = tenant_key t2" "tenant_stats t' = tenant_stats t2"
      "context_heap s' = context_heap s2" "flight s' = flight s2" "hwfq_cfg s' = hwfq_cfg s2"
      "has_backlog t' \<longleftrightarrow> has_backlog t2 \<or>
        enqueue_error (env_tenant_session env) (tenant_id t2) TENANT_QUANTUM_SIZE (system_scheduler s2) = None"
      "has_backlog t2 \<Longrightarrow> s' = s2"
      by (rule register_ok [OF inv2 t2 fr2], rule that)
    have hb: "has_backlog t2 = has_backlog t" by (simp add: t2_def)
    let ?ev = "if session_available_set (hwfq_cfg s) \<and> in_flight_work_size (flight s) < cfg_total_capacity (hwfq_cfg s)
        then [Session_available] else []"
    have cfg: "hwfq_cfg s' = hwfq_cfg s" "flight s' = flight s" using g(10,11) by (simp_all add: s2_def)
    have t2': "t\<lparr>tenant_stats := add_backlog 1 (tenant_stats t), flow_scheduler := fs2\<rparr> = t2"
      "put_tenant a t2 ?s0 = s2" by (simp_all add: t2_def s2_def)
    have run: "hwfq_enqueue env i f work s = Some (Inr (), ?ev, s')"
      using w conf ensure yes(1,2,4) g(1) g(13) cfg
      by (cases "has_backlog t") (simp_all add: hwfq_enqueue_def new_context_def [symmetric] t2' hb)
    show thesis
    proof (rule ok [OF _ w(1,3) t run g(2) np])
      show "enqueue_refusal env i f work s = None" unfolding refusal by (rule yes(3))
      show "pending s' = insert c (pending s)" unfolding g(3) by (rule p2)
      show "context_heap s' = (context_heap s)(c \<mapsto> ?ctx)" unfolding g(9) by (simp add: s2_def)
      show "tenant_heap s' = (tenant_heap s)(a \<mapsto> t')" unfolding g(4) by (simp add: s2_def)
      show "c \<in> contexts_of (flow_scheduler t')" unfolding g(5) by (simp add: t2_def yes(6))
      show "tenant_stats t' = add_backlog 1 (tenant_stats t)" unfolding g(8) by (simp add: t2_def)
      show "has_backlog t' \<longleftrightarrow> has_backlog t \<or>
        enqueue_error (env_tenant_session env) i TENANT_QUANTUM_SIZE (system_scheduler s) = None"
        unfolding g(12) by (simp add: t2_def sys2 t(2))
      show "tenant_id t' = i" unfolding g(6) by (simp add: t2_def t(2))
    qed (simp_all add: cfg)
  qed
qed

section \<open>Dequeuing at the system level\<close>

lemma info_None: "session_info gs r = None \<longleftrightarrow> sessions gs r = None"
  by (simp add: session_info_def)

lemma tag_None: "session_tag gs r = None \<longleftrightarrow> sessions gs r = None"
  by (simp add: session_tag_def)

lemma fresh_in_keep:
  "fresh_in gs mem \<Longrightarrow> (\<And>r. sessions gs r = None \<Longrightarrow> sessions gs' r = None) \<Longrightarrow> fresh_in gs' mem"
  by (cases mem) (simp_all add: fresh_in_def)

lemma unsaturated_sub:
  assumes inv: "gs_inv gs" and u: "unsaturated gs" and Q: "queued gs' \<subseteq> queued gs"
    and info: "\<And>r. r \<in> queued gs' \<Longrightarrow> session_info gs' r = session_info gs r"
  shows "unsaturated gs'"
  unfolding unsaturated_def
proof
  fix r assume r: "r \<in> queued gs'"
  then have r': "r \<in> queued gs" using Q by (rule set_rev_mp)
  obtain s where "sessions gs r = Some s" by (rule queued_session [OF gs_invD(1) [OF inv] r'])
  then have "start_of gs' r = start_of gs r" using info_same_times [OF info [OF r]] by simp
  then show "start_of gs' r \<noteq> UINT64_MAX" using u r' unfolding unsaturated_def by simp
qed

lemma unsaturatedD: "unsaturated gs \<Longrightarrow> q \<in> queued gs \<Longrightarrow> start_of gs q \<noteq> UINT64_MAX"
  unfolding unsaturated_def by blast

lemma sys_update_ok:
  assumes ok: "sys_ok T sys" and u: "unsaturated sys"
  obtains sys' where "group_scheduler_update_virtual_time work sys = Some sys'" "sys_ok T sys'" "queued sys' = queued sys"
    "level_frame sys' sys" "active_session_count sys' = active_session_count sys"
    "\<forall>r. sessions sys r = None \<longrightarrow> sessions sys' r = None"
proof (rule update_ok [OF sys_okD(1) [OF ok] unsaturatedD [OF u] refl])
  fix sys' assume up: "group_scheduler_update_virtual_time work sys = Some sys'" "gs_inv sys'" "queued sys' = queued sys"
    "\<And>a. session_info sys' a = (if a \<in> queued sys
       then map_option (rebase_info (if advanced_time work sys < HWFQ_REBASE_THRESHOLD then 0 else advanced_time work sys div 2)) (session_info sys a)
       else session_info sys a)"
    "active_session_count sys' = active_session_count sys" "level_config sys' = level_config sys" "shares sys' = shares sys"
    "writes (entries sys) (entries sys')"
  have tag: "session_tag sys' r = session_tag sys r" for r
  proof (cases "r \<in> queued sys")
    case True show ?thesis by (rule tag_rebased) (simp only: up(4) True if_True)
  next
    case False show ?thesis by (rule tag_info) (simp only: up(4) False if_False)
  qed
  have "sys_ok T sys'" by (rule sys_ok_frame [OF ok up(2,3) tag])
  moreover have "\<forall>r. sessions sys r = None \<longrightarrow> sessions sys' r = None" using tag by (metis tag_None)
  ultimately show thesis by (intro that [OF up(1) _ up(3) level_frame_writes [OF up(7,6,8)] up(5)])
qed

lemma dequeue_tenant_cases:
  assumes inv: "hwfq_inv s xs" and u: "unsaturated (system_scheduler s)"
  obtains (idle) "queued (system_scheduler s) = {}" "dequeue_tenant s = Some (Inl HWFQ_ERR_NO_WORK, s)"
    | (blocked) s' where "selectable (system_scheduler s) (search_time (system_scheduler s)) = {}"
      "dequeue_tenant s = Some (Inl HWFQ_ERR_NO_WORK, s')" "hwfq_inv s' xs" "pending s' = pending s"
      "s' = s\<lparr>system_scheduler := system_scheduler s'\<rparr>"
    | (ok) q a t s' where "q \<in> selectable (system_scheduler s) (search_time (system_scheduler s))"
      "\<And>r. r \<in> selectable (system_scheduler s) (search_time (system_scheduler s)) \<Longrightarrow>
         finish_of (system_scheduler s) q \<le> finish_of (system_scheduler s) r"
      "payload (system_scheduler s) q = Some a" "tenant_heap s a = Some t"
      "dequeue_tenant s = Some (Inr a, s')" "hwfq_inv s' xs" "pending s' = pending s"
      "s' = (put_tenant a (t\<lparr>has_backlog := False, tenant_session := None\<rparr>) s)\<lparr>system_scheduler := system_scheduler s'\<rparr>"
      "\<forall>mem. fresh_in (system_scheduler s) mem \<longrightarrow> fresh_in (system_scheduler s') mem"
      "active_session_count (system_scheduler s') = active_session_count (system_scheduler s) - 1"
      "queued (system_scheduler s) \<noteq> {}"
proof -
  let ?sys = "system_scheduler s"
  note hi = hwfq_invD [OF inv]
  note gi = sys_okD(1) [OF hi(2)]
  have em: "group_scheduler_is_empty ?sys \<longleftrightarrow> queued ?sys = {}"
    using gs_inv_empty [OF gi] by (simp add: group_scheduler_is_empty_def)
  show thesis
  proof (cases rule: dequeue_cases [OF gi, case_names empty' blocked' ok'])
    case empty'
    then show thesis using idle em by (simp add: dequeue_tenant_def)
  next
    case blocked'
    let ?s = "s\<lparr>system_scheduler := ?sys\<lparr>virtual_time := search_time ?sys\<rparr>\<rparr>"
    have "sys_ok (tenant_heap s) (?sys\<lparr>virtual_time := search_time ?sys\<rparr>)"
      by (rule sys_ok_frame [OF hi(2) blocked'(4)]) simp_all
    then have "hwfq_inv ?s xs" by (rule hwfq_inv_system [OF inv]) simp
    moreover have "dequeue_tenant s = Some (Inl HWFQ_ERR_NO_WORK, ?s)"
      using blocked' em by (simp add: dequeue_tenant_def)
    ultimately show thesis by (intro blocked [OF blocked'(2), of ?s]) simp_all
  next
    case (ok' q sys1)
    have q: "q \<in> queued ?sys" by (rule selectable_queued [OF ok'(1)])
    have ne: "queued ?sys \<noteq> {}" using q by (metis empty_iff)
    have tag1: "session_tag sys1 r = session_tag ?sys r" for r by (rule tag_info [OF ok'(6)])
    obtain a t where t: "tenant_heap s a = Some t" "has_backlog t"
        "session_tag ?sys q = Some (tenant_id t, Some a, TENANT_QUANTUM_SIZE, None)"
        "sys_ok ((tenant_heap s)(a \<mapsto> t\<lparr>has_backlog := False, tenant_session := None\<rparr>)) sys1"
      by (rule sys_ok_take [OF hi(2) ok'(4) q ok'(5) tag1])
    let ?t = "t\<lparr>has_backlog := False, tenant_session := None\<rparr>"
    obtain so where so: "sessions sys1 q = Some so" "user_data so = Some a" "work_size so = TENANT_QUANTUM_SIZE"
      using tag_session [OF t(3) [folded tag1]] by blast
    have nq: "q \<notin> queued sys1" unfolding ok'(5) by simp
    let ?sys2 = "sys1\<lparr>sessions := (sessions sys1)(q := None)\<rparr>"
    have so': "sessions sys1 q \<noteq> None" using so(1) by simp
    note free = free_session_ok [OF ok'(4) nq so']
    have tag2: "session_tag ?sys2 r = session_tag sys1 r" if "r \<in> queued sys1" for r
    proof (rule free(5))
      show "r \<noteq> q" using that nq by metis
    qed
    have ok2: "sys_ok ((tenant_heap s)(a \<mapsto> ?t)) ?sys2" by (rule sys_ok_frame [OF t(4) free(2,3) tag2])
    have "unsaturated ?sys2"
    proof (rule unsaturated_sub [OF gi u])
      show "queued ?sys2 \<subseteq> queued ?sys" unfolding free(3) ok'(5) by simp
      fix r assume "r \<in> queued ?sys2"
      then have "r \<noteq> q" using nq unfolding free(3) by metis
      then show "session_info ?sys2 r = session_info ?sys r" using free(4) ok'(6) by simp
    qed
    from sys_update_ok [OF ok2 this, of TENANT_QUANTUM_SIZE]
    obtain sys3 where up: "group_scheduler_update_virtual_time TENANT_QUANTUM_SIZE ?sys2 = Some sys3"
      "sys_ok ((tenant_heap s)(a \<mapsto> ?t)) sys3" "queued sys3 = queued ?sys2" "level_frame sys3 ?sys2"
      "active_session_count sys3 = active_session_count ?sys2" "\<forall>r. sessions ?sys2 r = None \<longrightarrow> sessions sys3 r = None"
      by blast
    have frame: "level_frame sys3 ?sys"
      by (rule level_frame_trans [OF up(4)]) (rule level_frame_trans [OF level_frame_sessions(1) level_frame_entries [OF ok'(10,11)]])
    define s' where "s' = (put_tenant a ?t s)\<lparr>system_scheduler := sys3\<rparr>"
    have inv': "hwfq_inv s' xs"
      unfolding s'_def by (rule hwfq_inv_backlog [OF inv t(1) _ _ up(2) frame]) (simp_all add: tenant_key_def)
    have "pending (put_tenant a ?t s) = pending s" by (rule pending_put_same [OF inv t(1)]) simp
    then have pend: "pending s' = pending s" by (simp add: s'_def)
    have run: "dequeue_tenant s = Some (Inr a, s')"
      using em ne ok'(3) so free(1) t(1) up(1)
      by (simp add: dequeue_tenant_def session_get_user_data_def session_get_work_size_def s'_def put_tenant_def)
    have "sessions sys3 r = None" if "sessions ?sys r = None" for r
      using that up(6) tag1 [of r] tag_None [of sys1 r] tag_None [of ?sys r] by simp
    then have fresh: "\<forall>mem. fresh_in ?sys mem \<longrightarrow> fresh_in (system_scheduler s') mem"
      by (simp add: s'_def fresh_in_keep)
    show thesis
      by (rule ok [OF ok'(1,2) payload_of_tag [OF t(3)] t(1) run inv' pend _ fresh _ ne])
        (simp_all add: s'_def up(5) ok'(9))
  qed
qed

section \<open>The work in flight\<close>

lemma seq_heap:
  assumes s: "in_flight_seq fl xs" and H: "\<And>a. a \<in> set xs \<Longrightarrow> H a = if_entries fl a"
  shows "in_flight_seq (fl\<lparr>if_entries := H, in_flight_work_size := w, in_flight_count := n\<rparr>) xs"
proof -
  let ?fl = "fl\<lparr>if_entries := H, in_flight_work_size := w, in_flight_count := n\<rparr>"
  note wf = ifl_wfD [OF s [unfolded in_flight_seq_def]]
  have b: "bucket_of ?fl a = bucket_of fl a" if "a \<in> set xs" for a using H [OF that] by (simp add: bucket_of_def)
  have B: "filter (\<lambda>a. bucket_of ?fl a = c) xs = filter (\<lambda>a. bucket_of fl a = c) xs" for c
    by (rule filter_cong) (simp_all add: b)
  show ?thesis
    unfolding in_flight_seq_def B
  proof (rule ifl_wfI)
    show "lseg (if_entries ?fl) None (in_flight_head ?fl) xs None (in_flight_tail ?fl)"
      using wf(3) H by (subst lseg_cong [where H = "if_entries fl"]) simp_all
    fix c :: nat assume c: "c < 1024"
    show "chain (if_entries ?fl) (in_flight_hash ?fl ! c) (rev (filter (\<lambda>a. bucket_of fl a = c) xs)) None"
      using wf(4) [OF c] H by (subst chain_cong [where H = "if_entries fl"]) simp_all
    show "distinct (rev (filter (\<lambda>a. bucket_of fl a = c) xs))" by (rule wf(5) [OF c])
    show "set (rev (filter (\<lambda>a. bucket_of fl a = c) xs)) = {a \<in> set xs. bucket_of ?fl a = c}"
      using b by auto
  qed (use wf(1,2) in simp_all)
qed

lemma flight_okD:
  assumes "flight_ok fl xs"
  shows "in_flight_seq fl xs" "in_flight_work_size fl = flight_work fl xs" "in_flight_count fl = of_nat (length xs)"
    "dom (if_entries fl) = set xs" "distinct xs"
  using assms ifl_wfD(2) by (auto simp: flight_ok_def in_flight_seq_def)

lemma flight_entry: "flight_ok fl xs \<Longrightarrow> a \<in> set xs \<Longrightarrow> \<exists>e. if_entries fl a = Some e"
  using flight_okD(4) by blast

lemma if_info_work: "if_info fl' a = if_info fl a \<Longrightarrow> if_work_size (the (if_entries fl' a)) = if_work_size (the (if_entries fl a))"
  by (cases "if_entries fl a"; cases "if_entries fl' a") (auto simp: if_info_def if_data_def)

lemma flight_work_cong:
  "(\<And>a. a \<in> set xs \<Longrightarrow> if_info fl' a = if_info fl a) \<Longrightarrow> flight_work fl' xs = flight_work fl xs"
  unfolding flight_work_def by (intro arg_cong [where f = sum_list] map_cong refl if_info_work)

lemma flight_work_remove:
  "a \<in> set xs \<Longrightarrow> flight_work fl xs = if_work_size (the (if_entries fl a)) + flight_work fl (remove1 a xs)"
  by (induction xs) (auto simp: flight_work_def)

lemma if_info_None: "if_info fl c = None \<longleftrightarrow> if_entries fl c = None"
  by (simp add: if_info_def)

text \<open>Work enters: the entry is written and linked, the sum and the count grow.\<close>

lemma flight_insert:
  assumes fl: "flight_ok fl xs" and new: "if_entries fl a = None"
  obtains fl' where "in_flight_insert a (fl\<lparr>if_entries := (if_entries fl)(a \<mapsto> e)\<rparr>) = Some fl'"
    "flight_ok (fl'\<lparr>in_flight_work_size := in_flight_work_size fl' + if_work_size e,
       in_flight_count := in_flight_count fl' + 1\<rparr>) (xs @ [a])"
    "in_flight_work_size fl' = in_flight_work_size fl" "in_flight_count fl' = in_flight_count fl"
    "\<forall>b. if_info fl' b = (if b = a then Some (if_data e) else if_info fl b)"
proof -
  let ?fl = "fl\<lparr>if_entries := (if_entries fl)(a \<mapsto> e)\<rparr>"
  note fo = flight_okD [OF fl]
  have na: "a \<notin> set xs" using new fo(4) by auto
  have "in_flight_seq (fl\<lparr>if_entries := (if_entries fl)(a \<mapsto> e), in_flight_work_size := in_flight_work_size fl,
      in_flight_count := in_flight_count fl\<rparr>) xs"
    by (rule seq_heap [OF fo(1)]) (use na in auto)
  then have s: "in_flight_seq ?fl xs" by simp
  have e: "if_entries ?fl a = Some e" by simp
  obtain fl' where i: "in_flight_insert a ?fl = Some fl'" "in_flight_seq fl' (xs @ [a])" "if_info fl' = if_info ?fl"
    "in_flight_work_size fl' = in_flight_work_size ?fl" "in_flight_count fl' = in_flight_count ?fl"
    "\<And>c. c \<noteq> a \<Longrightarrow> c \<notin> set xs \<Longrightarrow> if_entries fl' c = if_entries ?fl c"
    by (rule seq_insert [OF s e na], rule that)
  have info: "if_info fl' b = (if b = a then Some (if_data e) else if_info fl b)" for b
    using fun_cong [OF i(3), of b] by (simp add: if_info_def)
  let ?f = "fl'\<lparr>in_flight_work_size := in_flight_work_size fl' + if_work_size e, in_flight_count := in_flight_count fl' + 1\<rparr>"
  have "in_flight_seq (fl'\<lparr>if_entries := if_entries fl', in_flight_work_size := in_flight_work_size fl' + if_work_size e,
      in_flight_count := in_flight_count fl' + 1\<rparr>) (xs @ [a])"
    by (rule seq_heap [OF i(2)]) simp
  then have seq: "in_flight_seq ?f (xs @ [a])" by simp
  have dom: "dom (if_entries fl') = set (xs @ [a])"
  proof -
    have "if_entries fl' c \<noteq> None \<longleftrightarrow> c \<in> set (xs @ [a])" for c
    proof -
      have "if_entries fl' c \<noteq> None \<longleftrightarrow> if_info fl' c \<noteq> None" by (simp only: if_info_None)
      also have "\<dots> \<longleftrightarrow> c = a \<or> if_entries fl c \<noteq> None" unfolding info using if_info_None [of fl c] by (cases "c = a") (simp_all del: not_None_eq)
      also have "\<dots> \<longleftrightarrow> c \<in> set (xs @ [a])" using fo(4) by auto
      finally show ?thesis .
    qed
    then show ?thesis by (simp only: dom_def Collect_mem_eq)
  qed
  have infoF: "if_info ?f b = if_info fl' b" for b by (simp add: if_info_def)
  have "flight_work ?f xs = flight_work fl xs"
    by (rule flight_work_cong) (use na in \<open>auto simp: infoF info\<close>)
  moreover have "if_work_size (the (if_entries ?f a)) = if_work_size e"
    using info [of a] by (auto simp: if_info_def if_data_def)
  ultimately have "flight_work ?f (xs @ [a]) = in_flight_work_size fl + if_work_size e"
    using fo(2) by (simp add: flight_work_def)
  then have "flight_ok ?f (xs @ [a])" using seq dom i(4,5) fo(3) by (simp add: flight_ok_def)
  then show thesis using info by (intro that [OF i(1)]) (simp_all add: i(4,5))
qed

text \<open>Work leaves, and its entry is freed.\<close>

text \<open>The part of \<open>flight_ok\<close> that does not depend on what else is on the heap.\<close>

definition flight_seq :: "in_flight \<Rightarrow> addr list \<Rightarrow> bool" where
  "flight_seq fl xs \<longleftrightarrow> in_flight_seq fl xs \<and> in_flight_work_size fl = flight_work fl xs \<and>
     in_flight_count fl = of_nat (length xs)"

lemma flight_seqD:
  assumes "flight_seq fl xs"
  shows "in_flight_seq fl xs" "in_flight_work_size fl = flight_work fl xs" "in_flight_count fl = of_nat (length xs)"
    "distinct xs"
  using assms ifl_wfD(2) by (auto simp: flight_seq_def in_flight_seq_def)

lemma flight_ok_iff: "flight_ok fl xs \<longleftrightarrow> flight_seq fl xs \<and> dom (if_entries fl) = set xs"
  by (simp add: flight_ok_def flight_seq_def)

lemma take_out_seq:
  assumes fl: "flight_seq fl xs" and a: "a \<in> set xs" and e: "if_entries fl a = Some e"
  obtains fl' e' where "take_out a fl = Some fl'" "if_entries fl' a = Some e'" "if_data e' = if_data e"
    "in_flight_seq fl' (remove1 a xs)" "in_flight_work_size fl' = flight_work fl (remove1 a xs)"
    "in_flight_count fl' = of_nat (length (remove1 a xs))" "if_info fl' = if_info fl"
    "\<forall>c. c \<notin> set (remove1 a xs) \<longrightarrow> if_entries fl' c = if_entries fl c"
proof -
  note fo = flight_seqD [OF fl]
  obtain f1 where r: "in_flight_remove a fl = Some f1" "in_flight_seq f1 (remove1 a xs)" "same_but (set (remove1 a xs)) f1 fl"
    by (rule seq_remove [OF fo(1) a])
  note sb = same_butD [OF r(3)]
  have na: "a \<notin> set (remove1 a xs)" using fo(4) by simp
  have e1: "if_entries f1 a = Some e" using sb(5) [OF na] e by simp
  let ?f = "f1\<lparr>in_flight_work_size := in_flight_work_size f1 - if_work_size e, in_flight_count := in_flight_count f1 - 1\<rparr>"
  have "in_flight_seq (f1\<lparr>if_entries := if_entries f1, in_flight_work_size := in_flight_work_size f1 - if_work_size e,
      in_flight_count := in_flight_count f1 - 1\<rparr>) (remove1 a xs)"
    by (rule seq_heap [OF r(2)]) simp
  then have seq: "in_flight_seq ?f (remove1 a xs)" by simp
  have "flight_work fl xs = if_work_size e + flight_work fl (remove1 a xs)" using flight_work_remove [OF a] e by simp
  then have work: "in_flight_work_size ?f = flight_work fl (remove1 a xs)" using fo(2) sb(2) by simp
  have "length xs = Suc (length (remove1 a xs))" using length_pos_if_in_set [OF a] a by (simp add: length_remove1)
  then have count: "in_flight_count ?f = of_nat (length (remove1 a xs))" using fo(3) sb(3) by simp
  have info: "if_info ?f = if_info fl" using sb(1) by (simp add: if_info_def fun_eq_iff)
  have out: "take_out a fl = Some ?f" using r(1) e1 by (simp add: take_out_def)
  have heap: "\<forall>c. c \<notin> set (remove1 a xs) \<longrightarrow> if_entries ?f c = if_entries fl c" using sb(5) by simp
  have ea: "if_entries ?f a = Some e" using e1 by simp
  show thesis by (rule that [OF out ea refl seq work count info heap])
qed

lemma take_out_ok:
  assumes "flight_ok fl xs" "a \<in> set xs" "if_entries fl a = Some e"
  obtains fl' e' where "take_out a fl = Some fl'" "if_entries fl' a = Some e'" "if_data e' = if_data e"
    "in_flight_seq fl' (remove1 a xs)" "in_flight_work_size fl' = flight_work fl (remove1 a xs)"
    "in_flight_count fl' = of_nat (length (remove1 a xs))" "if_info fl' = if_info fl"
    "\<forall>c. c \<notin> set (remove1 a xs) \<longrightarrow> if_entries fl' c = if_entries fl c"
  using take_out_seq [of fl xs a e] assms unfolding flight_ok_iff by blast

lemma flight_free:
  assumes fl: "flight_ok fl xs" and a: "a \<in> set xs"
    and f: "in_flight_seq fl' (remove1 a xs)" "in_flight_work_size fl' = flight_work fl (remove1 a xs)"
    "in_flight_count fl' = of_nat (length (remove1 a xs))" "if_info fl' = if_info fl"
  shows "flight_ok (fl'\<lparr>if_entries := (if_entries fl')(a := None)\<rparr>) (remove1 a xs)"
    "b \<noteq> a \<Longrightarrow> if_info (fl'\<lparr>if_entries := (if_entries fl')(a := None)\<rparr>) b = if_info fl b"
proof -
  note fo = flight_okD [OF fl]
  let ?f = "fl'\<lparr>if_entries := (if_entries fl')(a := None)\<rparr>"
  have na: "a \<notin> set (remove1 a xs)" using fo(5) by simp
  have info: "if_info ?f b = if_info fl b" if "b \<noteq> a" for b using that fun_cong [OF f(4), of b] by (simp add: if_info_def)
  then show "b \<noteq> a \<Longrightarrow> if_info ?f b = if_info fl b" .
  have "in_flight_seq (fl'\<lparr>if_entries := (if_entries fl')(a := None), in_flight_work_size := in_flight_work_size fl',
      in_flight_count := in_flight_count fl'\<rparr>) (remove1 a xs)"
    by (rule seq_heap [OF f(1)]) (use na in auto)
  then have seq: "in_flight_seq ?f (remove1 a xs)" by simp
  have "if_entries fl' c = None \<longleftrightarrow> if_entries fl c = None" for c
    using fun_cong [OF f(4), of c] by (simp add: if_info_def) (metis option.map_disc_iff)
  then have "if_entries ?f c \<noteq> None \<longleftrightarrow> c \<in> dom (if_entries fl) - {a}" for c by (simp add: dom_def del: not_None_eq)
  then have "dom (if_entries ?f) = dom (if_entries fl) - {a}" by (simp only: dom_def Collect_mem_eq)
  then have dom: "dom (if_entries ?f) = set (remove1 a xs)" using fo(4,5) by (simp add: set_remove1_eq)
  have "flight_work ?f (remove1 a xs) = flight_work fl (remove1 a xs)"
  proof (rule flight_work_cong)
    fix b assume "b \<in> set (remove1 a xs)"
    then have "b \<noteq> a" using na by metis
    then show "if_info ?f b = if_info fl b" by (rule info)
  qed
  then show "flight_ok ?f (remove1 a xs)" using seq dom f(2,3) by (simp add: flight_ok_def)
qed

section \<open>Dequeuing\<close>

text \<open>Work that cannot be handed out goes back to its flow; only when the level refuses it is it lost.\<close>

lemma requeue_ok:
  assumes inv: "hwfq_inv s xs" and t: "tenant_heap s a = Some t"
    and c: "context_heap s c = Some ctx" "ctx_tenant_id ctx = tenant_id t" "c \<notin> pending s"
    and q: "q \<notin> queued (flow_scheduler t)" "sessions (flow_scheduler t) q \<noteq> None"
    and fresh: "fresh_in (system_scheduler s) (env_tenant_session env)" "fresh_in (flow_scheduler t) (env_flow_session env)"
    and room: "active_session_count (system_scheduler s) \<noteq> UINT32_MAX" "active_session_count (flow_scheduler t) \<noteq> UINT32_MAX"
  obtains s' where "requeue env a q c ctx s = Some s'" "hwfq_inv s' xs" "flight s' = flight s"
    "context_heap s' = context_heap s" "hwfq_cfg s' = hwfq_cfg s"
    "pending s' = (if enqueue_error (env_flow_session env) (ctx_flow_id ctx) (ctx_work_size ctx) (flow_scheduler t) = None
       then insert c (pending s) else pending s)"
proof -
  obtain ret s1 t1 where g: "register_tenant_backlog env a s = Some (ret, s1)" "hwfq_inv s1 xs"
      "pending s1 = pending s" "tenant_heap s1 = (tenant_heap s)(a \<mapsto> t1)" "flow_scheduler t1 = flow_scheduler t"
      "tenant_id t1 = tenant_id t" "context_heap s1 = context_heap s" "flight s1 = flight s" "hwfq_cfg s1 = hwfq_cfg s"
    using register_ok [OF inv t fresh(1) room(1)] by metis
  have t1: "tenant_heap s1 a = Some t1" using g(4) by simp
  have lv: "flow_level_ok (context_heap s1) (tenant_id t1) (flow_scheduler t)"
    using tenants_okD [OF hwfq_invD(3) [OF g(2)] t1] g(5) by simp
  have new: "c \<notin> contexts_of (flow_scheduler t)" using c(3) contexts_pending [OF t] by blast
  have c1: "context_heap s1 c = Some ctx" "ctx_tenant_id ctx = tenant_id t1" using c g(6,7) by simp_all
  show thesis
  proof (cases rule: flow_enqueue_cases [OF lv fresh(2) room(2) c1 new, where ts = "env_flow_time env", case_names no yes])
    case (no err)
    let ?fs = "(flow_scheduler t)\<lparr>sessions := (sessions (flow_scheduler t))(q := None)\<rparr>"
    note fr = flow_free_ok [OF lv q]
    let ?s = "put_tenant a (t1\<lparr>flow_scheduler := ?fs\<rparr>) s1"
    have inv': "hwfq_inv ?s xs" by (rule hwfq_inv_put [OF g(2) t1]) (simp_all add: tenant_key_def backlog_view_def fr(2))
    have "pending ?s = pending s1" by (rule pending_put_same [OF g(2) t1]) (simp add: fr(3) g(5))
    moreover have "requeue env a q c ctx s = Some ?s" using g(1,5) t1 no(2) fr(1) by (simp add: requeue_def)
    ultimately show thesis using inv' no(1) by (intro that [of ?s]) (simp_all add: g)
  next
    case (yes r fs)
    have qr: "q \<noteq> r" using yes(2) fresh(2) q(2) by (auto simp: fresh_in_def)
    have "session_tag fs q = session_tag (flow_scheduler t) q" by (rule yes(10) [OF qr])
    then have "sessions fs q \<noteq> None" using q(2) tag_None by metis
    moreover have "q \<notin> queued fs" using q(1) qr unfolding yes(7) by simp
    ultimately have q': "q \<notin> queued fs" "sessions fs q \<noteq> None" by simp_all
    let ?fs = "fs\<lparr>sessions := (sessions fs)(q := None)\<rparr>"
    note fr = flow_free_ok [OF yes(4) q']
    let ?s = "put_tenant a (t1\<lparr>flow_scheduler := ?fs\<rparr>) s1"
    have inv': "hwfq_inv ?s xs" by (rule hwfq_inv_put [OF g(2) t1]) (simp_all add: tenant_key_def backlog_view_def fr(2))
    have "pending ?s = insert c (pending s1)"
      by (rule pending_put_insert [OF g(2) t1]) (simp add: fr(3) yes(5) g(5))
    moreover have "requeue env a q c ctx s = Some ?s" using g(1,5) t1 yes(3) fr(1) by (simp add: requeue_def)
    ultimately show thesis using inv' yes(1) by (intro that [of ?s]) (simp_all add: g)
  qed
qed

text \<open>Updating the statistics of the entry found, or of none.\<close>

lemma with_flow_entry_ok:
  assumes lv: "flow_level_ok C i (flow_scheduler t)"
    and p: "\<And>p. entry = Some p \<Longrightarrow> shares (flow_scheduler t) p \<noteq> None" and same: "\<And>e. same_shares (f e) e"
  obtains t2 where "with_flow_entry entry f t = Some t2" "t2 = t\<lparr>flow_scheduler := flow_scheduler t2\<rparr>"
    "flow_level_ok C i (flow_scheduler t2)" "contexts_of (flow_scheduler t2) = contexts_of (flow_scheduler t)"
    "queued (flow_scheduler t2) = queued (flow_scheduler t)" "sessions (flow_scheduler t2) = sessions (flow_scheduler t)"
    "active_session_count (flow_scheduler t2) = active_session_count (flow_scheduler t)"
    "level_frame (flow_scheduler t2) (flow_scheduler t)"
proof (cases entry)
  case None
  then show thesis by (intro that [of t]) (simp_all add: with_flow_entry_def lv)
next
  case (Some k)
  obtain e fs where m: "modify_flow_entry k f (flow_scheduler t) = Some fs" "flow_level_ok C i fs"
    "contexts_of fs = contexts_of (flow_scheduler t)" "queued fs = queued (flow_scheduler t)"
    "level_frame fs (flow_scheduler t)" "active_session_count fs = active_session_count (flow_scheduler t)"
    "sessions fs = sessions (flow_scheduler t)" "virtual_time fs = virtual_time (flow_scheduler t)"
    "slot_of (entries (flow_scheduler t)) (unat k) = Some e"
    "\<And>j. slot_of (entries fs) (unat j) = (if j = k then Some (f e) else slot_of (entries (flow_scheduler t)) (unat j))"
    by (rule modify_flow_entry_ok [OF lv p [OF Some] same], rule that)
  show thesis
    by (rule that [of "t\<lparr>flow_scheduler := fs\<rparr>"]) (simp_all add: with_flow_entry_def Some m(1-7))
qed

lemma hand_out_ok:
  assumes inv: "hwfq_inv s xs" and t: "tenant_heap s a = Some t"
    and c: "context_heap s c = Some ctx" "c \<notin> pending s"
    and q: "q \<notin> queued (flow_scheduler t)" "sessions (flow_scheduler t) q \<noteq> None"
    and fresh: "fresh_in (system_scheduler s) (env_tenant_session env)" "if_entries (flight s) e = None"
    and room: "active_session_count (system_scheduler s) \<noteq> UINT32_MAX"
  obtains s' where "hand_out env a q c ctx e s = Some s'" "hwfq_inv s' (xs @ [e])" "pending s' = pending s"
    "context_heap s' = (context_heap s)(c := None)" "hwfq_cfg s' = hwfq_cfg s"
    "if_info (flight s') = (if_info (flight s))(e \<mapsto> (ctx_tenant_id ctx, ctx_flow_id ctx, ctx_work_size ctx,
       get_time_ns env, ctx_timeout_ns ctx, ctx_user_data ctx))"
    "in_flight_work_size (flight s') = in_flight_work_size (flight s) + ctx_work_size ctx"
proof -
  let ?e = "\<lparr>if_tenant_id = ctx_tenant_id ctx, if_flow_id = ctx_flow_id ctx, if_work_size = ctx_work_size ctx,
       dequeue_time_ns = get_time_ns env, if_timeout_ns = ctx_timeout_ns ctx, if_user_data = ctx_user_data ctx,
       hash_next = None, list_next = None, list_prev = None\<rparr>"
  obtain fl where fl: "in_flight_insert e ((flight s)\<lparr>if_entries := (if_entries (flight s))(e \<mapsto> ?e)\<rparr>) = Some fl"
    "flight_ok (fl\<lparr>in_flight_work_size := in_flight_work_size fl + if_work_size ?e,
       in_flight_count := in_flight_count fl + 1\<rparr>) (xs @ [e])"
    "in_flight_work_size fl = in_flight_work_size (flight s)"
    "\<forall>b. if_info fl b = (if b = e then Some (if_data ?e) else if_info (flight s) b)"
    by (rule flight_insert [OF hwfq_invD(4) [OF inv] fresh(2), of ?e], rule that)
  define fl' where "fl' = fl\<lparr>in_flight_work_size := in_flight_work_size fl + ctx_work_size ctx,
       in_flight_count := in_flight_count fl + 1\<rparr>"
  define s1 where "s1 = s\<lparr>flight := fl'\<rparr>"
  have inv1: "hwfq_inv s1 (xs @ [e])" unfolding s1_def fl'_def by (rule hwfq_inv_flight [OF inv]) (use fl(2) in simp)
  have t1: "tenant_heap s1 a = Some t" using t by (simp add: s1_def)
  have lv: "flow_level_ok (context_heap s) (tenant_id t) (flow_scheduler t)" by (rule tenants_okD [OF hwfq_invD(3) [OF inv] t])
  define w where "w = (if 0 < ctx_enqueue_time_ns ctx then get_time_ns env - ctx_enqueue_time_ns ctx else 0)"
  let ?stats = "do {
         flow_entry \<leftarrow> find_flow_entry t (ctx_flow_id ctx);
         case flow_entry of
           None \<Rightarrow> Some t
         | Some p \<Rightarrow> with_flow_entry (Some p) (\<lambda>e. e\<lparr>stats := add_wait w (stats e)\<rparr>)
             (t\<lparr>tenant_stats := add_wait w (tenant_stats t)\<rparr>)
       }"
  have "\<exists>t2. (if enable_statistics (hwfq_cfg s) then ?stats else Some t) = Some t2 \<and>
      tenant_key t2 = tenant_key t \<and> backlog_view t2 = backlog_view t \<and>
      flow_level_ok (context_heap s) (tenant_id t) (flow_scheduler t2) \<and>
      contexts_of (flow_scheduler t2) = contexts_of (flow_scheduler t) \<and> queued (flow_scheduler t2) = queued (flow_scheduler t) \<and>
      sessions (flow_scheduler t2) = sessions (flow_scheduler t)"
  proof (cases "enable_statistics (hwfq_cfg s) \<and> shares (flow_scheduler t) (ctx_flow_id ctx) \<noteq> None")
    case False
    then show ?thesis using find_flow_entry_shares [OF lv, of "ctx_flow_id ctx"] lv by auto
  next
    case True
    then have sh: "shares (flow_scheduler t) (ctx_flow_id ctx) \<noteq> None" by blast
    let ?t = "t\<lparr>tenant_stats := add_wait w (tenant_stats t)\<rparr>"
    have lv': "flow_level_ok (context_heap s) (tenant_id t) (flow_scheduler ?t)" using lv by simp
    obtain t2 where t2: "with_flow_entry (Some (ctx_flow_id ctx)) (\<lambda>e. e\<lparr>stats := add_wait w (stats e)\<rparr>) ?t = Some t2"
      "t2 = ?t\<lparr>flow_scheduler := flow_scheduler t2\<rparr>"
      "flow_level_ok (context_heap s) (tenant_id t) (flow_scheduler t2)" "contexts_of (flow_scheduler t2) = contexts_of (flow_scheduler ?t)"
      "queued (flow_scheduler t2) = queued (flow_scheduler ?t)" "sessions (flow_scheduler t2) = sessions (flow_scheduler ?t)"
      by (rule with_flow_entry_ok [OF lv', of "Some (ctx_flow_id ctx)"]) (use sh in auto)
    have "tenant_key t2 = tenant_key t" "backlog_view t2 = backlog_view t"
      by (subst t2(2), simp add: tenant_key_def backlog_view_def)+
    moreover have "find_flow_entry t (ctx_flow_id ctx) = Some (Some (ctx_flow_id ctx))"
      using find_flow_entry_shares [OF lv, of "ctx_flow_id ctx"] sh by auto
    ultimately show ?thesis using True t2(1,3-6) by (intro exI [of _ t2]) simp
  qed
  then obtain t2 where t2: "(if enable_statistics (hwfq_cfg s) then ?stats else Some t) = Some t2"
      "tenant_key t2 = tenant_key t" "backlog_view t2 = backlog_view t"
      "flow_level_ok (context_heap s) (tenant_id t) (flow_scheduler t2)"
      "contexts_of (flow_scheduler t2) = contexts_of (flow_scheduler t)" "queued (flow_scheduler t2) = queued (flow_scheduler t)"
      "sessions (flow_scheduler t2) = sessions (flow_scheduler t)" by blast
  have q2: "q \<notin> queued (flow_scheduler t2)" "sessions (flow_scheduler t2) q \<noteq> None" using q t2(6,7) by simp_all
  note fr = flow_free_ok [OF t2(4) q2]
  let ?fs = "(flow_scheduler t2)\<lparr>sessions := (sessions (flow_scheduler t2))(q := None)\<rparr>"
  define t3 where "t3 = t2\<lparr>flow_scheduler := ?fs\<rparr>"
  define s2 where "s2 = s1\<lparr>context_heap := (context_heap s)(c := None)\<rparr>"
  define s3 where "s3 = put_tenant a t3 s2"
  have p1: "pending s1 = pending s" by (simp add: s1_def)
  have inv2: "hwfq_inv s2 (xs @ [e])" unfolding s2_def
    by (rule hwfq_inv_contexts [OF inv1]) (use c(2) p1 in \<open>auto simp: s1_def\<close>)
  have t2': "tenant_heap s2 a = Some t" using t1 by (simp add: s2_def)
  have "c \<notin> contexts_of ?fs" using c(2) contexts_pending [OF t] unfolding fr(3) t2(5) by blast
  then have lv3: "flow_level_ok (context_heap s2) (tenant_id t) ?fs"
    by (intro flow_level_ok_cong [OF fr(2)]) (auto simp: s2_def)
  have inv3: "hwfq_inv s3 (xs @ [e])" unfolding s3_def
    by (rule hwfq_inv_put [OF inv2 t2']) (use t2(2,3) lv3 in \<open>simp_all add: t3_def tenant_key_def backlog_view_def\<close>)
  have "pending s3 = pending s2" unfolding s3_def by (rule pending_put_same [OF inv2 t2']) (simp add: t3_def fr(3) t2(5))
  then have p3: "pending s3 = pending s" by (simp add: s2_def p1)
  have t3: "tenant_heap s3 a = Some t3" by (simp add: s3_def)
  have sys3: "system_scheduler s3 = system_scheduler s" by (simp add: s3_def s2_def s1_def)
  have fr3: "fresh_in (system_scheduler s3) (env_tenant_session env)" "active_session_count (system_scheduler s3) \<noteq> UINT32_MAX"
    using fresh(1) room by (simp_all add: sys3)
  obtain ret s4 t4 where g: "register_tenant_backlog env a s3 = Some (ret, s4)" "hwfq_inv s4 (xs @ [e])"
      "pending s4 = pending s3" "context_heap s4 = context_heap s3" "flight s4 = flight s3" "hwfq_cfg s4 = hwfq_cfg s3"
    using register_ok [OF inv3 t3 fr3] by metis
  define s' where "s' = (if group_scheduler_is_empty (flow_scheduler t3) then s3 else s4)"
  have c1: "hwfq_free c (context_heap s) = Some ((context_heap s)(c := None))" using c(1) by (simp add: hwfq_free_def)
  have run: "hand_out env a q c ctx e s = Some s'"
    unfolding hand_out_def Let_def fl(1) w_def [symmetric]
    using t t2(1) c1 fr(1) g(1)
    by (cases "group_scheduler_is_empty (flow_scheduler t3)")
      (simp_all add: s'_def s3_def s2_def s1_def t3_def fl'_def split del: if_split)
  have "if_info (flight s') = (if_info (flight s))(e \<mapsto> (ctx_tenant_id ctx, ctx_flow_id ctx, ctx_work_size ctx,
       get_time_ns env, ctx_timeout_ns ctx, ctx_user_data ctx))"
  proof -
    have "flight s' = fl'" by (simp add: s'_def s3_def s2_def s1_def g(5))
    moreover have "if_info fl' = if_info fl" by (simp add: fl'_def if_info_def fun_eq_iff)
    ultimately show ?thesis using fl(4) by (simp add: fun_eq_iff if_data_def)
  qed
  moreover have "in_flight_work_size (flight s') = in_flight_work_size (flight s) + ctx_work_size ctx"
    by (simp add: s'_def s3_def s2_def s1_def g(5) fl'_def fl(3))
  ultimately show thesis
    by (intro that [OF run]) (simp_all add: s'_def inv3 p3 g s3_def [symmetric], simp_all add: s3_def s2_def s1_def p3 [unfolded s3_def])
qed

text \<open>The choice of a level: a session that is selectable at the time of the search, with the least finish time.\<close>

definition chosen :: "level \<Rightarrow> addr \<Rightarrow> bool" where
  "chosen gs q \<longleftrightarrow> q \<in> selectable gs (search_time gs) \<and>
     (\<forall>r \<in> selectable gs (search_time gs). finish_of gs q \<le> finish_of gs r)"

lemma minus_one_room: "n \<noteq> 0 \<Longrightarrow> n - 1 \<noteq> (- 1 :: u32)"
  by simp

lemma dequeue_flow_cases:
  assumes inv: "hwfq_inv s xs" and t: "tenant_heap s a = Some t" and u: "unsaturated (flow_scheduler t)"
    and fresh: "fresh_in (flow_scheduler t) mem"
  obtains (none) fs where "selectable (flow_scheduler t) (search_time (flow_scheduler t)) = {}"
      "group_scheduler_dequeue (flow_scheduler t) = Some (None, fs)"
      "hwfq_inv (put_tenant a (t\<lparr>flow_scheduler := fs\<rparr>) s) xs"
      "pending (put_tenant a (t\<lparr>flow_scheduler := fs\<rparr>) s) = pending s"
    | (ok) q so c ctx fs fs' where "chosen (flow_scheduler t) q" "payload (flow_scheduler t) q = Some c"
      "group_scheduler_dequeue (flow_scheduler t) = Some (Some q, fs)"
      "sessions fs q = Some so" "session_get_user_data (Some so) = Some c"
      "context_heap s c = Some ctx" "ctx_tenant_id ctx = tenant_id t" "c \<in> pending s" "q \<notin> queued fs"
      "hwfq_inv (put_tenant a (t\<lparr>flow_scheduler := fs\<rparr>) s) xs"
      "pending (put_tenant a (t\<lparr>flow_scheduler := fs\<rparr>) s) = pending s - {c}"
      "fresh_in fs mem" "active_session_count fs \<noteq> UINT32_MAX"
      "group_scheduler_update_virtual_time (ctx_work_size ctx) fs = Some fs'"
      "hwfq_inv (put_tenant a (t\<lparr>flow_scheduler := fs'\<rparr>) s) xs"
      "pending (put_tenant a (t\<lparr>flow_scheduler := fs'\<rparr>) s) = pending s - {c}"
      "fresh_in fs' mem" "active_session_count fs' \<noteq> UINT32_MAX"
      "q \<notin> queued fs'" "sessions fs' q \<noteq> None"
proof -
  let ?fs = "flow_scheduler t"
  have lv: "flow_level_ok (context_heap s) (tenant_id t) ?fs" by (rule tenants_okD [OF hwfq_invD(3) [OF inv] t])
  have put: "hwfq_inv (put_tenant a (t\<lparr>flow_scheduler := fs\<rparr>) s) xs" if "flow_level_ok (context_heap s) (tenant_id t) fs" for fs
    by (rule hwfq_inv_put [OF inv t]) (simp_all add: tenant_key_def backlog_view_def that)
  show thesis
  proof (cases rule: flow_dequeue_cases [OF lv, case_names no yes])
    case (no fs)
    have "selectable ?fs (search_time ?fs) = {}" using no(2) by (auto simp: selectable_def)
    moreover have "pending (put_tenant a (t\<lparr>flow_scheduler := fs\<rparr>) s) = pending s"
      by (rule pending_put_same [OF inv t]) (simp add: no(4))
    ultimately show thesis by (rule none [OF _ no(1) put [OF no(3)]])
  next
    case (yes q so c ctx fs)
    have q: "q \<in> queued ?fs" by (rule selectable_queued [OF yes(2)])
    have nq: "q \<notin> queued fs" unfolding yes(13) by simp
    have pq: "payload ?fs q = Some c"
    proof -
      have "payload ?fs q = payload fs q" by (rule payload_tag [OF tag_info]) (simp add: yes(16))
      also have "\<dots> = Some c" using yes(4,5) by (simp add: payload_def session_tag_def session_get_user_data_def)
      finally show ?thesis .
    qed
    have "active_session_count ?fs \<noteq> 0" by (rule queued_count_pos [OF flow_level_okD(1) [OF lv] q])
    then have room: "active_session_count fs \<noteq> UINT32_MAX" unfolding yes(15) by (rule minus_one_room)
    have "\<And>r. sessions ?fs r = None \<Longrightarrow> sessions fs r = None" using yes(16) info_None by metis
    from fresh_in_keep [OF fresh this] have fr: "fresh_in fs mem" .
    have u': "unsaturated fs"
      by (rule unsaturated_sub [OF flow_level_okD(1) [OF lv] u]) (auto simp: yes(13,16))
    obtain fs' where up: "group_scheduler_update_virtual_time (ctx_work_size ctx) fs = Some fs'"
      "flow_level_ok (context_heap s) (tenant_id t) fs'" "contexts_of fs' = contexts_of fs" "queued fs' = queued fs"
      "level_frame fs' fs" "active_session_count fs' = active_session_count fs" "\<And>r. session_tag fs' r = session_tag fs r"
      by (rule flow_update_ok [OF yes(10) unsaturatedD [OF u']], assumption, rule that)
    have none: "sessions fs r = None \<longleftrightarrow> sessions fs' r = None" for r using up(7) [of r] tag_None by metis
    have fr': "fresh_in fs' mem" by (rule fresh_in_keep [OF fr]) (simp add: none)
    have cp: "c \<in> pending s" by (rule contexts_pending [OF t yes(12)])
    have pend: "pending (put_tenant a (t\<lparr>flow_scheduler := f\<rparr>) s) = pending s - {c}" if "contexts_of f = contexts_of ?fs - {c}" for f
      by (rule pending_put_remove(1) [OF inv t _ yes(12)]) (simp add: that)
    have ch: "chosen ?fs q" using yes(2,3) by (simp add: chosen_def)
    have pend': "pending (put_tenant a (t\<lparr>flow_scheduler := fs'\<rparr>) s) = pending s - {c}" by (rule pend) (simp add: up(3) yes(11))
    have more: "active_session_count fs' \<noteq> UINT32_MAX" "q \<notin> queued fs'" "sessions fs' q \<noteq> None"
      using room nq none [of q] yes(4) by (simp_all add: up(4,6))
    show thesis
      by (rule ok [OF ch pq yes(1,4,5,6,7) cp nq put [OF yes(10)] pend [OF yes(11)] fr room up(1) put [OF up(2)] pend' fr' more])
  qed
qed

lemma times_fitD: "times_fit s \<Longrightarrow> unsaturated (system_scheduler s)"
    "times_fit s \<Longrightarrow> tenant_heap s a = Some t \<Longrightarrow> unsaturated (flow_scheduler t)"
  unfolding times_fit_def by blast+

lemma env_freshD:
  assumes "env_fresh env s"
  shows "fresh_in (system_scheduler s) (env_tenant_session env)"
    "tenant_heap s a = Some t \<Longrightarrow> fresh_in (flow_scheduler t) (env_flow_session env)"
    "env_entry env = Some e \<Longrightarrow> if_entries (flight s) e = None"
    "env_context env = Some c \<Longrightarrow> context_heap s c = None"
  using assms by (auto simp: env_fresh_def)

lemma hwfq_dequeue_cases:
  assumes inv: "hwfq_inv s xs" and fresh: "env_fresh env s" and times: "times_fit s"
  obtains (idle) s' where "selectable (system_scheduler s) (search_time (system_scheduler s)) = {}"
      "hwfq_dequeue env s = Some (Inl HWFQ_ERR_NO_WORK, s')" "hwfq_inv s' xs" "pending s' = pending s" "flight s' = flight s"
      "context_heap s' = context_heap s" "hwfq_cfg s' = hwfq_cfg s"
    | (stuck) p a t s' where "chosen (system_scheduler s) p" "payload (system_scheduler s) p = Some a" "tenant_heap s a = Some t"
      "selectable (flow_scheduler t) (search_time (flow_scheduler t)) = {}"
      "hwfq_dequeue env s = Some (Inl HWFQ_ERR_INTERNAL, s')" "hwfq_inv s' xs" "pending s' = pending s" "flight s' = flight s"
      "context_heap s' = context_heap s" "hwfq_cfg s' = hwfq_cfg s"
    | (returned) err p a t q c ctx and fs :: "(nat, level_cleanup) group_scheduler" and s' where "chosen (system_scheduler s) p" "payload (system_scheduler s) p = Some a"
      "tenant_heap s a = Some t" "chosen (flow_scheduler t) q" "payload (flow_scheduler t) q = Some c"
      "c \<in> pending s" "context_heap s c = Some ctx"
      "err = HWFQ_ERR_NO_WORK \<and> 0 < cfg_total_capacity (hwfq_cfg s) \<and>
         cfg_total_capacity (hwfq_cfg s) < in_flight_work_size (flight s) + ctx_work_size ctx \<or>
       err = HWFQ_ERR_NO_MEMORY \<and> env_entry env = None"
      "hwfq_dequeue env s = Some (Inl err, s')" "hwfq_inv s' xs" "flight s' = flight s"
      "pending s' = (if enqueue_error (env_flow_session env) (ctx_flow_id ctx) (ctx_work_size ctx) fs = None
         then pending s else pending s - {c})"
      "context_heap s' = context_heap s" "hwfq_cfg s' = hwfq_cfg s"
    | (served) p a t q c ctx e s' where "chosen (system_scheduler s) p" "payload (system_scheduler s) p = Some a"
      "tenant_heap s a = Some t" "chosen (flow_scheduler t) q" "payload (flow_scheduler t) q = Some c"
      "c \<in> pending s" "context_heap s c = Some ctx" "ctx_tenant_id ctx = tenant_id t" "env_entry env = Some e"
      "cfg_total_capacity (hwfq_cfg s) = 0 \<or>
       in_flight_work_size (flight s) + ctx_work_size ctx \<le> cfg_total_capacity (hwfq_cfg s)"
      "hwfq_dequeue env s = Some (Inr (ctx_user_data ctx, ctx_work_size ctx, ctx_enqueue_time_ns ctx,
         ctx_tenant_id ctx, ctx_flow_id ctx), s')" "hwfq_inv s' (xs @ [e])" "pending s' = pending s - {c}"
      "context_heap s' = (context_heap s)(c := None)" "hwfq_cfg s' = hwfq_cfg s"
      "if_info (flight s') = (if_info (flight s))(e \<mapsto> (ctx_tenant_id ctx, ctx_flow_id ctx, ctx_work_size ctx,
         get_time_ns env, ctx_timeout_ns ctx, ctx_user_data ctx))"
      "in_flight_work_size (flight s') = in_flight_work_size (flight s) + ctx_work_size ctx"
proof (cases rule: dequeue_tenant_cases [OF inv times_fitD(1) [OF times], case_names none blocked ok])
  case none
  have "selectable (system_scheduler s) (search_time (system_scheduler s)) = {}" using none(1) by (auto simp: selectable_def)
  then show thesis using none(2) by (intro idle [OF _ _ inv]) (simp_all add: hwfq_dequeue_def)
next
  case (blocked s')
  have "flight s' = flight s" "context_heap s' = context_heap s" "hwfq_cfg s' = hwfq_cfg s" by (subst blocked(5), simp)+
  then show thesis using blocked(2) by (intro idle [OF blocked(1) _ blocked(3,4)]) (simp_all add: hwfq_dequeue_def)
next
  case (ok p a t s1)
  define t1 where "t1 = t\<lparr>has_backlog := False, tenant_session := None\<rparr>"
  have s1: "tenant_heap s1 a = Some t1" "flight s1 = flight s" "context_heap s1 = context_heap s" "hwfq_cfg s1 = hwfq_cfg s"
    by (subst ok(8), simp add: t1_def)+
  have ft: "flow_scheduler t1 = flow_scheduler t" "tenant_id t1 = tenant_id t" by (simp_all add: t1_def)
  have pc: "chosen (system_scheduler s) p" using ok(1,2) by (simp add: chosen_def)
  have fr: "fresh_in (system_scheduler s1) (env_tenant_session env)" using ok(9) env_freshD(1) [OF fresh] by blast
  have "active_session_count (system_scheduler s) \<noteq> 0"
    using gs_inv_empty [OF sys_okD(1) [OF hwfq_invD(2) [OF inv]]] ok(11) by simp
  then have rm: "active_session_count (system_scheduler s1) \<noteq> UINT32_MAX" unfolding ok(10) by (rule minus_one_room)
  have u1: "unsaturated (flow_scheduler t1)" unfolding ft by (rule times_fitD(2) [OF times ok(4)])
  have f1: "fresh_in (flow_scheduler t1) (env_flow_session env)" unfolding ft by (rule env_freshD(2) [OF fresh ok(4)])
  show thesis
  proof (cases rule: dequeue_flow_cases [OF ok(6) s1(1) u1 f1, case_names no yes])
    case (no fs)
    let ?s = "put_tenant a (t1\<lparr>flow_scheduler := fs\<rparr>) s1"
    have run: "hwfq_dequeue env s = Some (Inl HWFQ_ERR_INTERNAL, ?s)" using ok(5) s1(1) no(2) by (simp add: hwfq_dequeue_def)
    show thesis
      by (rule stuck [OF pc ok(3,4) no(1) [unfolded ft] run]) (simp_all add: no(3,4) ok(7) s1)
  next
    case (yes q so c ctx fs fs')
    let ?s2 = "put_tenant a (t1\<lparr>flow_scheduler := fs\<rparr>) s1" and ?s3 = "put_tenant a (t1\<lparr>flow_scheduler := fs'\<rparr>) s1"
    have q: "chosen (flow_scheduler t) q" "payload (flow_scheduler t) q = Some c" using yes(1,2) by (simp_all add: ft)
    have c: "c \<in> pending s" "context_heap s c = Some ctx" using yes(6,8) ok(7) s1(3) by simp_all
    have bk: "insert c (pending s1 - {c}) = pending s" using c(1) ok(7) by auto
    have q2: "sessions fs q \<noteq> None" using yes(4) by simp
    show thesis
    proof (cases "0 < cfg_total_capacity (hwfq_cfg s) \<and>
        cfg_total_capacity (hwfq_cfg s) < in_flight_work_size (flight s) + ctx_work_size ctx")
      case True
      obtain s' where r: "requeue env a q c ctx ?s2 = Some s'" "hwfq_inv s' xs" "flight s' = flight ?s2"
          "context_heap s' = context_heap ?s2" "hwfq_cfg s' = hwfq_cfg ?s2"
          "pending s' = (if enqueue_error (env_flow_session env) (ctx_flow_id ctx) (ctx_work_size ctx) fs = None
             then insert c (pending ?s2) else pending ?s2)"
        by (rule requeue_ok [OF yes(10), where a = a and t = "t1\<lparr>flow_scheduler := fs\<rparr>" and c = c and ctx = ctx and q = q and env = env])
          (use yes q2 fr rm s1 in \<open>simp_all add: t1_def\<close>)
      have run: "hwfq_dequeue env s = Some (Inl HWFQ_ERR_NO_WORK, s')"
        using ok(5) s1 yes(3-6) r(1) True by (simp add: hwfq_dequeue_def)
      show thesis
        using True by (intro returned [OF pc ok(3,4) q c _ run r(2), where fs = fs]) (simp_all add: r(3-6) yes(11) bk ok(7) s1 insert_absorb [OF c(1)])
    next
      case room: False
      show thesis
      proof (cases "env_entry env")
        case None
        obtain s' where r: "requeue env a q c ctx ?s3 = Some s'" "hwfq_inv s' xs" "flight s' = flight ?s3"
          "context_heap s' = context_heap ?s3" "hwfq_cfg s' = hwfq_cfg ?s3"
          "pending s' = (if enqueue_error (env_flow_session env) (ctx_flow_id ctx) (ctx_work_size ctx) fs' = None
             then insert c (pending ?s3) else pending ?s3)"
          by (rule requeue_ok [OF yes(15), where a = a and t = "t1\<lparr>flow_scheduler := fs'\<rparr>" and c = c and ctx = ctx and q = q and env = env])
            (use yes fr rm s1 in \<open>simp_all add: t1_def\<close>)
        have run: "hwfq_dequeue env s = Some (Inl HWFQ_ERR_NO_MEMORY, s')"
          using ok(5) s1 yes(3-6,14) r(1) room None by (auto simp: hwfq_dequeue_def put_tenant_def)
        show thesis
          using None by (intro returned [OF pc ok(3,4) q c _ run r(2), where fs = fs']) (simp_all add: r(3-6) yes(16) bk ok(7) s1 insert_absorb [OF c(1)])
      next
        case (Some e)
        have fe: "if_entries (flight ?s3) e = None" using env_freshD(3) [OF fresh Some] s1(2) by simp
        obtain s' where h: "hand_out env a q c ctx e ?s3 = Some s'" "hwfq_inv s' (xs @ [e])" "pending s' = pending ?s3"
          "context_heap s' = (context_heap ?s3)(c := None)" "hwfq_cfg s' = hwfq_cfg ?s3"
          "if_info (flight s') = (if_info (flight ?s3))(e \<mapsto> (ctx_tenant_id ctx, ctx_flow_id ctx, ctx_work_size ctx,
             get_time_ns env, ctx_timeout_ns ctx, ctx_user_data ctx))"
          "in_flight_work_size (flight s') = in_flight_work_size (flight ?s3) + ctx_work_size ctx"
          by (rule hand_out_ok [OF yes(15), where a = a and t = "t1\<lparr>flow_scheduler := fs'\<rparr>" and c = c and ctx = ctx and q = q and env = env and e = e])
            (use yes fr rm s1 fe in \<open>simp_all add: t1_def\<close>)
        have run: "hwfq_dequeue env s = Some (Inr (ctx_user_data ctx, ctx_work_size ctx, ctx_enqueue_time_ns ctx,
            ctx_tenant_id ctx, ctx_flow_id ctx), s')"
          using ok(5) s1 yes(3-6,14) h(1) room Some by (auto simp: hwfq_dequeue_def put_tenant_def)
        have cap: "cfg_total_capacity (hwfq_cfg s) = 0 \<or>
            in_flight_work_size (flight s) + ctx_work_size ctx \<le> cfg_total_capacity (hwfq_cfg s)"
          using room by (auto simp: not_less word_neq_0_conv)
        show thesis
          by (rule served [OF pc ok(3,4) q c _ Some cap run h(2)]) (use h yes ok(7) s1 ft in simp_all)
      qed
    qed
  qed
qed

end
