(* ===== verification/HWFQ_Completion.thy ===== *)
theory HWFQ_Completion
  imports HWFQ_Scheduling
begin

text \<open>
  Work leaves the scheduler: \<open>hwfq_complete\<close>, \<open>hwfq_cancel\<close> and \<open>hwfq_check_timeouts\<close> of
  \<^verbatim>\<open>src/hwfq_scheduler.c\<close>.  Each finds entries in the sequence of work in flight, takes them out of
  it and charges the tenant and the flow they belong to; the queues stay as they are.
\<close>

section \<open>The entry a session stands for\<close>

definition target :: "hwfq_session option \<Rightarrow> u32 \<Rightarrow> u32 \<Rightarrow> in_flight \<Rightarrow> addr list \<Rightarrow> addr option" where
  "target work i f fl xs =
     (let data = (case work of None \<Rightarrow> 0 | Some w \<Rightarrow> sn_user_data w) in
      if data \<noteq> 0
      then find (if_match (\<lambda>e. if_user_data e = data \<and> if_tenant_id e = i \<and> if_flow_id e = f) fl) (rev xs)
      else find (if_match (\<lambda>e. if_tenant_id e = i \<and> if_flow_id e = f) fl) xs)"

lemma search_in_flight_eq:
  assumes "flight_ok fl xs"
  shows "search_in_flight work i f fl = Some (target work i f fl xs)"
  using seq_find [OF flight_okD(1) [OF assms]] by (simp add: search_in_flight_def target_def Let_def)

lemma find_SomeD: "find P xs = Some a \<Longrightarrow> a \<in> set xs \<and> P a"
  by (auto simp: find_Some_iff)

lemma target_Some:
  assumes "target work i f fl xs = Some a"
  obtains e where "a \<in> set xs" "if_entries fl a = Some e" "if_tenant_id e = i" "if_flow_id e = f"
  using assms by (auto simp: target_def Let_def if_match_def split: if_splits dest!: find_SomeD)

section \<open>Charging a tenant\<close>

text \<open>
  \<open>touched C t' t\<close>: the tenant differs in statistics only, its own or those of its flow entries.
\<close>

definition touched :: "(addr \<Rightarrow> flow_session_context option) \<Rightarrow> tenant_config \<Rightarrow> tenant_config \<Rightarrow> bool" where
  "touched C t' t \<longleftrightarrow> tenant_key t' = tenant_key t \<and> backlog_view t' = backlog_view t \<and>
     flow_level_ok C (tenant_id t) (flow_scheduler t') \<and>
     contexts_of (flow_scheduler t') = contexts_of (flow_scheduler t) \<and>
     queued (flow_scheduler t') = queued (flow_scheduler t) \<and>
     sessions (flow_scheduler t') = sessions (flow_scheduler t) \<and>
     active_session_count (flow_scheduler t') = active_session_count (flow_scheduler t) \<and>
     level_frame (flow_scheduler t') (flow_scheduler t)"

lemma touched_trans: "touched C a b \<Longrightarrow> touched C b c \<Longrightarrow> touched C a c"
  by (auto simp: touched_def tenant_key_def intro: level_frame_trans)

lemma touched_own:
  "flow_level_ok C (tenant_id t) (flow_scheduler t) \<Longrightarrow> tenant_key t' = tenant_key t \<Longrightarrow>
   backlog_view t' = backlog_view t \<Longrightarrow> flow_scheduler t' = flow_scheduler t \<Longrightarrow> touched C t' t"
  by (simp add: touched_def)

lemma touched_level: "touched C t' t \<Longrightarrow> flow_level_ok C (tenant_id t') (flow_scheduler t')"
  by (simp add: touched_def tenant_key_def)

lemma touched_shares: "touched C t' t \<Longrightarrow> shares (flow_scheduler t') = shares (flow_scheduler t)"
  by (simp add: touched_def level_frame_def)

lemma touched_put:
  assumes "hwfq_inv s xs" "tenant_heap s a = Some t" "touched (context_heap s) t' t"
  shows "hwfq_inv (put_tenant a t' s) xs" "pending (put_tenant a t' s) = pending s"
  using hwfq_inv_put [OF assms(1,2)] pending_put_same [OF assms(1,2)] assms(3) by (simp_all add: touched_def)

definition flow_slot :: "tenant_config \<Rightarrow> u32 \<Rightarrow> entry_config option" where
  "flow_slot t f = slot_of (entries (flow_scheduler t)) (unat f)"

lemma with_flow_entry_touched:
  assumes lv: "flow_level_ok C (tenant_id t) (flow_scheduler t)"
    and p: "\<And>p. entry = Some p \<Longrightarrow> shares (flow_scheduler t) p \<noteq> None" and same: "\<And>e. same_shares (f e) e"
  obtains t2 where "with_flow_entry entry f t = Some t2" "t2 = t\<lparr>flow_scheduler := flow_scheduler t2\<rparr>" "touched C t2 t"
    "flow_slot t2 = (\<lambda>j. if entry = Some j then map_option f (flow_slot t j) else flow_slot t j)"
proof (cases entry)
  case None
  then show thesis by (intro that [of t]) (simp_all add: with_flow_entry_def touched_def lv)
next
  case (Some k)
  obtain e fs where m: "modify_flow_entry k f (flow_scheduler t) = Some fs" "flow_level_ok C (tenant_id t) fs"
    "contexts_of fs = contexts_of (flow_scheduler t)" "queued fs = queued (flow_scheduler t)"
    "level_frame fs (flow_scheduler t)" "active_session_count fs = active_session_count (flow_scheduler t)"
    "sessions fs = sessions (flow_scheduler t)" "virtual_time fs = virtual_time (flow_scheduler t)"
    "slot_of (entries (flow_scheduler t)) (unat k) = Some e"
    "\<And>j. slot_of (entries fs) (unat j) = (if j = k then Some (f e) else slot_of (entries (flow_scheduler t)) (unat j))"
    by (rule modify_flow_entry_ok [OF lv p [OF Some] same], rule that)
  show thesis
    by (rule that [of "t\<lparr>flow_scheduler := fs\<rparr>"])
      (use m in \<open>simp_all add: with_flow_entry_def Some touched_def tenant_key_def backlog_view_def flow_slot_def fun_eq_iff\<close>)
qed

text \<open>What a completed operation is worth, to a tenant and to a flow entry.\<close>

definition completed_tenant :: "bool \<Rightarrow> u64 \<Rightarrow> u64 \<Rightarrow> tenant_config \<Rightarrow> tenant_config" where
  "completed_tenant en work now t =
     (let t = t\<lparr>tenant_stats := drop_backlog (tenant_stats t)\<rparr> in
      if en then update_tenant_rate_tracking work now (t\<lparr>tenant_stats := add_completed work (tenant_stats t)\<rparr>) else t)"

definition completed_flow :: "bool \<Rightarrow> u64 \<Rightarrow> u64 \<Rightarrow> entry_config \<Rightarrow> entry_config" where
  "completed_flow en work now e =
     (let e = e\<lparr>stats := drop_backlog (stats e)\<rparr> in
      if en then update_entry_rate_tracking work now (e\<lparr>stats := add_completed work (stats e)\<rparr>) else e)"

lemma tenant_rate_same [simp]:
  "tenant_key (update_tenant_rate_tracking w now t) = tenant_key t"
  "backlog_view (update_tenant_rate_tracking w now t) = backlog_view t"
  "flow_scheduler (update_tenant_rate_tracking w now t) = flow_scheduler t"
  by (simp_all add: update_tenant_rate_tracking_def tenant_key_def backlog_view_def split: prod.split)

lemma entry_rate_same [simp]: "same_shares (update_entry_rate_tracking w now e) e"
  by (simp add: update_entry_rate_tracking_def split: prod.split)

lemma tenant_rate_level:
  "update_tenant_rate_tracking w now (t\<lparr>flow_scheduler := fs\<rparr>) = (update_tenant_rate_tracking w now t)\<lparr>flow_scheduler := fs\<rparr>"
  by (simp add: update_tenant_rate_tracking_def split: prod.split)

text \<open>The tenant and the flow entry of an ID pair.\<close>

lemma tenant_and_flow_eq:
  assumes inv: "hwfq_inv s xs"
  shows "tenant_and_flow i f s = Some (case tenant_of i s of None \<Rightarrow> None
    | Some (a, t) \<Rightarrow> Some (a, t, if shares (flow_scheduler t) f = None then None else Some f))"
proof (cases "i < cfg_max_tenants (hwfq_cfg s)")
  case False
  show ?thesis using False tenant_of_range [OF hwfq_invD(1) [OF inv], of i] by (simp add: tenant_and_flow_def)
next
  case True
  note tb = hwfq_invD(1) [OF inv]
  have n: "\<not> cfg_max_tenants (hwfq_cfg s) \<le> i" using True by simp
  show ?thesis
  proof (cases rule: configured_tenant_cases [OF tb n, case_names none some])
    case none
    have "tenant_of i s = None" using none(3) tenant_of_iff [OF tb, of i] by (cases "tenant_of i s") auto
    then show ?thesis using none(2) True by (simp add: tenant_and_flow_def)
  next
    case (some a t)
    have "tenant_of i s = Some (a, t)" using some(2,3) tenant_of_iff [OF tb] by blast
    moreover have "find_flow_entry t f = Some (if shares (flow_scheduler t) f = None then None else Some f)"
      by (rule find_flow_entry_shares [OF tenants_okD [OF hwfq_invD(3) [OF inv] some(2)]])
    ultimately show ?thesis using some True by (simp add: tenant_and_flow_def)
  qed
qed

lemma completed_flow_eqs:
  "completed_flow False w now = (\<lambda>e. e\<lparr>stats := drop_backlog (stats e)\<rparr>)"
  "completed_flow True w now =
     (\<lambda>e. update_entry_rate_tracking w now (e\<lparr>stats := add_completed w (drop_backlog (stats e))\<rparr>))"
  by (simp_all add: completed_flow_def fun_eq_iff)

lemma charge_cancelled:
  assumes lv: "flow_level_ok C (tenant_id t) (flow_scheduler t)"
    and p: "\<And>p. flow = Some p \<Longrightarrow> shares (flow_scheduler t) p \<noteq> None"
  obtains t' where
    "with_flow_entry flow (\<lambda>e. e\<lparr>stats := drop_backlog (stats e)\<rparr>) (t\<lparr>tenant_stats := drop_backlog (tenant_stats t)\<rparr>) = Some t'"
    "touched C t' t" "t' = (completed_tenant False w now t)\<lparr>flow_scheduler := flow_scheduler t'\<rparr>"
    "flow_slot t' = (\<lambda>j. if flow = Some j then map_option (completed_flow False w now) (flow_slot t j) else flow_slot t j)"
proof -
  let ?t = "t\<lparr>tenant_stats := drop_backlog (tenant_stats t)\<rparr>"
  have T: "touched C ?t t" by (rule touched_own [OF lv]) (simp_all add: tenant_key_def backlog_view_def)
  obtain t' where t': "with_flow_entry flow (\<lambda>e. e\<lparr>stats := drop_backlog (stats e)\<rparr>) ?t = Some t'"
    "t' = ?t\<lparr>flow_scheduler := flow_scheduler t'\<rparr>" "touched C t' ?t"
    "flow_slot t' = (\<lambda>j. if flow = Some j then map_option (\<lambda>e. e\<lparr>stats := drop_backlog (stats e)\<rparr>) (flow_slot ?t j) else flow_slot ?t j)"
    by (rule with_flow_entry_touched [of C ?t flow "\<lambda>e. e\<lparr>stats := drop_backlog (stats e)\<rparr>"]) (use lv p in simp_all)
  have F: "flow_slot ?t = flow_slot t" by (simp add: flow_slot_def fun_eq_iff)
  have slots: "flow_slot t' = (\<lambda>j. if flow = Some j then map_option (completed_flow False w now) (flow_slot t j) else flow_slot t j)"
    unfolding t'(4) F by (simp add: completed_flow_eqs fun_eq_iff)
  show thesis
    by (rule that [OF t'(1) touched_trans [OF t'(3) T] _ slots]) (use t'(2) in \<open>simp add: completed_tenant_def\<close>)
qed

lemma charge_completed:
  assumes lv: "flow_level_ok C (tenant_id t) (flow_scheduler t)"
    and p: "\<And>p. flow = Some p \<Longrightarrow> shares (flow_scheduler t) p \<noteq> None"
  obtains t1 t2 t' where
    "with_flow_entry flow (\<lambda>e. e\<lparr>stats := drop_backlog (stats e)\<rparr>) (t\<lparr>tenant_stats := drop_backlog (tenant_stats t)\<rparr>) = Some t1"
    "en \<Longrightarrow> with_flow_entry flow (\<lambda>fe. fe\<lparr>stats := add_completed w (stats fe)\<rparr>)
       (t1\<lparr>tenant_stats := add_completed w (tenant_stats t1)\<rparr>) = Some t2"
    "en \<Longrightarrow> with_flow_entry flow (update_entry_rate_tracking w now) (update_tenant_rate_tracking w now t2) = Some t'"
    "\<not> en \<Longrightarrow> t' = t1"
    "touched C t' t" "t' = (completed_tenant en w now t)\<lparr>flow_scheduler := flow_scheduler t'\<rparr>"
    "flow_slot t' = (\<lambda>j. if flow = Some j then map_option (completed_flow en w now) (flow_slot t j) else flow_slot t j)"
proof -
  obtain t1 where t1:
    "with_flow_entry flow (\<lambda>e. e\<lparr>stats := drop_backlog (stats e)\<rparr>) (t\<lparr>tenant_stats := drop_backlog (tenant_stats t)\<rparr>) = Some t1"
    "touched C t1 t" "t1 = (completed_tenant False w now t)\<lparr>flow_scheduler := flow_scheduler t1\<rparr>"
    "flow_slot t1 = (\<lambda>j. if flow = Some j then map_option (completed_flow False w now) (flow_slot t j) else flow_slot t j)"
    by (rule charge_cancelled [OF lv, of flow w now], rule p, assumption, rule that)
  show thesis
  proof (cases en)
    case False
    then have "en = False" by simp
    then show thesis using t1 by (intro that [of t1 t1 t1]) (simp_all only: simp_thms)
  next
    case True
    let ?t1 = "t1\<lparr>tenant_stats := add_completed w (tenant_stats t1)\<rparr>"
    have lv1: "flow_level_ok C (tenant_id t1) (flow_scheduler t1)" by (rule touched_level [OF t1(2)])
    have T1: "touched C ?t1 t1" by (rule touched_own [OF lv1]) (simp_all add: tenant_key_def backlog_view_def)
    obtain t2 where t2: "with_flow_entry flow (\<lambda>fe. fe\<lparr>stats := add_completed w (stats fe)\<rparr>) ?t1 = Some t2"
      "t2 = ?t1\<lparr>flow_scheduler := flow_scheduler t2\<rparr>" "touched C t2 ?t1"
      "flow_slot t2 = (\<lambda>j. if flow = Some j then map_option (\<lambda>fe. fe\<lparr>stats := add_completed w (stats fe)\<rparr>) (flow_slot ?t1 j) else flow_slot ?t1 j)"
      by (rule with_flow_entry_touched [of C ?t1 flow "\<lambda>fe. fe\<lparr>stats := add_completed w (stats fe)\<rparr>"])
        (use lv1 p touched_shares [OF t1(2)] in simp_all)
    let ?t2 = "update_tenant_rate_tracking w now t2"
    have lv2: "flow_level_ok C (tenant_id t2) (flow_scheduler t2)" by (rule touched_level [OF t2(3)])
    have T2: "touched C ?t2 t2" by (rule touched_own [OF lv2]) simp_all
    have T: "touched C ?t2 t" by (rule touched_trans [OF T2 touched_trans [OF t2(3) touched_trans [OF T1 t1(2)]]])
    obtain t' where t': "with_flow_entry flow (update_entry_rate_tracking w now) ?t2 = Some t'"
      "t' = ?t2\<lparr>flow_scheduler := flow_scheduler t'\<rparr>" "touched C t' ?t2"
      "flow_slot t' = (\<lambda>j. if flow = Some j then map_option (update_entry_rate_tracking w now) (flow_slot ?t2 j) else flow_slot ?t2 j)"
      by (rule with_flow_entry_touched [of C ?t2 flow "update_entry_rate_tracking w now"])
        (use touched_level [OF T] p touched_shares [OF T] in simp_all)
    have F: "flow_slot ?t1 = flow_slot t1" "flow_slot ?t2 = flow_slot t2" by (simp_all add: flow_slot_def fun_eq_iff)
    have "t' = (update_tenant_rate_tracking w now (t1\<lparr>tenant_stats := add_completed w (tenant_stats t1)\<rparr>))\<lparr>flow_scheduler := flow_scheduler t'\<rparr>"
      by (subst t'(2), subst t2(2), simp add: tenant_rate_level)
    moreover obtain G where G: "t1 = (completed_tenant False w now t)\<lparr>flow_scheduler := G\<rparr>" using t1(3) by (rule that)
    ultimately have own: "t' = (completed_tenant True w now t)\<lparr>flow_scheduler := flow_scheduler t'\<rparr>"
      by (simp add: completed_tenant_def Let_def tenant_rate_level [symmetric])
    have slots: "flow_slot t' = (\<lambda>j. if flow = Some j then map_option (completed_flow True w now) (flow_slot t j) else flow_slot t j)"
      unfolding t'(4) F t2(4) t1(4) by (simp add: completed_flow_eqs option.map_comp o_def fun_eq_iff)
    show thesis
      by (rule that [OF t1(1) t2(1) t'(1)]) (use touched_trans [OF t'(3) T] own slots in \<open>simp_all only: True simp_thms\<close>)
  qed
qed

text \<open>
  What a call charges to the tenant and the flow of the work it takes out: one unit of backlog, when
  there is one, and with \<open>en\<close> the work and the operation.
\<close>

definition charged_stats :: "bool \<Rightarrow> u64 \<Rightarrow> hwfq_stats \<Rightarrow> hwfq_stats \<Rightarrow> bool" where
  "charged_stats en w st' st \<longleftrightarrow>
     current_backlog st' = current_backlog st - (if current_backlog st = 0 then 0 else 1) \<and>
     work_units_processed st' = work_units_processed st + (if en then w else 0) \<and>
     operations_completed st' = operations_completed st + (if en then 1 else 0) \<and>
     total_wait_time_ns st' = total_wait_time_ns st"

definition charged :: "bool \<Rightarrow> u64 \<Rightarrow> u32 \<Rightarrow> u32 \<Rightarrow> hwfq_scheduler \<Rightarrow> hwfq_scheduler \<Rightarrow> bool" where
  "charged en w i f s s' \<longleftrightarrow>
     (case tenant_of i s of
        None \<Rightarrow> tenant_heap s' = tenant_heap s
      | Some (a, t) \<Rightarrow> \<exists>t'. tenant_heap s' = (tenant_heap s)(a \<mapsto> t') \<and> tenant_key t' = tenant_key t \<and>
          charged_stats en w (tenant_stats t') (tenant_stats t) \<and>
          (\<forall>j. if j = f \<and> shares (flow_scheduler t) f \<noteq> None
             then rel_option (\<lambda>e' e. same_shares e' e \<and> charged_stats en w (stats e') (stats e)) (flow_slot t' j) (flow_slot t j)
             else flow_slot t' j = flow_slot t j))"

lemma charged_stats_completed:
  "charged_stats en w (tenant_stats (completed_tenant en w now t)) (tenant_stats t)"
  "charged_stats en w (stats (completed_flow en w now e)) (stats e)"
  by (auto simp: charged_stats_def completed_tenant_def completed_flow_def drop_backlog_def add_completed_def
      update_tenant_rate_tracking_def update_entry_rate_tracking_def set_rate_def word_neq_0_conv
      split: prod.split option.split)

lemma same_shares_trans: "same_shares a b \<Longrightarrow> same_shares b c \<Longrightarrow> same_shares a c"
  by (cases "allocation c") (simp_all add: same_shares_def)

lemma completed_flow_shares: "same_shares (completed_flow en w now e) e"
proof (cases en)
  case True
  have "same_shares (update_entry_rate_tracking w now e') e" if "same_shares e' e" for e'
    using that same_shares_trans [OF entry_rate_same] by blast
  then show ?thesis using True by (simp add: completed_flow_eqs)
next
  case False
  then show ?thesis by (simp add: completed_flow_eqs)
qed

lemma chargedI:
  assumes t: "tenant_of i s = Some (a, t)" and H: "tenant_heap s' = (tenant_heap s)(a \<mapsto> t'')"
    and same: "tenant_key t'' = tenant_key t" "tenant_stats t'' = tenant_stats (completed_tenant en w now t)" "flow_slot t'' = flow_slot t'"
    and slots: "flow_slot t' = (\<lambda>j. if (if shares (flow_scheduler t) f = None then None else Some f) = Some j
        then map_option (completed_flow en w now) (flow_slot t j) else flow_slot t j)"
  shows "charged en w i f s s'"
proof -
  have "rel_option (\<lambda>e' e. same_shares e' e \<and> charged_stats en w (stats e') (stats e))
      (map_option (completed_flow en w now) x) x" for x
    by (cases x) (simp_all add: completed_flow_shares charged_stats_completed)
  then show ?thesis
    unfolding charged_def t option.case prod.case
    by (intro exI [of _ t'']) (simp add: H same slots charged_stats_completed del: not_None_eq)
qed

lemma not_empty_iff: "hwfq_inv s xs \<Longrightarrow> group_scheduler_is_empty (system_scheduler s) \<longleftrightarrow> queued (system_scheduler s) = {}"
  using gs_inv_empty [OF sys_okD(1) [OF hwfq_invD(2)]] by (simp add: group_scheduler_is_empty_def)

lemma flow_empty_iff: "gs_inv fs \<Longrightarrow> group_scheduler_is_empty fs \<longleftrightarrow> queued fs = {}"
  using gs_inv_empty by (simp add: group_scheduler_is_empty_def)

section \<open>Cancelling\<close>

text \<open>An entry leaves the sequence and its memory is freed.\<close>

lemma leave_flight:
  assumes inv: "hwfq_inv s xs" and a: "target work i f (flight s) xs = Some a"
  obtains e e' fl where "if_entries (flight s) a = Some e" "if_tenant_id e = i" "if_flow_id e = f"
    "take_out a (flight s) = Some fl" "if_entries fl a = Some e'" "if_data e' = if_data e"
    "hwfq_inv (s\<lparr>flight := fl\<lparr>if_entries := (if_entries fl)(a := None)\<rparr>\<rparr>) (remove1 a xs)"
    "if_info (fl\<lparr>if_entries := (if_entries fl)(a := None)\<rparr>) = (if_info (flight s))(a := None)"
    "in_flight_work_size fl = in_flight_work_size (flight s) - if_work_size e"
proof -
  obtain e where e: "a \<in> set xs" "if_entries (flight s) a = Some e" "if_tenant_id e = i" "if_flow_id e = f"
    by (rule target_Some [OF a])
  note fl = hwfq_invD(4) [OF inv]
  obtain fl' e' where t: "take_out a (flight s) = Some fl'" "if_entries fl' a = Some e'" "if_data e' = if_data e"
    "in_flight_seq fl' (remove1 a xs)" "in_flight_work_size fl' = flight_work (flight s) (remove1 a xs)"
    "in_flight_count fl' = of_nat (length (remove1 a xs))" "if_info fl' = if_info (flight s)"
    "\<forall>c. c \<notin> set (remove1 a xs) \<longrightarrow> if_entries fl' c = if_entries (flight s) c"
    by (rule take_out_ok [OF fl e(1,2)], rule that)
  note fr = flight_free [OF fl e(1) t(4-7)]
  have "if_info (fl'\<lparr>if_entries := (if_entries fl')(a := None)\<rparr>) = (if_info (flight s))(a := None)"
  proof
    fix b
    show "if_info (fl'\<lparr>if_entries := (if_entries fl')(a := None)\<rparr>) b = ((if_info (flight s))(a := None)) b"
      using fr(2) by (cases "b = a") (simp_all add: if_info_def)
  qed
  moreover have "in_flight_work_size fl' = in_flight_work_size (flight s) - if_work_size e"
    using flight_work_remove [OF e(1), of "flight s"] e(2) flight_okD(2) [OF fl] t(5) by simp
  ultimately show thesis using hwfq_inv_flight [OF inv fr(1)] by (intro that [OF e(2-4) t(1-3)])
qed

lemma hwfq_cancel_cases:
  assumes inv: "hwfq_inv s xs"
  obtains (missing) "target work i f (flight s) xs = None" "hwfq_cancel work i f s = Some (Inl HWFQ_ERR_NOT_FOUND, [], s)"
    | (cancelled) a e s' where "target work i f (flight s) xs = Some a" "if_entries (flight s) a = Some e"
      "hwfq_cancel work i f s = Some (Inr (),
         if has_capacity s' \<and> queued (system_scheduler s) \<noteq> {} \<and> session_available_set (hwfq_cfg s)
         then [Session_available] else [], s')"
      "hwfq_inv s' (remove1 a xs)" "pending s' = pending s" "charged False (if_work_size e) i f s s'"
      "if_info (flight s') = (if_info (flight s))(a := None)"
      "in_flight_work_size (flight s') = in_flight_work_size (flight s) - if_work_size e"
      "context_heap s' = context_heap s" "system_scheduler s' = system_scheduler s" "hwfq_cfg s' = hwfq_cfg s"
proof (cases "target work i f (flight s) xs")
  case None
  then show thesis using search_in_flight_eq [OF hwfq_invD(4) [OF inv]] by (intro missing) (simp_all add: hwfq_cancel_def)
next
  case (Some a)
  obtain e e' fl where l: "if_entries (flight s) a = Some e" "if_tenant_id e = i" "if_flow_id e = f"
    "take_out a (flight s) = Some fl" "if_entries fl a = Some e'" "if_data e' = if_data e"
    "hwfq_inv (s\<lparr>flight := fl\<lparr>if_entries := (if_entries fl)(a := None)\<rparr>\<rparr>) (remove1 a xs)"
    "if_info (fl\<lparr>if_entries := (if_entries fl)(a := None)\<rparr>) = (if_info (flight s))(a := None)"
    "in_flight_work_size fl = in_flight_work_size (flight s) - if_work_size e"
    by (rule leave_flight [OF inv Some])
  have e': "if_tenant_id e' = i" "if_flow_id e' = f" using l(2,3,6) by (simp_all add: if_data_def)
  define s1 where "s1 = s\<lparr>flight := fl\<lparr>if_entries := (if_entries fl)(a := None)\<rparr>\<rparr>"
  have s1: "hwfq_inv s1 (remove1 a xs)" "tenant_heap s1 = tenant_heap s" "context_heap s1 = context_heap s" "pending s1 = pending s"
    "system_scheduler s1 = system_scheduler s" "hwfq_cfg s1 = hwfq_cfg s" "flight s1 = fl\<lparr>if_entries := (if_entries fl)(a := None)\<rparr>"
    using l(7) by (simp_all add: s1_def)
  note search = search_in_flight_eq [OF hwfq_invD(4) [OF inv], of work i f]
  have free: "hwfq_free a (if_entries fl) = Some ((if_entries fl)(a := None))" using l(5) by (simp add: hwfq_free_def)
  have place: "tenant_and_flow i f (s\<lparr>flight := fl\<rparr>) = tenant_and_flow i f s" by (simp add: tenant_and_flow_def tenant_at_def)
  note em = not_empty_iff [OF inv]
  show thesis
  proof (cases "tenant_of i s")
    case None
    have "tenant_and_flow i f s = Some None" using tenant_and_flow_eq [OF inv, of i f] None by simp
    then have run: "hwfq_cancel work i f s = Some (Inr (),
        if has_capacity s1 \<and> queued (system_scheduler s) \<noteq> {} \<and> session_available_set (hwfq_cfg s)
        then [Session_available] else [], s1)"
      using search Some l(4,5) place free e' by (simp add: hwfq_cancel_def em has_capacity_def s1_def)
    show thesis by (rule cancelled [OF Some l(1) run s1(1,4)]) (simp_all add: charged_def None s1 l(8,9))
  next
    case t: (Some p)
    obtain b t where p: "p = (b, t)" by (cases p)
    have tn: "tenant_heap s b = Some t" "tenant_id t = i" using t tenant_of_iff [OF hwfq_invD(1) [OF inv]] by (simp_all add: p)
    let ?flow = "if shares (flow_scheduler t) f = None then None else Some f"
    have pl: "tenant_and_flow i f s = Some (Some (b, t, ?flow))" using tenant_and_flow_eq [OF inv, of i f] t by (simp add: p)
    have lv: "flow_level_ok (context_heap s) (tenant_id t) (flow_scheduler t)" by (rule tenants_okD [OF hwfq_invD(3) [OF inv] tn(1)])
    obtain t' where t': "with_flow_entry ?flow (\<lambda>e. e\<lparr>stats := drop_backlog (stats e)\<rparr>)
        (t\<lparr>tenant_stats := drop_backlog (tenant_stats t)\<rparr>) = Some t'"
      "touched (context_heap s) t' t" "t' = (completed_tenant False (if_work_size e) 0 t)\<lparr>flow_scheduler := flow_scheduler t'\<rparr>"
      "flow_slot t' = (\<lambda>j. if ?flow = Some j then map_option (completed_flow False (if_work_size e) 0) (flow_slot t j) else flow_slot t j)"
      by (rule charge_cancelled [OF lv, of ?flow "if_work_size e" 0], auto split: if_splits)
    define s' where "s' = put_tenant b t' s1"
    have inv': "hwfq_inv s' (remove1 a xs)" "pending s' = pending s"
      using touched_put [OF s1(1), of b t t'] tn(1) t'(2) by (simp_all add: s1 s'_def)
    have "tenant_stats t' = tenant_stats (completed_tenant False (if_work_size e) 0 t)" by (subst t'(3)) simp
    moreover have "tenant_key t' = tenant_key t" using t'(2) by (simp add: touched_def)
    ultimately have ch: "charged False (if_work_size e) i f s s'"
      by (intro chargedI [OF t [unfolded p] _ _ _ refl t'(4)]) (simp_all add: s'_def s1)
    have run: "hwfq_cancel work i f s = Some (Inr (),
        if has_capacity s' \<and> queued (system_scheduler s) \<noteq> {} \<and> session_available_set (hwfq_cfg s)
        then [Session_available] else [], s')"
      using search Some l(4,5) place free e' pl t'(1)
      by (simp add: hwfq_cancel_def em has_capacity_def s'_def s1_def put_tenant_def)
    show thesis by (rule cancelled [OF Some l(1) run inv' ch]) (simp_all add: s'_def s1 l(8,9))
  qed
qed

section \<open>Completing\<close>

definition tenant_waits :: "u32 \<Rightarrow> hwfq_scheduler \<Rightarrow> bool" where
  "tenant_waits i s \<longleftrightarrow> (case tenant_of i s of None \<Rightarrow> False | Some (a, t) \<Rightarrow> queued (flow_scheduler t) \<noteq> {})"

lemma flight_after_tenant: "s\<lparr>tenant_heap := H, flight := fl\<rparr> = s\<lparr>flight := fl, tenant_heap := H\<rparr>"
  by simp

lemma hwfq_complete_cases:
  assumes inv: "hwfq_inv s xs" and fresh: "fresh_in (system_scheduler s) (env_tenant_session env)"
    and room: "active_session_count (system_scheduler s) \<noteq> UINT32_MAX"
  obtains (missing) "target work i f (flight s) xs = None"
      "hwfq_complete env work i f now s = Some (Inl HWFQ_ERR_NOT_FOUND, [], s)"
    | (completed) a e s' where "target work i f (flight s) xs = Some a" "if_entries (flight s) a = Some e"
      "hwfq_complete env work i f now s = Some (Inr (),
         if has_capacity s' \<and> (queued (system_scheduler s) \<noteq> {} \<or> tenant_waits i s) \<and> session_available_set (hwfq_cfg s)
         then [Session_available] else [], s')"
      "hwfq_inv s' (remove1 a xs)" "pending s' = pending s"
      "charged (enable_statistics (hwfq_cfg s)) (if_work_size e) i f s s'"
      "if_info (flight s') = (if_info (flight s))(a := None)"
      "in_flight_work_size (flight s') = in_flight_work_size (flight s) - if_work_size e"
      "context_heap s' = context_heap s" "hwfq_cfg s' = hwfq_cfg s"
      "\<And>b t t'. \<lbrakk>tenant_of i s = Some (b, t); tenant_heap s' b = Some t'; queued (flow_scheduler t) \<noteq> {};
         enqueue_error (env_tenant_session env) i TENANT_QUANTUM_SIZE (system_scheduler s) = None\<rbrakk> \<Longrightarrow> has_backlog t'"
proof (cases "target work i f (flight s) xs")
  case None
  then show thesis using search_in_flight_eq [OF hwfq_invD(4) [OF inv]] by (intro missing) (simp_all add: hwfq_complete_def)
next
  case (Some a)
  obtain e e' fl where l: "if_entries (flight s) a = Some e" "if_tenant_id e = i" "if_flow_id e = f"
    "take_out a (flight s) = Some fl" "if_entries fl a = Some e'" "if_data e' = if_data e"
    "hwfq_inv (s\<lparr>flight := fl\<lparr>if_entries := (if_entries fl)(a := None)\<rparr>\<rparr>) (remove1 a xs)"
    "if_info (fl\<lparr>if_entries := (if_entries fl)(a := None)\<rparr>) = (if_info (flight s))(a := None)"
    "in_flight_work_size fl = in_flight_work_size (flight s) - if_work_size e"
    by (rule leave_flight [OF inv Some])
  have e': "if_work_size e' = if_work_size e" using l(6) by (simp add: if_data_def)
  define s1 where "s1 = s\<lparr>flight := fl\<lparr>if_entries := (if_entries fl)(a := None)\<rparr>\<rparr>"
  have s1: "hwfq_inv s1 (remove1 a xs)" "tenant_heap s1 = tenant_heap s" "context_heap s1 = context_heap s" "pending s1 = pending s"
    "system_scheduler s1 = system_scheduler s" "hwfq_cfg s1 = hwfq_cfg s" "flight s1 = fl\<lparr>if_entries := (if_entries fl)(a := None)\<rparr>"
    using l(7) by (simp_all add: s1_def)
  note search = search_in_flight_eq [OF hwfq_invD(4) [OF inv], of work i f]
  have free: "hwfq_free a (if_entries fl) = Some ((if_entries fl)(a := None))" using l(5) by (simp add: hwfq_free_def)
  have place: "tenant_and_flow i f (s\<lparr>flight := fl\<rparr>) = tenant_and_flow i f s" by (simp add: tenant_and_flow_def tenant_at_def)
  note em = not_empty_iff [OF inv]
  show thesis
  proof (cases "tenant_of i s")
    case None
    have "tenant_and_flow i f s = Some None" using tenant_and_flow_eq [OF inv, of i f] None by simp
    then have run: "hwfq_complete env work i f now s = Some (Inr (),
        if has_capacity s1 \<and> (queued (system_scheduler s) \<noteq> {} \<or> tenant_waits i s) \<and> session_available_set (hwfq_cfg s)
        then [Session_available] else [], s1)"
      using search Some l(4,5) place free by (simp add: hwfq_complete_def em has_capacity_def s1_def tenant_waits_def None)
    show thesis by (rule completed [OF Some l(1) run s1(1,4)]) (simp_all add: charged_def None s1 l(8,9))
  next
    case t: (Some p)
    obtain b t where p: "p = (b, t)" by (cases p)
    have tn: "tenant_heap s b = Some t" "tenant_id t = i" using t tenant_of_iff [OF hwfq_invD(1) [OF inv]] by (simp_all add: p)
    let ?flow = "if shares (flow_scheduler t) f = None then None else Some f"
    let ?en = "enable_statistics (hwfq_cfg s)"
    have pl: "tenant_and_flow i f s = Some (Some (b, t, ?flow))" using tenant_and_flow_eq [OF inv, of i f] t by (simp add: p)
    have lv: "flow_level_ok (context_heap s) (tenant_id t) (flow_scheduler t)" by (rule tenants_okD [OF hwfq_invD(3) [OF inv] tn(1)])
    obtain t1 t2 t' where t':
      "with_flow_entry ?flow (\<lambda>e. e\<lparr>stats := drop_backlog (stats e)\<rparr>) (t\<lparr>tenant_stats := drop_backlog (tenant_stats t)\<rparr>) = Some t1"
      "?en \<Longrightarrow> with_flow_entry ?flow (\<lambda>fe. fe\<lparr>stats := add_completed (if_work_size e) (stats fe)\<rparr>)
         (t1\<lparr>tenant_stats := add_completed (if_work_size e) (tenant_stats t1)\<rparr>) = Some t2"
      "?en \<Longrightarrow> with_flow_entry ?flow (update_entry_rate_tracking (if_work_size e) now)
         (update_tenant_rate_tracking (if_work_size e) now t2) = Some t'"
      "\<not> ?en \<Longrightarrow> t' = t1" "touched (context_heap s) t' t"
      "t' = (completed_tenant ?en (if_work_size e) now t)\<lparr>flow_scheduler := flow_scheduler t'\<rparr>"
      "flow_slot t' = (\<lambda>j. if ?flow = Some j then map_option (completed_flow ?en (if_work_size e) now) (flow_slot t j) else flow_slot t j)"
      by (rule charge_completed [OF lv, of ?flow ?en "if_work_size e" now], simp split: if_splits, rule that)
    define s2 where "s2 = put_tenant b t' s1"
    have inv2: "hwfq_inv s2 (remove1 a xs)" "pending s2 = pending s"
      using touched_put [OF s1(1), of b t t'] tn(1) t'(5) by (simp_all add: s1 s2_def)
    have s2: "tenant_heap s2 b = Some t'" "system_scheduler s2 = system_scheduler s" "flight s2 = flight s1"
      "context_heap s2 = context_heap s" "hwfq_cfg s2 = hwfq_cfg s" "tenant_heap s2 = (tenant_heap s)(b \<mapsto> t')"
      by (simp_all add: s2_def s1)
    have same: "tenant_key t' = tenant_key t" "queued (flow_scheduler t') = queued (flow_scheduler t)" "tenant_id t' = i"
      using t'(5) tn(2) by (simp_all add: touched_def tenant_key_def)
    have st: "tenant_stats t' = tenant_stats (completed_tenant ?en (if_work_size e) now t)" by (subst t'(6)) simp
    have fe: "group_scheduler_is_empty (flow_scheduler t') \<longleftrightarrow> queued (flow_scheduler t) = {}"
      using flow_empty_iff [OF flow_level_okD(1) [OF touched_level [OF t'(5)]]] same(2) by simp
    have wait: "tenant_waits i s \<longleftrightarrow> queued (flow_scheduler t) \<noteq> {}" by (simp add: tenant_waits_def t p)
    show thesis
    proof (cases "queued (flow_scheduler t) = {}")
      case True
      have run: "hwfq_complete env work i f now s = Some (Inr (),
          if has_capacity s2 \<and> (queued (system_scheduler s) \<noteq> {} \<or> tenant_waits i s) \<and> session_available_set (hwfq_cfg s)
          then [Session_available] else [], s2)"
        using search Some l(4,5) place free pl t'(1-4) e' fe True
        by (cases ?en) (simp_all add: hwfq_complete_def em has_capacity_def s2_def s1_def put_tenant_def wait)
      have ch: "charged ?en (if_work_size e) i f s s2"
        by (rule chargedI [OF t [unfolded p] s2(6) same(1) st refl t'(7)])
      show thesis by (rule completed [OF Some l(1) run inv2 ch]) (use True t p in \<open>simp_all add: s2 s1 l(8,9)\<close>)
    next
      case False
      obtain ret s' t3 where g: "register_tenant_backlog env b s2 = Some (ret, s')" "hwfq_inv s' (remove1 a xs)"
        "pending s' = pending s2" "tenant_heap s' = (tenant_heap s2)(b \<mapsto> t3)" "flow_scheduler t3 = flow_scheduler t'"
        "tenant_key t3 = tenant_key t'" "tenant_stats t3 = tenant_stats t'"
        "context_heap s' = context_heap s2" "flight s' = flight s2" "hwfq_cfg s' = hwfq_cfg s2"
        "has_backlog t3 \<longleftrightarrow> has_backlog t' \<or>
          enqueue_error (env_tenant_session env) (tenant_id t') TENANT_QUANTUM_SIZE (system_scheduler s2) = None"
        by (rule register_ok [OF inv2(1) s2(1)]) (use fresh room in \<open>simp_all add: s2\<close>)
      have H: "tenant_heap s' = (tenant_heap s)(b \<mapsto> t3)" using g(4) s2(6) by simp
      have fs: "flow_slot t3 = flow_slot t'" using g(5) by (simp add: flow_slot_def fun_eq_iff)
      have run: "hwfq_complete env work i f now s = Some (Inr (),
          if has_capacity s' \<and> (queued (system_scheduler s) \<noteq> {} \<or> tenant_waits i s) \<and> session_available_set (hwfq_cfg s)
          then [Session_available] else [], s')"
        using search Some l(4,5) place free pl t'(1-4) e' fe False g(1) g(9,10)
        by (cases ?en) (simp_all add: hwfq_complete_def em has_capacity_def s2_def s1_def put_tenant_def wait flight_after_tenant)
      have ch: "charged ?en (if_work_size e) i f s s'"
        by (rule chargedI [OF t [unfolded p] H _ _ fs t'(7)]) (simp_all add: g(6,7) same(1) st)
      have reg: "has_backlog t3"
        if "enqueue_error (env_tenant_session env) i TENANT_QUANTUM_SIZE (system_scheduler s) = None"
        using that g(11) by (simp add: s2(2) same(3))
      show thesis
        by (rule completed [OF Some l(1) run g(2) _ ch]) (use t p in \<open>auto simp add: g(1-10) reg inv2(2) s2 s1 l(8,9)\<close>)
    qed
  qed
qed

section \<open>Timeouts\<close>

definition ptr :: "addr list \<Rightarrow> addr option" where
  "ptr xs = (if xs = [] then None else Some (hd xs))"

lemma ptr_simps [simp]: "ptr [] = None" "ptr (x # xs) = Some x"
  by (simp_all add: ptr_def)

definition overdue :: "u64 \<Rightarrow> in_flight \<Rightarrow> addr \<Rightarrow> bool" where
  "overdue now fl a \<longleftrightarrow> (\<exists>e. if_entries fl a = Some e \<and> is_timed_out now e)"

lemma is_timed_out_data: "if_data e' = if_data e \<Longrightarrow> is_timed_out now e' = is_timed_out now e"
  by (simp add: is_timed_out_def if_data_def)

lemma overdue_cong:
  assumes "if_info fl' = if_info fl"
  shows "overdue now fl' = overdue now fl"
proof
  fix a
  show "overdue now fl' a = overdue now fl a"
    using fun_cong [OF assms, of a] is_timed_out_data [of "the (if_entries fl' a)" "the (if_entries fl a)" now]
    by (cases "if_entries fl' a"; cases "if_entries fl a") (simp_all add: overdue_def if_info_def)
qed

lemma seq_next:
  assumes "in_flight_seq fl (us @ v # vs)" "if_entries fl v = Some e"
  shows "list_next e = ptr vs"
proof -
  obtain m q where "lseg (if_entries fl) q m (v # vs) None (in_flight_tail fl)"
    using ifl_wfD(3) [OF assms(1) [unfolded in_flight_seq_def]] by (auto simp: lseg_append)
  then have "lseg (if_entries fl) (Some v) (list_next e) vs None (in_flight_tail fl)" using assms(2) by simp
  from lseg_ends [OF this] show ?thesis by (simp add: ptr_def)
qed

lemma seq_head: "in_flight_seq fl xs \<Longrightarrow> in_flight_head fl = ptr xs"
  using lseg_ends [OF ifl_wfD(3)] unfolding in_flight_seq_def ptr_def by blast

lemma seq_defined: "in_flight_seq fl xs \<Longrightarrow> a \<in> set xs \<Longrightarrow> \<exists>e. if_entries fl a = Some e"
  using lseg_defined [OF ifl_wfD(3)] unfolding in_flight_seq_def by blast

text \<open>One overdue entry moves from the sequence to the list of the overdue.\<close>

lemma collect_one:
  assumes fl: "flight_seq fl (us @ v # vs)" and e: "if_entries fl v = Some e"
    and ts: "chain (if_entries fl) (ptr ts) ts None" "set ts \<inter> set (us @ v # vs) = {}"
  obtains fl' fl2 where "take_out v fl = Some fl'" "modify_entry v (\<lambda>e. e\<lparr>hash_next := ptr ts\<rparr>) fl' = Some fl2"
    "flight_seq fl2 (us @ vs)" "chain (if_entries fl2) (Some v) (v # ts) None" "if_info fl2 = if_info fl"
proof -
  note d = flight_seqD(4) [OF fl]
  have r: "remove1 v (us @ v # vs) = us @ vs" using d by (simp add: remove1_append)
  have v: "v \<notin> set (us @ vs)" "v \<notin> set ts" using d ts(2) by auto
  have v_in: "v \<in> set (us @ v # vs)" by simp
  obtain fl' e' where t: "take_out v fl = Some fl'" "if_entries fl' v = Some e'" "if_data e' = if_data e"
    "in_flight_seq fl' (us @ vs)" "in_flight_work_size fl' = flight_work fl (us @ vs)"
    "in_flight_count fl' = of_nat (length (us @ vs))" "if_info fl' = if_info fl"
    "\<forall>c. c \<notin> set (us @ vs) \<longrightarrow> if_entries fl' c = if_entries fl c"
    using take_out_seq [OF fl v_in e] unfolding r by blast
  let ?e = "e'\<lparr>hash_next := ptr ts\<rparr>"
  let ?f = "fl'\<lparr>if_entries := (if_entries fl')(v \<mapsto> ?e)\<rparr>"
  have m: "modify_entry v (\<lambda>e. e\<lparr>hash_next := ptr ts\<rparr>) fl' = Some ?f" by (rule modify_entry_eq [OF t(2)])
  have info: "if_info ?f = if_info fl" using if_info_upd [OF t(2), of ?e] t(7) by simp
  have "in_flight_seq (fl'\<lparr>if_entries := (if_entries fl')(v \<mapsto> ?e), in_flight_work_size := in_flight_work_size fl',
      in_flight_count := in_flight_count fl'\<rparr>) (us @ vs)"
    by (rule seq_heap [OF t(4)]) (use v in auto)
  then have "in_flight_seq ?f (us @ vs)" by simp
  moreover have "flight_work ?f (us @ vs) = flight_work fl (us @ vs)" by (rule flight_work_cong) (simp add: info)
  ultimately have sq: "flight_seq ?f (us @ vs)" using t(5,6) by (simp add: flight_seq_def)
  have "map_option hash_next (if_entries ?f a) = map_option hash_next (if_entries fl a)" if "a \<in> set ts" for a
  proof -
    have "a \<noteq> v" "a \<notin> set (us @ vs)" using that v(2) ts(2) by auto
    then show ?thesis using t(8) by simp
  qed
  then have "chain (if_entries ?f) (ptr ts) ts None" using chain_cong [of ts "if_entries ?f"] ts(1) by blast
  then have "chain (if_entries ?f) (Some v) (v # ts) None" by simp
  then show thesis by (rule that [OF t(1) m sq _ info])
qed

lemma collect_timeouts_eq:
  assumes "flight_seq fl (us @ vs)" "chain (if_entries fl) (ptr ts) ts None" "set ts \<inter> set (us @ vs) = {}"
  shows "\<exists>fl'. collect_timeouts now (ptr vs) (ptr ts) count fl =
      Some (ptr (rev (filter (overdue now fl) vs) @ ts), count + of_nat (length (filter (overdue now fl) vs)), fl') \<and>
    flight_seq fl' (us @ filter (\<lambda>a. \<not> overdue now fl a) vs) \<and> if_info fl' = if_info fl \<and>
    chain (if_entries fl') (ptr (rev (filter (overdue now fl) vs) @ ts)) (rev (filter (overdue now fl) vs) @ ts) None"
  using assms
proof (induction vs arbitrary: us ts count fl)
  case Nil
  then show ?case by (simp add: collect_timeouts.simps)
next
  case (Cons v vs)
  note sq = flight_seqD(1) [OF Cons.prems(1)]
  obtain e where e: "if_entries fl v = Some e" using seq_defined [OF sq] by fastforce
  note nx = seq_next [OF sq e]
  have step: "collect_timeouts now (ptr (v # vs)) (ptr ts) count fl =
      (if is_timed_out now e then do {
         fl \<leftarrow> take_out v fl;
         fl \<leftarrow> modify_entry v (\<lambda>e. e\<lparr>hash_next := ptr ts\<rparr>) fl;
         collect_timeouts now (ptr vs) (Some v) (count + 1) fl
       } else collect_timeouts now (ptr vs) (ptr ts) count fl)"
    by (subst collect_timeouts.simps) (simp add: e nx)
  show ?case
  proof (cases "is_timed_out now e")
    case False
    then have o: "\<not> overdue now fl v" by (simp add: overdue_def e)
    show ?thesis using Cons.IH [of fl "us @ [v]" ts count] Cons.prems step False o by simp
  next
    case True
    then have o: "overdue now fl v" by (simp add: overdue_def e)
    obtain fl' fl2 where c: "take_out v fl = Some fl'" "modify_entry v (\<lambda>e. e\<lparr>hash_next := ptr ts\<rparr>) fl' = Some fl2"
      "flight_seq fl2 (us @ vs)" "chain (if_entries fl2) (Some v) (v # ts) None" "if_info fl2 = if_info fl"
      by (rule collect_one [OF Cons.prems(1) e Cons.prems(2,3)])
    have dj: "set (v # ts) \<inter> set (us @ vs) = {}" using Cons.prems(3) flight_seqD(4) [OF Cons.prems(1)] by auto
    note ih = Cons.IH [OF c(3) _ dj, of "count + 1", unfolded overdue_cong [OF c(5)] c(5), simplified, OF c(4) [simplified]]
    show ?thesis using ih step True o c(1,2) by (simp add: ac_simps)
  qed
qed

definition timeout_event :: "in_flight \<Rightarrow> addr \<Rightarrow> event" where
  "timeout_event fl a = (case the (if_info fl a) of (i, f, w, t, timeout, d) \<Rightarrow> Session_timeout i f d w timeout)"

lemma report_timeouts_eq:
  assumes "chain F (ptr ts) ts None" "distinct ts" "\<And>a. a \<in> set ts \<Longrightarrow> map_option if_data (F a) = if_info fl a"
  shows "report_timeouts report (ptr ts) ev F =
    Some (ev @ (if report then map (timeout_event fl) ts else []), F |` (- set ts))"
  using assms
proof (induction ts arbitrary: ev F)
  case Nil
  then show ?case by (simp add: report_timeouts.simps)
next
  case (Cons a ts)
  obtain e where e: "F a = Some e" "chain F (hash_next e) ts None" using Cons.prems(1) by (auto split: option.splits)
  have nx: "hash_next e = ptr ts" using chain_fun [OF e(2)] e(2) by (cases ts) auto
  have ev: "timeout_event fl a = Session_timeout (if_tenant_id e) (if_flow_id e) (if_user_data e) (if_work_size e) (if_timeout_ns e)"
    using Cons.prems(3) [of a] e(1) by (simp add: timeout_event_def if_data_def [symmetric] flip: Cons.prems(3)) (simp add: if_data_def)
  have a: "a \<notin> set ts" using Cons.prems(2) by simp
  have "map_option hash_next ((F(a := None)) b) = map_option hash_next (F b)" if "b \<in> set ts" for b
    using that a by auto
  then have ch: "chain (F(a := None)) (ptr ts) ts None" using chain_cong [of ts "F(a := None)"] e(2) nx by metis
  have H: "F(a := None) |` (- set ts) = F |` (- set (a # ts))" by (auto simp: restrict_map_def fun_eq_iff)
  have ih: "report_timeouts report (ptr ts) ev' (F(a := None)) =
      Some (ev' @ (if report then map (timeout_event fl) ts else []), F |` (- set (a # ts)))" for ev'
    unfolding H [symmetric] by (rule Cons.IH [OF ch]) (use Cons.prems(2,3) a in auto)
  show ?case by (subst report_timeouts.simps) (simp add: e(1) hwfq_free_def nx ih ev)
qed

lemma flight_free_all:
  assumes fl: "flight_ok fl xs" and f: "flight_seq fl' ys" "if_info fl' = if_info fl" and ys: "set ys = set xs - A"
  shows "flight_ok (fl'\<lparr>if_entries := if_entries fl' |` (- A)\<rparr>) ys"
    "if_info (fl'\<lparr>if_entries := if_entries fl' |` (- A)\<rparr>) = if_info fl |` (- A)"
proof -
  let ?f = "fl'\<lparr>if_entries := if_entries fl' |` (- A)\<rparr>"
  have info: "if_info ?f b = (if_info fl |` (- A)) b" for b
    using fun_cong [OF f(2), of b] by (cases "b \<in> A") (simp_all add: if_info_def)
  then show "if_info ?f = if_info fl |` (- A)" ..
  have "in_flight_seq (fl'\<lparr>if_entries := if_entries fl' |` (- A), in_flight_work_size := in_flight_work_size fl',
      in_flight_count := in_flight_count fl'\<rparr>) ys"
    by (rule seq_heap [OF flight_seqD(1) [OF f(1)]]) (simp add: ys)
  then have "in_flight_seq ?f ys" by simp
  moreover have "flight_work ?f ys = flight_work fl' ys"
    by (rule flight_work_cong) (simp add: info f(2) ys)
  moreover have "dom (if_entries ?f) = set ys"
  proof -
    have "if_entries ?f c \<noteq> None \<longleftrightarrow> c \<in> set ys" for c
    proof -
      have "if_entries ?f c \<noteq> None \<longleftrightarrow> if_info ?f c \<noteq> None" by (simp only: if_info_None)
      also have "\<dots> \<longleftrightarrow> c \<notin> A \<and> if_entries fl c \<noteq> None"
        unfolding info using if_info_None [of fl c] by (cases "c \<in> A") (simp_all del: not_None_eq)
      also have "\<dots> \<longleftrightarrow> c \<in> set ys" using flight_okD(4) [OF fl] ys by auto
      finally show ?thesis .
    qed
    then show ?thesis by (simp only: dom_def Collect_mem_eq)
  qed
  ultimately show "flight_ok ?f ys" using flight_seqD(2,3) [OF f(1)] by (simp add: flight_ok_def)
qed

lemma hwfq_check_timeouts_ok:
  assumes inv: "hwfq_inv s xs" and gone: "gone = filter (overdue now (flight s)) xs"
  obtains s' where "hwfq_check_timeouts now s = Some (of_nat (length gone),
      (if session_timeout_set (hwfq_cfg s) then map (timeout_event (flight s)) (rev gone) else []) @
      (if (0 :: u32) < of_nat (length gone) \<and> has_capacity s' \<and> queued (system_scheduler s) \<noteq> {} \<and>
         session_available_set (hwfq_cfg s) then [Session_available] else []), s')"
    "hwfq_inv s' (filter (\<lambda>a. \<not> overdue now (flight s) a) xs)" "s' = s\<lparr>flight := flight s'\<rparr>"
    "if_info (flight s') = if_info (flight s) |` (- set gone)"
proof -
  note fl = hwfq_invD(4) [OF inv]
  let ?left = "filter (\<lambda>a. \<not> overdue now (flight s) a) xs"
  have sq: "flight_seq (flight s) ([] @ xs)" using fl by (simp add: flight_ok_iff)
  have none: "chain (if_entries (flight s)) (ptr []) [] None" "set [] \<inter> set ([] @ xs) = {}" by simp_all
  obtain fl1 where c: "collect_timeouts now (ptr xs) None 0 (flight s) = Some (ptr (rev gone), of_nat (length gone), fl1)"
    "flight_seq fl1 ?left" "if_info fl1 = if_info (flight s)" "chain (if_entries fl1) (ptr (rev gone)) (rev gone) None"
    using collect_timeouts_eq [OF sq none, of now 0] unfolding gone by (auto simp only: append_Nil append_Nil2 ptr_simps add_0)
  have head: "in_flight_head (flight s) = ptr xs" by (rule seq_head [OF flight_seqD(1)]) (use sq in simp)
  have d: "distinct (rev gone)" using flight_okD(5) [OF fl] by (simp add: gone)
  have "map_option if_data (if_entries fl1 a) = if_info (flight s) a" for a using fun_cong [OF c(3), of a] by (simp add: if_info_def)
  note r = report_timeouts_eq [OF c(4) d this, of "session_timeout_set (hwfq_cfg s)" "[]"]
  have left: "set ?left = set xs - set gone" by (auto simp: gone)
  let ?fl = "fl1\<lparr>if_entries := if_entries fl1 |` (- set gone)\<rparr>"
  note ff = flight_free_all [OF fl c(2,3) left]
  let ?s = "s\<lparr>flight := ?fl\<rparr>"
  have run: "hwfq_check_timeouts now s = Some (of_nat (length gone),
      (if session_timeout_set (hwfq_cfg s) then map (timeout_event (flight s)) (rev gone) else []) @
      (if (0 :: u32) < of_nat (length gone) \<and> has_capacity ?s \<and> queued (system_scheduler s) \<noteq> {} \<and>
         session_available_set (hwfq_cfg s) then [Session_available] else []), ?s)"
    using c(1) head r by (simp add: hwfq_check_timeouts_def has_capacity_def not_empty_iff [OF inv])
  show thesis by (rule that [OF run hwfq_inv_flight [OF inv ff(1)]]) (simp_all add: ff(2))
qed

end
