(* ===== verification/HWFQ_Tenants.thy ===== *)
theory HWFQ_Tenants
  imports HWFQ_Completion
begin

text \<open>
  The calls of \<^verbatim>\<open>src/hwfq_config.c\<close> that create a scheduler and change its tenants and flows: each
  keeps the invariant, and none touches the work that waits or is in flight except the removal of a
  tenant, which hands the contexts still queued to their cleanup functions.
\<close>

section \<open>IDs of a level\<close>

text \<open>An allocation or a release of an ID that is not configured leaves the level as it was.\<close>

lemma level_entries_ok:
  fixes gs :: "('u, 'f) group_scheduler"
  assumes inv: "gs_inv gs" and ce: "ce_inv ce'" "conf_ids ce' = conf_ids (entries gs)"
    and slots: "\<And>j. j \<in> conf_ids (entries gs) \<Longrightarrow> slot_of ce' (unat j) = slot_of (entries gs) (unat j)"
  shows "gs_inv (gs\<lparr>entries := ce'\<rparr>)" "shares (gs\<lparr>entries := ce'\<rparr>) = shares gs"
    "queued (gs\<lparr>entries := ce'\<rparr>) = queued gs" "session_tag (gs\<lparr>entries := ce'\<rparr>) = session_tag gs"
    "booked_without (gs\<lparr>entries := ce'\<rparr>) = booked_without gs"
proof -
  let ?gs = "gs\<lparr>entries := ce'\<rparr>"
  note ei = gs_invD(3) [OF inv]
  have at: "entry_at ce' j = entry_at (entries gs) j" if "j \<in> conf_ids (entries gs)" for j
    using slots [OF that] by (simp add: entry_at_def)
  obtain cl where cl: "conf_chain (entries gs) (configured_entries_head gs) cl" "distinct cl" "set cl = conf_ids (entries gs)"
    using ei unfolding entries_inv_def by blast
  have "conf_chain ce' (configured_entries_head gs) cl = conf_chain (entries gs) (configured_entries_head gs) cl"
    by (rule conf_chain_cong) (simp add: cl(3) slots)
  then have chain: "\<exists>cl. conf_chain ce' (configured_entries_head gs) cl \<and> distinct cl \<and> set cl = conf_ids (entries gs)"
    using cl by blast
  have sums: "(\<Sum>i \<in> conf_ids (entries gs). rate_share (entry_at ce' i)) = (\<Sum>i \<in> conf_ids (entries gs). rate_share (entry_at (entries gs) i))"
    "(\<Sum>i \<in> conf_ids (entries gs). weight_share (entry_at ce' i)) = (\<Sum>i \<in> conf_ids (entries gs). weight_share (entry_at (entries gs) i))"
    using at by simp_all
  have valid: "\<forall>i \<in> conf_ids (entries gs). valid_allocation (allocation (entry_at ce' i)) \<and>
      (case allocation (entry_at ce' i) of Rate r \<Rightarrow> calculated_rate (entry_at ce' i) = r | _ \<Rightarrow> True)"
  proof
    fix i assume i: "i \<in> conf_ids (entries gs)"
    show "valid_allocation (allocation (entry_at ce' i)) \<and>
      (case allocation (entry_at ce' i) of Rate r \<Rightarrow> calculated_rate (entry_at ce' i) = r | _ \<Rightarrow> True)"
      unfolding at [OF i] using ei i unfolding entries_inv_def by blast
  qed
  have ent: "entries_inv ?gs"
  proof -
    have f: "entries ?gs = ce'" "configured_entries_head ?gs = configured_entries_head gs"
      "allocated_rate_capacity ?gs = allocated_rate_capacity gs" "total_weight ?gs = total_weight gs" by simp_all
    show ?thesis unfolding entries_inv_def f ce(2)
    proof (intro conjI)
      show "allocated_rate_capacity gs = (\<Sum>i \<in> conf_ids (entries gs). rate_share (entry_at ce' i))"
        "total_weight gs = (\<Sum>i \<in> conf_ids (entries gs). weight_share (entry_at ce' i))"
        using entries_invD(4,5) [OF ei] sums by simp_all
    qed (rule ce(1), rule chain, rule valid)
  qed
  have frame: "config_frame ?gs gs" by (simp add: config_frame_def)
  show "gs_inv ?gs" by (rule gs_inv_config [OF inv frame ent])
  show sh: "shares ?gs = shares gs"
  proof
    fix j
    show "shares ?gs j = shares gs j"
    proof (cases "j \<in> conf_ids (entries gs)")
      case True
      then show ?thesis by (simp add: shares_def slots)
    next
      case False
      then have "shares gs j = None" "shares ?gs j = None" using rate_share_shares(2) [of j gs] rate_share_shares(2) [of j ?gs] ce(2) by simp_all
      then show ?thesis by simp
    qed
  qed
  show "queued ?gs = queued gs" by (rule config_frame_cal(2) [OF frame])
  show "session_tag ?gs = session_tag gs" by (simp add: session_tag_def fun_eq_iff)
  show "booked_without ?gs = booked_without gs" by (simp add: booked_without_def sh fun_eq_iff)
qed

lemma level_alloc_cases:
  fixes gs :: "('u, 'f) group_scheduler"
  assumes inv: "gs_inv gs"
  obtains (full) ce' where "hwfq_chunked_entries_alloc mem (entries gs) = Some (Inl HWFQ_ERR_NO_MEMORY, ce')"
      "gs_inv (gs\<lparr>entries := ce'\<rparr>)" "shares (gs\<lparr>entries := ce'\<rparr>) = shares gs"
      "queued (gs\<lparr>entries := ce'\<rparr>) = queued gs" "session_tag (gs\<lparr>entries := ce'\<rparr>) = session_tag gs"
      "live_ids ce' = live_ids (entries gs)" "max_entries ce' = max_entries (entries gs)"
      "mem \<noteq> (True, True) \<or> card (live_ids (entries gs)) = min (unat (max_ids (entries gs))) (2 ^ 30)"
    | (fresh) i ce' where "hwfq_chunked_entries_alloc mem (entries gs) = Some (Inr i, ce')"
      "gs_inv (gs\<lparr>entries := ce'\<rparr>)" "shares (gs\<lparr>entries := ce'\<rparr>) = shares gs"
      "queued (gs\<lparr>entries := ce'\<rparr>) = queued gs" "session_tag (gs\<lparr>entries := ce'\<rparr>) = session_tag gs"
      "live_ids ce' = insert i (live_ids (entries gs))" "max_entries ce' = max_entries (entries gs)"
      "i \<notin> live_ids (entries gs)" "i < max_ids (entries gs)" "shares gs i = None"
proof -
  note ce = entries_invD(1) [OF gs_invD(3) [OF inv]]
  note sub = conf_ids_live [OF ce]
  show thesis
  proof (cases rule: hwfq_chunked_entries_alloc_cases [OF ce, of mem, case_names err ok])
    case (err ce')
    note g = grows_inv [OF ce err(2)] and gd = growsD(7) [OF err(2)]
    have same: "slot_of ce' (unat j) = slot_of (entries gs) (unat j)" if j: "j \<in> live_ids (entries gs)" for j
    proof -
      obtain e where "slot_of (entries gs) (unat j) = Some e" by (rule live_slot [OF ce j])
      then show ?thesis using gd [of "unat j"] by auto
    qed
    have c: "conf_ids ce' = conf_ids (entries gs)"
    proof (rule set_eqI)
      fix j
      show "j \<in> conf_ids ce' \<longleftrightarrow> j \<in> conf_ids (entries gs)"
        using gd [of "unat j"] unfolding conf_ids_def
          by (cases "slot_of (entries gs) (unat j)"; cases "slot_of ce' (unat j)") (auto simp: zero_entry_def)
    qed
    have "slot_of ce' (unat j) = slot_of (entries gs) (unat j)" if "j \<in> conf_ids (entries gs)" for j
      by (rule same) (use that sub in blast)
    note l = level_entries_ok [OF inv g(1) c this]
    show thesis by (rule full [OF err(1) l(1-4) g(2) growsD(5) [OF err(2)]]) (unfold live_card [OF ce], (assumption | rule err(3))+)
  next
    case (ok i e ce')
    have c: "conf_ids ce' = conf_ids (entries gs)"
    proof (intro set_eqI iffI)
      fix j assume j: "j \<in> conf_ids ce'"
      then have "j \<in> insert i (live_ids (entries gs))" using conf_ids_live [OF ok(2)] ok(4) by blast
      moreover have "j \<noteq> i" using j ok(5,7) by (auto simp: conf_ids_def)
      ultimately have "j \<in> live_ids (entries gs)" by simp
      from ok(8) [OF this] j show "j \<in> conf_ids (entries gs)" by (simp add: conf_ids_def)
    next
      fix j assume j: "j \<in> conf_ids (entries gs)"
      then have "j \<in> live_ids (entries gs)" using sub by blast
      from ok(8) [OF this] j show "j \<in> conf_ids ce'" by (simp add: conf_ids_def)
    qed
    have same: "slot_of ce' (unat j) = slot_of (entries gs) (unat j)" if "j \<in> conf_ids (entries gs)" for j
      by (rule ok(8)) (use that sub in blast)
    note l = level_entries_ok [OF inv ok(2) c same]
    have "i \<notin> conf_ids (entries gs)" using ok(3) sub by blast
    then have "shares gs i = None" by (rule rate_share_shares(2))
    then show thesis by (intro fresh [OF ok(1) l(1-4) ok(4,10,3,12)]) simp_all
  qed
qed

lemma level_free_ok:
  fixes gs :: "('u, 'f) group_scheduler"
  assumes inv: "gs_inv gs" and i: "i \<in> live_ids (entries gs)" "shares gs i = None"
  obtains ce' where "hwfq_chunked_entries_free i (entries gs) = Some ce'"
    "gs_inv (gs\<lparr>entries := ce'\<rparr>)" "shares (gs\<lparr>entries := ce'\<rparr>) = shares gs"
    "queued (gs\<lparr>entries := ce'\<rparr>) = queued gs" "session_tag (gs\<lparr>entries := ce'\<rparr>) = session_tag gs"
    "live_ids ce' = live_ids (entries gs) - {i}" "max_entries ce' = max_entries (entries gs)"
proof -
  note ce = entries_invD(1) [OF gs_invD(3) [OF inv]]
  obtain e ce' where f: "hwfq_chunked_entries_free i (entries gs) = Some ce'" "slot_of (entries gs) (unat i) = Some e"
    "ce_inv ce'" "live_ids ce' = live_ids (entries gs) - {i}" "max_entries ce' = max_entries (entries gs)"
    "\<And>k. slot_of ce' k = (if k = unat i then Some (e\<lparr>configured := False, entry_id := free_head (entries gs)\<rparr>)
       else slot_of (entries gs) k)"
    by (rule hwfq_chunked_entries_free_live [OF ce i(1)], rule that)
  have ni: "\<not> configured e" using i(2) f(2) by (simp add: shares_def split: if_splits)
  have "conf_ids ce' = conf_ids (entries gs)" using f(2) ni by (auto simp: conf_ids_def f(6))
  moreover have "slot_of ce' (unat j) = slot_of (entries gs) (unat j)" if "j \<in> conf_ids (entries gs)" for j
  proof -
    have "j \<noteq> i" using that f(2) ni by (auto simp: conf_ids_def)
    then show ?thesis by (simp add: f(6))
  qed
  ultimately have l: "gs_inv (gs\<lparr>entries := ce'\<rparr>)" "shares (gs\<lparr>entries := ce'\<rparr>) = shares gs"
    "queued (gs\<lparr>entries := ce'\<rparr>) = queued gs" "session_tag (gs\<lparr>entries := ce'\<rparr>) = session_tag gs"
    using level_entries_ok [OF inv f(3)] by blast+
  show thesis by (rule that [OF f(1) l f(4,5)])
qed

section \<open>Creating a scheduler\<close>

lemma id_zero: "hwfq_chunked_decode 0 = (0, 0)" "hwfq_chunked_encode 0 0 = 0"
  by (simp_all add: hwfq_chunked_decode_def hwfq_chunked_encode_def)

lemma not_ok_unit: "(r :: hwfq_error + unit) \<noteq> Inr () \<Longrightarrow> \<exists>err. r = Inl err"
  by (cases r) auto

lemma first_id: "hwfq_chunked_entries_alloc mem (hwfq_chunked_entries_init n) = Some (Inr i, ce') \<Longrightarrow> i = 0"
  by (auto simp: hwfq_chunked_entries_alloc_def alloc_from_free_list_def hwfq_chunked_entries_init_def bind_Some_iff Let_def id_zero
      split: if_splits option.splits prod.splits sum.splits dest!: not_ok_unit)

lemma init_conf: "conf_ids (hwfq_chunked_entries_init n) = {}" "max_entries (hwfq_chunked_entries_init n) = n"
  using conf_ids_live [OF ce_init_inv(1) [of n]] ce_init_inv(2) [of n] by (auto simp: hwfq_chunked_entries_init_def)

lemma reserve_flow_zero_ok:
  obtains fe where "reserve_flow_zero mem (hwfq_chunked_entries_init n) = Some fe" "ce_inv fe" "conf_ids fe = {}"
    "max_entries fe = n" "mem = (True, True) \<Longrightarrow> n \<noteq> 0 \<Longrightarrow> live_ids fe = {0}"
proof (cases rule: hwfq_chunked_entries_alloc_cases [OF ce_init_inv(1) [of n], of mem, case_names err ok])
  case (err ce')
  note g = grows_inv [OF ce_init_inv(1) err(2)]
  have "conf_ids ce' = {}" using conf_ids_live [OF g(1)] g(2) ce_init_inv(2) [of n] by simp
  moreover have "max_entries ce' = n" using growsD(5) [OF err(2)] init_conf(2) by simp
  moreover have "n = 0 \<or> mem \<noteq> (True, True)"
  proof (cases "n = 0")
    case False
    then have "max_ids (hwfq_chunked_entries_init n) = n" "0 < unat n"
      by (simp_all add: max_ids_def hwfq_chunked_entries_init_def word_neq_0_conv [symmetric] unat_gt_0)
    moreover have "unat (num_configured (hwfq_chunked_entries_init n)) = 0" by (simp add: hwfq_chunked_entries_init_def)
    ultimately show ?thesis using err(3) by (auto simp: min_def split: if_splits)
  qed simp
  ultimately show thesis using g(1) err(1) by (intro that [of ce']) (auto simp: reserve_flow_zero_def)
next
  case (ok i e ce')
  have i: "i = 0" by (rule first_id [OF ok(1)])
  have live: "0 \<in> live_ids ce'" "live_ids ce' = {0}" using ok(4) ce_init_inv(2) [of n] by (simp_all add: i)
  have e: "slot_of ce' (unat (0 :: u32)) = Some e" "\<not> configured e" using ok(5,7) by (simp_all add: i)
  have get: "hwfq_chunked_get ce' 0 = Some (Some 0)"
    using hwfq_chunked_get_eq [OF ce_invD(1) [OF ok(2)], of 0] e by simp
  have load: "entry_load ce' 0 = Some e" using e(1) by (simp only: entry_load_slot)
  let ?fe = "put_slot (unat (0 :: u32)) (e\<lparr>configured := False\<rparr>) ce'"
  have run: "reserve_flow_zero mem (hwfq_chunked_entries_init n) = Some ?fe"
    using ok(1) get load entry_store_put [OF load] by (simp add: reserve_flow_zero_def i)
  have "conf_ids ?fe \<subseteq> {0}" using conf_ids_live [OF ce_put_live(1) [OF ok(2) live(1)]] ce_put_live(2) [OF ok(2) live(1)] live(2) by blast
  moreover have "0 \<notin> conf_ids ?fe" using slot_of_put [of ce' "unat (0 :: u32)"] e(1) by (simp add: conf_ids_def)
  ultimately have "conf_ids ?fe = {}" by blast
  moreover have "max_entries ?fe = n" using ok(10) init_conf(2) by simp
  ultimately show thesis using ce_put_live(1,2) [OF ok(2) live(1)] live(2) by (intro that [OF run]) simp_all
qed

text \<open>The group scheduler of a level is created only when every allocation succeeds.\<close>

lemma level_init_cases:
  assumes "groups \<noteq> 0" "bins \<noteq> 0" "unat groups * unat bins \<le> 32768" and ce: "ce_inv ce" "conf_ids ce = {}"
  obtains (none) "group_scheduler_init_with_entries mem groups bins capacity ids ce = (None :: level option)"
      "ids = 0 \<or> mem \<noteq> (True, True, True)"
    | (some) gs :: level where "group_scheduler_init_with_entries mem groups bins capacity ids ce = Some gs"
      "gs_inv gs" "queued gs = {}" "sessions gs = Map.empty" "shares gs = Map.empty" "entries gs = ce" "virtual_time gs = 0"
      "gs_max_entries gs = ids" "total_capacity gs = capacity" "allocated_rate_capacity gs = 0" "active_session_count gs = 0"
      "ids \<noteq> 0"
proof (cases "ids = 0 \<or> mem \<noteq> (True, True, True)")
  case True
  then have "group_scheduler_init_with_entries mem groups bins capacity ids ce = (None :: level option)"
    by (cases mem) (auto simp: group_scheduler_init_with_entries_def group_scheduler_init_common_def hwfq_alloc_def Let_def)
  then show thesis using True by (rule none)
next
  case False
  then have ids: "ids \<noteq> 0" and mem: "mem = (True, True, True)" by auto
  obtain gs :: level where "group_scheduler_init_with_entries (True, True, True) groups bins capacity ids ce = Some gs"
    "gs_inv gs" "queued gs = {}" "sessions gs = Map.empty" "shares gs = Map.empty" "entries gs = ce"
    "virtual_time gs = 0" "active_session_count gs = 0" "level_config gs = (ids, capacity, groups, bins, 0, 0, None)"
    by (rule init_ok [OF assms(1,2) ids assms(3) ce])
  then show thesis by (intro some [of gs]) (simp_all add: mem level_config_def ids)
qed

definition with_defaults :: "hwfq_config \<Rightarrow> hwfq_config" where
  "with_defaults c =
     c\<lparr>cfg_num_groups := (if cfg_num_groups c = 0 then 16 else cfg_num_groups c),
       cfg_bins_per_group := (if cfg_bins_per_group c = 0 then 2048 else cfg_bins_per_group c)\<rparr>"

text \<open>The calendar's bins fit the two-level bitmap.\<close>

definition cfg_fits :: "hwfq_config \<Rightarrow> bool" where
  "cfg_fits c \<longleftrightarrow> cfg_num_groups c \<noteq> 0 \<and> cfg_bins_per_group c \<noteq> 0 \<and>
     unat (cfg_num_groups c) * unat (cfg_bins_per_group c) \<le> 32768"

lemma hwfq_init_cases:
  assumes "cfg_fits (with_defaults c)"
  obtains (invalid) "cfg_max_tenants c = 0 \<or> cfg_max_flows_per_tenant c = 0 \<or> cfg_total_capacity c = 0"
      "hwfq_init mem (Some c) = Some (Inl HWFQ_ERR_INVALID_ARG)"
    | (no_memory) "mem \<noteq> (True, True, (True, True, True), True)" "hwfq_init mem (Some c) = Some (Inl HWFQ_ERR_NO_MEMORY)"
    | (created) s where "cfg_max_tenants c \<noteq> 0" "cfg_max_flows_per_tenant c \<noteq> 0" "cfg_total_capacity c \<noteq> 0"
      "mem = (True, True, (True, True, True), True)" "hwfq_init mem (Some c) = Some (Inr s)"
      "hwfq_inv s []" "hwfq_cfg s = with_defaults c" "tenant_heap s = Map.empty" "context_heap s = Map.empty"
      "pending s = {}" "num_configured_tenants s = 0" "total_active_flows s = 0"
proof -
  let ?c = "with_defaults c"
  have cfg: "(let c = (if cfg_num_groups c = 0 then c\<lparr>cfg_num_groups := 16\<rparr> else c) in
      if cfg_bins_per_group c = 0 then c\<lparr>cfg_bins_per_group := 2048\<rparr> else c) = ?c"
    by (simp add: with_defaults_def)
  have same: "cfg_max_tenants ?c = cfg_max_tenants c" "cfg_max_flows_per_tenant ?c = cfg_max_flows_per_tenant c"
    "cfg_total_capacity ?c = cfg_total_capacity c" by (simp_all add: with_defaults_def)
  obtain a b l h where mem: "mem = (a, b, l, h)" by (cases mem)
  let ?state = "\<lambda>gs. \<lparr>hwfq_cfg = ?c, tenants = replicate (unat (cfg_max_tenants c)) None,
      num_configured_tenants = 0, total_active_flows = 0, hwfq_allocated_rate_capacity = 0, system_scheduler = gs,
      flight = \<lparr>in_flight_work_size = 0, in_flight_count = 0, in_flight_hash = replicate 1024 None,
        in_flight_head = None, in_flight_tail = None, if_entries = Map.empty\<rparr>,
      tenant_heap = Map.empty, context_heap = Map.empty\<rparr>"
  let ?level = "group_scheduler_init_with_entries l (cfg_num_groups ?c) (cfg_bins_per_group ?c) (cfg_total_capacity c)
      (cfg_max_tenants c) (hwfq_chunked_entries_init (cfg_max_tenants c)) :: level option"
  have run: "hwfq_init mem (Some c) =
      (if cfg_max_tenants c = 0 \<or> cfg_max_flows_per_tenant c = 0 \<or> cfg_total_capacity c = 0
       then Some (Inl HWFQ_ERR_INVALID_ARG)
       else if \<not> a \<or> \<not> b then Some (Inl HWFQ_ERR_NO_MEMORY)
       else (case ?level of
           None \<Rightarrow> Some (Inl HWFQ_ERR_NO_MEMORY)
         | Some gs \<Rightarrow> if \<not> h then do { _ \<leftarrow> group_scheduler_destroy gs; Some (Inl HWFQ_ERR_NO_MEMORY) }
             else Some (Inr (?state gs))))"
    by (cases "cfg_num_groups c = 0"; cases "cfg_bins_per_group c = 0")
      (simp_all add: hwfq_init_def mem with_defaults_def Let_def split: option.split)
  show thesis
  proof (cases "cfg_max_tenants c = 0 \<or> cfg_max_flows_per_tenant c = 0 \<or> cfg_total_capacity c = 0")
    case True
    show thesis by (rule invalid [OF True]) (simp add: run True)
  next
    case nz: False
    show thesis
    proof (cases "a \<and> b")
      case False
      then show thesis using nz run by (intro no_memory) (auto simp: mem)
    next
      case ab: True
      have fits: "cfg_num_groups ?c \<noteq> 0" "cfg_bins_per_group ?c \<noteq> 0"
        "unat (cfg_num_groups ?c) * unat (cfg_bins_per_group ?c) \<le> 32768" using assms by (simp_all add: cfg_fits_def)
      show thesis
      proof (cases rule: level_init_cases [OF fits ce_init_inv(1) init_conf(1), of l "cfg_total_capacity c" "cfg_max_tenants c" "cfg_max_tenants c", case_names none some])
        case none
        then show thesis using nz ab run by (intro no_memory) (auto simp: mem)
      next
        case (some gs)
        note gi = gs_invD [OF some(2)]
        show thesis
        proof (cases h)
          case False
          obtain xs where "group_scheduler_destroy gs = Some (cleanup_calls gs xs, without (queued gs) (sessions gs))"
            by (rule destroy_ok [OF gi(1,2)])
          then show thesis using nz ab run some(1) False by (intro no_memory) (auto simp: mem)
        next
          case True
          have "\<exists>d. l = (d, True, True) \<and> d"
            using some(1) nz by (cases l) (auto simp: group_scheduler_init_with_entries_def group_scheduler_init_common_def hwfq_alloc_def Let_def split: if_splits)
          then have l: "l = (True, True, True)" by auto
          have r: "hwfq_init mem (Some c) = Some (Inr (?state gs))" using nz ab run some(1) True by simp
          have "tables_ok (?state gs)"
            using some nz ce_init_inv(2) [of "cfg_max_tenants c"] by (simp add: tables_ok_def same init_conf(2))
          moreover have "sys_ok Map.empty gs" using some(2,3) by (simp add: sys_ok_def)
          moreover have "flight_ok (flight (?state gs)) []"
            by (simp add: flight_ok_def in_flight_seq_def ifl_wf_def flight_work_def)
          ultimately have inv: "hwfq_inv (?state gs) []" by (simp add: hwfq_inv_def tenants_ok_def)
          show thesis by (rule created [OF _ _ _ _ r inv]) (use nz ab True l in \<open>simp_all add: mem pending_def\<close>)
        qed
      qed
    qed
  qed
qed

section \<open>Adding a tenant\<close>

lemma free_slot_eq:
  "\<forall>i \<in> set is. i < length ts \<Longrightarrow> free_slot is ts = Some (find (\<lambda>i. ts ! i = None) is)"
  by (induction "is") (auto split: option.split)

lemma sys_ok_new:
  assumes ok: "sys_ok T sys" and a: "T a = None" "\<not> has_backlog t"
  shows "sys_ok (T(a \<mapsto> t)) sys"
  unfolding sys_ok_def
proof (intro conjI ballI allI impI)
  fix q assume "q \<in> queued sys"
  from sys_okD(2) [OF ok this] obtain b u where u: "T b = Some u" "has_backlog u" "tenant_session u = Some q"
    "session_tag sys q = Some (tenant_id u, Some b, TENANT_QUANTUM_SIZE, None)" by blast
  then have "b \<noteq> a" using a(1) by auto
  then show "\<exists>b u. (T(a \<mapsto> t)) b = Some u \<and> has_backlog u \<and> tenant_session u = Some q \<and>
      session_tag sys q = Some (tenant_id u, Some b, TENANT_QUANTUM_SIZE, None)"
    using u by (intro exI [of _ b] exI [of _ u]) simp
next
  fix b u assume u: "(T(a \<mapsto> t)) b = Some u" "has_backlog u"
  then have "T b = Some u" using a(2) by (auto split: if_splits)
  from sys_okD(3) [OF ok this u(2)] show "\<exists>q \<in> queued sys. tenant_session u = Some q \<and> payload sys q = Some b" by blast
qed (rule sys_okD(1) [OF ok])

text \<open>A new tenant enters the table, the heap and the entries of the system level together.\<close>

lemma tables_ok_insert:
  assumes tb: "tables_ok s" and a: "tenant_heap s a = None" and i: "i \<notin> live_ids (entries (system_scheduler s))"
      "i < cfg_max_tenants (hwfq_cfg s)"
    and t: "tenant_id t = i" "tenant_configured t"
    and sys: "shares sys' = (shares (system_scheduler s))(i \<mapsto> tenant_allocation t)"
      "live_ids (entries sys') = insert i (live_ids (entries (system_scheduler s)))"
      "gs_max_entries sys' = gs_max_entries (system_scheduler s)"
      "max_entries (entries sys') = max_entries (entries (system_scheduler s))"
      "total_capacity sys' = total_capacity (system_scheduler s)"
    and s': "tenant_heap s' = (tenant_heap s)(a \<mapsto> t)" "tenants s' = (tenants s)[unat i := Some a]" "system_scheduler s' = sys'"
      "hwfq_cfg s' = hwfq_cfg s" "hwfq_allocated_rate_capacity s' = allocated_rate_capacity sys'"
  shows "tables_ok s'"
proof -
  note td = tables_okD [OF tb]
  have len: "unat i < length (tenants s)" using i(2) td(1) by (simp add: word_less_nat_alt)
  have other: "tenant_id u \<noteq> i" if "tenant_heap s b = Some u" for b u using that i(1) td(4) by blast
  show ?thesis
    unfolding tables_ok_def s'
  proof (intro conjI allI impI)
    fix j b assume j: "j < length ((tenants s)[unat i := Some a])"
      "(tenants s)[unat i := Some a] ! j = Some b"
    show "\<exists>u. ((tenant_heap s)(a \<mapsto> t)) b = Some u \<and> unat (tenant_id u) = j"
    proof (cases "j = unat i")
      case True
      then show ?thesis using j t(1) len by simp
    next
      case False
      then have "j < length (tenants s)" "tenants s ! j = Some b" using j by simp_all
      from td(2) [OF this] obtain u where u: "tenant_heap s b = Some u" "unat (tenant_id u) = j" by blast
      then have "b \<noteq> a" using a by auto
      then show ?thesis using u by simp
    qed
  next
    fix b u assume u: "((tenant_heap s)(a \<mapsto> t)) b = Some u"
    have "tenant_configured u \<and> unat (tenant_id u) < length (tenants s) \<and>
        (tenants s)[unat i := Some a] ! unat (tenant_id u) = Some b \<and> shares sys' (tenant_id u) = Some (tenant_allocation u)"
    proof (cases "b = a")
      case True
      then have "u = t" using u by simp
      then show ?thesis using t len True by (simp add: sys(1))
    next
      case False
      then have bu: "tenant_heap s b = Some u" using u by simp
      have "unat (tenant_id u) \<noteq> unat i" using other [OF bu] by simp
      then show ?thesis using td(3) [OF bu] other [OF bu] by (simp add: sys(1))
    qed
    then show "tenant_configured u" "unat (tenant_id u) < length ((tenants s)[unat i := Some a])"
      "(tenants s)[unat i := Some a] ! unat (tenant_id u) = Some b"
      "shares sys' (tenant_id u) = Some (tenant_allocation u)"
      by simp_all
  next
    have "{j. \<exists>b u. ((tenant_heap s)(a \<mapsto> t)) b = Some u \<and> tenant_id u = j} = insert i {j. \<exists>b u. tenant_heap s b = Some u \<and> tenant_id u = j}"
      using a t(1) by (auto split: if_splits) (metis option.distinct(1))
    then show "live_ids (entries sys') =
      {j. \<exists>b u. ((tenant_heap s)(a \<mapsto> t)) b = Some u \<and> tenant_id u = j}"
      using sys(2) td(4) by simp
  qed (simp_all add: td(1,5-8) sys)
qed

fun rate_part :: "hwfq_allocation \<Rightarrow> u64" where
  "rate_part (Rate r) = r"
| "rate_part (Weight w) = 0"
| "rate_part (Invalid_Allocation b) = 0"

lemma rate_part_case: "(case a of Rate r \<Rightarrow> r | _ \<Rightarrow> 0) = rate_part a"
  by (cases a) simp_all

lemma validate_valid: "validate_allocation (Some a) = valid_allocation a" "\<not> validate_allocation None"
  by (cases a) (simp_all add: validate_allocation_def valid_allocation_def)

lemma not_exceeds:
  "\<not> would_exceed_capacity s a None \<Longrightarrow> a = Rate r \<Longrightarrow> hwfq_allocated_rate_capacity s + r \<le> cfg_total_capacity (hwfq_cfg s)"
  by (simp add: would_exceed_capacity_def Let_def not_less)

definition all_memory :: "add_tenant_mem \<Rightarrow> bool" where
  "all_memory mem \<longleftrightarrow> (\<exists>a. mem = (Some a, (True, True), (True, True, True), (True, True)))"

text \<open>When a tenant is refused, and with which error.\<close>

definition add_tenant_refusal :: "hwfq_allocation option \<Rightarrow> hwfq_scheduler \<Rightarrow> hwfq_error option" where
  "add_tenant_refusal alloc s =
     (case alloc of
        None \<Rightarrow> Some HWFQ_ERR_INVALID_ARG
      | Some r \<Rightarrow>
          if \<not> valid_allocation r then Some HWFQ_ERR_INVALID_ARG
          else if \<forall>i < length (tenants s). tenants s ! i \<noteq> None then Some HWFQ_ERR_NO_MEMORY
          else if would_exceed_capacity s r None then Some HWFQ_ERR_OVERBOOKED
          else None)"

lemma free_slot_table:
  assumes "tables_ok s"
  shows "free_slot [0..<unat (cfg_max_tenants (hwfq_cfg s))] (tenants s) =
    Some (find (\<lambda>i. tenants s ! i = None) [0..<length (tenants s)])"
  using free_slot_eq [of "[0..<length (tenants s)]" "tenants s"] tables_okD(1) [OF assms] by simp

lemma find_None_upt: "find P [0..<n] = None \<longleftrightarrow> (\<forall>i < n. \<not> P i)"
  by (auto simp: find_None_iff)

lemma level_empty_ok: "gs_inv fs \<Longrightarrow> queued fs = {} \<Longrightarrow> gs_max_entries fs = max_entries (entries fs) \<Longrightarrow>
    gs_max_entries fs \<noteq> 0 \<Longrightarrow> flow_level_ok C i fs \<and> contexts_of fs = {}"
  by (simp add: flow_level_ok_def contexts_of_def)

lemma live_bound:
  assumes tb: "tables_ok s" and i: "i < length (tenants s)" "tenants s ! i = None"
  shows "card (live_ids (entries (system_scheduler s))) < length (tenants s)"
proof -
  let ?L = "unat ` live_ids (entries (system_scheduler s))"
  have sub: "?L \<subseteq> {..<length (tenants s)} - {i}"
    using tables_okD(3) [OF tb] i(2) unfolding tables_okD(4) [OF tb] by fastforce
  have "card (live_ids (entries (system_scheduler s))) = card ?L" by (rule card_image [symmetric]) (simp add: inj_on_def)
  also have "\<dots> \<le> card ({..<length (tenants s)} - {i})" by (rule card_mono [OF _ sub]) simp
  also have "\<dots> < length (tenants s)" using i(1) by simp
  finally show ?thesis .
qed

lemma hwfq_inv_new_tenant:
  assumes inv: "hwfq_inv s xs" and a: "tenant_heap s a = None" and i: "i \<notin> live_ids (entries (system_scheduler s))"
      "i < cfg_max_tenants (hwfq_cfg s)"
    and t: "tenant_id t = i" "tenant_configured t" "\<not> has_backlog t"
    and lv: "flow_level_ok (context_heap s) i (flow_scheduler t)" "contexts_of (flow_scheduler t) = {}"
    and sys: "shares sys' = (shares (system_scheduler s))(i \<mapsto> tenant_allocation t)"
      "live_ids (entries sys') = insert i (live_ids (entries (system_scheduler s)))"
      "gs_max_entries sys' = gs_max_entries (system_scheduler s)"
      "max_entries (entries sys') = max_entries (entries (system_scheduler s))"
      "total_capacity sys' = total_capacity (system_scheduler s)"
    and queue: "gs_inv sys'" "queued sys' = queued (system_scheduler s)" "session_tag sys' = session_tag (system_scheduler s)"
    and s': "tenant_heap s' = (tenant_heap s)(a \<mapsto> t)" "tenants s' = (tenants s)[unat i := Some a]" "system_scheduler s' = sys'"
      "hwfq_cfg s' = hwfq_cfg s" "hwfq_allocated_rate_capacity s' = allocated_rate_capacity sys'"
      "flight s' = flight s" "context_heap s' = context_heap s"
  shows "hwfq_inv s' xs" "pending s' = pending s"
proof -
  note hi = hwfq_invD [OF inv]
  have "tables_ok s'" by (rule tables_ok_insert [OF hi(1) a i t(1,2) sys s'(1-5)])
  moreover have sys_q: "sys_ok (tenant_heap s) sys'" by (rule sys_ok_frame [OF hi(2) queue(1,2)]) (simp add: queue(3))
  have "sys_ok (tenant_heap s') sys'" unfolding s'(1) using sys_ok_new [OF sys_q a] t(3) by blast
  moreover have "tenants_ok s'" using tenants_okD [OF hi(3)] lv(1) by (simp add: tenants_ok_def s' t)
  ultimately show "hwfq_inv s' xs" using hi(4) by (simp add: hwfq_inv_def s')
  have "\<And>c. c \<in> pending s' \<longleftrightarrow> c \<in> pending s"
    using lv(2) a by (auto simp: pending_def s' split: if_splits) (metis option.distinct(1))
  then show "pending s' = pending s" by blast
qed

lemma tenant_of_fresh: "tables_ok s \<Longrightarrow> i \<notin> live_ids (entries (system_scheduler s)) \<Longrightarrow> tenant_of i s = None"
  using tenant_of_iff [of s i] tables_okD(4) [of s] by (cases "tenant_of i s") auto

lemma hwfq_add_tenant_cases:
  assumes inv: "hwfq_inv s xs" and fits: "cfg_fits (hwfq_cfg s)" and fresh: "\<And>a. fst mem = Some a \<Longrightarrow> tenant_heap s a = None"
  obtains (refused) err where "add_tenant_refusal alloc s = Some err" "hwfq_add_tenant mem alloc s = Some (Inl err, s)"
    | (no_memory) s' where "add_tenant_refusal alloc s = None"
      "\<not> all_memory mem \<or> cfg_max_flows_per_tenant (hwfq_cfg s) = UINT32_MAX \<or> 2 ^ 30 \<le> card (live_ids (entries (system_scheduler s)))"
      "hwfq_add_tenant mem alloc s = Some (Inl HWFQ_ERR_NO_MEMORY, s')"
      "hwfq_inv s' xs" "pending s' = pending s" "s' = s\<lparr>system_scheduler := (system_scheduler s)\<lparr>entries := entries (system_scheduler s')\<rparr>\<rparr>"
    | (added) r i a t s' where "add_tenant_refusal alloc s = None" "alloc = Some r"
      "hwfq_add_tenant mem alloc s = Some (Inr i, s')" "hwfq_inv s' xs" "pending s' = pending s"
      "i < cfg_max_tenants (hwfq_cfg s)" "tenant_of i s = None" "tenant_heap s a = None" "tenant_heap s' = (tenant_heap s)(a \<mapsto> t)"
      "tenant_id t = i" "tenant_allocation t = r" "queued (flow_scheduler t) = {}" "shares (flow_scheduler t) = Map.empty"
      "\<not> has_backlog t" "tenant_stats t = zero_stats" "flight s' = flight s" "context_heap s' = context_heap s"
      "hwfq_cfg s' = hwfq_cfg s" "hwfq_allocated_rate_capacity s' = hwfq_allocated_rate_capacity s + rate_part r"
      "num_configured_tenants s' = num_configured_tenants s + 1"
      "fst (snd mem) = (True, True) \<Longrightarrow> live_ids (entries (flow_scheduler t)) = {0}"
      "total_capacity (flow_scheduler t) = tenant_capacity r s"
proof (cases "add_tenant_refusal alloc s")
  case (Some err)
  note tb = hwfq_invD(1) [OF inv]
  have "hwfq_add_tenant mem alloc s = Some (Inl err, s)"
    using Some free_slot_table [OF tb] find_None_upt [of "\<lambda>i. tenants s ! i = None" "length (tenants s)"]
    by (cases mem; cases alloc) (auto simp: hwfq_add_tenant_def add_tenant_refusal_def validate_valid split: if_splits)
  then show thesis by (rule refused [OF Some])
next
  case None
  note hi = hwfq_invD [OF inv] and td = tables_okD [OF hwfq_invD(1) [OF inv]]
  let ?sys = "system_scheduler s" and ?cfg = "hwfq_cfg s"
  obtain r k where r: "alloc = Some r" "valid_allocation r" "k < length (tenants s)" "tenants s ! k = None" "\<not> would_exceed_capacity s r None"
    using None by (auto simp: add_tenant_refusal_def split: option.splits if_splits)
  obtain m1 m2 m3 m4 where mem: "mem = (m1, m2, m3, m4)" by (cases mem)
  have slot: "\<exists>j. free_slot [0..<unat (cfg_max_tenants ?cfg)] (tenants s) = Some (Some j)"
    using free_slot_table [OF hi(1)] find_None_upt [of "\<lambda>i. tenants s ! i = None" "length (tenants s)"] r(3,4)
    by (cases "find (\<lambda>i. tenants s ! i = None) [0..<length (tenants s)]") auto
  have sys_same: "?sys\<lparr>entries := entries ?sys\<rparr> = ?sys" by simp
  show thesis
  proof (cases m1)
    case m1: None
    have "hwfq_add_tenant mem alloc s = Some (Inl HWFQ_ERR_NO_MEMORY, s)"
      using slot r by (auto simp: hwfq_add_tenant_def mem m1 validate_valid)
    then show thesis by (intro no_memory [OF None _ _ inv]) (simp_all add: all_memory_def mem m1)
  next
    case m1: (Some a)
    have a: "tenant_heap s a = None" using fresh [of a] by (simp add: mem m1)
    let ?n = "cfg_max_flows_per_tenant ?cfg + 1"
    obtain fe where fe: "reserve_flow_zero m2 (hwfq_chunked_entries_init ?n) = Some fe" "ce_inv fe" "conf_ids fe = {}" "max_entries fe = ?n"
      "m2 = (True, True) \<Longrightarrow> ?n \<noteq> 0 \<Longrightarrow> live_ids fe = {0}"
      by (rule reserve_flow_zero_ok, rule that)
    have cf: "cfg_num_groups ?cfg \<noteq> 0" "cfg_bins_per_group ?cfg \<noteq> 0"
      "unat (cfg_num_groups ?cfg) * unat (cfg_bins_per_group ?cfg) \<le> 32768" using fits by (simp_all add: cfg_fits_def)
    show thesis
    proof (cases rule: level_init_cases [OF cf fe(2,3), of m3 "tenant_capacity r s" ?n, case_names none some])
      case none
      have "hwfq_add_tenant mem alloc s = Some (Inl HWFQ_ERR_NO_MEMORY, s)"
        using slot r fe(1) none(1) by (auto simp: hwfq_add_tenant_def mem m1 validate_valid)
      moreover have "\<not> all_memory mem \<or> cfg_max_flows_per_tenant ?cfg = UINT32_MAX"
        using none(2) by (auto simp: all_memory_def mem eq_neg_iff_add_eq_0)
      ultimately show thesis by (intro no_memory [OF None _ _ inv]) auto
    next
      case (some fs)
      note fi = gs_invD [OF some(2)]
      note gi = sys_okD(1) [OF hi(2)]
      show thesis
      proof (cases rule: level_alloc_cases [OF gi, of m4, case_names full fresh])
        case (full te)
        let ?s = "s\<lparr>system_scheduler := ?sys\<lparr>entries := te\<rparr>\<rparr>"
        obtain ys where d: "group_scheduler_destroy fs = Some (cleanup_calls fs ys, without (queued fs) (sessions fs))"
          by (rule destroy_ok [OF fi(1,2)])
        have run: "hwfq_add_tenant mem alloc s = Some (Inl HWFQ_ERR_NO_MEMORY, ?s)"
          using slot r fe(1) some(1) full(1) d by (auto simp: hwfq_add_tenant_def mem m1 validate_valid)
        have "sys_ok (tenant_heap s) (?sys\<lparr>entries := te\<rparr>)" by (rule sys_ok_frame [OF hi(2) full(2,4)]) (simp add: full(5))
        moreover have "level_frame (?sys\<lparr>entries := te\<rparr>) ?sys" using full(3,6,7) by (simp add: level_frame_def level_config_def)
        ultimately have inv': "hwfq_inv ?s xs" by (rule hwfq_inv_system [OF inv])
        have "m4 \<noteq> (True, True) \<or> 2 ^ 30 \<le> card (live_ids (entries ?sys))"
          using full(8) live_bound [OF hi(1) r(3,4)] td(1,6,7) by (auto simp: max_ids_def word_neq_0_conv min_def split: if_splits)
        then show thesis by (intro no_memory [OF None _ run inv']) (auto simp: all_memory_def mem)
      next
        case (fresh i te)
        let ?sys1 = "?sys\<lparr>entries := te\<rparr>"
        have bnd: "i < cfg_max_tenants ?cfg" using fresh(9) td(6,7) by (simp add: max_ids_def word_neq_0_conv)
        have live: "i \<in> live_ids (entries ?sys1)" using fresh(6) by simp
        have booked: "booked_without ?sys1 i = allocated_rate_capacity ?sys" using fresh(3,10) by (simp add: booked_without_def)
        note ci = configure_entry_cases [OF gs_invD(3) [OF fresh(2)] live, of r, case_names invalid over ok]
        show thesis
        proof (cases rule: ci)
          case invalid
          then show thesis using bnd r(2) td(5) by simp
        next
          case (over q)
          then show thesis using not_exceeds [OF r(5) over(3)] td(8,9) booked by simp
        next
          case (ok sys')
          define t where "t = \<lparr>tenant_id = i, tenant_allocation = r, tenant_configured = True, flow_scheduler = fs,
            has_backlog = False, tenant_session = None, tenant_stats = zero_stats, tenant_tracking = zero_tracking\<rparr>"
          define s' where "s' = (put_tenant a t s)\<lparr>system_scheduler := sys', tenants := (tenants s)[unat i := Some a],
            num_configured_tenants := num_configured_tenants s + 1,
            hwfq_allocated_rate_capacity := hwfq_allocated_rate_capacity s + rate_part r\<rparr>"
          have s': "tenant_heap s' = (tenant_heap s)(a \<mapsto> t)" "tenants s' = (tenants s)[unat i := Some a]" "system_scheduler s' = sys'"
            "hwfq_cfg s' = ?cfg" "hwfq_allocated_rate_capacity s' = hwfq_allocated_rate_capacity s + rate_part r"
            "flight s' = flight s" "context_heap s' = context_heap s" "num_configured_tenants s' = num_configured_tenants s + 1"
            by (simp_all add: s'_def)
          have t: "tenant_id t = i" "tenant_allocation t = r" "tenant_configured t" "flow_scheduler t = fs" "\<not> has_backlog t"
            "tenant_stats t = zero_stats" by (simp_all add: t_def)
          have len: "unat i < length (tenants s)" using bnd td(1) by (simp add: word_less_nat_alt)
          have run: "hwfq_add_tenant mem alloc s = Some (Inr i, s')"
            using slot r fe(1) some(1) fresh(1) ok(4) len
            by (auto simp: hwfq_add_tenant_def mem m1 validate_valid rate_part_case s'_def t_def put_tenant_def)
          have "allocated_rate_capacity sys' = allocated_rate_capacity ?sys + rate_part r" using ok(9) booked by (simp add: rate_part_case)
          then have rate: "hwfq_allocated_rate_capacity s' = allocated_rate_capacity sys'" using s'(5) td(9) by simp
          note wr = writesD [OF ok(8)]
          have lv: "flow_level_ok (context_heap s) i (flow_scheduler t)" "contexts_of (flow_scheduler t) = {}"
            using level_empty_ok [OF some(2,3), of "context_heap s" i] some(6,8,12) fe(4) by (simp_all add: t(4))
          have tag: "session_tag sys' = session_tag ?sys"
            using tag_info [OF config_frame_cal(4) [OF ok(7)]] fresh(5) by (simp add: fun_eq_iff)
          have inv': "hwfq_inv s' xs" "pending s' = pending s"
            by (rule hwfq_inv_new_tenant [OF inv a fresh(8) bnd t(1,3,5) lv _ _ _ _ _ gs_inv_config [OF fresh(2) ok(7,5)] _ tag s'(1-4) rate s'(6,7)];
              use ok(6) fresh(3,4,6,7) wr config_frameD(4,10) [OF ok(7)] config_frame_cal(2) [OF ok(7)] in \<open>simp add: t(2)\<close>)+
          show thesis
            by (rule added [OF None r(1) run inv' bnd tenant_of_fresh [OF hi(1) fresh(8)] a s'(1) t(1,2)])
              (use fe(5) some(12) in \<open>simp_all add: mem t some(3,5,6,9) s'\<close>)
        qed
      qed
    qed
  qed
qed

section \<open>Flows\<close>

text \<open>A change of the entries of a tenant's level leaves its queue, hence the work, alone.\<close>

lemma hwfq_inv_level:
  assumes inv: "hwfq_inv s xs" and t: "tenant_heap s a = Some t"
    and fs: "gs_inv fs'" "queued fs' = queued (flow_scheduler t)" "session_tag fs' = session_tag (flow_scheduler t)"
      "gs_max_entries fs' = gs_max_entries (flow_scheduler t)"
      "max_entries (entries fs') = max_entries (entries (flow_scheduler t))"
  shows "hwfq_inv (put_tenant a (t\<lparr>flow_scheduler := fs'\<rparr>) s) xs" "pending (put_tenant a (t\<lparr>flow_scheduler := fs'\<rparr>) s) = pending s"
    "flow_level_ok (context_heap s) (tenant_id t) fs'"
proof -
  note lv = tenants_okD [OF hwfq_invD(3) [OF inv] t]
  show lv': "flow_level_ok (context_heap s) (tenant_id t) fs'"
    by (rule flow_level_ok_sub [OF lv fs(1)]) (simp_all add: fs(2-5))
  show "hwfq_inv (put_tenant a (t\<lparr>flow_scheduler := fs'\<rparr>) s) xs"
    by (rule hwfq_inv_put [OF inv t]) (simp_all add: tenant_key_def backlog_view_def lv')
  have "contexts_of fs' = contexts_of (flow_scheduler t)" by (rule contexts_same [OF fs(2)]) (simp add: fs(3))
  then show "pending (put_tenant a (t\<lparr>flow_scheduler := fs'\<rparr>) s) = pending s" by (intro pending_put_same [OF inv t]) simp
qed

lemma config_frame_tag: "config_frame gs' gs \<Longrightarrow> session_tag gs' = session_tag gs"
  using tag_info [OF config_frame_cal(4)] by blast

text \<open>The tenant that a call with an allocation is about, or the error it answers.\<close>

definition allocation_target ::
  "u32 \<Rightarrow> hwfq_allocation option \<Rightarrow> hwfq_scheduler \<Rightarrow> hwfq_error + hwfq_allocation \<times> addr \<times> tenant_config" where
  "allocation_target i alloc s =
     (case alloc of
        None \<Rightarrow> Inl HWFQ_ERR_INVALID_ARG
      | Some r \<Rightarrow>
          if cfg_max_tenants (hwfq_cfg s) \<le> i \<or> \<not> valid_allocation r then Inl HWFQ_ERR_INVALID_ARG
          else (case tenant_of i s of None \<Rightarrow> Inl HWFQ_ERR_NOT_FOUND | Some (a, t) \<Rightarrow> Inr (r, a, t)))"

lemma allocation_target_Inr:
  assumes "hwfq_inv s xs" "allocation_target i alloc s = Inr (r, a, t)"
  shows "alloc = Some r" "valid_allocation r" "\<not> cfg_max_tenants (hwfq_cfg s) \<le> i" "tenant_of i s = Some (a, t)"
    "tenant_heap s a = Some t" "tenant_id t = i"
    "configured_tenant i s = Some (Inr (a, t))"
  using assms(2) tenant_of_iff [OF hwfq_invD(1) [OF assms(1)], of i a t] configured_tenant_eq [OF hwfq_invD(1) [OF assms(1)], of i]
  by (auto simp: allocation_target_def split: option.splits if_splits)

lemma hwfq_add_flow_cases:
  assumes inv: "hwfq_inv s xs"
  obtains (refused) err where "allocation_target i alloc s = Inl err" "hwfq_add_flow mem i alloc s = Some (Inl err, s)"
    | (full) r a t where "allocation_target i alloc s = Inr (r, a, t)"
      "0 < cfg_max_total_flows (hwfq_cfg s)" "cfg_max_total_flows (hwfq_cfg s) \<le> total_active_flows s"
      "hwfq_add_flow mem i alloc s = Some (Inl HWFQ_ERR_NO_MEMORY, s)"
    | (failed) err r a t fs' where "allocation_target i alloc s = Inr (r, a, t)"
      "err = HWFQ_ERR_NO_MEMORY \<and> (mem \<noteq> (True, True) \<or>
         card (live_ids (entries (flow_scheduler t))) = min (unat (max_ids (entries (flow_scheduler t)))) (2 ^ 30)) \<or>
       err = HWFQ_ERR_OVERBOOKED \<and> (\<exists>q. r = Rate q \<and>
         total_capacity (flow_scheduler t) < allocated_rate_capacity (flow_scheduler t) + q)"
      "hwfq_add_flow mem i alloc s = Some (Inl err, put_tenant a (t\<lparr>flow_scheduler := fs'\<rparr>) s)"
      "hwfq_inv (put_tenant a (t\<lparr>flow_scheduler := fs'\<rparr>) s) xs" "pending (put_tenant a (t\<lparr>flow_scheduler := fs'\<rparr>) s) = pending s"
      "shares fs' = shares (flow_scheduler t)" "live_ids (entries fs') = live_ids (entries (flow_scheduler t))"
    | (added) r a t f fs' where "allocation_target i alloc s = Inr (r, a, t)"
      "hwfq_add_flow mem i alloc s = Some (Inr f,
         (put_tenant a (t\<lparr>flow_scheduler := fs'\<rparr>) s)\<lparr>total_active_flows := total_active_flows s + 1\<rparr>)"
      "hwfq_inv ((put_tenant a (t\<lparr>flow_scheduler := fs'\<rparr>) s)\<lparr>total_active_flows := total_active_flows s + 1\<rparr>) xs"
      "pending ((put_tenant a (t\<lparr>flow_scheduler := fs'\<rparr>) s)\<lparr>total_active_flows := total_active_flows s + 1\<rparr>) = pending s"
      "f \<notin> live_ids (entries (flow_scheduler t))" "shares (flow_scheduler t) f = None"
      "live_ids (entries fs') = insert f (live_ids (entries (flow_scheduler t)))"
      "shares fs' = (shares (flow_scheduler t))(f \<mapsto> r)" "queued fs' = queued (flow_scheduler t)"
proof (cases "allocation_target i alloc s")
  case (Inl err)
  have "hwfq_add_flow mem i alloc s = Some (Inl err, s)"
    using Inl configured_tenant_eq [OF hwfq_invD(1) [OF inv], of i] validate_valid
    by (auto simp: hwfq_add_flow_def allocation_target_def split: option.splits if_splits)
  then show thesis by (rule refused [OF Inl])
next
  case (Inr p)
  obtain r a t where p: "p = (r, a, t)" by (cases p)
  note tg = allocation_target_Inr [OF inv Inr [unfolded p]]
  let ?fs = "flow_scheduler t"
  have lv: "flow_level_ok (context_heap s) (tenant_id t) ?fs" by (rule tenants_okD [OF hwfq_invD(3) [OF inv] tg(5)])
  have frame: "\<And>s n. hwfq_inv s xs \<Longrightarrow> hwfq_inv (s\<lparr>total_active_flows := n\<rparr>) xs"
  proof -
    fix s n assume i: "hwfq_inv s xs"
    have "tables_ok (s\<lparr>total_active_flows := n\<rparr>)" by (rule tables_ok_frame [OF hwfq_invD(1) [OF i]]) simp_all
    then show "hwfq_inv (s\<lparr>total_active_flows := n\<rparr>) xs" using hwfq_invD(2-4) [OF i] by (simp add: hwfq_inv_def tenants_ok_def)
  qed
  show thesis
  proof (cases "0 < cfg_max_total_flows (hwfq_cfg s) \<and> cfg_max_total_flows (hwfq_cfg s) \<le> total_active_flows s")
    case True
    then show thesis using tg validate_valid by (intro full [OF Inr [unfolded p]]) (simp_all add: hwfq_add_flow_def)
  next
    case room: False
    show thesis
    proof (cases rule: level_alloc_cases [OF flow_level_okD(1) [OF lv], of mem, case_names full fresh])
      case (full fe)
      let ?fs' = "?fs\<lparr>entries := fe\<rparr>"
      have "hwfq_add_flow mem i alloc s = Some (Inl HWFQ_ERR_NO_MEMORY, put_tenant a (t\<lparr>flow_scheduler := ?fs'\<rparr>) s)"
        using tg validate_valid room full(1) by (auto simp add: hwfq_add_flow_def)
      then show thesis
        using hwfq_inv_level [OF inv tg(5) full(2,4,5)] full(3,6-8)
        by (intro failed [OF Inr [unfolded p], of HWFQ_ERR_NO_MEMORY ?fs']) simp_all
    next
      case (fresh f fe)
      let ?fs1 = "?fs\<lparr>entries := fe\<rparr>"
      have live: "f \<in> live_ids (entries ?fs1)" using fresh(6) by simp
      have bnd: "f < gs_max_entries ?fs1" using fresh(9) flow_level_okD(2,5) [OF lv] by (simp add: max_ids_def word_neq_0_conv)
      have booked: "booked_without ?fs1 f = allocated_rate_capacity ?fs" using fresh(3,10) by (simp add: booked_without_def)
      show thesis
      proof (cases rule: configure_entry_cases [OF gs_invD(3) [OF fresh(2)] live, of r, case_names invalid over ok])
        case invalid
        then show thesis using bnd tg(2) by simp
      next
        case (over q)
        have none: "shares ?fs1 f = None" using fresh(3,10) by simp
        obtain fe2 where fr: "hwfq_chunked_entries_free f (entries ?fs1) = Some fe2" "gs_inv (?fs1\<lparr>entries := fe2\<rparr>)"
          "shares (?fs1\<lparr>entries := fe2\<rparr>) = shares ?fs1" "queued (?fs1\<lparr>entries := fe2\<rparr>) = queued ?fs1"
          "session_tag (?fs1\<lparr>entries := fe2\<rparr>) = session_tag ?fs1" "live_ids fe2 = live_ids (entries ?fs1) - {f}"
          "max_entries fe2 = max_entries (entries ?fs1)"
          by (rule level_free_ok [OF fresh(2) live none])
        let ?fs' = "?fs\<lparr>entries := fe2\<rparr>"
        have f12: "?fs1\<lparr>entries := fe2\<rparr> = ?fs'" by simp
        have "hwfq_add_flow mem i alloc s = Some (Inl HWFQ_ERR_OVERBOOKED, put_tenant a (t\<lparr>flow_scheduler := ?fs'\<rparr>) s)"
          using tg validate_valid room fresh(1) over(5) fr(1) by (auto simp add: hwfq_add_flow_def)
        moreover have "live_ids fe2 = live_ids (entries ?fs)" using fr(6) fresh(6,8) by auto
        ultimately show thesis
          using hwfq_inv_level [OF inv tg(5), of ?fs'] fr(2-5,7) fresh(3-7) over(3,4) booked
          by (intro failed [OF Inr [unfolded p], of HWFQ_ERR_OVERBOOKED ?fs']) (simp_all add: f12)
      next
        case (ok fs')
        have cf: "gs_inv fs'" "queued fs' = queued ?fs" "session_tag fs' = session_tag ?fs"
          "gs_max_entries fs' = gs_max_entries ?fs" "max_entries (entries fs') = max_entries (entries ?fs)"
          using gs_inv_config [OF fresh(2) ok(7,5)] config_frame_cal(2) [OF ok(7)] config_frame_tag [OF ok(7)]
            config_frameD(4) [OF ok(7)] writesD(5) [OF ok(8)] fresh(4,5,7) by simp_all
        note lvl = hwfq_inv_level [OF inv tg(5) cf]
        have run: "hwfq_add_flow mem i alloc s = Some (Inr f,
            (put_tenant a (t\<lparr>flow_scheduler := fs'\<rparr>) s)\<lparr>total_active_flows := total_active_flows s + 1\<rparr>)"
          using tg validate_valid room fresh(1) ok(4) by (auto simp add: hwfq_add_flow_def)
        show thesis
          by (rule added [OF Inr [unfolded p] run frame [OF lvl(1)]])
            (use lvl(2) fresh ok(6) writesD(2) [OF ok(8)] cf(2) in simp_all)
      qed
    qed
  qed
qed

text \<open>Removing a flow: refused while the flow has backlog, and otherwise its ID and its share are released.\<close>

lemma hwfq_remove_flow_cases:
  assumes inv: "hwfq_inv s xs"
  obtains (range) "cfg_max_tenants (hwfq_cfg s) \<le> i" "hwfq_remove_flow i f s = Some (Inl HWFQ_ERR_INVALID_ARG, s)"
    | (missing) "\<not> cfg_max_tenants (hwfq_cfg s) \<le> i"
      "case tenant_of i s of None \<Rightarrow> True | Some (a, t) \<Rightarrow> shares (flow_scheduler t) f = None"
      "hwfq_remove_flow i f s = Some (Inl HWFQ_ERR_NOT_FOUND, s)"
    | (busy) a t e where "tenant_of i s = Some (a, t)" "shares (flow_scheduler t) f \<noteq> None"
      "slot_of (entries (flow_scheduler t)) (unat f) = Some e" "0 < current_backlog (stats e)"
      "hwfq_remove_flow i f s = Some (Inl HWFQ_ERR_TENANT_HAS_BACKLOG, s)"
    | (removed) a t e fs' s' where "tenant_of i s = Some (a, t)" "shares (flow_scheduler t) f \<noteq> None"
      "slot_of (entries (flow_scheduler t)) (unat f) = Some e" "current_backlog (stats e) = 0"
      "hwfq_remove_flow i f s = Some (Inr (), s')" "hwfq_inv s' xs" "pending s' = pending s"
      "s' = (put_tenant a (t\<lparr>flow_scheduler := fs'\<rparr>) s)\<lparr>total_active_flows :=
         (if total_active_flows s = 0 then 0 else total_active_flows s - 1)\<rparr>"
      "shares fs' = (shares (flow_scheduler t))(f := None)"
      "live_ids (entries fs') = live_ids (entries (flow_scheduler t)) - {f}" "queued fs' = queued (flow_scheduler t)"
proof (cases "cfg_max_tenants (hwfq_cfg s) \<le> i")
  case True
  then show thesis by (intro range) (simp_all add: hwfq_remove_flow_def)
next
  case in_range: False
  note tb = hwfq_invD(1) [OF inv]
  note ct = configured_tenant_eq [OF tb in_range]
  show thesis
  proof (cases "tenant_of i s")
    case None
    then show thesis using ct in_range by (intro missing) (simp_all add: hwfq_remove_flow_def)
  next
    case (Some p)
    obtain a t where p: "p = (a, t)" by (cases p)
    have t: "tenant_of i s = Some (a, t)" "tenant_heap s a = Some t" using Some tenant_of_iff [OF tb] by (simp_all add: p)
    let ?fs = "flow_scheduler t"
    have lv: "flow_level_ok (context_heap s) (tenant_id t) ?fs" by (rule tenants_okD [OF hwfq_invD(3) [OF inv] t(2)])
    note ei = gs_invD(3) [OF flow_level_okD(1) [OF lv]]
    have find: "group_scheduler_find_entry ?fs f = Some (if shares ?fs f = None then None else Some f)" by (rule find_entry_eq [OF ei])
    show thesis
    proof (cases "shares ?fs f = None")
      case True
      then show thesis using ct in_range t find by (intro missing) (simp_all add: hwfq_remove_flow_def)
    next
      case sh: False
      then obtain e where e: "slot_of (entries ?fs) (unat f) = Some e" "configured e"
        by (auto simp: shares_def split: option.splits if_splits)
      have load: "entry_load (entries ?fs) f = Some e" using e(1) by (simp add: entry_load_slot)
      have find': "group_scheduler_find_entry ?fs f = Some (Some f)" using find sh by simp
      show thesis
      proof (cases "0 < current_backlog (stats e)")
        case True
        then show thesis using ct in_range t(1) find' load
          by (intro busy [OF t(1) sh e(1)]) (simp_all add: hwfq_remove_flow_def)
      next
        case False
        have live: "f \<in> live_ids (entries ?fs)" by (rule ce_invD(5) [OF entries_invD(1) [OF ei] e])
        show thesis
        proof (cases rule: remove_entry_cases [OF ei, of f, case_names invalid missing ok])
          case invalid
          have "f < max_ids (entries ?fs)"
            using live ce_invD(2) [OF entries_invD(1) [OF ei]] unfolding live_ids_def by auto
          then show thesis using invalid(1) flow_level_okD(2,5) [OF lv] by (simp add: max_ids_def word_neq_0_conv split: if_splits)
        next
          case missing
          then show thesis using sh by simp
        next
          case (ok sa fs1)
          have inv1: "gs_inv fs1" by (rule gs_inv_config [OF flow_level_okD(1) [OF lv] ok(6,4)])
          have live1: "f \<in> live_ids (entries fs1)" using live writesD(2) [OF ok(7)] by simp
          have none: "shares fs1 f = None" using ok(5) by simp
          obtain fe where fr: "hwfq_chunked_entries_free f (entries fs1) = Some fe" "gs_inv (fs1\<lparr>entries := fe\<rparr>)"
            "shares (fs1\<lparr>entries := fe\<rparr>) = shares fs1" "queued (fs1\<lparr>entries := fe\<rparr>) = queued fs1"
            "session_tag (fs1\<lparr>entries := fe\<rparr>) = session_tag fs1" "live_ids fe = live_ids (entries fs1) - {f}"
            "max_entries fe = max_entries (entries fs1)"
            by (rule level_free_ok [OF inv1 live1 none])
          let ?fs' = "fs1\<lparr>entries := fe\<rparr>"
          have cf: "queued ?fs' = queued ?fs" "session_tag ?fs' = session_tag ?fs" "gs_max_entries ?fs' = gs_max_entries ?fs"
            "max_entries (entries ?fs') = max_entries (entries ?fs)"
            using fr(4,5,7) config_frame_cal(2) [OF ok(6)] config_frame_tag [OF ok(6)] config_frameD(4) [OF ok(6)] writesD(5) [OF ok(7)]
            by simp_all
          note lvl = hwfq_inv_level [OF inv t(2) fr(2) cf]
          let ?s' = "(put_tenant a (t\<lparr>flow_scheduler := ?fs'\<rparr>) s)\<lparr>total_active_flows :=
            (if total_active_flows s = 0 then 0 else total_active_flows s - 1)\<rparr>"
          have run: "hwfq_remove_flow i f s = Some (Inr (), ?s')"
            using ct in_range t(1) find' load False ok(3) fr(1) by (auto simp: hwfq_remove_flow_def word_neq_0_conv)
          have "tables_ok ?s'" by (rule tables_ok_frame [OF hwfq_invD(1) [OF lvl(1)]]) simp_all
          then have inv': "hwfq_inv ?s' xs" using hwfq_invD(2-4) [OF lvl(1)] by (simp add: hwfq_inv_def tenants_ok_def)
          have zero: "current_backlog (stats e) = 0" using False word_neq_0_conv by blast
          show thesis
            by (rule removed [OF t(1) sh e(1) zero run inv' _ refl])
              (use fr(3,6) ok(5) writesD(2) [OF ok(7)] cf(1) lvl(2) in simp_all)
        qed
      qed
    qed
  qed
qed

lemma hwfq_reconfigure_flow_cases:
  assumes inv: "hwfq_inv s xs"
  obtains (refused) err where "f = 0 \<and> alloc \<noteq> None \<and> err = HWFQ_ERR_INVALID_ARG \<or> allocation_target i alloc s = Inl err"
      "hwfq_reconfigure_flow i f alloc s = Some (Inl err, s)"
    | (missing) r a t where "allocation_target i alloc s = Inr (r, a, t)" "shares (flow_scheduler t) f = None"
      "hwfq_reconfigure_flow i f alloc s = Some (Inl HWFQ_ERR_NOT_FOUND, s)"
    | (overbooked) r a t where "allocation_target i alloc s = Inr (Rate r, a, t)"
      "total_capacity (flow_scheduler t) < booked_without (flow_scheduler t) f + r"
      "hwfq_reconfigure_flow i f alloc s = Some (Inl HWFQ_ERR_OVERBOOKED, s)"
    | (changed) r a t fs' where "f \<noteq> 0" "allocation_target i alloc s = Inr (r, a, t)" "shares (flow_scheduler t) f \<noteq> None"
      "hwfq_reconfigure_flow i f alloc s = Some (Inr (), put_tenant a (t\<lparr>flow_scheduler := fs'\<rparr>) s)"
      "hwfq_inv (put_tenant a (t\<lparr>flow_scheduler := fs'\<rparr>) s) xs" "pending (put_tenant a (t\<lparr>flow_scheduler := fs'\<rparr>) s) = pending s"
      "shares fs' = (shares (flow_scheduler t))(f \<mapsto> r)" "queued fs' = queued (flow_scheduler t)"
      "live_ids (entries fs') = live_ids (entries (flow_scheduler t))"
proof (cases "allocation_target i alloc s")
  case (Inl err)
  show thesis
  proof (cases "f = 0 \<and> alloc \<noteq> None")
    case True
    then show thesis by (intro refused [of HWFQ_ERR_INVALID_ARG]) (simp_all add: hwfq_reconfigure_flow_def)
  next
    case False
    have "hwfq_reconfigure_flow i f alloc s = Some (Inl err, s)"
      using Inl False configured_tenant_eq [OF hwfq_invD(1) [OF inv], of i] validate_valid
      by (auto simp: hwfq_reconfigure_flow_def allocation_target_def split: option.splits if_splits)
    then show thesis using Inl by (intro refused [of err]) simp_all
  qed
next
  case (Inr p)
  obtain r a t where p: "p = (r, a, t)" by (cases p)
  note tg = allocation_target_Inr [OF inv Inr [unfolded p]]
  let ?fs = "flow_scheduler t"
  have lv: "flow_level_ok (context_heap s) (tenant_id t) ?fs" by (rule tenants_okD [OF hwfq_invD(3) [OF inv] tg(5)])
  note ei = gs_invD(3) [OF flow_level_okD(1) [OF lv]]
  have find: "group_scheduler_find_entry ?fs f = Some (if shares ?fs f = None then None else Some f)" by (rule find_entry_eq [OF ei])
  show thesis
  proof (cases "f = 0")
    case True
    then show thesis using tg by (intro refused [of HWFQ_ERR_INVALID_ARG]) (simp_all add: hwfq_reconfigure_flow_def)
  next
    case f: False
    show thesis
    proof (cases "shares ?fs f = None")
      case True
      then show thesis using tg f find validate_valid by (intro missing [OF Inr [unfolded p]]) (simp_all add: hwfq_reconfigure_flow_def)
    next
      case sh: False
      have find': "group_scheduler_find_entry ?fs f = Some (Some f)" using find sh by simp
      obtain e where e: "slot_of (entries ?fs) (unat f) = Some e" "configured e"
        using sh by (auto simp: shares_def split: option.splits if_splits)
      have live: "f \<in> live_ids (entries ?fs)" by (rule ce_invD(5) [OF entries_invD(1) [OF ei] e])
      show thesis
      proof (cases rule: configure_entry_cases [OF ei live, of r, case_names invalid over ok])
        case invalid
        have "f < max_ids (entries ?fs)"
          using live ce_invD(2) [OF entries_invD(1) [OF ei]] unfolding live_ids_def by auto
        then have "f < gs_max_entries ?fs" using flow_level_okD(2,5) [OF lv] by (simp add: max_ids_def word_neq_0_conv split: if_splits)
        then show thesis using invalid(1) tg(2) by simp
      next
        case (over q)
        have "hwfq_reconfigure_flow i f alloc s = Some (Inl HWFQ_ERR_OVERBOOKED, s)"
          using tg f find' validate_valid over(5) by (simp add: hwfq_reconfigure_flow_def put_tenant_def fun_upd_idem)
        then show thesis using over(3,4) Inr p by (intro overbooked) simp_all
      next
        case (ok fs')
        have cf: "gs_inv fs'" "queued fs' = queued ?fs" "session_tag fs' = session_tag ?fs"
          "gs_max_entries fs' = gs_max_entries ?fs" "max_entries (entries fs') = max_entries (entries ?fs)"
          using gs_inv_config [OF flow_level_okD(1) [OF lv] ok(7,5)] config_frame_cal(2) [OF ok(7)] config_frame_tag [OF ok(7)]
            config_frameD(4) [OF ok(7)] writesD(5) [OF ok(8)] by simp_all
        note lvl = hwfq_inv_level [OF inv tg(5) cf]
        have run: "hwfq_reconfigure_flow i f alloc s = Some (Inr (), put_tenant a (t\<lparr>flow_scheduler := fs'\<rparr>) s)"
          using tg f find' validate_valid ok(4) by (simp add: hwfq_reconfigure_flow_def)
        show thesis by (rule changed [OF f Inr [unfolded p] sh run lvl(1,2) ok(6) cf(2) writesD(2) [OF ok(8)]])
      qed
    qed
  qed
qed

section \<open>Changing and removing a tenant\<close>

lemma rate_part_booked:
  assumes "shares sys i = Some a"
  shows "booked_without sys i = allocated_rate_capacity sys - rate_part a"
  using assms by (cases a) (simp_all add: booked_without_def)

text \<open>The tenant keeps its place; its allocation and its share of the system level change together.\<close>

lemma tables_ok_reallocate:
  assumes tb: "tables_ok s" and t: "tenant_heap s a = Some t" and t': "t' = t\<lparr>tenant_allocation := r\<rparr>"
    and sys: "shares sys' = (shares (system_scheduler s))(tenant_id t \<mapsto> r)"
      "live_ids (entries sys') = live_ids (entries (system_scheduler s))"
      "gs_max_entries sys' = gs_max_entries (system_scheduler s)"
      "max_entries (entries sys') = max_entries (entries (system_scheduler s))"
      "total_capacity sys' = total_capacity (system_scheduler s)"
    and s': "tenant_heap s' = (tenant_heap s)(a \<mapsto> t')" "tenants s' = tenants s" "system_scheduler s' = sys'"
      "hwfq_cfg s' = hwfq_cfg s" "hwfq_allocated_rate_capacity s' = allocated_rate_capacity sys'"
  shows "tables_ok s'"
proof -
  note td = tables_okD [OF tb]
  have id: "tenant_id t' = tenant_id t" "tenant_configured t' = tenant_configured t" "tenant_allocation t' = r" by (simp_all add: t')
  have fwd: "\<exists>u'. ((tenant_heap s)(a \<mapsto> t')) b = Some u' \<and> tenant_id u' = tenant_id u" if "tenant_heap s b = Some u" for b u
    using that t id by (cases "b = a") simp_all
  have bwd: "\<exists>u. tenant_heap s b = Some u \<and> tenant_id u' = tenant_id u" if "((tenant_heap s)(a \<mapsto> t')) b = Some u'" for b u'
    using that t id by (cases "b = a") simp_all
  show ?thesis
    unfolding tables_ok_def s'
  proof (intro conjI allI impI)
    fix j b assume "j < length (tenants s)" "tenants s ! j = Some b"
    from td(2) [OF this] obtain u where u: "tenant_heap s b = Some u" "unat (tenant_id u) = j" by blast
    from fwd [OF u(1)] obtain u' where "((tenant_heap s)(a \<mapsto> t')) b = Some u'" "tenant_id u' = tenant_id u" by blast
    then show "\<exists>u. ((tenant_heap s)(a \<mapsto> t')) b = Some u \<and> unat (tenant_id u) = j" using u(2) by (intro exI [of _ u']) simp
  next
    fix b u assume u: "((tenant_heap s)(a \<mapsto> t')) b = Some u"
    have "tenant_configured u \<and> unat (tenant_id u) < length (tenants s) \<and> tenants s ! unat (tenant_id u) = Some b \<and>
        shares sys' (tenant_id u) = Some (tenant_allocation u)"
    proof (cases "b = a")
      case True
      then have "u = t'" using u by simp
      then show ?thesis using td(3) [OF t] True by (simp add: id sys(1))
    next
      case False
      then have bu: "tenant_heap s b = Some u" using u by simp
      have "tenant_id u \<noteq> tenant_id t" using tenant_id_unique [OF tb bu t] False by blast
      then show ?thesis using td(3) [OF bu] by (simp add: sys(1))
    qed
    then show "tenant_configured u" "unat (tenant_id u) < length (tenants s)" "tenants s ! unat (tenant_id u) = Some b"
      "shares sys' (tenant_id u) = Some (tenant_allocation u)" by simp_all
  next
    show "live_ids (entries sys') = {j. \<exists>b u. ((tenant_heap s)(a \<mapsto> t')) b = Some u \<and> tenant_id u = j}"
      unfolding sys(2) td(4) using fwd bwd by (intro set_eqI) (simp only: mem_Collect_eq, metis)
  qed (simp_all add: td(1,5-8) sys)
qed

lemma hwfq_configure_tenant_cases:
  assumes inv: "hwfq_inv s xs"
  obtains (refused) err where "allocation_target i alloc s = Inl err" "hwfq_configure_tenant i alloc s = Some (Inl err, s)"
    | (overbooked) r a t where "allocation_target i alloc s = Inr (Rate r, a, t)"
      "cfg_total_capacity (hwfq_cfg s) < hwfq_allocated_rate_capacity s - rate_part (tenant_allocation t) + r"
      "hwfq_configure_tenant i alloc s = Some (Inl HWFQ_ERR_OVERBOOKED, s)"
    | (changed) r a t s' where "allocation_target i alloc s = Inr (r, a, t)"
      "hwfq_configure_tenant i alloc s = Some (Inr (), s')" "hwfq_inv s' xs" "pending s' = pending s"
      "tenant_heap s' = (tenant_heap s)(a \<mapsto> t\<lparr>tenant_allocation := r\<rparr>)"
      "shares (system_scheduler s') = (shares (system_scheduler s))(i \<mapsto> r)"
      "hwfq_allocated_rate_capacity s' = hwfq_allocated_rate_capacity s - rate_part (tenant_allocation t) + rate_part r"
      "flight s' = flight s" "context_heap s' = context_heap s" "hwfq_cfg s' = hwfq_cfg s"
proof (cases "allocation_target i alloc s")
  case (Inl err)
  have "hwfq_configure_tenant i alloc s = Some (Inl err, s)"
    using Inl configured_tenant_eq [OF hwfq_invD(1) [OF inv], of i] validate_valid
    by (auto simp: hwfq_configure_tenant_def allocation_target_def split: option.splits if_splits)
  then show thesis by (rule refused [OF Inl])
next
  case (Inr p)
  obtain r a t where p: "p = (r, a, t)" by (cases p)
  note tg = allocation_target_Inr [OF inv Inr [unfolded p]]
  note hi = hwfq_invD [OF inv] and td = tables_okD [OF hwfq_invD(1) [OF inv]]
  let ?sys = "system_scheduler s" and ?old = "tenant_allocation t"
  have sh: "shares ?sys i = Some ?old" using td(3) [OF tg(5)] tg(6) by simp
  note booked = rate_part_booked [OF sh, folded td(9)]
  have exceed: "would_exceed_capacity s r (Some ?old) \<longleftrightarrow>
      (\<exists>q. r = Rate q \<and> cfg_total_capacity (hwfq_cfg s) < booked_without ?sys i + q)"
    unfolding booked by (cases r; cases ?old) (simp_all add: would_exceed_capacity_def)
  have live: "i \<in> live_ids (entries ?sys)" using tg(5,6) td(4) by blast
  show thesis
  proof (cases "would_exceed_capacity s r (Some ?old)")
    case True
    then obtain q where q: "r = Rate q" "cfg_total_capacity (hwfq_cfg s) < booked_without ?sys i + q" using exceed by blast
    have "hwfq_configure_tenant i alloc s = Some (Inl HWFQ_ERR_OVERBOOKED, s)"
      using tg validate_valid True by (simp add: hwfq_configure_tenant_def)
    then show thesis using Inr p q booked by (intro overbooked) simp_all
  next
    case False
    show thesis
    proof (cases rule: configure_entry_cases [OF gs_invD(3) [OF sys_okD(1) [OF hi(2)]] live, of r, case_names invalid over ok])
      case invalid
      then show thesis using tg(2,3) td(5) by simp
    next
      case (over q)
      then show thesis using False exceed td(8) by simp
    next
      case (ok sys')
      let ?t = "t\<lparr>tenant_allocation := r\<rparr>"
      define s' where "s' = (put_tenant a ?t s)\<lparr>hwfq_allocated_rate_capacity := hwfq_allocated_rate_capacity s - rate_part ?old + rate_part r,
        system_scheduler := sys'\<rparr>"
      have s': "tenant_heap s' = (tenant_heap s)(a \<mapsto> ?t)" "tenants s' = tenants s" "system_scheduler s' = sys'" "hwfq_cfg s' = hwfq_cfg s"
        "hwfq_allocated_rate_capacity s' = hwfq_allocated_rate_capacity s - rate_part ?old + rate_part r"
        "flight s' = flight s" "context_heap s' = context_heap s" by (simp_all add: s'_def)
      have run: "hwfq_configure_tenant i alloc s = Some (Inr (), s')"
        using tg validate_valid False ok(4) by (simp add: hwfq_configure_tenant_def s'_def rate_part_case put_tenant_def)
      have rate: "hwfq_allocated_rate_capacity s' = allocated_rate_capacity sys'"
        using ok(9) booked by (simp add: s'(5) rate_part_case)
      have "tables_ok s'"
        by (rule tables_ok_reallocate [OF hi(1) tg(5) refl _ _ _ _ _ s'(1-4) rate])
          (use ok(6) writesD(2,5) [OF ok(8)] config_frameD(4,10) [OF ok(7)] in \<open>simp_all add: tg(6)\<close>)
      moreover have "sys_ok (tenant_heap s) sys'"
        by (rule sys_ok_frame [OF hi(2) gs_inv_config [OF sys_okD(1) [OF hi(2)] ok(7,5)]])
          (simp_all add: config_frame_cal(2) [OF ok(7)] config_frame_tag [OF ok(7)])
      then have "sys_ok (tenant_heap s') sys'"
        by (rule sys_ok_cong) (use tg(5) in \<open>simp add: s' backlog_view_def\<close>)
      moreover have "tenants_ok s'"
        using tenants_okD [OF hi(3)] tg(5) by (auto simp: tenants_ok_def s')
      ultimately have inv': "hwfq_inv s' xs" using hi(4) by (simp add: hwfq_inv_def s')
      have "pending (put_tenant a ?t s) = pending s" by (rule pending_put_same [OF inv tg(5)]) simp
      then have "pending s' = pending s" by (simp add: pending_def s')
      then show thesis
        by (intro changed [OF Inr [unfolded p] run inv' _ s'(1)]) (simp_all add: s' ok(6))
    qed
  qed
qed

lemma allocated_of_nat: "entries_inv gs \<Longrightarrow> allocated_rate_capacity gs = of_nat (booked_rates gs)"
  using entries_invD(4) by (simp add: booked_rates_def)

lemma allocated_release:
  assumes "entries_inv gs" "entries_inv gs'" "shares gs' = (shares gs)(i := None)" "shares gs i = Some a"
  shows "allocated_rate_capacity gs' = allocated_rate_capacity gs - rate_part a"
proof -
  have eq: "booked_rates gs' + unat (rate_part a) = booked_rates gs"
    using booked_rates_update [OF assms(3)] assms(4) by (cases a) (simp_all add: rate_of_def)
  have "(of_nat (booked_rates gs) :: u64) = of_nat (booked_rates gs') + rate_part a"
  proof -
    have "(of_nat (booked_rates gs) :: u64) = of_nat (booked_rates gs' + unat (rate_part a))" using eq by simp
    then show ?thesis by simp
  qed
  then show ?thesis using allocated_of_nat [OF assms(1)] allocated_of_nat [OF assms(2)] by simp
qed

section \<open>Removing a tenant\<close>

text \<open>What becomes of the contexts a tenant still owns: their user's cleanup function is called.\<close>

definition cleanup_events :: "(addr \<Rightarrow> flow_session_context option) \<Rightarrow> addr list \<Rightarrow> event list" where
  "cleanup_events C cs = concat (map (\<lambda>c. case C c of
     Some ctx \<Rightarrow> (case ctx_cleanup_fn ctx of None \<Rightarrow> [] | Some f \<Rightarrow> [Cleanup f (ctx_user_data ctx)]) | None \<Rightarrow> []) cs)"

lemma run_cleanups_eq:
  assumes "distinct cs" "\<And>c. c \<in> set cs \<Longrightarrow> context_heap s c \<noteq> None"
  shows "run_cleanups (map (\<lambda>c. (Flow_context_cleanup, Some c)) cs) s =
    Some (cleanup_events (context_heap s) cs, s\<lparr>context_heap := context_heap s |` (- set cs)\<rparr>)"
  using assms
proof (induction cs arbitrary: s)
  case Nil
  then show ?case by (simp add: cleanup_events_def)
next
  case (Cons c cs)
  obtain ctx where ctx: "context_heap s c = Some ctx" using Cons.prems(2) [of c] by auto
  let ?s = "s\<lparr>context_heap := (context_heap s)(c := None)\<rparr>"
  have "run_cleanups (map (\<lambda>c. (Flow_context_cleanup, Some c)) cs) ?s =
      Some (cleanup_events (context_heap ?s) cs, ?s\<lparr>context_heap := context_heap ?s |` (- set cs)\<rparr>)"
    by (rule Cons.IH) (use Cons.prems in auto)
  moreover have "cleanup_events (context_heap ?s) cs = cleanup_events (context_heap s) cs"
    unfolding cleanup_events_def using Cons.prems(1) by (intro arg_cong [of _ _ concat] map_cong) auto
  moreover have "(context_heap s)(c := None) |` (- set cs) = context_heap s |` (- set (c # cs))"
    by (auto simp: restrict_map_def fun_eq_iff)
  ultimately show ?case
    by (simp add: flow_context_cleanup_def ctx hwfq_free_def cleanup_events_def split: option.split)
qed

lemma level_cleanup_calls:
  assumes lv: "flow_level_ok C i fs" and xs: "distinct xs" "set xs = queued fs"
  obtains cs where "cleanup_calls fs xs = map (\<lambda>c. (Flow_context_cleanup, Some c)) cs" "distinct cs" "set cs = contexts_of fs"
proof -
  define cs where "cs = map (\<lambda>q. the (payload fs q)) xs"
  have own: "\<exists>c. payload fs q = Some c \<and> (case sessions fs q of
      Some s \<Rightarrow> (case cleanup_fn s of None \<Rightarrow> [] | Some f \<Rightarrow> [(f, user_data s)]) | None \<Rightarrow> []) = [(Flow_context_cleanup, Some c)]"
    if "q \<in> queued fs" for q
    by (rule flow_session_okE [OF flow_level_okD(4) [OF lv that]]) (auto dest!: tag_session)
  have calls: "cleanup_calls fs xs = map (\<lambda>c. (Flow_context_cleanup, Some c)) cs"
  proof -
    have "set ys \<subseteq> queued fs \<Longrightarrow> cleanup_calls fs ys = map (\<lambda>c. (Flow_context_cleanup, Some c)) (map (\<lambda>q. the (payload fs q)) ys)" for ys
    proof (induction ys)
      case Nil
      then show ?case by (simp add: cleanup_calls_def)
    next
      case (Cons q ys)
      then have "q \<in> queued fs" by simp
      from own [OF this] obtain c where "payload fs q = Some c" "(case sessions fs q of
        Some s \<Rightarrow> (case cleanup_fn s of None \<Rightarrow> [] | Some f \<Rightarrow> [(f, user_data s)]) | None \<Rightarrow> []) = [(Flow_context_cleanup, Some c)]" by blast
      then show ?case using Cons by (simp add: cleanup_calls_def)
    qed
    then show ?thesis unfolding cs_def using xs(2) by simp
  qed
  have "distinct cs"
    unfolding cs_def distinct_map
  proof (intro conjI xs(1) inj_onI)
    fix q r assume q: "q \<in> set xs" "r \<in> set xs" "the (payload fs q) = the (payload fs r)"
    then have "payload fs q = payload fs r" using own xs(2) by (metis option.sel)
    then show "q = r" using inj_onD [OF flow_level_okD(3) [OF lv]] q xs(2) by blast
  qed
  moreover have "set cs = contexts_of fs"
    unfolding cs_def contexts_of_def using own xs(2) by (force simp: image_iff)
  ultimately show thesis by (rule that [OF calls])
qed

lemma sys_ok_drop:
  assumes ok: "sys_ok T sys" and a: "T a = Some t" "\<not> has_backlog t"
  shows "sys_ok (T(a := None)) sys"
  unfolding sys_ok_def
proof (intro conjI ballI allI impI)
  fix q assume "q \<in> queued sys"
  from sys_okD(2) [OF ok this] obtain b u where u: "T b = Some u" "has_backlog u" "tenant_session u = Some q"
    "session_tag sys q = Some (tenant_id u, Some b, TENANT_QUANTUM_SIZE, None)" by blast
  then have "b \<noteq> a" using a by auto
  then show "\<exists>b u. (T(a := None)) b = Some u \<and> has_backlog u \<and> tenant_session u = Some q \<and>
      session_tag sys q = Some (tenant_id u, Some b, TENANT_QUANTUM_SIZE, None)"
    using u by (intro exI [of _ b] exI [of _ u]) simp
next
  fix b u assume u: "(T(a := None)) b = Some u" "has_backlog u"
  then have "T b = Some u" by (auto split: if_splits)
  from sys_okD(3) [OF ok this u(2)] show "\<exists>q \<in> queued sys. tenant_session u = Some q \<and> payload sys q = Some b" by blast
qed (rule sys_okD(1) [OF ok])

lemma tables_ok_remove:
  assumes tb: "tables_ok s" and t: "tenant_heap s a = Some t"
    and sys: "shares sys' = (shares (system_scheduler s))(tenant_id t := None)"
      "live_ids (entries sys') = live_ids (entries (system_scheduler s)) - {tenant_id t}"
      "gs_max_entries sys' = gs_max_entries (system_scheduler s)"
      "max_entries (entries sys') = max_entries (entries (system_scheduler s))"
      "total_capacity sys' = total_capacity (system_scheduler s)"
    and s': "tenant_heap s' = (tenant_heap s)(a := None)" "tenants s' = (tenants s)[unat (tenant_id t) := None]"
      "system_scheduler s' = sys'" "hwfq_cfg s' = hwfq_cfg s" "hwfq_allocated_rate_capacity s' = allocated_rate_capacity sys'"
  shows "tables_ok s'"
proof -
  note td = tables_okD [OF tb]
  have other: "tenant_id u \<noteq> tenant_id t" if "tenant_heap s b = Some u" "b \<noteq> a" for b u
    using tenant_id_unique [OF tb that(1) t] that(2) by blast
  show ?thesis
    unfolding tables_ok_def s'
  proof (intro conjI allI impI)
    fix j b assume j: "j < length ((tenants s)[unat (tenant_id t) := None])" "(tenants s)[unat (tenant_id t) := None] ! j = Some b"
    have jn: "j \<noteq> unat (tenant_id t)" using j by auto
    then have jb: "j < length (tenants s)" "tenants s ! j = Some b" using j by simp_all
    from td(2) [OF jb] obtain u where u: "tenant_heap s b = Some u" "unat (tenant_id u) = j" by blast
    have "b \<noteq> a" using u t jn by auto
    then show "\<exists>u. ((tenant_heap s)(a := None)) b = Some u \<and> unat (tenant_id u) = j" using u by simp
  next
    fix b u assume u: "((tenant_heap s)(a := None)) b = Some u"
    then have b: "b \<noteq> a" "tenant_heap s b = Some u" by (auto split: if_splits)
    have "unat (tenant_id u) \<noteq> unat (tenant_id t)" using other [OF b(2,1)] by simp
    then show "tenant_configured u" "unat (tenant_id u) < length ((tenants s)[unat (tenant_id t) := None])"
      "(tenants s)[unat (tenant_id t) := None] ! unat (tenant_id u) = Some b" "shares sys' (tenant_id u) = Some (tenant_allocation u)"
      using td(3) [OF b(2)] other [OF b(2,1)] by (simp_all add: sys(1))
  next
    have "{j. \<exists>b u. ((tenant_heap s)(a := None)) b = Some u \<and> tenant_id u = j} =
        {j. \<exists>b u. tenant_heap s b = Some u \<and> tenant_id u = j} - {tenant_id t}"
    proof (intro set_eqI iffI)
      fix j assume "j \<in> {j. \<exists>b u. ((tenant_heap s)(a := None)) b = Some u \<and> tenant_id u = j}"
      then obtain b u where b: "tenant_heap s b = Some u" "b \<noteq> a" "tenant_id u = j" by (auto split: if_splits)
      then show "j \<in> {j. \<exists>b u. tenant_heap s b = Some u \<and> tenant_id u = j} - {tenant_id t}" using other [OF b(1,2)] by blast
    next
      fix j assume "j \<in> {j. \<exists>b u. tenant_heap s b = Some u \<and> tenant_id u = j} - {tenant_id t}"
      then obtain b u where b: "tenant_heap s b = Some u" "tenant_id u = j" "j \<noteq> tenant_id t" by blast
      then have "b \<noteq> a" using t by auto
      then show "j \<in> {j. \<exists>b u. ((tenant_heap s)(a := None)) b = Some u \<and> tenant_id u = j}"
        using b(1,2) by (intro CollectI exI [of _ b] exI [of _ u]) simp
    qed
    then show "live_ids (entries sys') = {j. \<exists>b u. ((tenant_heap s)(a := None)) b = Some u \<and> tenant_id u = j}"
      unfolding sys(2) td(4) by simp
  qed (simp_all add: td(1,5-8) sys)
qed

lemma hwfq_inv_drop_tenant:
  assumes inv: "hwfq_inv s xs" and t: "tenant_heap s a = Some t" "\<not> has_backlog t"
    and sys: "shares sys' = (shares (system_scheduler s))(tenant_id t := None)"
      "live_ids (entries sys') = live_ids (entries (system_scheduler s)) - {tenant_id t}"
      "gs_max_entries sys' = gs_max_entries (system_scheduler s)"
      "max_entries (entries sys') = max_entries (entries (system_scheduler s))"
      "total_capacity sys' = total_capacity (system_scheduler s)"
    and queue: "gs_inv sys'" "queued sys' = queued (system_scheduler s)" "session_tag sys' = session_tag (system_scheduler s)"
    and s': "tenant_heap s' = (tenant_heap s)(a := None)" "tenants s' = (tenants s)[unat (tenant_id t) := None]"
      "system_scheduler s' = sys'" "hwfq_cfg s' = hwfq_cfg s" "hwfq_allocated_rate_capacity s' = allocated_rate_capacity sys'"
      "flight s' = flight s" "context_heap s' = context_heap s |` (- contexts_of (flow_scheduler t))"
  shows "hwfq_inv s' xs" "pending s' = pending s - contexts_of (flow_scheduler t)"
proof -
  note hi = hwfq_invD [OF inv]
  have "tables_ok s'" by (rule tables_ok_remove [OF hi(1) t(1) sys s'(1-5)])
  moreover have sys_q: "sys_ok (tenant_heap s) sys'" by (rule sys_ok_frame [OF hi(2) queue(1,2)]) (simp add: queue(3))
  have "sys_ok (tenant_heap s') sys'" unfolding s'(1) by (rule sys_ok_drop [OF sys_q t])
  moreover have "flow_level_ok (context_heap s') (tenant_id u) (flow_scheduler u)" if u: "tenant_heap s' b = Some u" for b u
  proof -
    have b: "b \<noteq> a" "tenant_heap s b = Some u" using u by (auto simp: s'(1) split: if_splits)
    show ?thesis
    proof (rule flow_level_ok_cong [OF tenants_okD [OF hi(3) b(2)]])
      fix c assume "c \<in> contexts_of (flow_scheduler u)"
      then have "c \<notin> contexts_of (flow_scheduler t)" by (rule contexts_disjoint [OF inv b(2) t(1) b(1)])
      then show "context_heap s' c = context_heap s c" by (simp add: s'(7))
    qed
  qed
  then have "tenants_ok s'" by (simp add: tenants_ok_def)
  ultimately show "hwfq_inv s' xs" using hi(4) by (simp add: hwfq_inv_def s')
  have "c \<in> pending s' \<longleftrightarrow> c \<in> pending s \<and> c \<notin> contexts_of (flow_scheduler t)" for c
  proof
    assume "c \<in> pending s'"
    then obtain b u where b: "tenant_heap s b = Some u" "b \<noteq> a" "c \<in> contexts_of (flow_scheduler u)"
      by (auto simp: pending_def s'(1) split: if_splits)
    show "c \<in> pending s \<and> c \<notin> contexts_of (flow_scheduler t)"
      using contexts_pending [OF b(1,3)] contexts_disjoint [OF inv b(1) t(1) b(2,3)] by blast
  next
    assume c: "c \<in> pending s \<and> c \<notin> contexts_of (flow_scheduler t)"
    then obtain b u where b: "tenant_heap s b = Some u" "c \<in> contexts_of (flow_scheduler u)" unfolding pending_def by blast
    then have "b \<noteq> a" using c t(1) by auto
    then have "tenant_heap s' b = Some u" using b(1) by (simp add: s'(1))
    then show "c \<in> pending s'" using b(2) by (rule contexts_pending)
  qed
  then show "pending s' = pending s - contexts_of (flow_scheduler t)" by blast
qed

lemma remove_tenant_run:
  assumes lv: "flow_level_ok (context_heap s) (tenant_id t) (flow_scheduler t)" and t: "tenant_heap s a = Some t" "tenant_configured t"
  obtains cs n where "distinct cs" "set cs = contexts_of (flow_scheduler t)"
    "remove_tenant a s = Some (cleanup_events (context_heap s) cs, s\<lparr>total_active_flows := n,
       context_heap := context_heap s |` (- contexts_of (flow_scheduler t)),
       hwfq_allocated_rate_capacity := hwfq_allocated_rate_capacity s - rate_part (tenant_allocation t),
       tenant_heap := (tenant_heap s)(a := None)\<rparr>)"
    "n \<le> total_active_flows s"
proof -
  let ?fs = "flow_scheduler t"
  note gi = gs_invD [OF flow_level_okD(1) [OF lv]]
  obtain ys where ys: "distinct ys" "set ys = queued ?fs"
    "group_scheduler_destroy ?fs = Some (cleanup_calls ?fs ys, without (queued ?fs) (sessions ?fs))"
    by (rule destroy_ok [OF gi(1,2)])
  obtain cs where cs: "cleanup_calls ?fs ys = map (\<lambda>c. (Flow_context_cleanup, Some c)) cs" "distinct cs" "set cs = contexts_of ?fs"
    by (rule level_cleanup_calls [OF lv ys(1,2)])
  define used where "used = hwfq_chunked_entries_count (entries ?fs)"
  define n where "n = (if 0 < used then if used - 1 \<le> total_active_flows s then total_active_flows s - (used - 1) else 0
    else total_active_flows s)"
  let ?s = "s\<lparr>total_active_flows := n\<rparr>"
  have s1: "(if 0 < used then let user_flows = used - 1 in
      s\<lparr>total_active_flows := (if user_flows \<le> total_active_flows s then total_active_flows s - user_flows else 0)\<rparr> else s) = ?s"
    by (simp add: n_def Let_def)
  have owned: "context_heap ?s c \<noteq> None" if "c \<in> set cs" for c
    using contexts_present [OF lv] that unfolding cs(3) by fastforce
  have run: "run_cleanups (map (\<lambda>c. (Flow_context_cleanup, Some c)) cs) ?s =
      Some (cleanup_events (context_heap ?s) cs, ?s\<lparr>context_heap := context_heap ?s |` (- set cs)\<rparr>)"
    by (rule run_cleanups_eq [OF cs(2) owned])
  have "n \<le> total_active_flows s" by (auto simp: n_def intro: word_sub_le)
  moreover have "remove_tenant a s = Some (cleanup_events (context_heap s) cs, s\<lparr>total_active_flows := n,
       context_heap := context_heap s |` (- contexts_of ?fs),
       hwfq_allocated_rate_capacity := hwfq_allocated_rate_capacity s - rate_part (tenant_allocation t),
       tenant_heap := (tenant_heap s)(a := None)\<rparr>)"
    using t ys(3) run cs(1,3)
    by (cases "tenant_allocation t") (simp_all add: remove_tenant_def used_def [symmetric] s1 hwfq_free_def)
  ultimately show thesis by (intro that [OF cs(2,3)])
qed

lemma hwfq_remove_tenant_cases:
  assumes inv: "hwfq_inv s xs"
  obtains (range) "cfg_max_tenants (hwfq_cfg s) \<le> i" "hwfq_remove_tenant i s = Some (Inl HWFQ_ERR_INVALID_ARG, [], s)"
    | (missing) "\<not> cfg_max_tenants (hwfq_cfg s) \<le> i" "tenant_of i s = None"
      "hwfq_remove_tenant i s = Some (Inl HWFQ_ERR_NOT_FOUND, [], s)"
    | (busy) a t where "tenant_of i s = Some (a, t)" "has_backlog t"
      "hwfq_remove_tenant i s = Some (Inl HWFQ_ERR_TENANT_HAS_BACKLOG, [], s)"
    | (removed) a t cs s' where "tenant_of i s = Some (a, t)" "\<not> has_backlog t" "distinct cs" "set cs = contexts_of (flow_scheduler t)"
      "hwfq_remove_tenant i s = Some (Inr (), cleanup_events (context_heap s) cs, s')"
      "hwfq_inv s' xs" "pending s' = pending s - set cs" "context_heap s' = context_heap s |` (- set cs)"
      "tenant_heap s' = (tenant_heap s)(a := None)" "shares (system_scheduler s') = (shares (system_scheduler s))(i := None)"
      "hwfq_allocated_rate_capacity s' = hwfq_allocated_rate_capacity s - rate_part (tenant_allocation t)"
      "num_configured_tenants s' = num_configured_tenants s - 1" "flight s' = flight s" "hwfq_cfg s' = hwfq_cfg s"
proof (cases "cfg_max_tenants (hwfq_cfg s) \<le> i")
  case True
  then show thesis by (intro range) (simp_all add: hwfq_remove_tenant_def)
next
  case in_range: False
  note hi = hwfq_invD [OF inv] and td = tables_okD [OF hwfq_invD(1) [OF inv]]
  note ct = configured_tenant_eq [OF hi(1) in_range]
  let ?sys = "system_scheduler s"
  show thesis
  proof (cases "tenant_of i s")
    case None
    then show thesis using ct in_range by (intro missing) (simp_all add: hwfq_remove_tenant_def)
  next
    case (Some p)
    obtain a t where p: "p = (a, t)" by (cases p)
    have t: "tenant_of i s = Some (a, t)" "tenant_heap s a = Some t" "tenant_id t = i"
      using Some tenant_of_iff [OF hi(1), of i a t] by (simp_all add: p)
    show thesis
    proof (cases "has_backlog t")
      case True
      then show thesis using ct in_range t by (intro busy [OF t(1)]) (simp_all add: hwfq_remove_tenant_def)
    next
      case idle: False
      have tc: "tenant_configured t" "shares ?sys i = Some (tenant_allocation t)" using td(3) [OF t(2)] t(3) by simp_all
      note gi = sys_okD(1) [OF hi(2)]
      show thesis
      proof (cases rule: remove_entry_cases [OF gs_invD(3) [OF gi], of i, case_names invalid missing ok])
        case invalid
        then show thesis using in_range td(5) by simp
      next
        case missing
        then show thesis using tc(2) by simp
      next
        case (ok sa sys1)
        have inv1: "gs_inv sys1" by (rule gs_inv_config [OF gi ok(6,4)])
        have live1: "i \<in> live_ids (entries sys1)" using t(2,3) td(4) writesD(2) [OF ok(7)] by auto
        have none: "shares sys1 i = None" using ok(5) by simp
        obtain te where fr: "hwfq_chunked_entries_free i (entries sys1) = Some te" "gs_inv (sys1\<lparr>entries := te\<rparr>)"
          "shares (sys1\<lparr>entries := te\<rparr>) = shares sys1" "queued (sys1\<lparr>entries := te\<rparr>) = queued sys1"
          "session_tag (sys1\<lparr>entries := te\<rparr>) = session_tag sys1" "live_ids te = live_ids (entries sys1) - {i}"
          "max_entries te = max_entries (entries sys1)"
          by (rule level_free_ok [OF inv1 live1 none])
        let ?sys' = "sys1\<lparr>entries := te\<rparr>"
        define s1 where "s1 = s\<lparr>system_scheduler := ?sys'\<rparr>"
        have s1: "context_heap s1 = context_heap s" "tenant_heap s1 = tenant_heap s" by (simp_all add: s1_def)
        have lv1: "flow_level_ok (context_heap s1) (tenant_id t) (flow_scheduler t)" using tenants_okD [OF hi(3) t(2)] by (simp add: s1)
        have t1: "tenant_heap s1 a = Some t" using t(2) by (simp add: s1)
        obtain cs n where rm: "distinct cs" "set cs = contexts_of (flow_scheduler t)"
          "remove_tenant a s1 = Some (cleanup_events (context_heap s1) cs, s1\<lparr>total_active_flows := n,
             context_heap := context_heap s1 |` (- contexts_of (flow_scheduler t)),
             hwfq_allocated_rate_capacity := hwfq_allocated_rate_capacity s1 - rate_part (tenant_allocation t),
             tenant_heap := (tenant_heap s1)(a := None)\<rparr>)"
          by (rule remove_tenant_run [OF lv1 t1 tc(1)])
        define s' where "s' = s1\<lparr>total_active_flows := n, context_heap := context_heap s1 |` (- contexts_of (flow_scheduler t)),
          hwfq_allocated_rate_capacity := hwfq_allocated_rate_capacity s1 - rate_part (tenant_allocation t),
          tenant_heap := (tenant_heap s1)(a := None), tenants := (tenants s)[unat i := None],
          num_configured_tenants := num_configured_tenants s - 1\<rparr>"
        have s': "tenant_heap s' = (tenant_heap s)(a := None)" "tenants s' = (tenants s)[unat (tenant_id t) := None]"
          "system_scheduler s' = ?sys'" "hwfq_cfg s' = hwfq_cfg s" "flight s' = flight s"
          "context_heap s' = context_heap s |` (- contexts_of (flow_scheduler t))"
          "hwfq_allocated_rate_capacity s' = hwfq_allocated_rate_capacity s - rate_part (tenant_allocation t)"
          "num_configured_tenants s' = num_configured_tenants s - 1" by (simp_all add: s'_def s1_def t(3))
        have rate: "hwfq_allocated_rate_capacity s' = allocated_rate_capacity ?sys'"
          using allocated_release [OF gs_invD(3) [OF gi] ok(4,5) tc(2)] td(9) s'(7) by simp
        have len: "unat i < length (tenants s)" using in_range td(1) by (simp add: word_le_nat_alt)
        have run: "hwfq_remove_tenant i s = Some (Inr (), cleanup_events (context_heap s) cs, s')"
          using ct in_range t(1) idle ok(3) fr(1) rm(3) len
          by (simp add: hwfq_remove_tenant_def s1_def [symmetric] s'_def s1(1)) (simp add: s1_def)
        have inv': "hwfq_inv s' xs" "pending s' = pending s - contexts_of (flow_scheduler t)"
          by (rule hwfq_inv_drop_tenant [OF inv t(2) idle _ _ _ _ _ fr(2) _ _ s'(1-4) rate s'(5,6)];
            use ok(5) fr(3-7) writesD(2,5) [OF ok(7)] config_frameD(4,10) [OF ok(6)] config_frame_cal(2) [OF ok(6)]
              config_frame_tag [OF ok(6)] in \<open>simp add: t(3)\<close>)+
        show thesis
          by (rule removed [OF t(1) idle rm(1,2) run inv'(1)]) (simp_all add: inv'(2) rm(2) s' ok(5) fr(3))
      qed
    qed
  qed
qed

end
