(* ===== verification/HWFQ_Statistics.thy ===== *)
theory HWFQ_Statistics
  imports HWFQ_Tenants
begin

text \<open>
  Reading the statistics, resetting them and destroying a scheduler (\<^verbatim>\<open>src/hwfq_config.c\<close>): what the
  getters answer, and the two calls that walk over everything a scheduler holds.
\<close>

section \<open>Reading\<close>

lemma hwfq_get_tenant_stats_eq:
  assumes inv: "hwfq_inv s xs"
  shows "hwfq_get_tenant_stats i s = Some (if cfg_max_tenants (hwfq_cfg s) \<le> i then Inl HWFQ_ERR_INVALID_ARG
    else case tenant_of i s of None \<Rightarrow> Inl HWFQ_ERR_NOT_FOUND | Some (a, t) \<Rightarrow> Inr (tenant_stats t))"
proof (cases "cfg_max_tenants (hwfq_cfg s) \<le> i")
  case True
  then show ?thesis by (simp add: hwfq_get_tenant_stats_def)
next
  case False
  note tb = hwfq_invD(1) [OF inv]
  show ?thesis
  proof (cases rule: configured_tenant_cases [OF tb False, case_names none some])
    case none
    then show ?thesis using False configured_tenant_eq [OF tb False] by (simp add: hwfq_get_tenant_stats_def split: option.splits)
  next
    case (some a t)
    then have "tenant_of i s = Some (a, t)" using tenant_of_iff [OF tb] by blast
    then show ?thesis using False some(2,5) by (simp add: hwfq_get_tenant_stats_def)
  qed
qed

lemma hwfq_get_flow_stats_eq:
  assumes inv: "hwfq_inv s xs"
  shows "hwfq_get_flow_stats i f s = Some (if cfg_max_tenants (hwfq_cfg s) \<le> i then Inl HWFQ_ERR_INVALID_ARG
    else case tenant_of i s of None \<Rightarrow> Inl HWFQ_ERR_NOT_FOUND
      | Some (a, t) \<Rightarrow> (case shares (flow_scheduler t) f of None \<Rightarrow> Inl HWFQ_ERR_NOT_FOUND
          | Some r \<Rightarrow> Inr (stats (entry_at (entries (flow_scheduler t)) f))))"
proof (cases "cfg_max_tenants (hwfq_cfg s) \<le> i")
  case True
  then show ?thesis by (simp add: hwfq_get_flow_stats_def)
next
  case False
  note tb = hwfq_invD(1) [OF inv]
  show ?thesis
  proof (cases "tenant_of i s")
    case None
    then show ?thesis using False configured_tenant_eq [OF tb False] by (simp add: hwfq_get_flow_stats_def)
  next
    case (Some p)
    obtain a t where p: "p = (a, t)" by (cases p)
    then have t: "tenant_heap s a = Some t" using Some tenant_of_iff [OF tb, of i a t] by simp
    note find = find_entry_eq [OF gs_invD(3) [OF flow_level_okD(1) [OF tenants_okD [OF hwfq_invD(3) [OF inv] t]]], of f]
    show ?thesis
    proof (cases "shares (flow_scheduler t) f")
      case None
      then show ?thesis using False Some p configured_tenant_eq [OF tb False] find by (simp add: hwfq_get_flow_stats_def)
    next
      case sh: (Some r)
      then obtain e where "slot_of (entries (flow_scheduler t)) (unat f) = Some e" by (auto simp: shares_def split: option.splits)
      then show ?thesis
        using False Some p sh configured_tenant_eq [OF tb False] find
        by (simp add: hwfq_get_flow_stats_def entry_load_slot entry_at_def)
    qed
  qed
qed

section \<open>Resetting the entries of a level\<close>

lemma foldM_upt_map:
  assumes step: "\<And>i xs. i < length xs \<Longrightarrow> f i xs = Some (xs[i := g (xs ! i)])" and n: "n \<le> length xs"
  shows "foldM f [0..<n] xs = Some (map g (take n xs) @ drop n xs)"
  using n
proof (induction n)
  case 0
  then show ?case by simp
next
  case (Suc n)
  then have "foldM f [0..<n] xs = Some (map g (take n xs) @ drop n xs)" by simp
  moreover have "(map g (take n xs) @ drop n xs)[n := g ((map g (take n xs) @ drop n xs) ! n)] =
      map g (take (Suc n) xs) @ drop (Suc n) xs"
    using Suc.prems by (simp add: list_update_append nth_append Cons_nth_drop_Suc [symmetric] take_Suc_conv_app_nth)
  ultimately show ?case using Suc.prems step [of n "map g (take n xs) @ drop n xs"] by (simp add: foldM_append)
qed

lemma reset_idle: "\<not> configured e \<Longrightarrow> reset_flow_stats e = e"
  by (simp add: reset_flow_stats_def)

lemma reset_same: "same_shares (reset_flow_stats e) e" "configured (reset_flow_stats e) = configured e"
  by (simp_all add: reset_flow_stats_def same_shares_refl)

lemma reset_chunk_eq:
  assumes "length es = 1024"
  shows "reset_chunk es = Some (map reset_flow_stats es)"
proof -
  have "(\<lambda>i es. arr_get es i \<bind> (\<lambda>e. if configured e then arr_set es i (reset_flow_stats e) else Some es)) i xs =
      Some (xs[i := reset_flow_stats (xs ! i)])" if "i < length xs" for i xs
    using that by (simp add: reset_idle list_update_same_conv [THEN iffD2])
  from foldM_upt_map [OF this, of 1024 es] show ?thesis using assms by (simp add: reset_chunk_def)
qed

text \<open>The same function on every slot.\<close>

definition map_slots :: "(entry_config \<Rightarrow> entry_config) \<Rightarrow> chunked_entries \<Rightarrow> chunked_entries" where
  "map_slots f ce = ce\<lparr>chunks := map (map_option (map f)) (chunks ce)\<rparr>"

lemma slot_of_map: "slot_of (map_slots f ce) k = map_option f (slot_of ce k)"
proof (cases "k div 1024 < length (chunks ce)")
  case True
  then show ?thesis
    by (cases "chunks ce ! (k div 1024)") (simp_all add: slot_of_def map_slots_def arr_get_def)
next
  case False
  then show ?thesis by (simp add: slot_of_def map_slots_def)
qed

lemma map_slots_writes:
  assumes inv: "ce_inv ce" and f: "\<And>e. \<not> configured e \<Longrightarrow> f e = e" "\<And>e. configured (f e) = configured e"
  shows "writes ce (map_slots f ce)"
proof -
  let ?ce = "map_slots f ce"
  have fields: "num_chunks ?ce = num_chunks ce" "num_allocated ?ce = num_allocated ce" "num_configured ?ce = num_configured ce"
    "free_head ?ce = free_head ce" "max_entries ?ce = max_entries ce" "max_ids ?ce = max_ids ce"
    by (simp_all add: map_slots_def max_ids_def)
  obtain fl where fl: "free_chain ce (free_head ce) fl" "distinct fl" "set fl \<subseteq> {i. i < num_allocated ce}" "free_ids ce = set fl"
      "length fl + unat (num_configured ce) = unat (num_allocated ce)"
    using ce_invE [OF inv] .
  have same: "slot_of ?ce (unat i) = slot_of ce (unat i)" if i: "i \<in> set fl" for i
  proof (cases "slot_of ce (unat i)")
    case (Some e)
    have "i \<notin> live_ids ce" using i fl(4) by (simp add: live_ids_def)
    then have "\<not> configured e" using ce_invD(5) [OF inv Some] by blast
    then show ?thesis by (simp add: slot_of_map Some f(1))
  qed (simp add: slot_of_map)
  have "free_chain ?ce (free_head ce) fl = free_chain ce (free_head ce) fl" by (rule free_chain_cong) (rule same)
  then have chain: "free_chain ?ce (free_head ?ce) fl" using fl(1) fields(4) by simp
  have live: "live_ids ?ce = live_ids ce" using free_ids_chain [OF chain] fl(4) by (simp add: live_ids_def fields)
  have "ce_shape ?ce"
    using ce_invD(1) [OF inv] by (auto simp: ce_shape_def map_slots_def dest!: sym [of "Some _" "map_option _ _"])
  moreover have "i \<in> live_ids ce" if "slot_of ?ce (unat i) = Some e" "configured e" for i e
    using that ce_invD(5) [OF inv, of i] by (auto simp: slot_of_map f(2))
  moreover have "\<exists>fl. free_chain ?ce (free_head ?ce) fl \<and> distinct fl \<and> set fl \<subseteq> {i. i < num_allocated ?ce} \<and>
      length fl + unat (num_configured ?ce) = unat (num_allocated ?ce)"
    using chain fl(2,3,5) by (auto simp: fields)
  moreover have "slot_of ?ce k \<noteq> None" if "k < unat (num_allocated ce)" for k
    using ce_invD(4) [OF inv that] by (simp add: slot_of_map)
  ultimately have "ce_inv ?ce" unfolding ce_inv_def live fields using ce_invD(2,3) [OF inv] by blast
  then show ?thesis by (simp add: writes_def live fields slot_of_map)
qed

lemma reset_all_eq:
  assumes ce: "ce_shape (entries (flow_scheduler t))"
  shows "reset_all_flow_stats t = Some (t\<lparr>flow_scheduler := (flow_scheduler t)
    \<lparr>entries := map_slots reset_flow_stats (entries (flow_scheduler t))\<rparr>\<rparr>)"
proof -
  let ?ce = "entries (flow_scheduler t)"
  let ?step = "\<lambda>c cs. do {
         chunk \<leftarrow> arr_get cs c;
         case chunk of None \<Rightarrow> Some cs | Some es \<Rightarrow> do { es \<leftarrow> reset_chunk es; arr_set cs c (Some es) }
       }"
  have n: "unat (num_chunks ?ce) = length (chunks ?ce)" using ce by (simp add: ce_shape_def)
  have "foldM ?step [0..<k] (chunks ?ce) = Some (map (map_option (map reset_flow_stats)) (take k (chunks ?ce)) @ drop k (chunks ?ce))"
    if "k \<le> length (chunks ?ce)" for k
    using that
  proof (induction k)
    case 0
    then show ?case by simp
  next
    case (Suc k)
    let ?cs = "map (map_option (map reset_flow_stats)) (take k (chunks ?ce)) @ drop k (chunks ?ce)"
    have at: "?cs ! k = chunks ?ce ! k" using Suc.prems by (simp add: nth_append)
    have next_cs: "?cs[k := v] = map (map_option (map reset_flow_stats)) (take k (chunks ?ce)) @ v # drop (Suc k) (chunks ?ce)" for v
      using Suc.prems by (simp add: list_update_append Cons_nth_drop_Suc [symmetric])
    have len: "k < length ?cs" using Suc.prems by simp
    have tk: "map (map_option (map reset_flow_stats)) (take (Suc k) (chunks ?ce)) =
        map (map_option (map reset_flow_stats)) (take k (chunks ?ce)) @ [map_option (map reset_flow_stats) (chunks ?ce ! k)]"
      using Suc.prems by (simp add: take_Suc_conv_app_nth)
    have "?step k ?cs = Some (?cs[k := map_option (map reset_flow_stats) (chunks ?ce ! k)])"
    proof (cases "chunks ?ce ! k")
      case None
      have "?cs[k := ?cs ! k] = ?cs" by (rule list_update_id)
      then show ?thesis using len at None by (simp only: at option.map arr_get_simps bind.bind_lunit option.case)
    next
      case (Some es)
      then have "Some es \<in> set (chunks ?ce)" using Suc.prems by (metis Suc_le_lessD nth_mem)
      then have "length es = 1024" using ce by (simp add: ce_shape_def)
      then show ?thesis using len at Some reset_chunk_eq by simp
    qed
    then show ?case using Suc by (simp add: foldM_append next_cs tk)
  qed
  from this [of "length (chunks ?ce)"] show ?thesis by (simp add: reset_all_flow_stats_def n map_slots_def Let_def)
qed

lemma put_slot_same:
  assumes "slot_of ce k = Some e"
  shows "put_slot k e ce = ce"
proof -
  obtain es where es: "chunks ce ! (k div 1024) = Some es" "es ! (k mod 1024) = e"
    using assms by (auto simp: slot_of_def bind_Some_iff arr_get_Some_iff)
  have "es[k mod 1024 := e] = es" using es(2) list_update_id [of es "k mod 1024"] by simp
  then have "(chunks ce)[k div 1024 := map_option (\<lambda>es. es[k mod 1024 := e]) (chunks ce ! (k div 1024))] = chunks ce"
    using es(1) list_update_id [of "chunks ce" "k div 1024"] by simp
  then show ?thesis by (simp add: put_slot_def)
qed

section \<open>Resetting statistics\<close>

text \<open>Only the statistics of tenants and flows differ, and in those not the backlog.\<close>

definition entry_keeps :: "entry_config \<Rightarrow> entry_config \<Rightarrow> bool" where
  "entry_keeps e' e \<longleftrightarrow> same_shares e' e \<and> current_backlog (stats e') = current_backlog (stats e)"

definition tenant_keeps :: "tenant_config \<Rightarrow> tenant_config \<Rightarrow> bool" where
  "tenant_keeps t' t \<longleftrightarrow> tenant_key t' = tenant_key t \<and> backlog_view t' = backlog_view t \<and>
     current_backlog (tenant_stats t') = current_backlog (tenant_stats t) \<and>
     (\<forall>f. rel_option entry_keeps (flow_slot t' f) (flow_slot t f))"

definition keeps_backlog :: "hwfq_scheduler \<Rightarrow> hwfq_scheduler \<Rightarrow> bool" where
  "keeps_backlog s' s \<longleftrightarrow>
     (\<forall>a. rel_option tenant_keeps (tenant_heap s' a) (tenant_heap s a)) \<and> (\<exists>H. s' = s\<lparr>tenant_heap := H\<rparr>)"

lemma rel_option_trans: "transp R \<Longrightarrow> rel_option R a b \<Longrightarrow> rel_option R b c \<Longrightarrow> rel_option R a c"
  by (cases a; cases b; cases c) (auto elim: transpE)

lemma entry_keeps_refl [simp]: "entry_keeps e e"
  by (simp add: entry_keeps_def same_shares_refl)

lemma entry_keeps_trans: "transp entry_keeps"
  using same_shares_trans by (intro transpI) (simp add: entry_keeps_def, blast)

lemma tenant_keeps_refl [simp]: "tenant_keeps t t"
  by (simp add: tenant_keeps_def option.rel_refl_strong)

lemma tenant_keeps_trans: "transp tenant_keeps"
  using rel_option_trans [OF entry_keeps_trans] by (intro transpI) (simp add: tenant_keeps_def, blast)

lemma keeps_backlog_refl: "keeps_backlog s s"
proof -
  have "s = s\<lparr>tenant_heap := tenant_heap s\<rparr>" by simp
  then show ?thesis unfolding keeps_backlog_def using option.rel_refl_strong [of _ tenant_keeps] tenant_keeps_refl by blast
qed

lemma keeps_backlog_trans:
  assumes "keeps_backlog s2 s1" "keeps_backlog s1 s"
  shows "keeps_backlog s2 s"
proof -
  obtain H2 H1 where "s2 = s1\<lparr>tenant_heap := H2\<rparr>" "s1 = s\<lparr>tenant_heap := H1\<rparr>"
    using assms unfolding keeps_backlog_def by blast
  then have "s2 = s\<lparr>tenant_heap := H2\<rparr>" by simp
  moreover have "rel_option tenant_keeps (tenant_heap s2 a) (tenant_heap s a)" for a
    using assms rel_option_trans [OF tenant_keeps_trans] unfolding keeps_backlog_def by blast
  ultimately show ?thesis unfolding keeps_backlog_def by blast
qed

lemma keeps_backlog_tenants: "keeps_backlog s' s \<Longrightarrow> tenants s' = tenants s"
  unfolding keeps_backlog_def by auto

lemma reset_tenant_touched:
  assumes lv: "flow_level_ok C (tenant_id t) (flow_scheduler t)"
  obtains t' where "reset_all_flow_stats (reset_tenant_stats t) = Some t'" "touched C t' t"
    "current_backlog (tenant_stats t') = current_backlog (tenant_stats t)"
    "\<And>f. flow_slot t' f = map_option reset_flow_stats (flow_slot t f)"
proof -
  let ?fs = "flow_scheduler t" and ?ce = "entries (flow_scheduler t)"
  let ?fs' = "?fs\<lparr>entries := map_slots reset_flow_stats ?ce\<rparr>"
  let ?t' = "(reset_tenant_stats t)\<lparr>flow_scheduler := ?fs'\<rparr>"
  note gi = flow_level_okD(1) [OF lv]
  note ei = gs_invD(3) [OF gi]
  note wr = map_slots_writes [OF entries_invD(1) [OF ei] reset_idle reset_same(2)]
  have same: "\<exists>e'. slot_of (map_slots reset_flow_stats ?ce) (unat i) = Some e' \<and> same_shares e' e"
    if "slot_of ?ce (unat i) = Some e" for i :: u32 and e using that reset_same(1) by (simp add: slot_of_map)
  have ent: "entries_inv ?fs'" by (rule entries_inv_same_shares(1) [OF ei wr same]) simp_all
  have frame: "config_frame ?fs' ?fs" by (simp add: config_frame_def)
  have inv': "gs_inv ?fs'" by (rule gs_inv_config [OF gi frame ent])
  have Q: "queued ?fs' = queued ?fs" "session_tag ?fs' = session_tag ?fs"
    by (rule config_frame_cal(2) [OF frame], rule config_frame_tag [OF frame])
  have lv': "flow_level_ok C (tenant_id t) ?fs'"
    by (rule flow_level_ok_sub [OF lv inv']) (simp_all add: Q writesD(5) [OF wr])
  have sh: "shares ?fs' = shares ?fs"
  proof
    fix j show "shares ?fs' j = shares ?fs j"
      by (cases "slot_of ?ce (unat j)") (simp_all add: shares_def slot_of_map reset_same(2) reset_flow_stats_def)
  qed
  have "touched C ?t' t"
    using lv' contexts_same [OF Q(1)] Q sh writesD(2,5) [OF wr]
    by (simp add: touched_def tenant_key_def backlog_view_def reset_tenant_stats_def level_frame_def level_config_def)
  moreover have "reset_all_flow_stats (reset_tenant_stats t) = Some ?t'"
    using reset_all_eq [of "reset_tenant_stats t"] ce_invD(1) [OF entries_invD(1) [OF ei]]
    by (simp add: reset_tenant_stats_def)
  ultimately show thesis
    by (intro that [of ?t']) (simp_all add: reset_tenant_stats_def flow_slot_def slot_of_map)
qed

lemma reset_flow_keeps: "rel_option entry_keeps (map_option reset_flow_stats x) x"
  using reset_same(1) by (cases x) (simp_all add: reset_flow_stats_def entry_keeps_def)

lemma keeps_backlog_put: "tenant_heap s a = Some t \<Longrightarrow> tenant_keeps t' t \<Longrightarrow> keeps_backlog (put_tenant a t' s) s"
  unfolding keeps_backlog_def put_tenant_def using option.rel_refl_strong [of _ tenant_keeps] by auto

lemma reset_tenant_ok:
  assumes inv: "hwfq_inv s xs" and i: "i < length (tenants s)"
  obtains s' where "reset_tenant i s = Some s'" "hwfq_inv s' xs" "pending s' = pending s" "keeps_backlog s' s"
proof (cases "tenants s ! i")
  case None
  then show thesis using i by (intro that [of s]) (simp_all add: reset_tenant_def inv keeps_backlog_refl)
next
  case (Some a)
  note tb = hwfq_invD(1) [OF inv]
  obtain t where t: "tenant_heap s a = Some t" using tables_okD(2) [OF tb i Some] by blast
  have "tenant_configured t" using tables_okD(3) [OF tb t] by blast
  obtain t' where t': "reset_all_flow_stats (reset_tenant_stats t) = Some t'" "touched (context_heap s) t' t"
    "current_backlog (tenant_stats t') = current_backlog (tenant_stats t)"
    "\<And>f. flow_slot t' f = map_option reset_flow_stats (flow_slot t f)"
    by (rule reset_tenant_touched [OF tenants_okD [OF hwfq_invD(3) [OF inv] t]], rule that)
  have "keeps_backlog (put_tenant a t' s) s"
    by (rule keeps_backlog_put [OF t]) (use t'(2,3) reset_flow_keeps in \<open>simp add: tenant_keeps_def touched_def t'(4)\<close>)
  then show thesis
    using i Some t t'(1) \<open>tenant_configured t\<close> touched_put [OF inv t t'(2)]
    by (intro that [of "put_tenant a t' s"]) (simp_all add: reset_tenant_def)
qed

lemma hwfq_reset_stats_ok:
  assumes inv: "hwfq_inv s xs"
  obtains s' where "hwfq_reset_stats i f s = Some s'" "hwfq_inv s' xs" "pending s' = pending s" "keeps_backlog s' s"
proof -
  note tb = hwfq_invD(1) [OF inv]
  have n: "unat (cfg_max_tenants (hwfq_cfg s)) = length (tenants s)" using tables_okD(1) [OF tb] by simp
  have all: "\<exists>s'. foldM reset_tenant is s = Some s' \<and> hwfq_inv s' xs \<and> pending s' = pending s \<and> keeps_backlog s' s"
    if "hwfq_inv s xs" "\<forall>i \<in> set is. i < length (tenants s)" for "is" s
    using that
  proof (induction "is" arbitrary: s)
    case Nil
    then show ?case by (simp add: keeps_backlog_refl)
  next
    case (Cons i "is")
    have i: "i < length (tenants s)" using Cons.prems(2) by simp
    obtain s1 where s1: "reset_tenant i s = Some s1" "hwfq_inv s1 xs" "pending s1 = pending s" "keeps_backlog s1 s"
      by (rule reset_tenant_ok [OF Cons.prems(1) i])
    have "tenants s1 = tenants s" by (rule keeps_backlog_tenants [OF s1(4)])
    then obtain s2 where "foldM reset_tenant is s1 = Some s2" "hwfq_inv s2 xs" "pending s2 = pending s1" "keeps_backlog s2 s1"
      using Cons.IH [OF s1(2)] Cons.prems(2) by auto
    then show ?case using s1 keeps_backlog_trans by auto
  qed
  show thesis
  proof (cases "i = HWFQ_ALL_TENANTS")
    case True
    then show thesis using all [OF inv, of "[0..<length (tenants s)]"] n that by (auto simp: hwfq_reset_stats_def)
  next
    case one: False
    show thesis
    proof (cases "i < cfg_max_tenants (hwfq_cfg s)")
      case False
      then show thesis using one inv keeps_backlog_refl by (intro that [of s]) (simp_all add: hwfq_reset_stats_def)
    next
      case lt: True
      have len: "unat i < length (tenants s)" using lt n by (simp add: word_less_nat_alt)
      show thesis
      proof (cases "f = HWFQ_ALL_FLOWS")
        case True
        then show thesis using reset_tenant_ok [OF inv len] that one lt by (auto simp: hwfq_reset_stats_def)
      next
        case flow: False
        have range: "\<not> cfg_max_tenants (hwfq_cfg s) \<le> i" using lt by simp
        note ct = configured_tenant_eq [OF tb range]
        show thesis
        proof (cases "tenant_of i s")
          case None
          then show thesis using ct one lt flow inv keeps_backlog_refl by (intro that [of s]) (simp_all add: hwfq_reset_stats_def)
        next
          case (Some p)
          obtain a t where p: "p = (a, t)" by (cases p)
          have t: "tenant_heap s a = Some t" using Some tenant_of_iff [OF tb] by (simp add: p)
          have lv: "flow_level_ok (context_heap s) (tenant_id t) (flow_scheduler t)" by (rule tenants_okD [OF hwfq_invD(3) [OF inv] t])
          let ?ce = "entries (flow_scheduler t)"
          note ei = gs_invD(3) [OF flow_level_okD(1) [OF lv]]
          have get: "hwfq_chunked_get ?ce f = Some (if slot_of ?ce (unat f) = None then None else Some f)"
            by (rule hwfq_chunked_get_eq [OF ce_invD(1) [OF entries_invD(1) [OF ei]]])
          show thesis
          proof (cases "slot_of ?ce (unat f)")
            case None
            then show thesis using ct Some p get one lt flow inv keeps_backlog_refl
              by (intro that [of s]) (simp_all add: hwfq_reset_stats_def)
          next
            case e: (Some e)
            show thesis
            proof (cases "configured e")
              case False
              have load: "entry_load ?ce f = Some e" using e by (simp add: entry_load_slot)
              have "put_slot (unat f) e ?ce = ?ce" by (rule put_slot_same [OF e])
              then have "modify_flow_entry f reset_flow_stats (flow_scheduler t) = Some (flow_scheduler t)"
                using entry_store_put [OF load, of e] load by (simp add: modify_flow_entry_def reset_idle False)
              then show thesis using ct Some p get e one lt flow inv keeps_backlog_refl t
                by (intro that [of s]) (simp_all add: hwfq_reset_stats_def put_tenant_def fun_upd_idem)
            next
              case True
              have sh: "shares (flow_scheduler t) f \<noteq> None" using e True by (simp add: shares_def)
              obtain t2 where t2: "with_flow_entry (Some f) reset_flow_stats t = Some t2" "t2 = t\<lparr>flow_scheduler := flow_scheduler t2\<rparr>"
                "touched (context_heap s) t2 t"
                "flow_slot t2 = (\<lambda>j. if Some f = Some j then map_option reset_flow_stats (flow_slot t j) else flow_slot t j)"
                by (rule with_flow_entry_touched [OF lv, of "Some f" reset_flow_stats]) (use sh reset_same(1) in auto)
              obtain fs where fs: "modify_flow_entry f reset_flow_stats (flow_scheduler t) = Some fs" "t2 = t\<lparr>flow_scheduler := fs\<rparr>"
                using t2(1) by (auto simp: with_flow_entry_def bind_Some_iff)
              have "tenant_keeps t2 t"
                using t2(3,4) reset_flow_keeps option.rel_refl_strong [of _ entry_keeps] by (simp add: tenant_keeps_def touched_def fs(2))
              then have "keeps_backlog (put_tenant a t2 s) s" by (rule keeps_backlog_put [OF t])
              then show thesis using ct Some p get e one lt flow touched_put [OF inv t t2(3)] fs
                by (intro that [of "put_tenant a t2 s"]) (simp_all add: hwfq_reset_stats_def)
            qed
          qed
        qed
      qed
    qed
  qed
qed

section \<open>Destroying a scheduler\<close>

text \<open>What the loop over the tenants relies on and keeps; the system level no longer matters.\<close>

definition owners_ok :: "hwfq_scheduler \<Rightarrow> bool" where
  "owners_ok s \<longleftrightarrow>
     (\<forall>i < length (tenants s). \<forall>a. tenants s ! i = Some a \<longrightarrow> (\<exists>t. tenant_heap s a = Some t \<and> unat (tenant_id t) = i)) \<and>
     (\<forall>a t. tenant_heap s a = Some t \<longrightarrow> tenant_configured t \<and> unat (tenant_id t) < length (tenants s) \<and>
        tenants s ! unat (tenant_id t) = Some a \<and> flow_level_ok (context_heap s) (tenant_id t) (flow_scheduler t))"

lemma owners_okD:
  assumes "owners_ok s"
  shows "\<And>i a. i < length (tenants s) \<Longrightarrow> tenants s ! i = Some a \<Longrightarrow> \<exists>t. tenant_heap s a = Some t \<and> unat (tenant_id t) = i"
    "\<And>a t. tenant_heap s a = Some t \<Longrightarrow> tenant_configured t \<and> unat (tenant_id t) < length (tenants s) \<and>
        tenants s ! unat (tenant_id t) = Some a \<and> flow_level_ok (context_heap s) (tenant_id t) (flow_scheduler t)"
  using assms unfolding owners_ok_def by blast+

lemma owners_disjoint:
  assumes ok: "owners_ok s" and t: "tenant_heap s a = Some t" "tenant_heap s b = Some u" "a \<noteq> b"
  shows "tenant_id t \<noteq> tenant_id u" "c \<in> contexts_of (flow_scheduler t) \<Longrightarrow> c \<notin> contexts_of (flow_scheduler u)"
proof -
  note o = owners_okD(2) [OF ok]
  show id: "tenant_id t \<noteq> tenant_id u" using o [OF t(1)] o [OF t(2)] t(3) by auto
  show "c \<notin> contexts_of (flow_scheduler u)" if "c \<in> contexts_of (flow_scheduler t)"
    using contexts_present [of "context_heap s" "tenant_id t" "flow_scheduler t" c]
      contexts_present [of "context_heap s" "tenant_id u" "flow_scheduler u" c] o [OF t(1)] o [OF t(2)] that id by auto
qed

lemma pending_without:
  assumes ok: "owners_ok s" and t: "tenant_heap s a = Some t" and H: "tenant_heap s' = (tenant_heap s)(a := None)"
  shows "pending s' = pending s - contexts_of (flow_scheduler t)" "contexts_of (flow_scheduler t) \<subseteq> pending s"
proof -
  show "contexts_of (flow_scheduler t) \<subseteq> pending s" using contexts_pending [of s a t] t by blast
  show "pending s' = pending s - contexts_of (flow_scheduler t)"
  proof (intro set_eqI iffI)
    fix c assume "c \<in> pending s'"
    then obtain b u where b: "tenant_heap s b = Some u" "b \<noteq> a" "c \<in> contexts_of (flow_scheduler u)"
      by (auto simp: pending_def H split: if_splits)
    show "c \<in> pending s - contexts_of (flow_scheduler t)"
      using contexts_pending [OF b(1,3)] owners_disjoint(2) [OF ok b(1) t b(2,3)] by blast
  next
    fix c assume c: "c \<in> pending s - contexts_of (flow_scheduler t)"
    then obtain b u where b: "tenant_heap s b = Some u" "c \<in> contexts_of (flow_scheduler u)" unfolding pending_def by blast
    then have "b \<noteq> a" using c t by auto
    then have "tenant_heap s' b = Some u" using b(1) by (simp add: H)
    then show "c \<in> pending s'" using b(2) by (rule contexts_pending)
  qed
qed

text \<open>What the slots cleared so far leave behind: \<open>cs\<close> are the contexts given to their cleanup functions.\<close>

definition cleared :: "hwfq_scheduler \<Rightarrow> addr list \<Rightarrow> hwfq_scheduler \<Rightarrow> bool" where
  "cleared s cs s' \<longleftrightarrow> owners_ok s' \<and> distinct cs \<and> set cs \<subseteq> pending s \<and> pending s' = pending s - set cs \<and>
     context_heap s' = context_heap s |` (- set cs) \<and> flight s' = flight s \<and> hwfq_cfg s' = hwfq_cfg s \<and>
     system_scheduler s' = system_scheduler s \<and> length (tenants s') = length (tenants s) \<and>
     (\<forall>i < length (tenants s). tenants s ! i = None \<longrightarrow> tenants s' ! i = None)"

lemma destroy_slot_ok:
  assumes ok: "owners_ok s" and i: "i < length (tenants s)"
  obtains cs s' where "destroy_slot i (ev, s) = Some (ev @ cleanup_events (context_heap s) cs, s')"
    "cleared s cs s'" "tenants s' ! i = None"
proof (cases "tenants s ! i")
  case None
  then show thesis using i ok by (intro that [of "[]" s]) (simp_all add: destroy_slot_def cleanup_events_def cleared_def restrict_map_def)
next
  case (Some a)
  obtain t where t: "tenant_heap s a = Some t" "unat (tenant_id t) = i" using owners_okD(1) [OF ok i Some] by blast
  note o = owners_okD(2) [OF ok t(1)]
  have lv: "flow_level_ok (context_heap s) (tenant_id t) (flow_scheduler t)" and conf: "tenant_configured t" using o by blast+
  obtain cs n where rm: "distinct cs" "set cs = contexts_of (flow_scheduler t)"
    "remove_tenant a s = Some (cleanup_events (context_heap s) cs, s\<lparr>total_active_flows := n,
       context_heap := context_heap s |` (- contexts_of (flow_scheduler t)),
       hwfq_allocated_rate_capacity := hwfq_allocated_rate_capacity s - rate_part (tenant_allocation t),
       tenant_heap := (tenant_heap s)(a := None)\<rparr>)"
    by (rule remove_tenant_run [OF lv t(1) conf])
  define s' where "s' = s\<lparr>total_active_flows := n, context_heap := context_heap s |` (- contexts_of (flow_scheduler t)),
       hwfq_allocated_rate_capacity := hwfq_allocated_rate_capacity s - rate_part (tenant_allocation t),
       tenant_heap := (tenant_heap s)(a := None), tenants := (tenants s)[i := None]\<rparr>"
  have s': "tenant_heap s' = (tenant_heap s)(a := None)" "tenants s' = (tenants s)[i := None]"
    "context_heap s' = context_heap s |` (- set cs)" "flight s' = flight s" "hwfq_cfg s' = hwfq_cfg s"
    "system_scheduler s' = system_scheduler s" by (simp_all add: s'_def rm(2))
  have run: "destroy_slot i (ev, s) = Some (ev @ cleanup_events (context_heap s) cs, s')"
    using i Some rm(3) by (simp add: destroy_slot_def s'_def)
  note pw = pending_without [OF ok t(1) s'(1), folded rm(2)]
  have "owners_ok s'"
    unfolding owners_ok_def
  proof (intro conjI allI impI)
    fix j b assume j: "j < length (tenants s')" "tenants s' ! j = Some b"
    have "j \<noteq> i" using j i by (auto simp: s'(2))
    then have jb: "j < length (tenants s)" "tenants s ! j = Some b" using j by (simp_all add: s'(2))
    obtain u where u: "tenant_heap s b = Some u" "unat (tenant_id u) = j" using owners_okD(1) [OF ok jb] by blast
    have "b \<noteq> a" using u t \<open>j \<noteq> i\<close> by auto
    then show "\<exists>u. tenant_heap s' b = Some u \<and> unat (tenant_id u) = j" using u by (simp add: s'(1))
  next
    fix b u assume u: "tenant_heap s' b = Some u"
    have b: "b \<noteq> a" "tenant_heap s b = Some u" using u by (auto simp: s'(1) split: if_splits)
    note ob = owners_okD(2) [OF ok b(2)]
    have "unat (tenant_id u) \<noteq> i" using owners_disjoint(1) [OF ok b(2) t(1) b(1)] t(2) by auto
    then show "tenant_configured u" "unat (tenant_id u) < length (tenants s')" "tenants s' ! unat (tenant_id u) = Some b"
      using ob by (simp_all add: s'(2))
    show "flow_level_ok (context_heap s') (tenant_id u) (flow_scheduler u)"
    proof (rule flow_level_ok_cong)
      show "flow_level_ok (context_heap s) (tenant_id u) (flow_scheduler u)" using ob by blast
      fix c assume "c \<in> contexts_of (flow_scheduler u)"
      then have "c \<notin> set cs" using owners_disjoint(2) [OF ok b(2) t(1) b(1)] unfolding rm(2) by blast
      then show "context_heap s' c = context_heap s c" by (simp add: s'(3))
    qed
  qed
  then have "cleared s cs s'" using rm(1) pw s' i by (simp add: cleared_def nth_list_update)
  then show thesis by (rule that [OF run]) (simp add: s'(2) i)
qed

lemma cleanup_events_append: "cleanup_events C (xs @ ys) = cleanup_events C xs @ cleanup_events C ys"
  by (simp add: cleanup_events_def)

lemma cleanup_events_cong: "(\<And>c. c \<in> set cs \<Longrightarrow> C' c = C c) \<Longrightarrow> cleanup_events C' cs = cleanup_events C cs"
  by (simp add: cleanup_events_def cong: map_cong)

lemma destroy_slots_ok:
  assumes "owners_ok s" "\<forall>i \<in> set is. i < length (tenants s)"
  shows "\<exists>cs s'. foldM destroy_slot is (ev, s) = Some (ev @ cleanup_events (context_heap s) cs, s') \<and> cleared s cs s' \<and>
    (\<forall>i \<in> set is. tenants s' ! i = None)"
  using assms
proof (induction "is" arbitrary: s ev)
  case Nil
  then show ?case by (intro exI [of _ "[]"] exI [of _ s]) (simp add: cleared_def cleanup_events_def restrict_map_def)
next
  case (Cons i "is")
  have i: "i < length (tenants s)" using Cons.prems(2) by simp
  obtain cs s1 where s1: "destroy_slot i (ev, s) = Some (ev @ cleanup_events (context_heap s) cs, s1)"
    "cleared s cs s1" "tenants s1 ! i = None"
    by (rule destroy_slot_ok [OF Cons.prems(1) i])
  note c1 = s1(2) [unfolded cleared_def]
  have "owners_ok s1" "\<forall>i \<in> set is. i < length (tenants s1)" using c1 Cons.prems(2) by simp_all
  from Cons.IH [OF this, of "ev @ cleanup_events (context_heap s) cs"]
  obtain ds s2 where s2: "foldM destroy_slot is (ev @ cleanup_events (context_heap s) cs, s1) =
      Some ((ev @ cleanup_events (context_heap s) cs) @ cleanup_events (context_heap s1) ds, s2)"
    "cleared s1 ds s2" "\<forall>i \<in> set is. tenants s2 ! i = None" by blast
  note c2 = s2(2) [unfolded cleared_def]
  have dj: "set cs \<inter> set ds = {}" using c1 c2 by auto
  have "cleanup_events (context_heap s1) ds = cleanup_events (context_heap s) ds"
  proof (rule cleanup_events_cong)
    fix c assume "c \<in> set ds"
    then have "c \<notin> set cs" using dj by blast
    then show "context_heap s1 c = context_heap s c" using c1 by simp
  qed
  moreover have "cleared s (cs @ ds) s2"
    using c1 c2 dj by (auto simp: cleared_def restrict_map_def fun_eq_iff)
  moreover have "tenants s2 ! i = None" using c2 s1(3) i c1 by auto
  ultimately show ?case using s1(1) s2(1,3)
    by (intro exI [of _ "cs @ ds"] exI [of _ s2]) (simp add: cleanup_events_append)
qed

text \<open>The entries in flight are freed one after the other, in the order of the list.\<close>

lemma free_in_flight_eq:
  "lseg H p h xs None l \<Longrightarrow> distinct xs \<Longrightarrow> free_in_flight h H = Some (H |` (- set xs))"
proof (induction xs arbitrary: p h H)
  case Nil
  then show ?case by (simp add: free_in_flight.simps restrict_map_def)
next
  case (Cons a xs)
  obtain e where e: "h = Some a" "H a = Some e" "lseg H (Some a) (list_next e) xs None l"
    using Cons.prems(1) by (auto split: option.splits)
  have "lseg (H(a := None)) (Some a) (list_next e) xs None l = lseg H (Some a) (list_next e) xs None l"
    by (rule lseg_cong) (use Cons.prems(2) in auto)
  then have "lseg (H(a := None)) (Some a) (list_next e) xs None l" using e(3) by blast
  then have "free_in_flight (list_next e) (H(a := None)) = Some (H(a := None) |` (- set xs))"
    by (rule Cons.IH) (use Cons.prems(2) in simp)
  moreover have "H(a := None) |` (- set xs) = H |` (- set (a # xs))" by (auto simp: restrict_map_def fun_eq_iff)
  ultimately show ?case by (subst free_in_flight.simps) (simp add: e(1,2) hwfq_free_def)
qed

lemma hwfq_destroy_ok:
  assumes inv: "hwfq_inv s xs"
  obtains cs s' where "distinct cs" "set cs = pending s" "hwfq_destroy s = Some (cleanup_events (context_heap s) cs, s')"
    "tenant_heap s' = Map.empty" "context_heap s' = context_heap s |` (- pending s)" "if_entries (flight s') = Map.empty"
    "sessions (system_scheduler s') = without (queued (system_scheduler s)) (sessions (system_scheduler s))"
proof -
  note hi = hwfq_invD [OF inv] and td = tables_okD [OF hwfq_invD(1) [OF inv]]
  note gi = gs_invD [OF sys_okD(1) [OF hi(2)]]
  obtain ys where ys: "distinct ys" "set ys = queued (system_scheduler s)" "group_scheduler_destroy (system_scheduler s) =
      Some (cleanup_calls (system_scheduler s) ys, without (queued (system_scheduler s)) (sessions (system_scheduler s)))"
    by (rule destroy_ok [OF gi(1,2)])
  have "set zs \<subseteq> queued (system_scheduler s) \<Longrightarrow> cleanup_calls (system_scheduler s) zs = []" for zs
  proof (induction zs)
    case (Cons q zs)
    then have "q \<in> queued (system_scheduler s)" by simp
    from sys_okD(2) [OF hi(2) this] obtain a and t :: tenant_config where
      "session_tag (system_scheduler s) q = Some (tenant_id t, Some a, TENANT_QUANTUM_SIZE, None)" by blast
    then show ?case using Cons by (auto simp: cleanup_calls_def dest!: tag_session)
  qed (simp add: cleanup_calls_def)
  then have none: "cleanup_calls (system_scheduler s) ys = []" using ys(2) by simp
  let ?s = "s\<lparr>system_scheduler := (system_scheduler s)
    \<lparr>sessions := without (queued (system_scheduler s)) (sessions (system_scheduler s))\<rparr>\<rparr>"
  have "owners_ok ?s"
    unfolding owners_ok_def using td(2,3) tenants_okD [OF hi(3)] by simp
  moreover have "\<forall>i \<in> set [0..<length (tenants s)]. i < length (tenants ?s)" by simp
  ultimately obtain cs s1 where s1: "foldM destroy_slot [0..<length (tenants s)] ([], ?s) = Some ([] @ cleanup_events (context_heap ?s) cs, s1)"
    "cleared ?s cs s1" "\<forall>i \<in> set [0..<length (tenants s)]. tenants s1 ! i = None"
    using destroy_slots_ok by blast
  note c = s1(2) [unfolded cleared_def]
  have "tenant_heap s1 a = None" for a
  proof (cases "tenant_heap s1 a")
    case (Some t)
    have "owners_ok s1" using c by blast
    from owners_okD(2) [OF this Some] have "unat (tenant_id t) < length (tenants s)" "tenants s1 ! unat (tenant_id t) = Some a"
      using c by auto
    then show ?thesis using s1(3) by auto
  qed
  then have empty: "tenant_heap s1 = Map.empty" by blast
  then have "pending s1 = {}" by (simp add: pending_def)
  then have cs: "distinct cs" "set cs = pending s" using c by auto
  have seq: "lseg (if_entries (flight s)) None (in_flight_head (flight s)) xs None (in_flight_tail (flight s))" "distinct xs"
    using ifl_wfD(2,3) flight_okD(1) [OF hi(4)] unfolding in_flight_seq_def by blast+
  have "free_in_flight (in_flight_head (flight s)) (if_entries (flight s)) = Some (if_entries (flight s) |` (- set xs))"
    by (rule free_in_flight_eq [OF seq])
  moreover have "if_entries (flight s) |` (- set xs) = Map.empty"
    using flight_okD(4) [OF hi(4)] by (auto simp: restrict_map_def fun_eq_iff dom_def)
  ultimately have fl: "free_in_flight (in_flight_head (flight s)) (if_entries (flight s)) = Some Map.empty" by simp
  have n: "unat (cfg_max_tenants (hwfq_cfg s)) = length (tenants s)" using td(1) by simp
  let ?s' = "s1\<lparr>tenants := [], system_scheduler := (system_scheduler s1)
      \<lparr>entries := hwfq_chunked_entries_destroy (entries (system_scheduler s1))\<rparr>,
    flight := (flight s1)\<lparr>if_entries := Map.empty, in_flight_hash := []\<rparr>\<rparr>"
  have "hwfq_destroy s = Some (cleanup_events (context_heap s) cs, ?s')"
    using ys(3) none s1(1) c fl by (simp add: hwfq_destroy_def n)
  then show thesis by (rule that [OF cs]) (use c empty cs(2) in simp_all)
qed

end
