(* ===== verification/Ledger.thy ===== *)
theory Ledger
  imports HWFQ_Prelude "HOL-Library.Multiset"
begin

text \<open>
  What a client may rely on when it makes one call after another: \<open>run\<close> makes a list of calls and keeps
  their answers, and the locale \<open>ledger\<close> is the contract of a component that takes work in, holds it and
  hands it out.  From the law of one call follows the balance of every run.
\<close>

section \<open>Runs\<close>

fun run :: "('c \<Rightarrow> 's \<Rightarrow> ('r \<times> 's) option) \<Rightarrow> 'c list \<Rightarrow> 's \<Rightarrow> (('c \<times> 'r) list \<times> 's) option" where
  "run step [] s = Some ([], s)"
| "run step (c # cs) s = do { (r, s) \<leftarrow> step c s; (tr, s) \<leftarrow> run step cs s; Some ((c, r) # tr, s) }"

fun may_run :: "('c \<Rightarrow> 's \<Rightarrow> ('r \<times> 's) option) \<Rightarrow> ('c \<Rightarrow> 's \<Rightarrow> bool) \<Rightarrow> 'c list \<Rightarrow> 's \<Rightarrow> bool" where
  "may_run step allowed [] s \<longleftrightarrow> True"
| "may_run step allowed (c # cs) s \<longleftrightarrow>
     allowed c s \<and> (case step c s of None \<Rightarrow> True | Some (r, s') \<Rightarrow> may_run step allowed cs s')"

text \<open>What a trace adds up to.\<close>

definition total :: "('c \<Rightarrow> 'r \<Rightarrow> 'w multiset) \<Rightarrow> ('c \<times> 'r) list \<Rightarrow> 'w multiset" where
  "total part tr = sum_list (map (\<lambda>(c, r). part c r) tr)"

lemma total_simps [simp]:
  "total part [] = {#}" "total part ((c, r) # tr) = part c r + total part tr"
  by (simp_all add: total_def)

lemma run_Cons_Some [simp]:
  "step c s = Some (r, s') \<Longrightarrow> run step cs s' = Some (tr, s'') \<Longrightarrow> run step (c # cs) s = Some ((c, r) # tr, s'')"
  by simp

lemma run_append:
  "run step (cs @ ds) s =
     (case run step cs s of None \<Rightarrow> None
      | Some (tr, s') \<Rightarrow> map_option (\<lambda>(tr', s''). (tr @ tr', s'')) (run step ds s'))"
  by (induction cs arbitrary: s) (auto simp: option.map_id0 split: bind_split option.split)

lemma may_run_append:
  "may_run step allowed (cs @ ds) s \<longleftrightarrow> may_run step allowed cs s \<and>
     (case run step cs s of None \<Rightarrow> True | Some (tr, s') \<Rightarrow> may_run step allowed ds s')"
  by (induction cs arbitrary: s) (auto split: bind_split option.split)

lemma total_append [simp]: "total part (tr @ tr') = total part tr + total part tr'"
  by (simp add: total_def)

text \<open>
  \<open>adds_up part tr F\<close>: \<open>F\<close> is made of one portion for each call of the trace, and each portion is one that
  the call and its answer allow.
\<close>

fun adds_up :: "('c \<Rightarrow> 'r \<Rightarrow> 'w multiset \<Rightarrow> bool) \<Rightarrow> ('c \<times> 'r) list \<Rightarrow> 'w multiset \<Rightarrow> bool" where
  "adds_up part [] F \<longleftrightarrow> F = {#}"
| "adds_up part ((c, r) # tr) F \<longleftrightarrow> (\<exists>G H. part c r G \<and> adds_up part tr H \<and> F = G + H)"

lemma adds_up_Cons: "part c r G \<Longrightarrow> adds_up part tr H \<Longrightarrow> adds_up part ((c, r) # tr) (G + H)"
  by auto

lemma adds_up_empty:
  "adds_up part tr F \<Longrightarrow> (\<And>c r G. (c, r) \<in> set tr \<Longrightarrow> part c r G \<Longrightarrow> G = {#}) \<Longrightarrow> F = {#}"
proof (induction part tr F rule: adds_up.induct)
  case (2 part c r tr F)
  then obtain G H where F: "part c r G" "adds_up part tr H" "F = G + H" by auto
  have "G = {#}" by (rule 2(3) [OF _ F(1)]) simp
  moreover have "H = {#}" by (rule 2(1) [OF F(2)], rule 2(3), rule list.set_intros(2))
  ultimately show ?case by (simp add: F(3))
qed simp

section \<open>The contract\<close>

text \<open>
  \<open>inv\<close> and the two stocks may refer to a ghost \<open>g\<close>, which the component does not store.  A step takes
  \<open>gets\<close> into the stock \<open>held\<close> and hands \<open>gives\<close> out of it into the stock \<open>lent\<close>.  What it may lose of the
  stock held, and what it may take out of the stock lent, is told by \<open>drops\<close> and \<open>ends\<close> from the call and its
  answer alone.
\<close>

locale ledger =
  fixes step :: "'c \<Rightarrow> 's \<Rightarrow> ('r \<times> 's) option"
    and allowed :: "'c \<Rightarrow> 's \<Rightarrow> bool"
    and inv :: "'s \<Rightarrow> 'g \<Rightarrow> bool"
    and held :: "'s \<Rightarrow> 'w multiset"
    and lent :: "'s \<Rightarrow> 'g \<Rightarrow> 'w multiset"
    and gets :: "'c \<Rightarrow> 'r \<Rightarrow> 'w multiset"
    and gives :: "'c \<Rightarrow> 'r \<Rightarrow> 'w multiset"
    and drops :: "'c \<Rightarrow> 'r \<Rightarrow> 'w multiset \<Rightarrow> bool"
    and ends :: "'c \<Rightarrow> 'r \<Rightarrow> 'w multiset \<Rightarrow> bool"
  assumes step_law: "inv s g \<Longrightarrow> allowed c s \<Longrightarrow>
    \<exists>r s' g' D F. step c s = Some (r, s') \<and> inv s' g' \<and> held s' + gives c r + D = held s + gets c r \<and>
      drops c r D \<and> lent s' g' + F = lent s g + gives c r \<and> ends c r F"
begin

lemma run_law:
  assumes "inv s g" "may_run step allowed cs s"
  shows "\<exists>tr s' g' D F. run step cs s = Some (tr, s') \<and> map fst tr = cs \<and> inv s' g' \<and>
    held s' + total gives tr + D = held s + total gets tr \<and> adds_up drops tr D \<and>
    lent s' g' + F = lent s g + total gives tr \<and> adds_up ends tr F"
  using assms
proof (induction cs arbitrary: s g)
  case Nil
  then show ?case by auto
next
  case (Cons c cs)
  obtain r s1 g1 D1 F1 where one: "step c s = Some (r, s1)" "inv s1 g1" "held s1 + gives c r + D1 = held s + gets c r"
      "drops c r D1" "lent s1 g1 + F1 = lent s g + gives c r" "ends c r F1"
    using step_law [OF Cons.prems(1)] Cons.prems(2) by fastforce
  have "may_run step allowed cs s1" using Cons.prems(2) one(1) by simp
  then obtain tr s2 g2 D2 F2 where rest: "run step cs s1 = Some (tr, s2)" "map fst tr = cs" "inv s2 g2"
      "held s2 + total gives tr + D2 = held s1 + total gets tr" "adds_up drops tr D2"
      "lent s2 g2 + F2 = lent s1 g1 + total gives tr" "adds_up ends tr F2"
    using Cons.IH [OF one(2)] by blast
  have h: "held s2 + total gives ((c, r) # tr) + (D1 + D2) = held s + total gets ((c, r) # tr)"
  proof -
    have "held s2 + total gives ((c, r) # tr) + (D1 + D2) = (held s2 + total gives tr + D2) + (gives c r + D1)"
      by (simp add: ac_simps)
    also have "\<dots> = (held s1 + gives c r + D1) + total gets tr" unfolding rest(4) by (simp add: ac_simps)
    also have "\<dots> = held s + total gets ((c, r) # tr)" unfolding one(3) by (simp add: ac_simps)
    finally show ?thesis .
  qed
  have l: "lent s2 g2 + (F1 + F2) = lent s g + total gives ((c, r) # tr)"
  proof -
    have "lent s2 g2 + (F1 + F2) = (lent s2 g2 + F2) + F1" by (simp add: ac_simps)
    also have "\<dots> = (lent s1 g1 + F1) + total gives tr" unfolding rest(6) by (simp add: ac_simps)
    also have "\<dots> = lent s g + total gives ((c, r) # tr)" unfolding one(5) by (simp add: ac_simps)
    finally show ?thesis .
  qed
  have d: "adds_up drops ((c, r) # tr) (D1 + D2)" "adds_up ends ((c, r) # tr) (F1 + F2)"
    by (rule adds_up_Cons [of drops, OF one(4) rest(5)], rule adds_up_Cons [of ends, OF one(6) rest(7)])
  have "run step (c # cs) s = Some ((c, r) # tr, s2)" "map fst ((c, r) # tr) = c # cs" using one(1) rest(1,2) by simp_all
  then show ?case using h l d rest(3) by (intro exI conjI)
qed

lemma gives_from_gets:
  assumes "inv s g" "may_run step allowed cs s" "held s = {#}" "run step cs s = Some (tr, s')"
  shows "held s' + total gives tr \<subseteq># total gets tr"
proof -
  obtain D where D: "held s' + total gives tr + D = total gets tr" using run_law [OF assms(1,2)] assms(3,4) by auto
  show ?thesis unfolding D [symmetric] by simp
qed

lemma lossless:
  assumes "inv s g" "may_run step allowed cs s" "run step cs s = Some (tr, s')"
    "\<And>c r D. (c, r) \<in> set tr \<Longrightarrow> drops c r D \<Longrightarrow> D = {#}"
  shows "held s' + total gives tr = held s + total gets tr"
proof -
  obtain D where D: "held s' + total gives tr + D = held s + total gets tr" "adds_up drops tr D"
    using run_law [OF assms(1,2)] assms(3) by auto
  have "D = {#}" by (rule adds_up_empty [OF D(2) assms(4)])
  then show ?thesis using D(1) by simp
qed

end

end
