(* ===== verification/HWFQ_System.thy ===== *)
theory HWFQ_System
  imports HWFQ_Statistics Ledger
begin

text \<open>
  The library as its client sees it: a state and a set of calls.  A call is one step; each keeps the
  invariant, and a ledger records what it does to the work, so that nothing is handed out that was not
  accepted, and nothing twice.
\<close>

section \<open>Calls\<close>

text \<open>
  The public functions between \<open>hwfq_init\<close>, which makes the state, and \<open>hwfq_destroy\<close>, after which there is
  none.
\<close>

datatype hwfq_call =
    Enqueue env u32 u32 "hwfq_session option"
  | Dequeue env
  | Complete env "hwfq_session option" u32 u32 u64
  | Cancel "hwfq_session option" u32 u32
  | Check_timeouts u64
  | Add_tenant add_tenant_mem "hwfq_allocation option"
  | Configure_tenant u32 "hwfq_allocation option"
  | Remove_tenant u32
  | Add_flow "bool \<times> bool" u32 "hwfq_allocation option"
  | Reconfigure_flow u32 u32 "hwfq_allocation option"
  | Remove_flow u32 u32
  | Reset_stats u32 u32
  | Get_capacity_info
  | Get_tenant_stats u32
  | Get_flow_stats u32 u32

datatype outcome =
    Code "hwfq_error + unit"
  | New_id "hwfq_error + u32"
  | Work "hwfq_error + user_ptr \<times> u64 \<times> u64 \<times> u32 \<times> u32"
  | Count u32
  | Info hwfq_capacity_info
  | Stats "hwfq_error + hwfq_stats"
  | Void

fun exec :: "hwfq_call \<Rightarrow> hwfq_scheduler \<Rightarrow> (outcome \<times> event list \<times> hwfq_scheduler) option" where
  "exec (Enqueue env i f work) s = do { (r, ev, s) \<leftarrow> hwfq_enqueue env i f work s; Some (Code r, ev, s) }"
| "exec (Dequeue env) s = do { (r, s) \<leftarrow> hwfq_dequeue env s; Some (Work r, [], s) }"
| "exec (Complete env work i f now) s = do { (r, ev, s) \<leftarrow> hwfq_complete env work i f now s; Some (Code r, ev, s) }"
| "exec (Cancel work i f) s = do { (r, ev, s) \<leftarrow> hwfq_cancel work i f s; Some (Code r, ev, s) }"
| "exec (Check_timeouts now) s = do { (n, ev, s) \<leftarrow> hwfq_check_timeouts now s; Some (Count n, ev, s) }"
| "exec (Add_tenant mem alloc) s = do { (r, s) \<leftarrow> hwfq_add_tenant mem alloc s; Some (New_id r, [], s) }"
| "exec (Configure_tenant i alloc) s = do { (r, s) \<leftarrow> hwfq_configure_tenant i alloc s; Some (Code r, [], s) }"
| "exec (Remove_tenant i) s = do { (r, ev, s) \<leftarrow> hwfq_remove_tenant i s; Some (Code r, ev, s) }"
| "exec (Add_flow mem i alloc) s = do { (r, s) \<leftarrow> hwfq_add_flow mem i alloc s; Some (New_id r, [], s) }"
| "exec (Reconfigure_flow i f alloc) s = do { (r, s) \<leftarrow> hwfq_reconfigure_flow i f alloc s; Some (Code r, [], s) }"
| "exec (Remove_flow i f) s = do { (r, s) \<leftarrow> hwfq_remove_flow i f s; Some (Code r, [], s) }"
| "exec (Reset_stats i f) s = do { s \<leftarrow> hwfq_reset_stats i f s; Some (Void, [], s) }"
| "exec Get_capacity_info s = Some (Info (hwfq_get_capacity_info s), [], s)"
| "exec (Get_tenant_stats i) s = do { r \<leftarrow> hwfq_get_tenant_stats i s; Some (Stats r, [], s) }"
| "exec (Get_flow_stats i f) s = do { r \<leftarrow> hwfq_get_flow_stats i f s; Some (Stats r, [], s) }"

text \<open>
  When a call may be made: the allocator answers with unused memory, no counter of sessions is full,
  and, for a dequeue, no queued session has a saturated start time.
\<close>

fun allowed :: "hwfq_call \<Rightarrow> hwfq_scheduler \<Rightarrow> bool" where
  "allowed (Enqueue env i f work) s \<longleftrightarrow> env_fresh env s \<and> has_room s"
| "allowed (Dequeue env) s \<longleftrightarrow> env_fresh env s \<and> times_fit s"
| "allowed (Complete env work i f now) s \<longleftrightarrow> env_fresh env s \<and> has_room s"
| "allowed (Add_tenant mem alloc) s \<longleftrightarrow> (\<forall>a. fst mem = Some a \<longrightarrow> tenant_heap s a = None)"
| "allowed _ s \<longleftrightarrow> True"

definition system_inv :: "hwfq_scheduler \<Rightarrow> addr list \<Rightarrow> bool" where
  "system_inv s xs \<longleftrightarrow> hwfq_inv s xs \<and> cfg_fits (hwfq_cfg s)"

section \<open>Work\<close>

text \<open>A unit of work: tenant, flow, user data and size.\<close>

type_synonym work = "u32 \<times> u32 \<times> user_ptr \<times> u64"

definition ctx_work :: "flow_session_context option \<Rightarrow> work" where
  "ctx_work c = (case c of Some ctx \<Rightarrow> (ctx_tenant_id ctx, ctx_flow_id ctx, ctx_user_data ctx, ctx_work_size ctx)
     | None \<Rightarrow> (0, 0, 0, 0))"

definition waiting :: "hwfq_scheduler \<Rightarrow> work multiset" where
  "waiting s = image_mset (\<lambda>c. ctx_work (context_heap s c)) (mset_set (pending s))"

definition entry_work :: "(u32 \<times> u32 \<times> u64 \<times> u64 \<times> u64 \<times> u64) option \<Rightarrow> work" where
  "entry_work x = (case x of Some (i, f, w, t, timeout, d) \<Rightarrow> (i, f, d, w) | None \<Rightarrow> (0, 0, 0, 0))"

definition flying :: "hwfq_scheduler \<Rightarrow> addr list \<Rightarrow> work multiset" where
  "flying s xs = mset (map (\<lambda>a. entry_work (if_info (flight s) a)) xs)"

text \<open>The ledger of a call: what its answer shows of the work it accepted and of the work it handed out.\<close>

fun accepted :: "hwfq_call \<Rightarrow> outcome \<Rightarrow> work multiset" where
  "accepted (Enqueue env i f (Some w)) (Code (Inr u)) = {#(i, f, sn_user_data w, sn_work_size w)#}"
| "accepted c r = {#}"

fun handed_out :: "outcome \<Rightarrow> work multiset" where
  "handed_out (Work (Inr (d, w, ts, i, f))) = {#(i, f, d, w)#}"
| "handed_out r = {#}"

text \<open>
  What a call may take out of the queues without handing it out: a dequeue that fails for want of capacity or
  memory at most the one unit it could not put back, the removal of a tenant only work of that tenant, and no
  other call anything.
\<close>

fun dropped :: "hwfq_call \<Rightarrow> outcome \<times> event list \<Rightarrow> work multiset \<Rightarrow> bool" where
  "dropped (Dequeue env) (Work (Inl err), ev) D \<longleftrightarrow>
     D = {#} \<or> size D = 1 \<and> (err = HWFQ_ERR_NO_WORK \<or> err = HWFQ_ERR_NO_MEMORY)"
| "dropped (Remove_tenant i) (Code (Inr u), ev) D \<longleftrightarrow> (\<forall>w \<in># D. fst w = i)"
| "dropped c r D \<longleftrightarrow> D = {#}"

text \<open>
  What a call takes out of flight: a completion or cancellation that succeeds exactly one unit, of the tenant
  and flow and, if the client gave a pointer, with the user data that it names; a scan for time-outs as many
  units as it answers, the very ones of its callbacks when it makes any; no other call anything.
\<close>

definition unit_of :: "hwfq_session option \<Rightarrow> u32 \<Rightarrow> u32 \<Rightarrow> work multiset \<Rightarrow> bool" where
  "unit_of work i f F \<longleftrightarrow> (\<exists>d w. F = {#(i, f, d, w)#} \<and>
     (case work of None \<Rightarrow> True | Some x \<Rightarrow> sn_user_data x = 0 \<or> sn_user_data x = d))"

fun timed_out_work :: "event \<Rightarrow> work list" where
  "timed_out_work (Session_timeout i f d w timeout) = [(i, f, d, w)]"
| "timed_out_work e = []"

definition reported :: "event list \<Rightarrow> work multiset" where
  "reported ev = mset (concat (map timed_out_work ev))"

fun ended :: "hwfq_call \<Rightarrow> outcome \<times> event list \<Rightarrow> work multiset \<Rightarrow> bool" where
  "ended (Complete env work i f now) (Code (Inr u), ev) F \<longleftrightarrow> unit_of work i f F"
| "ended (Cancel work i f) (Code (Inr u), ev) F \<longleftrightarrow> unit_of work i f F"
| "ended (Check_timeouts now) (Count n, ev) F \<longleftrightarrow> n = of_nat (size F) \<and> (reported ev = F \<or> reported ev = {#})"
| "ended c r F \<longleftrightarrow> F = {#}"

text \<open>The balance of a call.\<close>

definition balance ::
  "hwfq_call \<Rightarrow> outcome \<Rightarrow> work multiset \<Rightarrow> work multiset \<Rightarrow> hwfq_scheduler \<Rightarrow> addr list \<Rightarrow> hwfq_scheduler \<Rightarrow> addr list \<Rightarrow> bool"
where
  "balance c r D F s xs s' xs' \<longleftrightarrow>
     waiting s' + handed_out r + D = waiting s + accepted c r \<and>
     flying s' xs' + F = flying s xs + handed_out r"

lemma finite_tenants:
  assumes "tables_ok s"
  shows "finite (dom (tenant_heap s))"
proof -
  have "inj_on (\<lambda>a. tenant_id (the (tenant_heap s a))) (dom (tenant_heap s))"
  proof (rule inj_onI)
    fix a b assume "a \<in> dom (tenant_heap s)" "b \<in> dom (tenant_heap s)"
      "tenant_id (the (tenant_heap s a)) = tenant_id (the (tenant_heap s b))"
    then obtain t u where "tenant_heap s a = Some t" "tenant_heap s b = Some u" "tenant_id t = tenant_id u" by auto
    then show "a = b" by (rule tenant_id_unique [OF assms])
  qed
  moreover have "finite ((\<lambda>a. tenant_id (the (tenant_heap s a))) ` dom (tenant_heap s))" by (rule finite_subset [OF subset_UNIV]) simp
  ultimately show ?thesis by (rule finite_imageD [rotated])
qed

lemma finite_pending:
  assumes inv: "hwfq_inv s xs"
  shows "finite (pending s)"
proof -
  have "finite (contexts_of (flow_scheduler t))" if t: "tenant_heap s a = Some t" for a t
  proof -
    have "contexts_of (flow_scheduler t) \<subseteq> (\<lambda>q. the (payload (flow_scheduler t) q)) ` queued (flow_scheduler t)"
      by (force simp: contexts_of_def)
    moreover have "finite (queued (flow_scheduler t))"
      by (rule gs_invD(4) [OF flow_level_okD(1) [OF tenants_okD [OF hwfq_invD(3) [OF inv] t]]])
    ultimately show ?thesis by (rule finite_subset [OF _ finite_imageI])
  qed
  then have "finite (\<Union>a \<in> dom (tenant_heap s). contexts_of (flow_scheduler (the (tenant_heap s a))))"
    using finite_tenants [OF hwfq_invD(1) [OF inv]] by auto
  moreover have "pending s \<subseteq> (\<Union>a \<in> dom (tenant_heap s). contexts_of (flow_scheduler (the (tenant_heap s a))))"
    unfolding pending_def by force
  ultimately show ?thesis by (rule finite_subset [rotated])
qed

lemma waiting_same:
  assumes "pending s' = pending s" "\<And>c. c \<in> pending s \<Longrightarrow> context_heap s' c = context_heap s c"
  shows "waiting s' = waiting s"
proof (cases "finite (pending s)")
  case True
  then show ?thesis using assms by (auto simp: waiting_def intro!: image_mset_cong)
next
  case False
  then show ?thesis using assms by (simp add: waiting_def)
qed

lemma waiting_insert:
  assumes inv: "hwfq_inv s xs" and c: "c \<notin> pending s" "pending s' = insert c (pending s)"
    and C: "context_heap s' c = Some ctx" "\<And>d. d \<in> pending s \<Longrightarrow> context_heap s' d = context_heap s d"
  shows "waiting s' = waiting s + {#ctx_work (Some ctx)#}"
proof -
  have "image_mset (\<lambda>d. ctx_work (context_heap s' d)) (mset_set (pending s)) = waiting s"
    unfolding waiting_def using finite_pending [OF inv] C(2) by (auto intro!: image_mset_cong)
  then show ?thesis using finite_pending [OF inv] c C(1) by (simp add: waiting_def)
qed

lemma waiting_remove:
  assumes inv: "hwfq_inv s xs" and c: "c \<in> pending s" "pending s' = pending s - {c}" "context_heap s c = Some ctx"
    and C: "\<And>d. d \<in> pending s \<Longrightarrow> d \<noteq> c \<Longrightarrow> context_heap s' d = context_heap s d"
  shows "waiting s' + {#ctx_work (Some ctx)#} = waiting s"
proof -
  have f: "finite (pending s)" by (rule finite_pending [OF inv])
  have "mset_set (pending s) = add_mset c (mset_set (pending s - {c}))" by (rule mset_set.remove [OF f c(1)])
  then have "waiting s = add_mset (ctx_work (Some ctx)) (image_mset (\<lambda>d. ctx_work (context_heap s d)) (mset_set (pending s - {c})))"
    by (simp add: waiting_def c(3))
  moreover have "image_mset (\<lambda>d. ctx_work (context_heap s d)) (mset_set (pending s - {c})) = waiting s'"
    unfolding waiting_def c(2) using f C by (auto intro!: image_mset_cong)
  ultimately show ?thesis by simp
qed

lemma waiting_sub:
  assumes inv: "hwfq_inv s xs" and P: "pending s' = pending s - A" and C: "\<And>d. d \<in> pending s - A \<Longrightarrow> context_heap s' d = context_heap s d"
  shows "waiting s' + image_mset (\<lambda>c. ctx_work (context_heap s c)) (mset_set (pending s \<inter> A)) = waiting s"
proof -
  have f: "finite (pending s)" by (rule finite_pending [OF inv])
  have "mset_set ((pending s - A) \<union> (pending s \<inter> A)) = mset_set (pending s - A) + mset_set (pending s \<inter> A)"
    by (rule mset_set_Union) (use f in auto)
  moreover have "(pending s - A) \<union> (pending s \<inter> A) = pending s" by blast
  ultimately have "mset_set (pending s) = mset_set (pending s - A) + mset_set (pending s \<inter> A)" by simp
  moreover have "image_mset (\<lambda>d. ctx_work (context_heap s d)) (mset_set (pending s - A)) = waiting s'"
    unfolding waiting_def P using f C by (auto intro!: image_mset_cong)
  ultimately show ?thesis by (simp add: waiting_def)
qed

lemma flying_cong: "(\<And>a. a \<in> set xs \<Longrightarrow> if_info (flight s') a = if_info (flight s) a) \<Longrightarrow> flying s' xs = flying s xs"
  unfolding flying_def by (intro arg_cong [of _ _ mset] map_cong) simp_all

lemma flying_filter: "flying s (filter (\<lambda>a. a \<notin> A) xs) + flying s (filter (\<lambda>a. a \<in> A) xs) = flying s xs"
  by (induction xs) (simp_all add: flying_def)

lemma flying_sub:
  assumes "\<And>a. a \<in> set xs \<Longrightarrow> a \<notin> A \<Longrightarrow> if_info (flight s') a = if_info (flight s) a"
  shows "flying s' (filter (\<lambda>a. a \<notin> A) xs) + flying s (filter (\<lambda>a. a \<in> A) xs) = flying s xs"
proof -
  have "flying s' (filter (\<lambda>a. a \<notin> A) xs) = flying s (filter (\<lambda>a. a \<notin> A) xs)"
    by (rule flying_cong) (simp add: assms)
  then show ?thesis by (simp only: flying_filter)
qed

section \<open>One call\<close>

text \<open>The calls that may lose work.\<close>

fun may_drop :: "hwfq_call \<Rightarrow> outcome \<Rightarrow> bool" where
  "may_drop (Dequeue env) (Work (Inl err)) \<longleftrightarrow> err = HWFQ_ERR_NO_WORK \<or> err = HWFQ_ERR_NO_MEMORY"
| "may_drop (Remove_tenant i) (Code (Inr u)) \<longleftrightarrow> True"
| "may_drop c r \<longleftrightarrow> False"

lemma dropped_empty [simp]: "dropped c r {#}"
  by (cases "(c, r, {#} :: work multiset)" rule: dropped.cases) simp_all

lemma dropped_may_drop: "dropped c r D \<Longrightarrow> D = {#} \<or> may_drop c (fst r)"
  by (cases "(c, r, D)" rule: dropped.cases) auto

definition step_ok ::
  "hwfq_call \<Rightarrow> outcome \<Rightarrow> event list \<Rightarrow> hwfq_scheduler \<Rightarrow> addr list \<Rightarrow> hwfq_scheduler \<Rightarrow> addr list \<Rightarrow> bool"
where
  "step_ok c r ev s xs s' xs' \<longleftrightarrow> system_inv s' xs' \<and>
     (\<exists>D F. balance c r D F s xs s' xs' \<and> dropped c (r, ev) D \<and> ended c (r, ev) F)"

lemma step_okI:
  assumes "hwfq_inv s' xs'" "cfg_fits (hwfq_cfg s)" "hwfq_cfg s' = hwfq_cfg s"
    "waiting s' + handed_out r + D = waiting s + accepted c r"
    "flying s' xs' + F = flying s xs + handed_out r" "dropped c (r, ev) D" "ended c (r, ev) F"
  shows "step_ok c r ev s xs s' xs'"
  using assms unfolding step_ok_def system_inv_def balance_def by auto

lemma step_quiet:
  assumes "hwfq_inv s' xs" "cfg_fits (hwfq_cfg s)" "hwfq_cfg s' = hwfq_cfg s" "pending s' = pending s"
    "context_heap s' = context_heap s" "flight s' = flight s" "accepted c r = {#}" "handed_out r = {#}" "ended c (r, ev) {#}"
  shows "step_ok c r ev s xs s' xs"
proof (rule step_okI [OF assms(1-3)])
  show "waiting s' + handed_out r + {#} = waiting s + accepted c r"
    using assms(4,5,7,8) by (simp add: waiting_same [OF assms(4)])
  show "flying s' xs + {#} = flying s xs + handed_out r" using assms(6,8) by (simp add: flying_def)
qed (rule dropped_empty assms(9))+

lemma flying_size: "size (flying s xs) = length xs"
  by (simp add: flying_def)

lemma flight_distinct: "hwfq_inv s xs \<Longrightarrow> distinct xs"
  by (drule hwfq_invD(4)) (auto simp: flight_ok_iff dest: flight_seqD(4))

lemma flying_mset: "mset xs = mset ys \<Longrightarrow> flying s xs = flying s ys"
  by (simp add: flying_def)

lemma flying_Cons: "flying s (a # xs) = flying s xs + {#entry_work (if_info (flight s) a)#}"
  by (simp add: flying_def)

lemma flying_remove1:
  assumes inv: "hwfq_inv s xs" and a: "a \<in> set xs" and gone: "if_info (flight s') = (if_info (flight s))(a := None)"
  shows "flying s' (remove1 a xs) + {#entry_work (if_info (flight s) a)#} = flying s xs"
proof -
  have "flying s' (remove1 a xs) = flying s (remove1 a xs)"
    by (rule flying_cong) (use flight_distinct [OF inv] in \<open>auto simp: gone\<close>)
  moreover have "flying s xs = flying s (a # remove1 a xs)" by (rule flying_mset) (simp add: a)
  ultimately show ?thesis by (simp only: flying_Cons)
qed

lemma flying_append: "flying s (xs @ [e]) = flying s xs + {#entry_work (if_info (flight s) e)#}"
  by (simp add: flying_def)

lemma accepted_enqueue: "accepted (Enqueue env i f (Some w)) (Code (Inr u)) = {#(i, f, sn_user_data w, sn_work_size w)#}"
  by simp

lemma new_context_work: "ctx_work (Some (new_context env i f w s)) = (i, f, sn_user_data w, sn_work_size w)"
  by (simp add: ctx_work_def new_context_def)

lemma enqueue_step:
  assumes inv: "system_inv s xs" and ok: "allowed (Enqueue env i f work) s"
  obtains r ev s' xs' where "exec (Enqueue env i f work) s = Some (r, ev, s')" "step_ok (Enqueue env i f work) r ev s xs s' xs'"
proof -
  have h: "hwfq_inv s xs" "cfg_fits (hwfq_cfg s)" using inv by (simp_all add: system_inv_def)
  have a: "env_fresh env s" "has_room s" using ok by simp_all
  show thesis
  proof (cases rule: hwfq_enqueue_cases [OF h(1) a, of i f work, case_names refused ok])
    case (refused err)
    show thesis by (rule that [where r = "Code (Inl err)"]) (use refused(2) in simp, rule step_quiet [OF h(1,2)], simp_all)
  next
    case (ok w c a t t' s' ev)
    have w: "waiting s' = waiting s + {#ctx_work (Some (new_context env i f w s))#}"
      using ok(8) by (intro waiting_insert [OF h(1) ok(8,9)]) (auto simp: ok(10))
    have fl: "flying s' xs = flying s xs" by (simp add: flying_def ok(11))
    show thesis
    proof (rule that [where r = "Code (Inr ())"])
      show "exec (Enqueue env i f work) s = Some (Code (Inr ()), ev, s')" using ok(6) by simp
      show "step_ok (Enqueue env i f work) (Code (Inr ())) ev s xs s' xs"
        by (rule step_okI [OF ok(7) h(2) ok(12), where D = "{#}" and F = "{#}"])
          (simp_all only: w fl ok(2) handed_out.simps accepted_enqueue new_context_work empty_neutral simp_thms
            dropped_empty ended.simps)
    qed
  qed
qed

lemma dequeue_step:
  assumes inv: "system_inv s xs" and ok: "allowed (Dequeue env) s"
  obtains r ev s' xs' where "exec (Dequeue env) s = Some (r, ev, s')" "step_ok (Dequeue env) r ev s xs s' xs'"
proof -
  have h: "hwfq_inv s xs" "cfg_fits (hwfq_cfg s)" using inv by (simp_all add: system_inv_def)
  have a: "env_fresh env s" "times_fit s" using ok by simp_all
  show thesis
  proof (cases rule: hwfq_dequeue_cases [OF h(1) a, case_names idle stuck returned served])
    case (idle s')
    show thesis
      by (rule that [where r = "Work (Inl HWFQ_ERR_NO_WORK)" and ev = "[]" and s' = s' and xs' = xs])
        (use idle(2) in simp, rule step_quiet [OF idle(3) h(2)], simp_all only: idle accepted.simps handed_out.simps ended.simps)
  next
    case (stuck p a t s')
    show thesis
      by (rule that [where r = "Work (Inl HWFQ_ERR_INTERNAL)" and ev = "[]" and s' = s' and xs' = xs])
        (use stuck(5) in simp, rule step_quiet [OF stuck(6) h(2)], simp_all only: stuck(7-10) accepted.simps handed_out.simps ended.simps)
  next
    case (returned err p a t q c ctx fs s')
    show thesis
    proof (rule that [where r = "Work (Inl err)"])
      show "exec (Dequeue env) s = Some (Work (Inl err), [], s')" using returned(9) by simp
      have drop: "dropped (Dequeue env) (Work (Inl err), []) {#ctx_work (Some ctx)#}" using returned(8) by auto
      have fl: "flying s' xs = flying s xs" using returned(11) by (simp add: flying_def)
      show "step_ok (Dequeue env) (Work (Inl err)) [] s xs s' xs"
      proof (cases "pending s' = pending s")
        case True
        then show ?thesis
          by (intro step_okI [OF returned(10) h(2) returned(14), where D = "{#}" and F = "{#}"])
            (simp_all add: fl waiting_same [OF True] returned(13))
      next
        case False
        then have "pending s' = pending s - {c}" using returned(12) by (simp split: if_splits)
        then have "waiting s' + {#ctx_work (Some ctx)#} = waiting s"
          by (intro waiting_remove [OF h(1) returned(6) _ returned(7)]) (simp_all add: returned(13))
        then show ?thesis
          by (intro step_okI [OF returned(10) h(2) returned(14), where D = "{#ctx_work (Some ctx)#}" and F = "{#}"])
            (use drop in \<open>simp_all add: fl\<close>)
      qed
    qed
  next
    case (served p a t q c ctx e s')
    have w: "waiting s' + {#ctx_work (Some ctx)#} = waiting s"
      using served(14) by (intro waiting_remove [OF h(1) served(6,13,7)]) auto
    have e: "e \<notin> set xs" using flight_distinct [OF served(12)] by simp
    have "flying s' xs = flying s xs" by (rule flying_cong) (use e in \<open>auto simp: served(16)\<close>)
    then have fl: "flying s' (xs @ [e]) = flying s xs + {#ctx_work (Some ctx)#}"
      by (simp add: flying_append served(16) entry_work_def ctx_work_def)
    show thesis
    proof (rule that)
      show "exec (Dequeue env) s = Some (Work (Inr (ctx_user_data ctx, ctx_work_size ctx, ctx_enqueue_time_ns ctx,
          ctx_tenant_id ctx, ctx_flow_id ctx)), [], s')" using served(11) by simp
      show "step_ok (Dequeue env) (Work (Inr (ctx_user_data ctx, ctx_work_size ctx, ctx_enqueue_time_ns ctx,
          ctx_tenant_id ctx, ctx_flow_id ctx))) [] s xs s' (xs @ [e])"
        by (rule step_okI [OF served(12) h(2) served(15), where D = "{#}" and F = "{#}"])
          (use w fl in \<open>simp_all add: ctx_work_def\<close>)
    qed
  qed
qed

text \<open>The entry that a session stands for is a unit of work of its tenant, flow and user data.\<close>

lemma target_unit:
  assumes "target work i f (flight s) xs = Some a"
  shows "unit_of work i f {#entry_work (if_info (flight s) a)#}"
  using assms
  by (auto simp: target_def Let_def if_match_def unit_of_def if_info_def if_data_def entry_work_def
      split: if_splits option.splits dest!: find_SomeD)

lemma complete_step:
  assumes inv: "system_inv s xs" and ok: "allowed (Complete env work i f now) s"
  obtains r ev s' xs' where "exec (Complete env work i f now) s = Some (r, ev, s')"
    "step_ok (Complete env work i f now) r ev s xs s' xs'"
proof -
  have h: "hwfq_inv s xs" "cfg_fits (hwfq_cfg s)" using inv by (simp_all add: system_inv_def)
  have a: "fresh_in (system_scheduler s) (env_tenant_session env)" "active_session_count (system_scheduler s) \<noteq> UINT32_MAX"
    using ok env_freshD(1) by (auto simp: has_room_def)
  show thesis
  proof (cases rule: hwfq_complete_cases [OF h(1) a, of work i f now, case_names missing completed])
    case missing
    show thesis by (rule that [where r = "Code (Inl HWFQ_ERR_NOT_FOUND)"]) (use missing(2) in simp, rule step_quiet [OF h], simp_all)
  next
    case (completed a e s')
    have "a \<in> set xs" using target_Some [OF completed(1)] by blast
    note fl = flying_remove1 [OF h(1) this completed(7)] and u = target_unit [OF completed(1)]
    show thesis
      by (rule that [where r = "Code (Inr ())" and s' = s' and xs' = "remove1 a xs"],
          (use completed(3) in simp),
          rule step_okI [OF completed(4) h(2) completed(10), where D = "{#}" and F = "{#entry_work (if_info (flight s) a)#}"])
        (use fl u in \<open>simp_all add: waiting_same [OF completed(5)] completed(9)\<close>)
  qed
qed

lemma cancel_step:
  assumes inv: "system_inv s xs"
  obtains r ev s' xs' where "exec (Cancel work i f) s = Some (r, ev, s')" "step_ok (Cancel work i f) r ev s xs s' xs'"
proof -
  have h: "hwfq_inv s xs" "cfg_fits (hwfq_cfg s)" using inv by (simp_all add: system_inv_def)
  show thesis
  proof (cases rule: hwfq_cancel_cases [OF h(1), of work i f, case_names missing cancelled])
    case missing
    show thesis by (rule that [where r = "Code (Inl HWFQ_ERR_NOT_FOUND)"]) (use missing(2) in simp, rule step_quiet [OF h], simp_all)
  next
    case (cancelled a e s')
    have "a \<in> set xs" using target_Some [OF cancelled(1)] by blast
    note fl = flying_remove1 [OF h(1) this cancelled(7)] and u = target_unit [OF cancelled(1)]
    show thesis
      by (rule that [where r = "Code (Inr ())" and s' = s' and xs' = "remove1 a xs"],
          (use cancelled(3) in simp),
          rule step_okI [OF cancelled(4) h(2) cancelled(11), where D = "{#}" and F = "{#entry_work (if_info (flight s) a)#}"])
        (use fl u in \<open>simp_all add: waiting_same [OF cancelled(5)] cancelled(9)\<close>)
  qed
qed

lemma reported_timeouts:
  "(\<And>a. a \<in> set ts \<Longrightarrow> \<exists>e. if_entries (flight s) a = Some e) \<Longrightarrow>
   reported (map (timeout_event (flight s)) ts) = flying s ts"
proof (induction ts)
  case (Cons a ts)
  then obtain e where "if_entries (flight s) a = Some e" by auto
  then show ?case
    using Cons by (simp add: reported_def flying_def timeout_event_def entry_work_def if_info_def if_data_def)
qed (simp add: reported_def flying_def)

lemma timeouts_step:
  assumes inv: "system_inv s xs"
  obtains r ev s' xs' where "exec (Check_timeouts now) s = Some (r, ev, s')" "step_ok (Check_timeouts now) r ev s xs s' xs'"
proof -
  have h: "hwfq_inv s xs" "cfg_fits (hwfq_cfg s)" using inv by (simp_all add: system_inv_def)
  define gone where "gone = filter (overdue now (flight s)) xs"
  obtain s' ev where run: "hwfq_check_timeouts now s = Some (of_nat (length gone), ev, s')"
      and s': "hwfq_inv s' (filter (\<lambda>a. \<not> overdue now (flight s) a) xs)" "s' = s\<lparr>flight := flight s'\<rparr>"
        "if_info (flight s') = if_info (flight s) |` (- set gone)"
      and ev: "reported ev = reported (map (timeout_event (flight s)) (rev gone)) \<or> reported ev = {#}"
    by (rule hwfq_check_timeouts_ok [OF h(1) gone_def]) (rule that, assumption+, simp add: reported_def)
  have "set gone \<subseteq> set xs" by (auto simp: gone_def)
  then have rep: "reported (map (timeout_event (flight s)) (rev gone)) = flying s gone"
    using reported_timeouts [of "rev gone" s] flight_entry [OF hwfq_invD(4) [OF h(1)]]
    by (force simp: flying_def rev_map [symmetric])
  have same_gone: "filter (\<lambda>a. a \<in> set gone) xs = gone" by (simp add: gone_def cong: filter_cong)
  have keep: "filter (\<lambda>a. \<not> overdue now (flight s) a) xs = filter (\<lambda>a. a \<notin> set gone) xs"
    by (rule filter_cong) (auto simp: gone_def)
  have same: "hwfq_cfg s' = hwfq_cfg s" "pending s' = pending s" "context_heap s' = context_heap s"
    by (subst s'(2), simp add: pending_def)+
  have fl: "flying s' (filter (\<lambda>a. a \<notin> set gone) xs) + flying s (filter (\<lambda>a. a \<in> set gone) xs) = flying s xs"
    by (rule flying_sub) (simp add: s'(3))
  show thesis
    by (rule that [where r = "Count (of_nat (length gone))" and s' = s' and xs' = "filter (\<lambda>a. a \<notin> set gone) xs"],
        (use run in simp),
        rule step_okI [OF s'(1) [unfolded keep] h(2) same(1), where D = "{#}" and F = "flying s (filter (\<lambda>a. a \<in> set gone) xs)"])
      (use ev in \<open>simp_all add: waiting_same [OF same(2)] same(3) fl [unfolded same_gone] same_gone rep flying_size\<close>)
qed

lemma remove_tenant_step:
  assumes inv: "system_inv s xs"
  obtains (step) r ev s' xs' where "exec (Remove_tenant i) s = Some (r, ev, s')" "step_ok (Remove_tenant i) r ev s xs s' xs'"
proof -
  have h: "hwfq_inv s xs" "cfg_fits (hwfq_cfg s)" using inv by (simp_all add: system_inv_def)
  have quiet: thesis if "hwfq_remove_tenant i s = Some (Inl err, [], s)" for err
    by (rule step [where r = "Code (Inl err)"]) (use that in simp, rule step_quiet [OF h], simp_all)
  show thesis
  proof (cases rule: hwfq_remove_tenant_cases [OF h(1), of i, case_names range missing busy removed])
    case range
    show thesis by (rule quiet [OF range(2)])
  next
    case missing
    show thesis by (rule quiet [OF missing(3)])
  next
    case (busy a t)
    show thesis by (rule quiet [OF busy(3)])
  next
    case (removed a t cs s')
    have w: "waiting s' + image_mset (\<lambda>c. ctx_work (context_heap s c)) (mset_set (pending s \<inter> set cs)) = waiting s"
      by (rule waiting_sub [OF h(1) removed(7)]) (simp add: removed(8))
    have t: "tenant_heap s a = Some t" "tenant_id t = i"
      using removed(1) tenant_of_iff [OF hwfq_invD(1) [OF h(1)]] by blast+
    have "fst (ctx_work (context_heap s c)) = i" if "c \<in> set cs" for c
      using contexts_present [OF tenants_okD [OF hwfq_invD(3) [OF h(1)] t(1)], of c] that
      by (auto simp: removed(4) t(2) ctx_work_def)
    then have own: "\<forall>w \<in># image_mset (\<lambda>c. ctx_work (context_heap s c)) (mset_set (pending s \<inter> set cs)). fst w = i"
      by (auto simp: finite_set_mset_mset_set)
    show thesis
      by (rule step [where r = "Code (Inr ())" and s' = s' and xs' = xs], (use removed(5) in simp),
          rule step_okI [OF removed(6) h(2) removed(14), where F = "{#}"])
        (use w own in \<open>simp_all add: flying_def removed(13) del: set_image_mset\<close>)
  qed
qed

text \<open>The calls of the configuration leave the work alone.\<close>

lemma add_tenant_step:
  assumes inv: "system_inv s xs" and ok: "allowed (Add_tenant mem alloc) s"
  obtains (step) r ev s' xs' where "exec (Add_tenant mem alloc) s = Some (r, ev, s')" "step_ok (Add_tenant mem alloc) r ev s xs s' xs'"
proof -
  have h: "hwfq_inv s xs" "cfg_fits (hwfq_cfg s)" using inv by (simp_all add: system_inv_def)
  have fresh: "tenant_heap s a = None" if "fst mem = Some a" for a using ok that by simp
  show thesis
  proof (cases rule: hwfq_add_tenant_cases [where mem = mem and alloc = alloc, OF h fresh, case_names unused refused no_memory added])
    case (unused a)
    then show "fst mem = Some a" .
  next
    case (refused err)
    show thesis by (rule step [where r = "New_id (Inl err)"]) (use refused(2) in simp, rule step_quiet [OF h], simp_all)
  next
    case (no_memory s')
    have same: "hwfq_cfg s' = hwfq_cfg s" "context_heap s' = context_heap s" "flight s' = flight s" by (subst no_memory(6), simp)+
    show thesis
      by (rule step [where r = "New_id (Inl HWFQ_ERR_NO_MEMORY)"], (use no_memory(3) in simp), rule step_quiet [OF no_memory(4) h(2)])
        (simp_all add: same no_memory(5))
  next
    case (added r j a t s')
    show thesis
      by (rule step [where r = "New_id (Inr j)"], (use added(3) in simp), rule step_quiet [OF added(4) h(2)])
        (simp_all add: added)
  qed
qed

lemma configure_tenant_step:
  assumes inv: "system_inv s xs"
  obtains (step) r ev s' xs' where "exec (Configure_tenant i alloc) s = Some (r, ev, s')"
    "step_ok (Configure_tenant i alloc) r ev s xs s' xs'"
proof -
  have h: "hwfq_inv s xs" "cfg_fits (hwfq_cfg s)" using inv by (simp_all add: system_inv_def)
  show thesis
  proof (cases rule: hwfq_configure_tenant_cases [OF h(1), of i alloc, case_names refused overbooked changed])
    case (refused err)
    show thesis by (rule step [where r = "Code (Inl err)"]) (use refused(2) in simp, rule step_quiet [OF h], simp_all)
  next
    case (overbooked r a t)
    show thesis by (rule step [where r = "Code (Inl HWFQ_ERR_OVERBOOKED)"]) (use overbooked(3) in simp, rule step_quiet [OF h], simp_all)
  next
    case (changed r a t s')
    show thesis
      by (rule step [where r = "Code (Inr ())"], (use changed(2) in simp), rule step_quiet [OF changed(3) h(2)])
        (simp_all add: changed)
  qed
qed

lemma add_flow_step:
  assumes inv: "system_inv s xs"
  obtains (step) r ev s' xs' where "exec (Add_flow mem i alloc) s = Some (r, ev, s')" "step_ok (Add_flow mem i alloc) r ev s xs s' xs'"
proof -
  have h: "hwfq_inv s xs" "cfg_fits (hwfq_cfg s)" using inv by (simp_all add: system_inv_def)
  show thesis
  proof (cases rule: hwfq_add_flow_cases [OF h(1), of i alloc mem, case_names refused full failed added])
    case (refused err)
    show thesis by (rule step [where r = "New_id (Inl err)"]) (use refused(2) in simp, rule step_quiet [OF h], simp_all)
  next
    case (full r a t)
    show thesis by (rule step [where r = "New_id (Inl HWFQ_ERR_NO_MEMORY)"]) (use full(4) in simp, rule step_quiet [OF h], simp_all)
  next
    case (failed err r a t fs')
    show thesis
      by (rule step [where r = "New_id (Inl err)"], (use failed(3) in simp), rule step_quiet [OF failed(4) h(2)])
        (use failed(5) in simp_all)
  next
    case (added r a t f fs')
    show thesis
      by (rule step [where r = "New_id (Inr f)"], (use added(2) in simp), rule step_quiet [OF added(3) h(2)])
        (use added(4) in simp_all)
  qed
qed

lemma reconfigure_flow_step:
  assumes inv: "system_inv s xs"
  obtains (step) r ev s' xs' where "exec (Reconfigure_flow i f alloc) s = Some (r, ev, s')"
    "step_ok (Reconfigure_flow i f alloc) r ev s xs s' xs'"
proof -
  have h: "hwfq_inv s xs" "cfg_fits (hwfq_cfg s)" using inv by (simp_all add: system_inv_def)
  show thesis
  proof (cases rule: hwfq_reconfigure_flow_cases [OF h(1), of f alloc i, case_names refused missing overbooked changed])
    case (refused err)
    show thesis by (rule step [where r = "Code (Inl err)"]) (use refused(2) in simp, rule step_quiet [OF h], simp_all)
  next
    case (missing r a t)
    show thesis by (rule step [where r = "Code (Inl HWFQ_ERR_NOT_FOUND)"]) (use missing(3) in simp, rule step_quiet [OF h], simp_all)
  next
    case (overbooked r a t)
    show thesis by (rule step [where r = "Code (Inl HWFQ_ERR_OVERBOOKED)"]) (use overbooked(3) in simp, rule step_quiet [OF h], simp_all)
  next
    case (changed r a t fs')
    show thesis
      by (rule step [where r = "Code (Inr ())"], (use changed(4) in simp), rule step_quiet [OF changed(5) h(2)])
        (simp_all add: changed(6))
  qed
qed

lemma remove_flow_step:
  assumes inv: "system_inv s xs"
  obtains (step) r ev s' xs' where "exec (Remove_flow i f) s = Some (r, ev, s')" "step_ok (Remove_flow i f) r ev s xs s' xs'"
proof -
  have h: "hwfq_inv s xs" "cfg_fits (hwfq_cfg s)" using inv by (simp_all add: system_inv_def)
  have quiet: thesis if "hwfq_remove_flow i f s = Some (Inl err, s)" for err
    by (rule step [where r = "Code (Inl err)"]) (use that in simp, rule step_quiet [OF h], simp_all)
  show thesis
  proof (cases rule: hwfq_remove_flow_cases [OF h(1), of i f, case_names range missing busy removed])
    case range
    show thesis by (rule quiet [OF range(2)])
  next
    case missing
    show thesis by (rule quiet [OF missing(3)])
  next
    case (busy a t e)
    show thesis by (rule quiet [OF busy(5)])
  next
    case (removed a t e fs' s')
    have same: "hwfq_cfg s' = hwfq_cfg s" "context_heap s' = context_heap s" "flight s' = flight s" by (subst removed(8), simp)+
    show thesis
      by (rule step [where r = "Code (Inr ())"], (use removed(5) in simp), rule step_quiet [OF removed(6) h(2)])
        (simp_all add: same removed(7))
  qed
qed

lemma reset_stats_step:
  assumes inv: "system_inv s xs"
  obtains (step) r ev s' xs' where "exec (Reset_stats i f) s = Some (r, ev, s')" "step_ok (Reset_stats i f) r ev s xs s' xs'"
proof -
  have h: "hwfq_inv s xs" "cfg_fits (hwfq_cfg s)" using inv by (simp_all add: system_inv_def)
  obtain s' where s': "hwfq_reset_stats i f s = Some s'" "hwfq_inv s' xs" "pending s' = pending s" "keeps_backlog s' s"
    by (rule hwfq_reset_stats_ok [OF h(1)])
  obtain H where H: "s' = s\<lparr>tenant_heap := H\<rparr>" using s'(4) by (auto simp: keeps_backlog_def)
  show thesis
    by (rule step [where r = Void], (use s'(1) in simp), rule step_quiet [OF s'(2) h(2)]) (simp_all add: H s'(3) [unfolded H])
qed

text \<open>The getters change nothing.\<close>

lemma getter_step:
  assumes inv: "system_inv s xs" and c: "c = Get_capacity_info \<or> c = Get_tenant_stats i \<or> c = Get_flow_stats i f"
  obtains r ev s' xs' where "exec c s = Some (r, ev, s')" "step_ok c r ev s xs s' xs'"
proof -
  have h: "hwfq_inv s xs" "cfg_fits (hwfq_cfg s)" using inv by (simp_all add: system_inv_def)
  obtain r where r: "exec c s = Some (r, [], s)" "accepted c r = {#}" "handed_out r = {#}" "ended c (r, []) {#}"
  proof (cases rule: disjE [OF c, case_names capacity stats])
    case capacity
    then show thesis by (intro that [of "Info (hwfq_get_capacity_info s)"]) simp_all
  next
    case stats
    then show thesis
      using hwfq_get_tenant_stats_eq [OF h(1), of i] hwfq_get_flow_stats_eq [OF h(1), of i f] that by auto
  qed
  show thesis by (rule that [OF r(1)], rule step_quiet [OF h]) (simp_all add: r)
qed

text \<open>Every call that may be made is defined, and keeps the invariant and the balance.\<close>

lemma exec_ok:
  assumes "system_inv s xs" "allowed c s"
  obtains r ev s' xs' where "exec c s = Some (r, ev, s')" "step_ok c r ev s xs s' xs'"
  using assms
  by (cases c)
    (blast elim: enqueue_step dequeue_step complete_step cancel_step timeouts_step add_tenant_step configure_tenant_step
      remove_tenant_step add_flow_step reconfigure_flow_step remove_flow_step reset_stats_step getter_step)+

section \<open>Runs of a client\<close>

text \<open>\<open>exec\<close> as a step of \<open>Ledger\<close>: the answer of a call is its outcome with the callbacks it made.\<close>

definition hwfq_step :: "hwfq_call \<Rightarrow> hwfq_scheduler \<Rightarrow> ((outcome \<times> event list) \<times> hwfq_scheduler) option" where
  "hwfq_step c s = map_option (\<lambda>(r, ev, s'). ((r, ev), s')) (exec c s)"

definition taken_in :: "hwfq_call \<Rightarrow> outcome \<times> event list \<Rightarrow> work multiset" where
  "taken_in c r = accepted c (fst r)"

definition given_out :: "hwfq_call \<Rightarrow> outcome \<times> event list \<Rightarrow> work multiset" where
  "given_out c r = handed_out (fst r)"

definition may_lose :: "hwfq_call \<Rightarrow> outcome \<times> event list \<Rightarrow> bool" where
  "may_lose c r \<longleftrightarrow> may_drop c (fst r)"

lemma hwfq_step_Some: "exec c s = Some (r, ev, s') \<Longrightarrow> hwfq_step c s = Some ((r, ev), s')"
  by (simp add: hwfq_step_def)

lemma dropped_may_lose: "dropped c r D \<Longrightarrow> D = {#} \<or> may_lose c r"
  using dropped_may_drop by (simp add: may_lose_def)

interpretation client: ledger hwfq_step allowed system_inv waiting flying taken_in given_out dropped ended
proof unfold_locales
  fix s xs c
  assume "system_inv s xs" "allowed c s"
  then obtain r ev s' xs' where step: "exec c s = Some (r, ev, s')" and ok: "step_ok c r ev s xs s' xs'" by (rule exec_ok)
  obtain D F where bal: "balance c r D F s xs s' xs'" "dropped c (r, ev) D" "ended c (r, ev) F" and inv: "system_inv s' xs'"
    using ok unfolding step_ok_def by blast
  have "waiting s' + given_out c (r, ev) + D = waiting s + taken_in c (r, ev)"
    "flying s' xs' + F = flying s xs + given_out c (r, ev)"
    using bal(1) by (simp_all add: balance_def given_out_def taken_in_def)
  with hwfq_step_Some [OF step] inv bal(2,3)
  show "\<exists>r s' xs' D F. hwfq_step c s = Some (r, s') \<and> system_inv s' xs' \<and>
      waiting s' + given_out c r + D = waiting s + taken_in c r \<and> dropped c r D \<and>
      flying s' xs' + F = flying s xs + given_out c r \<and> ended c r F"
    by (intro exI conjI)
qed

text \<open>A scheduler fresh from \<open>hwfq_init\<close> holds no work.\<close>

lemma fresh_scheduler:
  assumes "cfg_fits (with_defaults c)" "hwfq_init mem (Some c) = Some (Inr s)"
  shows "system_inv s []" "waiting s = {#}" "flying s [] = {#}"
proof -
  have "hwfq_inv s [] \<and> hwfq_cfg s = with_defaults c \<and> pending s = {}"
    by (cases rule: hwfq_init_cases [OF assms(1), of mem]) (use assms(2) in auto)
  then show "system_inv s []" "waiting s = {#}" "flying s [] = {#}"
    using assms(1) by (simp_all add: system_inv_def waiting_def flying_def)
qed

end
