(* ===== verification/HWFQ_Example.thy ===== *)
theory HWFQ_Example
  imports HWFQ_System
begin

text \<open>
  A small run of the library, evaluated step by step: \<open>ex_new\<close> is a scheduler for two tenants,
  \<open>ex_tenant\<close> has a tenant, \<open>ex_flow\<close> also a flow, in \<open>ex_queued\<close> one unit of work waits in it, and in
  \<open>ex_served\<close> it is in flight.  The properties of the whole library are applied to these states.
\<close>

section \<open>The calls and the states\<close>

text \<open>The loops that may not end are executable as well.\<close>

declare double_until.simps [code] map_configured.simps [code] find_previous.simps [code] destroy_bin.simps [code]
  rebase_bin.simps [code] insert_position.simps [code] skip_while.simps [code] fold_list.simps [code]
  find_in_bucket.simps [code] find_in_list.simps [code] hash_unlink.simps [code] collect_timeouts.simps [code]
  report_timeouts.simps [code]

definition ex_cfg :: hwfq_config where
  "ex_cfg = \<lparr>cfg_max_tenants = 2, cfg_max_flows_per_tenant = 4, cfg_max_total_flows = 0, cfg_num_groups = 16,
     cfg_bins_per_group = 1, cfg_total_capacity = 1000000, enable_statistics = True,
     session_available_set = True, session_timeout_set = True\<rparr>"

definition ex_mem :: add_tenant_mem where
  "ex_mem = (Some 1, (True, True), (True, True, True), (True, True))"

definition ex_env :: env where
  "ex_env = \<lparr>env_time = (0, 100), env_context = Some 1, env_flow_session = Some 1, env_flow_time = (0, 100),
     env_tenant_session = Some 1, env_tenant_time = (0, 100), env_entry = Some 1\<rparr>"

definition ex_later :: env where
  "ex_later = \<lparr>env_time = (0, 200), env_context = None, env_flow_session = None, env_flow_time = (0, 200),
     env_tenant_session = None, env_tenant_time = (0, 200), env_entry = Some 1\<rparr>"

definition ex_work :: hwfq_session where
  "ex_work = \<lparr>sn_user_data = 7, sn_work_size = 4096, sn_timestamp = 0, sn_timeout_ns = 10, sn_cleanup_fn = Some 3\<rparr>"

definition ex_level :: "u32 \<Rightarrow> level" where
  "ex_level ids = \<lparr>bin_bitfield = [0], bin_heads = replicate 16 None, group_bitfield = replicate 32 0,
     entries = \<lparr>chunks = [], num_chunks = 0, num_allocated = 0, num_configured = 0,
       free_head = HWFQ_ENTRY_NONE, max_entries = ids\<rparr>,
     gs_max_entries = ids, configured_entries_head = None, allocated_rate_capacity = 0, total_weight = 0,
     num_groups = 16, bins_per_group = 1, num_bins = 16, bin_bitfield_size = 1, base_interval = 1,
     total_capacity = 1000000, virtual_time = 0, active_session_count = 0, min_finish_time = UINT64_MAX,
     min_start_time = UINT64_MAX, min_session = None, sessions = Map.empty\<rparr>"

text \<open>One configured entry, in a chunk of 1024 entries of which the first \<open>n\<close> are given out.\<close>

definition ex_entry :: "u32 \<Rightarrow> hwfq_stats \<Rightarrow> u64 \<Rightarrow> entry_config" where
  "ex_entry i st fin = \<lparr>entry_id = i, configured = True, allocation = Weight 1, calculated_rate = 500000,
     last_finish_time = fin, next_configured = None, stats = st, tracking = zero_tracking\<rparr>"

definition ex_store :: "u32 \<Rightarrow> entry_config list \<Rightarrow> level \<Rightarrow> level" where
  "ex_store n es gs = gs\<lparr>entries := \<lparr>chunks = [Some es], num_chunks = 1, num_allocated = n,
     num_configured = n, free_head = HWFQ_ENTRY_NONE, max_entries = max_entries (entries gs)\<rparr>\<rparr>"

text \<open>A level with one session, in bin 13.\<close>

definition ex_session :: "u32 \<Rightarrow> addr \<Rightarrow> level_cleanup option \<Rightarrow> (addr, level_cleanup) session_state" where
  "ex_session i d fn = \<lparr>sess_entry_id = i, start_time = 0, finish_time = 8589, service_interval = 8589,
     group_index = 13, bin_index = 13, user_data = Some d, work_size = 4096, bin_next = None, bin_prev = None,
     enqueue_time_ns = 100, cleanup_fn = fn\<rparr>"

definition ex_busy :: "(addr, level_cleanup) session_state \<Rightarrow> level \<Rightarrow> level" where
  "ex_busy so gs = gs\<lparr>bin_bitfield := [8192], bin_heads := (replicate 16 None)[13 := Some 1],
     group_bitfield := (replicate 32 0)[0 := 1], active_session_count := 1, min_finish_time := 8589,
     min_start_time := 0, min_session := Some 1, sessions := [1 \<mapsto> so]\<rparr>"

definition ex_sys :: "u64 \<Rightarrow> level" where
  "ex_sys fin = (ex_store 1 ((replicate 1024 zero_entry)[0 := ex_entry 0 zero_stats fin]) (ex_level 2))
     \<lparr>configured_entries_head := Some 0, total_weight := 1\<rparr>"

definition ex_flows :: "hwfq_stats \<Rightarrow> u64 \<Rightarrow> level" where
  "ex_flows st fin = (ex_store 2 ((replicate 1024 zero_entry)[1 := ex_entry 1 st fin]) (ex_level 5))
     \<lparr>configured_entries_head := Some 1, total_weight := 1\<rparr>"

definition ex_tenant_config :: "level \<Rightarrow> addr option \<Rightarrow> hwfq_stats \<Rightarrow> tenant_config" where
  "ex_tenant_config fs session st = \<lparr>tenant_id = 0, tenant_allocation = Weight 1, tenant_configured = True,
     flow_scheduler = fs, has_backlog = (session \<noteq> None), tenant_session = session, tenant_stats = st,
     tenant_tracking = zero_tracking\<rparr>"

definition ex_new :: hwfq_scheduler where
  "ex_new = \<lparr>hwfq_cfg = ex_cfg, tenants = [None, None], num_configured_tenants = 0, total_active_flows = 0,
     hwfq_allocated_rate_capacity = 0, system_scheduler = ex_level 2,
     flight = \<lparr>in_flight_work_size = 0, in_flight_count = 0, in_flight_hash = replicate 1024 None,
       in_flight_head = None, in_flight_tail = None, if_entries = Map.empty\<rparr>,
     tenant_heap = Map.empty, context_heap = Map.empty\<rparr>"

definition ex_tenant :: hwfq_scheduler where
  "ex_tenant = ex_new\<lparr>tenants := [Some 1, None], num_configured_tenants := 1, system_scheduler := ex_sys 0,
     tenant_heap := [1 \<mapsto> ex_tenant_config (ex_store 1 (replicate 1024 zero_entry) (ex_level 5)) None zero_stats]\<rparr>"

definition ex_flow :: hwfq_scheduler where
  "ex_flow = ex_tenant\<lparr>total_active_flows := 1,
     tenant_heap := [1 \<mapsto> ex_tenant_config (ex_flows zero_stats 0) None zero_stats]\<rparr>"

text \<open>The statistics with one unit of work queued.\<close>

definition ex_stats :: hwfq_stats where
  "ex_stats = zero_stats\<lparr>current_backlog := 1\<rparr>"

definition ex_queued :: hwfq_scheduler where
  "ex_queued = ex_flow\<lparr>system_scheduler := ex_busy (ex_session 0 1 None) (ex_sys 8589),
     tenant_heap := [1 \<mapsto> ex_tenant_config (ex_busy (ex_session 1 1 (Some Flow_context_cleanup)) (ex_flows ex_stats 8589))
       (Some 1) ex_stats],
     context_heap := [1 \<mapsto> \<lparr>ctx_tenant_id = 0, ctx_flow_id = 1, ctx_user_data = 7, ctx_work_size = 4096,
       ctx_enqueue_time_ns = 100, ctx_timeout_ns = 10, ctx_cleanup_fn = Some 3\<rparr>]\<rparr>"

text \<open>
  When the last session leaves a level its minimal start time is \<open>UINT64_MAX\<close>, the virtual time follows
  it and the rebase halves it.
\<close>

definition ex_served :: hwfq_scheduler where
  "ex_served = ex_flow\<lparr>system_scheduler := (ex_sys 0)\<lparr>virtual_time := 2 ^ 63\<rparr>,
     tenant_heap := [1 \<mapsto> ex_tenant_config ((ex_flows (ex_stats\<lparr>total_wait_time_ns := 100\<rparr>) 0)\<lparr>virtual_time := 2 ^ 63\<rparr>)
       None (ex_stats\<lparr>total_wait_time_ns := 100\<rparr>)],
     flight := \<lparr>in_flight_work_size = 4096, in_flight_count = 1, in_flight_hash = (replicate 1024 None)[983 := Some 1],
       in_flight_head = Some 1, in_flight_tail = Some 1,
       if_entries = [1 \<mapsto> \<lparr>if_tenant_id = 0, if_flow_id = 1, if_work_size = 4096, dequeue_time_ns = 200,
         if_timeout_ns = 10, if_user_data = 7, hash_next = None, list_next = None, list_prev = None\<rparr>]\<rparr>\<rparr>"

text \<open>
  \<open>ex_unregistered\<close> is \<open>ex_queued\<close> when there was no memory for the session of the tenant: the work waits,
  and the tenant has no registered backlog.
\<close>

definition ex_unregistered :: hwfq_scheduler where
  "ex_unregistered = ex_queued\<lparr>system_scheduler := ex_sys 0,
     tenant_heap := [1 \<mapsto> ex_tenant_config (ex_busy (ex_session 1 1 (Some Flow_context_cleanup)) (ex_flows ex_stats 8589))
       None ex_stats]\<rparr>"

text \<open>
  In \<open>ex_wrapping\<close> a second unit waits while the first is in flight.  Its size is \<open>2 ^ 64 - 4096\<close>, so that the
  sizes of the two add up to 0 in 64 bits.
\<close>

definition ex_huge :: hwfq_session where
  "ex_huge = \<lparr>sn_user_data = 8, sn_work_size = - 4096, sn_timestamp = 0, sn_timeout_ns = 0, sn_cleanup_fn = None\<rparr>"

definition ex_next :: env where
  "ex_next = ex_env\<lparr>env_entry := Some 2\<rparr>"

definition ex_last :: env where
  "ex_last = ex_later\<lparr>env_entry := Some 2\<rparr>"

definition ex_late_session :: "u64 \<Rightarrow> u64 \<Rightarrow> u32 \<Rightarrow> u64 \<Rightarrow> (addr, level_cleanup) session_state \<Rightarrow> (addr, level_cleanup) session_state" where
  "ex_late_session fin service g work so = so\<lparr>start_time := 2 ^ 63, finish_time := fin, service_interval := service,
     group_index := g, bin_index := g, work_size := work\<rparr>"

definition ex_late :: "(addr, level_cleanup) session_state \<Rightarrow> level \<Rightarrow> level" where
  "ex_late so gs = gs\<lparr>bin_bitfield := [2 ^ unat (bin_index so)], bin_heads := (replicate 16 None)[unat (bin_index so) := Some 1],
     group_bitfield := (replicate 32 0)[0 := 1], virtual_time := 2 ^ 63, active_session_count := 1,
     min_finish_time := finish_time so, min_start_time := 2 ^ 63, min_session := Some 1, sessions := [1 \<mapsto> so]\<rparr>"

definition ex_late_flow :: "(addr, level_cleanup) session_state" where
  "ex_late_flow = ex_late_session 9223408930342923227 36893488147419 15 (- 4096) (ex_session 1 1 (Some Flow_context_cleanup))"

definition ex_late_tenant :: "(addr, level_cleanup) session_state" where
  "ex_late_tenant = ex_late_session 9223372036854784397 8589 13 4096 (ex_session 0 1 None)"

definition ex_wrapping :: hwfq_scheduler where
  "ex_wrapping = ex_served\<lparr>system_scheduler := ex_late ex_late_tenant (ex_sys 9223372036854784397),
     tenant_heap := [1 \<mapsto> ex_tenant_config (ex_late ex_late_flow
         (ex_flows (ex_stats\<lparr>total_wait_time_ns := 100, current_backlog := 2\<rparr>) 9223408930342923227))
       (Some 1) (ex_stats\<lparr>total_wait_time_ns := 100, current_backlog := 2\<rparr>)],
     context_heap := [1 \<mapsto> \<lparr>ctx_tenant_id = 0, ctx_flow_id = 1, ctx_user_data = 8, ctx_work_size = - 4096,
       ctx_enqueue_time_ns = 100, ctx_timeout_ns = 0, ctx_cleanup_fn = None\<rparr>]\<rparr>"

section \<open>The run\<close>

text \<open>Facts that let the simplifier evaluate a call.  Arrays of a thousand zeros stay folded.\<close>

lemma zero_entry_fields:
  "entry_id zero_entry = 0" "configured zero_entry = False" "allocation zero_entry = Weight 0"
  "calculated_rate zero_entry = 0" "last_finish_time zero_entry = 0" "next_configured zero_entry = None"
  "stats zero_entry = zero_stats" "tracking zero_entry = zero_tracking"
  by (simp_all add: zero_entry_def)

lemma zero_stats_fields: "current_backlog zero_stats = 0" "total_wait_time_ns zero_stats = 0"
  by (simp_all add: zero_stats_def)

lemma zero_entry_again: "\<lparr>entry_id = 0, configured = False, allocation = Weight 0, calculated_rate = 0,
    last_finish_time = 0, next_configured = None, stats = zero_stats, tracking = zero_tracking\<rparr> = zero_entry"
  by (simp add: zero_entry_def)

lemma zero_entry_update: "zero_entry\<lparr>configured := False\<rparr> = zero_entry"
  "zero_entry\<lparr>entry_id := i\<rparr> = \<lparr>entry_id = i, configured = False, allocation = Weight 0, calculated_rate = 0,
     last_finish_time = 0, next_configured = None, stats = zero_stats, tracking = zero_tracking\<rparr>"
  "zero_entry\<lparr>allocation := a\<rparr> = \<lparr>entry_id = 0, configured = False, allocation = a, calculated_rate = 0,
     last_finish_time = 0, next_configured = None, stats = zero_stats, tracking = zero_tracking\<rparr>"
  by (simp_all add: zero_entry_def)

lemma replicate_update: "(replicate n x)[i := x] = replicate n x"
  by (cases "i < n") (simp_all add: list_eq_iff_nth_eq nth_list_update)

lemma replicate_2: "replicate 2 x = [x, x]"
  by (simp add: numeral_2_eq_2)

lemma numeral_le_one:
  "(numeral n \<le> (1 :: 'a::len word)) = (unat (numeral n :: 'a word) \<le> 1)"
  "(numeral n < (1 :: 'a::len word)) = (unat (numeral n :: 'a word) < 1)"
  by (simp_all add: word_le_nat_alt word_less_nat_alt)

lemma numeral_max:
  "(numeral n = (- 1 :: u64)) = (uint (numeral n :: u64) = 2 ^ 64 - 1)" "(0 :: u64) < - 1"
  "(numeral n < (- 1 :: u64)) = (uint (numeral n :: u64) < 2 ^ 64 - 1)" "\<not> (x :: u64) < 0"
  by (simp_all add: word_less_def word_uint_eq_iff uint_word_ariths)

lemma half_max: "(- 9223372036854775808 :: u64) = 9223372036854775808"
  by simp

lemma upt_small:
  "[0..<2] = [0, 1 :: nat]"
  "[0..<16] = [0, 1, 2, 3, 4, 5, 6, 7, 8, 9, 10, 11, 12, 13, 14, 15 :: nat]"
  "[0..<32] = [0, 1, 2, 3, 4, 5, 6, 7, 8, 9, 10, 11, 12, 13, 14, 15, 16, 17, 18, 19, 20, 21, 22, 23, 24,
     25, 26, 27, 28, 29, 30, 31 :: nat]"
  by (simp_all add: upt_rec)

lemma ctz_small: "builtin_ctz (1 :: u32) = Some 0" "builtin_ctz (8192 :: u32) = Some 13"
  by code_simp+

lemma for_bits_single:
  assumes "builtin_ctz w = Some b" "w AND NOT (2 ^ b) = 0" "w \<noteq> 0"
  shows "for_bits w body s = body b s"
  by (cases "body b s") (simp_all add: for_bits.simps [of w] for_bits.simps [of 0] assms)

lemma for_bits_break_single:
  assumes "builtin_ctz w = Some b" "w AND NOT (2 ^ b) = 0" "w \<noteq> 0"
  shows "for_bits_break w body s = map_option fst (body b s)"
  by (cases "body b s") (simp_all add: for_bits_break.simps [of w] for_bits_break.simps [of 0] assms split: prod.split)

lemmas one_bit = for_bits_single [OF ctz_small(1)] for_bits_single [OF ctz_small(2)]
  for_bits_break_single [OF ctz_small(1)] for_bits_break_single [OF ctz_small(2)]

lemma calendar_place:
  "service_interval_of 4096 500000 = 8589" "calculate_group_index_from_interval 8589 1 = Some 13"
  "calculate_bin_index_from_finish_time 8589 13 1 1 = Some 0" "hash_user_data 7 = 983"
  by code_simp+

lemmas eval_words = Let_def numeral_le_one numeral_max half_max upt_small one_bit calendar_place clock_ns_def get_time_ns_def

lemmas eval_entries = zero_entry_fields zero_entry_again zero_entry_update replicate_update replicate_2
  hwfq_chunked_entries_init_def hwfq_chunked_entries_alloc_def alloc_from_free_list_def allocate_chunk_def
  double_until.simps [of 1 1] max_ids_def entry_load_def entry_store_def hwfq_chunked_decode_def
  hwfq_chunked_get_def hwfq_chunked_encode_def arr_get_def arr_set_def

lemmas eval_level = group_scheduler_init_with_entries_def group_scheduler_init_common_def hwfq_alloc_def
  group_scheduler_configure_entry_def release_share_def restore_share_def group_scheduler_get_entry_def
  recalculate_weight_based_rates_def map_configured.simps [of _ None] map_configured.simps [of _ "Some p" for p]
  calculate_effective_rate_def session_rate_def group_scheduler_find_entry_def

lemmas eval_config = hwfq_init_def hwfq_add_tenant_def hwfq_add_flow_def validate_allocation_def free_slot.simps
  would_exceed_capacity_def reserve_flow_zero_def tenant_capacity_def put_tenant_def configured_tenant_def tenant_at_def

lemmas eval_enqueue = hwfq_enqueue_def ensure_flow_entry_def find_flow_entry_def with_flow_entry_def
  modify_flow_entry_def group_scheduler_enqueue_def calendar_insert_session_def modify_session_def bin_list_insert_def
  insert_position.simps [of _ _ None] set_bin_bit_def set_group_bit_def register_tenant_backlog_def add_backlog_def

lemmas eval_dequeue = hwfq_dequeue_def dequeue_tenant_def hand_out_def group_scheduler_dequeue_def
  calendar_find_min_session_def find_eligible_min_bitfield_def scan_word_def scan_bin_def
  skip_while.simps [of _ _ None] skip_while.simps [of _ _ "Some a" for a] calendar_remove_session_def
  bin_list_remove_def bin_list_is_empty_def clear_bin_bit_def clear_group_bit_def recompute_min_start_def
  min_start_word_def min_start_bin_def fold_list.simps [of _ _ None] fold_list.simps [of _ _ "Some a" for a]
  group_scheduler_update_virtual_time_def group_scheduler_rebase_if_needed_def rebase_time_def
  rebase_bin.simps [of _ None] group_scheduler_is_empty_def session_get_user_data_def session_get_work_size_def
  hwfq_free_def in_flight_insert_def modify_entry_def add_wait_def

lemmas ex_states = ex_cfg_def ex_level_def ex_entry_def ex_store_def ex_session_def ex_busy_def ex_sys_def ex_flows_def
  ex_tenant_config_def ex_new_def ex_tenant_def ex_flow_def ex_stats_def ex_queued_def ex_served_def zero_stats_fields

lemma ex_new_run: "hwfq_init (True, True, (True, True, True), True) (Some ex_cfg) = Some (Inr ex_new)"
  by (simp add: ex_states eval_config eval_level eval_entries eval_words)

lemma ex_tenant_run: "hwfq_add_tenant ex_mem (Some (Weight 1)) ex_new = Some (Inr 0, ex_tenant)"
  by (simp add: ex_mem_def ex_states eval_config eval_level eval_entries eval_words
      cong: if_weak_cong option.case_cong_weak split del: if_split)

lemma ex_flow_run: "hwfq_add_flow (True, True) 0 (Some (Weight 1)) ex_tenant = Some (Inr 1, ex_flow)"
  by (simp add: ex_states eval_config eval_level eval_entries eval_words
      cong: if_weak_cong option.case_cong_weak split del: if_split)

lemma ex_queued_run: "hwfq_enqueue ex_env 0 1 (Some ex_work) ex_flow = Some (Inr (), [Session_available], ex_queued)"
  by (simp add: ex_env_def ex_work_def ex_states eval_enqueue eval_config eval_level eval_entries eval_words
      cong: if_weak_cong option.case_cong_weak split del: if_split)

lemma ex_served_run: "hwfq_dequeue ex_later ex_queued = Some (Inr (7, 4096, 100, 0, 1), ex_served)"
  by (simp add: ex_later_def ex_states eval_dequeue eval_enqueue eval_config eval_level eval_entries eval_words
      cong: if_weak_cong option.case_cong_weak split del: if_split)

lemma ex_unregistered_run:
  "hwfq_enqueue (ex_env\<lparr>env_tenant_session := None\<rparr>) 0 1 (Some ex_work) ex_flow =
     Some (Inr (), [Session_available], ex_unregistered)"
  by (simp add: ex_env_def ex_work_def ex_unregistered_def ex_states eval_enqueue eval_config eval_level eval_entries eval_words
      cong: if_weak_cong option.case_cong_weak split del: if_split)

lemma huge_place:
  "service_interval_of (- 4096) 500000 = 36893488147419" "calculate_group_index_from_interval 36893488147419 1 = Some 15"
  "calculate_bin_index_from_finish_time 9223408930342923227 15 1 1 = Some 0"
  "calculate_bin_index_from_finish_time 9223372036854784397 13 1 1 = Some 0"
  by code_simp+

lemmas ex_late_states = ex_wrapping_def ex_late_def ex_late_session_def ex_late_flow_def ex_late_tenant_def

lemma ex_wrapping_run: "hwfq_enqueue ex_next 0 1 (Some ex_huge) ex_served = Some (Inr (), [Session_available], ex_wrapping)"
  by (simp add: ex_huge_def ex_next_def ex_env_def ex_late_states huge_place ex_states eval_enqueue eval_config eval_level
      eval_entries eval_words cong: if_weak_cong option.case_cong_weak split del: if_split)

text \<open>The same steps as answers of \<open>hwfq_step\<close>.\<close>

lemma ex_steps:
  "hwfq_step (Add_tenant ex_mem (Some (Weight 1))) ex_new = Some ((New_id (Inr 0), []), ex_tenant)"
  "hwfq_step (Add_flow (True, True) 0 (Some (Weight 1))) ex_tenant = Some ((New_id (Inr 1), []), ex_flow)"
  "hwfq_step (Enqueue ex_env 0 1 (Some ex_work)) ex_flow = Some ((Code (Inr ()), [Session_available]), ex_queued)"
  "hwfq_step (Dequeue ex_later) ex_queued = Some ((Work (Inr (7, 4096, 100, 0, 1)), []), ex_served)"
  by (simp_all add: hwfq_step_def ex_tenant_run ex_flow_run ex_queued_run ex_served_run)

section \<open>The states are well-formed\<close>

lemma ex_env_fields:
  "env_context ex_env = Some 1" "env_entry ex_later = Some 1" "get_time_ns ex_later = 200"
  "env_tenant_session ex_later = None"
  by (simp_all add: ex_env_def ex_later_def get_time_ns_def clock_ns_def)

lemma ex_cfg_fits: "cfg_fits (with_defaults ex_cfg)"
  by (simp add: cfg_fits_def with_defaults_def ex_cfg_def)

lemma ex_configs: "hwfq_cfg ex_new = ex_cfg" "hwfq_cfg ex_tenant = ex_cfg" "hwfq_cfg ex_flow = ex_cfg"
  "hwfq_cfg ex_queued = ex_cfg" "hwfq_cfg ex_served = ex_cfg"
  by (simp_all add: ex_new_def ex_tenant_def ex_flow_def ex_queued_def ex_served_def)

lemma ex_cfg_fits': "cfg_fits ex_cfg"
  by (simp add: cfg_fits_def ex_cfg_def)

lemma ex_new_inv: "hwfq_inv ex_new []"
  using fresh_scheduler(1) [OF ex_cfg_fits ex_new_run] by (simp add: system_inv_def)

lemma ex_tenant_allowed: "fst ex_mem = Some a \<Longrightarrow> tenant_heap ex_new a = None"
  by (simp add: ex_new_def)

lemma ex_tenant_inv: "hwfq_inv ex_tenant []"
proof (rule hwfq_add_tenant_cases [of ex_new "[]" ex_mem "Some (Weight 1)"])
  show "hwfq_inv ex_new []" by (rule ex_new_inv)
  show "cfg_fits (hwfq_cfg ex_new)" by (simp only: ex_configs ex_cfg_fits')
qed (auto simp: ex_tenant_allowed ex_tenant_run)

lemma ex_flow_inv: "hwfq_inv ex_flow []"
  by (rule hwfq_add_flow_cases [OF ex_tenant_inv, of 0 "Some (Weight 1)" "(True, True)"])
    (simp_all add: ex_flow_run)

lemma ex_flow_ready: "env_fresh ex_env ex_flow" "has_room ex_flow" "pending ex_flow = {}"
proof -
  show "env_fresh ex_env ex_flow" "has_room ex_flow"
    by (simp_all add: env_fresh_def fresh_in_def has_room_def ex_env_def ex_states)
  have f: "tenant_heap ex_flow = [1 \<mapsto> ex_tenant_config (ex_flows zero_stats 0) None zero_stats]" by (simp add: ex_flow_def)
  then have "tenant_heap ex_flow 1 = Some (ex_tenant_config (ex_flows zero_stats 0) None zero_stats)" by simp
  from flow_level_okD(1) [OF tenants_okD [OF hwfq_invD(3) [OF ex_flow_inv] this]]
  have "gs_inv (ex_flows zero_stats 0)" by (simp add: ex_tenant_config_def)
  moreover have "active_session_count (ex_flows zero_stats 0) = 0" by (simp add: ex_flows_def ex_store_def ex_level_def)
  ultimately have "queued (ex_flows zero_stats 0) = {}" using gs_inv_empty by blast
  then show "pending ex_flow = {}" by (simp add: pending_def f contexts_of_def ex_tenant_config_def)
qed

lemma ex_queued_inv: "hwfq_inv ex_queued []" "pending ex_queued = {1}"
proof -
  have "hwfq_inv ex_queued [] \<and> pending ex_queued = {1}"
  proof (cases rule: hwfq_enqueue_cases [OF ex_flow_inv ex_flow_ready(1,2), of 0 1 "Some ex_work", case_names refused ok])
    case (refused err)
    then show ?thesis by (simp add: ex_queued_run)
  next
    case (ok w c a t t' s' ev)
    have "s' = ex_queued" using ok(6) by (simp add: ex_queued_run)
    then show ?thesis using ok(3,7,9) by (simp add: ex_flow_ready(3) ex_env_def)
  qed
  then show "hwfq_inv ex_queued []" "pending ex_queued = {1}" by simp_all
qed

lemma ex_unregistered_inv: "hwfq_inv ex_unregistered []" "pending ex_unregistered = {1}"
proof -
  have ready: "env_fresh (ex_env\<lparr>env_tenant_session := None\<rparr>) ex_flow"
    by (simp add: env_fresh_def fresh_in_def ex_env_def ex_states)
  have "hwfq_inv ex_unregistered [] \<and> pending ex_unregistered = {1}"
  proof (cases rule: hwfq_enqueue_cases [OF ex_flow_inv ready ex_flow_ready(2), of 0 1 "Some ex_work", case_names refused ok])
    case (refused err)
    then show ?thesis by (simp add: ex_unregistered_run)
  next
    case (ok w c a t t' s' ev)
    have "s' = ex_unregistered" using ok(6) by (simp add: ex_unregistered_run)
    then show ?thesis using ok(3,7,9) by (simp add: ex_flow_ready(3) ex_env_def)
  qed
  then show "hwfq_inv ex_unregistered []" "pending ex_unregistered = {1}" by simp_all
qed

text \<open>A level with one session, at address 1.\<close>

lemma single_session:
  assumes "gs_inv gs" "sessions gs = [1 \<mapsto> so]" "active_session_count gs = 1"
  shows "queued gs \<noteq> {}" "\<And>q. q \<in> queued gs \<Longrightarrow> start_of gs q = start_time so \<and> finish_of gs q = finish_time so"
proof -
  show "queued gs \<noteq> {}" using gs_inv_empty [OF assms(1)] assms(3) by simp
  fix q assume "q \<in> queued gs"
  then have "sessions gs q \<noteq> None" using queued_session [OF gs_invD(1) [OF assms(1)]] by blast
  then show "start_of gs q = start_time so \<and> finish_of gs q = finish_time so"
    by (simp add: assms(2) split: if_splits)
qed

lemma ex_queued_ready: "env_fresh ex_later ex_queued" "times_fit ex_queued"
proof -
  show "env_fresh ex_later ex_queued" by (simp add: env_fresh_def fresh_in_def ex_later_def ex_states)
  have u: "unsaturated (ex_busy so gs)" if "gs_inv (ex_busy so gs)" "start_time so = 0" for so gs
    using single_session(2) [OF that(1), of so] that(2) by (simp add: unsaturated_def ex_busy_def)
  have t: "tenant_heap ex_queued 1 = Some (ex_tenant_config
      (ex_busy (ex_session 1 1 (Some Flow_context_cleanup)) (ex_flows ex_stats 8589)) (Some 1) ex_stats)"
    by (simp add: ex_queued_def)
  have "unsaturated (system_scheduler ex_queued)"
    using sys_okD(1) [OF hwfq_invD(2) [OF ex_queued_inv(1)]] by (simp add: ex_queued_def u ex_session_def)
  moreover have "unsaturated (ex_busy (ex_session 1 1 (Some Flow_context_cleanup)) (ex_flows ex_stats 8589))"
    using flow_level_okD(1) [OF tenants_okD [OF hwfq_invD(3) [OF ex_queued_inv(1)] t]]
    by (intro u) (simp_all add: ex_tenant_config_def ex_session_def)
  ultimately show "times_fit ex_queued"
    by (auto simp: times_fit_def ex_queued_def ex_tenant_config_def split: if_splits)
qed

lemma ex_served_inv: "hwfq_inv ex_served [1]" "pending ex_served = {}"
proof -
  have "hwfq_inv ex_served [1] \<and> pending ex_served = {}"
  proof (cases rule: hwfq_dequeue_cases [OF ex_queued_inv(1) ex_queued_ready, case_names idle stuck returned served])
    case (served p a t q c ctx e s')
    have "s' = ex_served" using served(11) by (simp add: ex_served_run)
    then show ?thesis using served(6,9,12,13) by (simp add: ex_queued_inv(2) ex_later_def)
  next
    case (idle s')
    then show ?thesis by (simp only: ex_served_run option.inject prod.inject sum.distinct simp_thms)
  next
    case (stuck p a t s')
    then show ?thesis by (simp only: ex_served_run option.inject prod.inject sum.distinct simp_thms)
  next
    case (returned err p a t q c ctx fs s')
    then show ?thesis by (simp only: ex_served_run option.inject prod.inject sum.distinct simp_thms)
  qed
  then show "hwfq_inv ex_served [1]" "pending ex_served = {}" by simp_all
qed

lemma ex_wrapping_inv: "hwfq_inv ex_wrapping [1]" "pending ex_wrapping = {1}"
proof -
  have ready: "env_fresh ex_next ex_served" "has_room ex_served"
    by (simp_all add: env_fresh_def fresh_in_def has_room_def ex_next_def ex_env_def ex_states)
  have "hwfq_inv ex_wrapping [1] \<and> pending ex_wrapping = {1}"
  proof (cases rule: hwfq_enqueue_cases [OF ex_served_inv(1) ready, of 0 1 "Some ex_huge", case_names refused ok])
    case (refused err)
    then show ?thesis by (simp add: ex_wrapping_run)
  next
    case (ok w c a t t' s' ev)
    have "s' = ex_wrapping" using ok(6) by (simp add: ex_wrapping_run)
    then show ?thesis using ok(3,7,9) by (simp add: ex_served_inv(2) ex_next_def ex_env_def)
  qed
  then show "hwfq_inv ex_wrapping [1]" "pending ex_wrapping = {1}" by simp_all
qed

text \<open>What the levels of \<open>ex_queued\<close> and \<open>ex_wrapping\<close> hold.\<close>

lemma ex_queued_levels:
  "queued (system_scheduler ex_queued) \<noteq> {}"
  "\<And>q. q \<in> queued (system_scheduler ex_queued) \<Longrightarrow> finish_of (system_scheduler ex_queued) q \<noteq> UINT64_MAX"
  "\<And>a t. tenant_heap ex_queued a = Some t \<Longrightarrow> queued (flow_scheduler t) \<noteq> {} \<and>
     (\<forall>q \<in> queued (flow_scheduler t). finish_of (flow_scheduler t) q \<noteq> UINT64_MAX)"
proof -
  note sys = single_session [OF sys_okD(1) [OF hwfq_invD(2) [OF ex_queued_inv(1)]], of "ex_session 0 1 None"]
  show "queued (system_scheduler ex_queued) \<noteq> {}" by (rule sys(1)) (simp_all add: ex_queued_def ex_busy_def)
  show "finish_of (system_scheduler ex_queued) q \<noteq> UINT64_MAX" if "q \<in> queued (system_scheduler ex_queued)" for q
    using sys(2) [OF _ _ that] by (simp add: ex_queued_def ex_busy_def ex_session_def)
  fix a t assume t: "tenant_heap ex_queued a = Some t"
  then have fs: "flow_scheduler t = ex_busy (ex_session 1 1 (Some Flow_context_cleanup)) (ex_flows ex_stats 8589)"
    by (auto simp: ex_queued_def ex_tenant_config_def split: if_splits)
  note flow = single_session [OF flow_level_okD(1) [OF tenants_okD [OF hwfq_invD(3) [OF ex_queued_inv(1)] t]],
      of "ex_session 1 1 (Some Flow_context_cleanup)"]
  show "queued (flow_scheduler t) \<noteq> {} \<and> (\<forall>q \<in> queued (flow_scheduler t). finish_of (flow_scheduler t) q \<noteq> UINT64_MAX)"
    using flow by (simp add: fs ex_busy_def) (simp add: ex_session_def)
qed

lemma ex_wrapping_levels:
  "env_fresh ex_last ex_wrapping" "times_fit ex_wrapping" "queued (system_scheduler ex_wrapping) \<noteq> {}"
  "\<And>q. q \<in> queued (system_scheduler ex_wrapping) \<Longrightarrow> finish_of (system_scheduler ex_wrapping) q \<noteq> UINT64_MAX"
  "\<And>a t. tenant_heap ex_wrapping a = Some t \<Longrightarrow> queued (flow_scheduler t) \<noteq> {} \<and>
     (\<forall>q \<in> queued (flow_scheduler t). finish_of (flow_scheduler t) q \<noteq> UINT64_MAX)"
proof -
  show "env_fresh ex_last ex_wrapping"
    by (simp add: env_fresh_def fresh_in_def ex_last_def ex_later_def ex_late_states ex_states)
  note sys = single_session [OF sys_okD(1) [OF hwfq_invD(2) [OF ex_wrapping_inv(1)]], of ex_late_tenant]
  have so: "sessions (system_scheduler ex_wrapping) = [1 \<mapsto> ex_late_tenant]" "active_session_count (system_scheduler ex_wrapping) = 1"
    "start_time ex_late_tenant = 2 ^ 63" "finish_time ex_late_tenant \<noteq> UINT64_MAX"
    by (simp_all add: ex_late_states ex_session_def)
  show "queued (system_scheduler ex_wrapping) \<noteq> {}" by (rule sys(1)) (simp_all add: so)
  show "finish_of (system_scheduler ex_wrapping) q \<noteq> UINT64_MAX" if "q \<in> queued (system_scheduler ex_wrapping)" for q
    using sys(2) [OF so(1,2) that] so(4) by simp
  have flow: "queued (flow_scheduler t) \<noteq> {} \<and> (\<forall>q \<in> queued (flow_scheduler t). finish_of (flow_scheduler t) q \<noteq> UINT64_MAX) \<and>
      unsaturated (flow_scheduler t)" if t: "tenant_heap ex_wrapping a = Some t" for a t
  proof -
    have fs: "sessions (flow_scheduler t) = [1 \<mapsto> ex_late_flow]" "active_session_count (flow_scheduler t) = 1"
      "start_time ex_late_flow = 2 ^ 63" "finish_time ex_late_flow \<noteq> UINT64_MAX"
      using t by (auto simp: ex_late_states ex_tenant_config_def ex_session_def split: if_splits)
    from single_session [OF flow_level_okD(1) [OF tenants_okD [OF hwfq_invD(3) [OF ex_wrapping_inv(1)] t]] fs(1,2)] fs(3,4)
    show ?thesis by (simp add: unsaturated_def)
  qed
  then show "queued (flow_scheduler t) \<noteq> {} \<and> (\<forall>q \<in> queued (flow_scheduler t). finish_of (flow_scheduler t) q \<noteq> UINT64_MAX)"
    if "tenant_heap ex_wrapping a = Some t" for a t using that by blast
  have "unsaturated (system_scheduler ex_wrapping)" using sys(2) [OF so(1,2)] so(3) by (simp add: unsaturated_def)
  then show "times_fit ex_wrapping" using flow by (simp add: times_fit_def)
qed

end
