(* ===== verification/HWFQ_Properties.thy ===== *)
theory HWFQ_Properties
  imports HWFQ_Example
begin

text \<open>
  The properties of the whole library: every run of calls is defined and conserves the work, what each call
  does on each of its branches, and what remains of the work when a tenant or the scheduler goes away.  Each
  rests on the case lemmas of the theories before and is applied to a state of \<^verbatim>\<open>HWFQ_Example\<close>.
\<close>

section \<open>Runs\<close>

text \<open>
  C2. Take a configuration with at most 32768 bins (groups times bins, \<open>cfg_fits\<close>) and a scheduler that
  \<open>hwfq_init\<close> made from it, and any sequence of calls of the other public functions, getters included, in
  which the allocator answers NULL or fresh memory, no counter of sessions is full when a session is queued,
  and no queued session has the start time \<open>UINT64_MAX\<close> at a dequeue (\<open>allowed\<close>).  Then every call is defined --
  none dereferences a null or dangling pointer, leaves an array, divides by zero or loops for ever --, the
  state in the end satisfies the invariant of the library, and \<open>hwfq_destroy\<close> is defined in it.
\<close>

theorem runs_defined:
  assumes "cfg_fits (with_defaults c)" "hwfq_init mem (Some c) = Some (Inr s)" "may_run hwfq_step allowed calls s"
  shows "\<exists>tr s' xs ev s''. run hwfq_step calls s = Some (tr, s') \<and> map fst tr = calls \<and> system_inv s' xs \<and>
    hwfq_destroy s' = Some (ev, s'')"
proof -
  obtain tr s' xs where r: "run hwfq_step calls s = Some (tr, s')" "map fst tr = calls" "system_inv s' xs"
    using client.run_law [OF fresh_scheduler(1) [OF assms(1,2)] assms(3)] by blast
  have "hwfq_inv s' xs" using r(3) by (simp add: system_inv_def)
  then obtain ev s'' where "hwfq_destroy s' = Some (ev, s'')" by (rule hwfq_destroy_ok)
  with r show ?thesis by blast
qed

text \<open>The calls of \<^verbatim>\<open>HWFQ_Example\<close> are such a run.\<close>

abbreviation ex_calls :: "hwfq_call list" where
  "ex_calls \<equiv> [Add_tenant ex_mem (Some (Weight 1)), Add_flow (True, True) 0 (Some (Weight 1)),
     Enqueue ex_env 0 1 (Some ex_work), Dequeue ex_later]"

lemma ex_may_run: "may_run hwfq_step allowed ex_calls ex_new"
  by (simp add: ex_steps ex_tenant_allowed ex_flow_ready ex_queued_ready)

lemma ex_run:
  "run hwfq_step ex_calls ex_new =
     Some ([(Add_tenant ex_mem (Some (Weight 1)), (New_id (Inr 0), [])),
       (Add_flow (True, True) 0 (Some (Weight 1)), (New_id (Inr 1), [])),
       (Enqueue ex_env 0 1 (Some ex_work), (Code (Inr ()), [Session_available])),
       (Dequeue ex_later, (Work (Inr (7, 4096, 100, 0, 1)), []))], ex_served)"
  by (simp add: ex_steps)

lemma runs_defined_witness:
  "\<exists>tr s' xs ev s''. run hwfq_step ex_calls ex_new = Some (tr, s') \<and> map fst tr = ex_calls \<and> system_inv s' xs \<and>
    hwfq_destroy s' = Some (ev, s'')"
  by (rule runs_defined [OF ex_cfg_fits ex_new_run ex_may_run])

text \<open>
  C1. The library refines a bag of work.  Take a scheduler fresh from \<open>hwfq_init\<close> with at most 32768 bins
  (\<open>cfg_fits\<close>), and any run of calls in which the allocator answers NULL or fresh memory, no counter of sessions
  is full when a session is queued, and no queued session has the start time \<open>UINT64_MAX\<close> at a dequeue
  (\<open>allowed\<close>).  Then the work accepted is the work still waiting, the work handed out and the work lost, so
  nothing is handed out that was not enqueued, and nothing twice.  Lost is only what \<open>dropped\<close> allows: at most one unit by a
  dequeue that fails for want of capacity or memory, and work of the tenant by the removal of a tenant;
  without such calls nothing.  The work handed out is the work in flight and the work finished, and finished
  is exactly what \<open>ended\<close> says: one unit of the named tenant and flow by every completion or cancellation that
  succeeds, as many units as a scan for time-outs answers, and nothing by any other call, so that a unit
  that was handed out is recorded in flight until one of these calls ends it.
\<close>

theorem runs_conserve_work:
  assumes "cfg_fits (with_defaults c)" "hwfq_init mem (Some c) = Some (Inr s)" "may_run hwfq_step allowed calls s"
    "run hwfq_step calls s = Some (tr, s')"
  shows "\<exists>xs lost finished. system_inv s' xs \<and>
    waiting s' + total given_out tr + lost = total taken_in tr \<and> adds_up dropped tr lost \<and>
    (lost = {#} \<or> (\<exists>(c, r) \<in> set tr. may_lose c r)) \<and>
    flying s' xs + finished = total given_out tr \<and> adds_up ended tr finished"
proof -
  note start = fresh_scheduler [OF assms(1,2)]
  obtain xs lost finished where r: "system_inv s' xs" "waiting s' + total given_out tr + lost = waiting s + total taken_in tr"
      "adds_up dropped tr lost" "flying s' xs + finished = flying s [] + total given_out tr" "adds_up ended tr finished"
    using client.run_law [OF start(1) assms(3)] assms(4) by auto
  have "lost = {#}" if "\<not> (\<exists>(c, r) \<in> set tr. may_lose c r)"
    by (rule adds_up_empty [OF r(3)]) (use that dropped_may_lose in blast)
  then show ?thesis using r start(2,3) by (intro exI [of _ xs] exI [of _ lost] exI [of _ finished]) auto
qed

lemma runs_conserve_work_witness:
  "waiting ex_served = {#} \<and> (\<exists>xs. system_inv ex_served xs \<and> flying ex_served xs = {#(0, 1, 7, 4096)#})"
  using runs_conserve_work [OF ex_cfg_fits ex_new_run ex_may_run ex_run]
  by (auto simp: given_out_def taken_in_def ex_work_def)

section \<open>Queueing and handing out\<close>

text \<open>
  C3. When the allocator answers NULL or fresh memory and no counter of sessions is full, \<open>hwfq_enqueue\<close> either refuses the work, with the code that the first violated condition gives
  (\<open>enqueue_refusal\<close>) and without any change, or queues it: the context it allocated carries the work and
  joins the waiting ones, the tenant's backlog grows by one, the tenant is registered at the system level
  unless that fails, and the client is notified when capacity is left.  The invariant is kept.
\<close>

theorem hwfq_enqueue_correct:
  assumes "hwfq_inv s xs" "env_fresh env s" "has_room s"
  shows "\<exists>ret ev s'. hwfq_enqueue env i f work s = Some (ret, ev, s') \<and> hwfq_inv s' xs \<and>
    (case ret of
       Inl err \<Rightarrow> enqueue_refusal env i f work s = Some err \<and> ev = [] \<and> s' = s
     | Inr u \<Rightarrow> enqueue_refusal env i f work s = None \<and>
         (\<exists>w c a t t'. work = Some w \<and> env_context env = Some c \<and> c \<notin> pending s \<and>
            pending s' = insert c (pending s) \<and> context_heap s' = (context_heap s)(c \<mapsto> new_context env i f w s) \<and>
            tenant_heap s a = Some t \<and> tenant_id t = i \<and> tenant_heap s' = (tenant_heap s)(a \<mapsto> t') \<and>
            c \<in> contexts_of (flow_scheduler t') \<and> tenant_stats t' = add_backlog 1 (tenant_stats t) \<and>
            (has_backlog t' \<longleftrightarrow> has_backlog t \<or>
               enqueue_error (env_tenant_session env) i TENANT_QUANTUM_SIZE (system_scheduler s) = None)) \<and>
         flight s' = flight s \<and>
         ev = (if session_available_set (hwfq_cfg s) \<and> in_flight_work_size (flight s) < cfg_total_capacity (hwfq_cfg s)
           then [Session_available] else []))"
proof (cases rule: hwfq_enqueue_cases [OF assms, of i f work, case_names refused ok])
  case (refused err)
  then show ?thesis using assms(1) by simp
next
  case (ok w c a t t' s' ev)
  show ?thesis
    by (intro exI conjI, rule ok(6), rule ok(7), simp only: sum.case, intro exI conjI) (rule ok | simp only: ok)+
qed

lemma hwfq_enqueue_correct_witness:
  "hwfq_inv ex_queued [] \<and> pending ex_queued = insert 1 (pending ex_flow) \<and>
   context_heap ex_queued = (context_heap ex_flow)(1 \<mapsto> new_context ex_env 0 1 ex_work ex_flow)"
  using hwfq_enqueue_correct [OF ex_flow_inv ex_flow_ready(1,2), of 0 1 "Some ex_work"]
  by (auto simp: ex_queued_run ex_env_fields)

text \<open>
  The work that the two levels choose: of the selectable tenants one with the least finish time, and of its
  selectable sessions one with the least finish time.  Selectable is what has a start time at or before the
  virtual time that the search arrives at, and a finish time below \<open>UINT64_MAX\<close>.
\<close>

definition next_work :: "hwfq_scheduler \<Rightarrow> addr \<Rightarrow> tenant_config \<Rightarrow> addr \<Rightarrow> flow_session_context \<Rightarrow> bool" where
  "next_work s a t c ctx \<longleftrightarrow> tenant_heap s a = Some t \<and> c \<in> pending s \<and> context_heap s c = Some ctx \<and>
     (\<exists>p q. chosen (system_scheduler s) p \<and> payload (system_scheduler s) p = Some a \<and>
        chosen (flow_scheduler t) q \<and> payload (flow_scheduler t) q = Some c)"

text \<open>
  C4. As long as no queued session has the start time \<open>UINT64_MAX\<close> (\<open>times_fit\<close>) and the allocator answers
  NULL or fresh memory, \<open>hwfq_dequeue\<close> keeps the invariant and hands out the work that the two levels choose,
  exactly as it was enqueued: its context leaves the waiting ones and is freed, and an entry with the tenant,
  the flow, the size, the timeout and the user's pointer joins the end of the work in flight.  It answers
  \<open>HWFQ_ERR_NO_WORK\<close> when no tenant is selectable (start time reached, finish time below \<open>UINT64_MAX\<close>) or when
  the chosen work does not fit into the capacity, \<open>HWFQ_ERR_INTERNAL\<close> when the chosen tenant has no selectable
  session, \<open>HWFQ_ERR_NO_MEMORY\<close> when the entry cannot be allocated; then nothing is in flight that was not
  before and at most the chosen work is lost.
\<close>

theorem hwfq_dequeue_correct:
  assumes "hwfq_inv s xs" "env_fresh env s" "times_fit s"
  shows "\<exists>ret s'. hwfq_dequeue env s = Some (ret, s') \<and> hwfq_cfg s' = hwfq_cfg s \<and>
    (case ret of
       Inr (d, w, ts, i, f) \<Rightarrow> \<exists>a t c ctx e. next_work s a t c ctx \<and> env_entry env = Some e \<and>
         (d, w, ts, i, f) = (ctx_user_data ctx, ctx_work_size ctx, ctx_enqueue_time_ns ctx, tenant_id t, ctx_flow_id ctx) \<and>
         (cfg_total_capacity (hwfq_cfg s) = 0 \<or> in_flight_work_size (flight s) + w \<le> cfg_total_capacity (hwfq_cfg s)) \<and>
         hwfq_inv s' (xs @ [e]) \<and> pending s' = pending s - {c} \<and> context_heap s' = (context_heap s)(c := None) \<and>
         if_info (flight s') = (if_info (flight s))(e \<mapsto> (i, f, w, get_time_ns env, ctx_timeout_ns ctx, d)) \<and>
         in_flight_work_size (flight s') = in_flight_work_size (flight s) + w
     | Inl err \<Rightarrow> hwfq_inv s' xs \<and> flight s' = flight s \<and> context_heap s' = context_heap s \<and>
         (pending s' = pending s \<or> (\<exists>a t c ctx. next_work s a t c ctx \<and> pending s' = pending s - {c})) \<and>
         (err = HWFQ_ERR_NO_WORK \<and> selectable (system_scheduler s) (search_time (system_scheduler s)) = {} \<or>
          err = HWFQ_ERR_NO_WORK \<and> (\<exists>a t c ctx. next_work s a t c ctx \<and> 0 < cfg_total_capacity (hwfq_cfg s) \<and>
            cfg_total_capacity (hwfq_cfg s) < in_flight_work_size (flight s) + ctx_work_size ctx) \<or>
          err = HWFQ_ERR_INTERNAL \<and> (\<exists>p a t. chosen (system_scheduler s) p \<and> payload (system_scheduler s) p = Some a \<and>
            tenant_heap s a = Some t \<and> selectable (flow_scheduler t) (search_time (flow_scheduler t)) = {}) \<or>
          err = HWFQ_ERR_NO_MEMORY \<and> env_entry env = None))"
proof (cases rule: hwfq_dequeue_cases [OF assms, case_names idle stuck returned served])
  case (idle s')
  show ?thesis by (rule exI, rule exI, intro conjI, rule idle(2)) (simp_all add: idle(1,3-7))
next
  case (stuck p a t s')
  have "\<exists>p a t. chosen (system_scheduler s) p \<and> payload (system_scheduler s) p = Some a \<and>
      tenant_heap s a = Some t \<and> selectable (flow_scheduler t) (search_time (flow_scheduler t)) = {}"
    using stuck(1-4) by blast
  then show ?thesis by (intro exI [of _ s'] exI [of _ "Inl HWFQ_ERR_INTERNAL"]) (simp add: stuck(5-10))
next
  case (returned err p a t q c ctx fs s')
  have n: "next_work s a t c ctx" using returned(1-7) by (auto simp: next_work_def)
  have p: "pending s' = pending s \<or> (\<exists>a t c ctx. next_work s a t c ctx \<and> pending s' = pending s - {c})"
    using returned(12) n by (simp split: if_splits) blast
  have "err = HWFQ_ERR_NO_WORK \<and> (\<exists>a t c ctx. next_work s a t c ctx \<and> 0 < cfg_total_capacity (hwfq_cfg s) \<and>
      cfg_total_capacity (hwfq_cfg s) < in_flight_work_size (flight s) + ctx_work_size ctx) \<or>
    err = HWFQ_ERR_NO_MEMORY \<and> env_entry env = None"
    using returned(8)
  proof (rule disj_forward)
    assume "err = HWFQ_ERR_NO_WORK \<and> 0 < cfg_total_capacity (hwfq_cfg s) \<and>
      cfg_total_capacity (hwfq_cfg s) < in_flight_work_size (flight s) + ctx_work_size ctx"
    with n show "err = HWFQ_ERR_NO_WORK \<and> (\<exists>a t c ctx. next_work s a t c ctx \<and> 0 < cfg_total_capacity (hwfq_cfg s) \<and>
      cfg_total_capacity (hwfq_cfg s) < in_flight_work_size (flight s) + ctx_work_size ctx)" by blast
  qed
  then show ?thesis
    by (intro exI [of _ s'] exI [of _ "Inl err"]) (auto simp only: returned(9-11,13,14) sum.case simp_thms p)
next
  case (served p a t q c ctx e s')
  have n: "next_work s a t c ctx" using served(1-7) by (auto simp: next_work_def)
  show ?thesis
    by (rule exI, rule exI, intro conjI, rule served(11), rule served(15), simp only: sum.case prod.case,
        rule exI [of _ a], rule exI [of _ t], rule exI [of _ c], rule exI [of _ ctx], rule exI [of _ e])
      (simp only: n served(8-10,12-17) simp_thms prod.inject)
qed

lemma ex_next_timeout: "next_work ex_queued a t c ctx \<Longrightarrow> ctx_timeout_ns ctx = 10"
  by (auto simp: next_work_def ex_queued_inv(2)) (auto simp: ex_queued_def)

lemma hwfq_dequeue_correct_witness:
  "hwfq_inv ex_served [1] \<and> if_info (flight ex_served) = (if_info (flight ex_queued))(1 \<mapsto> (0, 1, 4096, 200, 10, 7))"
  using hwfq_dequeue_correct [OF ex_queued_inv(1) ex_queued_ready]
  unfolding ex_served_run option.inject prod.inject
  by (elim exE conjE, hypsubst) (simp only: sum.case prod.case, elim exE conjE, simp add: ex_env_fields ex_next_timeout)

text \<open>
  C8. With a configured capacity, fresh memory and no queued start time \<open>UINT64_MAX\<close>, the work that a dequeue
  hands out keeps \<open>in_flight_work_size\<close> within the configured capacity; and when
  the sum does not exceed 64 bits, the sum itself is within the capacity.
\<close>

theorem dequeue_within_capacity:
  assumes "hwfq_inv s xs" "env_fresh env s" "times_fit s" "hwfq_dequeue env s = Some (Inr (d, w, ts, i, f), s')"
    "cfg_total_capacity (hwfq_cfg s) \<noteq> 0"
  shows "in_flight_work_size (flight s') \<le> cfg_total_capacity (hwfq_cfg s) \<and>
    (unat (in_flight_work_size (flight s)) + unat w < 2 ^ 64 \<longrightarrow>
       unat (in_flight_work_size (flight s')) = unat (in_flight_work_size (flight s)) + unat w \<and>
       unat (in_flight_work_size (flight s)) + unat w \<le> unat (cfg_total_capacity (hwfq_cfg s)))"
proof -
  let ?c = "cfg_total_capacity (hwfq_cfg s)" and ?n = "in_flight_work_size (flight s)"
  have n: "?n + w \<le> ?c" "in_flight_work_size (flight s') = ?n + w"
    by (cases rule: hwfq_dequeue_cases [OF assms(1-3), case_names idle stuck returned served];
        use assms(4,5) in \<open>simp; fail | (elim conjE, simp)\<close>)+
  have "unat (?n + w) = unat ?n + unat w" if "unat ?n + unat w < 2 ^ 64"
    by (rule unat_add_no_wrap) (use that in simp)
  with n show ?thesis by (auto simp: word_le_nat_alt)
qed

lemma dequeue_within_capacity_witness: "in_flight_work_size (flight ex_served) \<le> cfg_total_capacity (hwfq_cfg ex_queued)"
  using dequeue_within_capacity [OF ex_queued_inv(1) ex_queued_ready ex_served_run]
  by (simp add: ex_configs ex_cfg_def)

text \<open>
  A tenant is registered, no registered tenant's level is empty, and no queued session has a saturated finish
  time: then both levels choose, and only capacity and memory decide.
\<close>

lemma dequeue_hands_out:
  assumes inv: "hwfq_inv s xs" and fresh: "env_fresh env s" and times: "times_fit s" and mem: "env_entry env = Some e"
    and busy: "queued (system_scheduler s) \<noteq> {}"
    and finite: "\<And>q. q \<in> queued (system_scheduler s) \<Longrightarrow> finish_of (system_scheduler s) q \<noteq> UINT64_MAX"
    and flows: "\<And>a t. tenant_heap s a = Some t \<Longrightarrow> has_backlog t \<Longrightarrow> queued (flow_scheduler t) \<noteq> {} \<and>
      (\<forall>q \<in> queued (flow_scheduler t). finish_of (flow_scheduler t) q \<noteq> UINT64_MAX)"
    and fits: "\<And>c ctx. c \<in> pending s \<Longrightarrow> context_heap s c = Some ctx \<Longrightarrow>
      in_flight_work_size (flight s) + ctx_work_size ctx \<le> cfg_total_capacity (hwfq_cfg s)"
  obtains c ctx s' where "c \<in> pending s" "context_heap s c = Some ctx"
    "hwfq_dequeue env s = Some (Inr (ctx_user_data ctx, ctx_work_size ctx, ctx_enqueue_time_ns ctx,
       ctx_tenant_id ctx, ctx_flow_id ctx), s')" "hwfq_inv s' (xs @ [e])"
    "in_flight_work_size (flight s') = in_flight_work_size (flight s) + ctx_work_size ctx"
proof -
  have some: "selectable gs (search_time gs) \<noteq> {}"
    if g: "gs_inv gs" "queued gs \<noteq> {}" and u: "\<And>q. q \<in> queued gs \<Longrightarrow> finish_of gs q \<noteq> UINT64_MAX" for gs :: level
  proof -
    obtain L where w: "cal_wf gs L" using gs_invD(1) [OF g(1)] by (auto simp: cal_inv_def)
    show ?thesis by (rule search_time_selectable [OF w g(2)]) (use gs_invD(6) [OF g(1)] u in blast)
  qed
  show thesis
  proof (cases rule: hwfq_dequeue_cases [OF inv fresh times, case_names idle stuck returned served])
    case (idle s')
    then show thesis using some [OF sys_okD(1) [OF hwfq_invD(2) [OF inv]] busy finite] by simp
  next
    case (stuck p a t s')
    have "p \<in> queued (system_scheduler s)" using stuck(1) selectable_queued by (auto simp: chosen_def)
    then have "has_backlog t"
      using sys_okD(2) [OF hwfq_invD(2) [OF inv], of p] stuck(2,3) by (auto simp: payload_def)
    then show thesis
      using some [OF flow_level_okD(1) [OF tenants_okD [OF hwfq_invD(3) [OF inv] stuck(3)]]] flows [OF stuck(3)] stuck(4)
      by blast
  next
    case (returned err p a t q c ctx fs s')
    then show thesis using fits [OF returned(6,7)] mem by (simp add: not_less [symmetric])
  next
    case (served p a t q c ctx e' s')
    have "e' = e" using served(9) mem by simp
    then show thesis using served(12) by (intro that [OF served(6,7,11) _ served(17)]) simp
  qed
qed

text \<open>
  C13. Without the bound on the sum the capacity check fails, because it adds the size in flight and the size
  of the work in 64 bits.  Whenever the size in flight is within the capacity, every unit that waits is so
  large that the two sizes exceed 64 bits together, and otherwise a dequeue is not hindered (memory for the
  entry, a registered tenant, no empty level, no saturated times), work is handed out although the true sum
  is beyond any capacity, and \<open>in_flight_work_size\<close> becomes smaller than it was before.
\<close>

theorem capacity_check_wraps:
  assumes "hwfq_inv s xs" "env_fresh env s" "times_fit s" "env_entry env = Some e" "queued (system_scheduler s) \<noteq> {}"
    and "\<And>q. q \<in> queued (system_scheduler s) \<Longrightarrow> finish_of (system_scheduler s) q \<noteq> UINT64_MAX"
    and "\<And>a t. tenant_heap s a = Some t \<Longrightarrow> has_backlog t \<Longrightarrow> queued (flow_scheduler t) \<noteq> {} \<and>
      (\<forall>q \<in> queued (flow_scheduler t). finish_of (flow_scheduler t) q \<noteq> UINT64_MAX)"
    and "in_flight_work_size (flight s) \<le> cfg_total_capacity (hwfq_cfg s)"
    and "\<And>c ctx. c \<in> pending s \<Longrightarrow> context_heap s c = Some ctx \<Longrightarrow>
      2 ^ 64 \<le> unat (in_flight_work_size (flight s)) + unat (ctx_work_size ctx)"
  shows "\<exists>d w ts i f s'. hwfq_dequeue env s = Some (Inr (d, w, ts, i, f), s') \<and> hwfq_inv s' (xs @ [e]) \<and>
    unat (cfg_total_capacity (hwfq_cfg s)) < unat (in_flight_work_size (flight s)) + unat w \<and>
    unat (in_flight_work_size (flight s')) = unat (in_flight_work_size (flight s)) + unat w - 2 ^ 64 \<and>
    in_flight_work_size (flight s') < in_flight_work_size (flight s)"
proof -
  let ?n = "in_flight_work_size (flight s)" and ?cap = "cfg_total_capacity (hwfq_cfg s)"
  have wraps: "unat (?n + w) = unat ?n + unat w - 2 ^ 64" "?n + w < ?n" if "2 ^ 64 \<le> unat ?n + unat w" for w
  proof -
    have "unat ?n < 2 ^ 64" "unat w < 2 ^ 64" using unsigned_less [of ?n] unsigned_less [of w] by simp_all
    then show "unat (?n + w) = unat ?n + unat w - 2 ^ 64" using that by (simp add: unat_word_ariths mod_if)
    then show "?n + w < ?n" using that \<open>unat w < 2 ^ 64\<close> by (simp add: word_less_nat_alt)
  qed
  have fits: "?n + ctx_work_size ctx \<le> ?cap" if "c \<in> pending s" "context_heap s c = Some ctx" for c ctx
    using wraps(2) [OF assms(9) [OF that]] assms(8) by (meson order.strict_implies_order order.trans)
  obtain c ctx s' where r: "c \<in> pending s" "context_heap s c = Some ctx"
    "hwfq_dequeue env s = Some (Inr (ctx_user_data ctx, ctx_work_size ctx, ctx_enqueue_time_ns ctx,
       ctx_tenant_id ctx, ctx_flow_id ctx), s')" "hwfq_inv s' (xs @ [e])"
    "in_flight_work_size (flight s') = ?n + ctx_work_size ctx"
    by (rule dequeue_hands_out [OF assms(1-7) fits])
  have "unat ?cap < 2 ^ 64" using unsigned_less [of ?cap] by simp
  then show ?thesis using r(3-5) wraps [OF assms(9) [OF r(1,2)]] assms(9) [OF r(1,2)] by auto
qed

lemma capacity_check_wraps_witness:
  "\<exists>d w ts i f s'. hwfq_dequeue ex_last ex_wrapping = Some (Inr (d, w, ts, i, f), s') \<and> hwfq_inv s' [1, 2] \<and>
    1000000 < 4096 + unat w \<and> unat (in_flight_work_size (flight s')) = 4096 + unat w - 2 ^ 64 \<and>
    in_flight_work_size (flight s') < 4096"
proof -
  have n: "in_flight_work_size (flight ex_wrapping) = 4096" "cfg_total_capacity (hwfq_cfg ex_wrapping) = 1000000"
    "env_entry ex_last = Some 2"
    by (simp_all add: ex_last_def ex_wrapping_def ex_states)
  have "2 ^ 64 \<le> unat (in_flight_work_size (flight ex_wrapping)) + unat (ctx_work_size ctx)"
    if "c \<in> pending ex_wrapping" "context_heap ex_wrapping c = Some ctx" for c ctx
  proof -
    have "ctx_work_size ctx = - 4096" using that by (auto simp: ex_wrapping_inv(2)) (auto simp: ex_wrapping_def)
    then show ?thesis by (simp add: n)
  qed
  with capacity_check_wraps [OF ex_wrapping_inv(1) ex_wrapping_levels(1,2) n(3) ex_wrapping_levels(3,4,5)]
  show ?thesis by (simp add: n)
qed

text \<open>
  C7. The library is work conserving: when a tenant is registered, no registered tenant's level is empty, no
  queued session has a saturated start or finish time, the capacity suffices for every waiting unit of work
  (in the 64-bit sum that the check computes) and the entry for the work in flight gets fresh memory,
  \<open>hwfq_dequeue\<close> hands work out.
\<close>

theorem dequeue_work_conserving:
  assumes inv: "hwfq_inv s xs" and fresh: "env_fresh env s" and times: "times_fit s" and mem: "env_entry env = Some e"
    and busy: "queued (system_scheduler s) \<noteq> {}"
    and finite: "\<And>q. q \<in> queued (system_scheduler s) \<Longrightarrow> finish_of (system_scheduler s) q \<noteq> UINT64_MAX"
    and flows: "\<And>a t. tenant_heap s a = Some t \<Longrightarrow> has_backlog t \<Longrightarrow> queued (flow_scheduler t) \<noteq> {} \<and>
      (\<forall>q \<in> queued (flow_scheduler t). finish_of (flow_scheduler t) q \<noteq> UINT64_MAX)"
    and fits: "\<And>c ctx. c \<in> pending s \<Longrightarrow> context_heap s c = Some ctx \<Longrightarrow>
      in_flight_work_size (flight s) + ctx_work_size ctx \<le> cfg_total_capacity (hwfq_cfg s)"
  shows "\<exists>w s'. hwfq_dequeue env s = Some (Inr w, s') \<and> hwfq_inv s' (xs @ [e])"
  by (rule dequeue_hands_out [OF assms]) blast+

lemma dequeue_work_conserving_witness:
  "\<exists>w s'. hwfq_dequeue ex_later ex_queued = Some (Inr w, s') \<and> hwfq_inv s' [1]"
proof -
  have "in_flight_work_size (flight ex_queued) + ctx_work_size ctx \<le> cfg_total_capacity (hwfq_cfg ex_queued)"
    if "c \<in> pending ex_queued" "context_heap ex_queued c = Some ctx" for c ctx
  proof -
    have "c = 1" using that(1) by (simp add: ex_queued_inv(2))
    then show ?thesis using that(2) by (auto simp: ex_states)
  qed
  with dequeue_work_conserving [OF ex_queued_inv(1) ex_queued_ready ex_env_fields(2) ex_queued_levels]
  show ?thesis by simp
qed

section \<open>The end of the work\<close>

text \<open>
  C5. When the allocator answers NULL or fresh memory and the system level's counter of sessions is not full (a
  completion may register the tenant again), \<open>hwfq_complete\<close> takes exactly the entry the search finds out of the work in flight -- the newest with
  the user's pointer, tenant and flow, or without a pointer the oldest of the flow.  The backlogs of the tenant
  and of the flow, as far as they still exist, shrink by one, and when statistics are enabled its size is
  charged to them; every other flow, the waiting work and their contexts stay as they were.  Without such an entry it answers \<open>HWFQ_ERR_NOT_FOUND\<close> and
  changes nothing.
\<close>

theorem hwfq_complete_correct:
  assumes "hwfq_inv s xs" "fresh_in (system_scheduler s) (env_tenant_session env)"
    "active_session_count (system_scheduler s) \<noteq> UINT32_MAX"
  shows "\<exists>ret ev s'. hwfq_complete env work i f now s = Some (ret, ev, s') \<and>
    (case target work i f (flight s) xs of
       None \<Rightarrow> ret = Inl HWFQ_ERR_NOT_FOUND \<and> ev = [] \<and> s' = s
     | Some a \<Rightarrow> ret = Inr () \<and> hwfq_inv s' (remove1 a xs) \<and> pending s' = pending s \<and>
         charged (enable_statistics (hwfq_cfg s)) (if_work_size (the (if_entries (flight s) a))) i f s s' \<and>
         if_info (flight s') = (if_info (flight s))(a := None) \<and>
         in_flight_work_size (flight s') = in_flight_work_size (flight s) - if_work_size (the (if_entries (flight s) a)) \<and>
         context_heap s' = context_heap s \<and>
         ev = (if has_capacity s' \<and> (queued (system_scheduler s) \<noteq> {} \<or> tenant_waits i s) \<and> session_available_set (hwfq_cfg s)
           then [Session_available] else []))"
proof (cases rule: hwfq_complete_cases [OF assms, of work i f now, case_names missing completed])
  case missing
  then show ?thesis by simp
next
  case (completed a e s')
  show ?thesis
    by (intro exI conjI, rule completed(3)) (simp only: completed(1,2,4-9) option.case option.sel simp_thms)
qed

lemma ex_served_target: "target (Some ex_work) 0 1 (flight ex_served) [1] = Some 1"
  by (simp add: target_def if_match_def ex_work_def ex_served_def)

lemma hwfq_complete_correct_witness:
  "\<exists>ev s'. hwfq_complete ex_later (Some ex_work) 0 1 300 ex_served = Some (Inr (), ev, s') \<and> hwfq_inv s' [] \<and>
     in_flight_work_size (flight s') = 0"
proof -
  have "fresh_in (system_scheduler ex_served) (env_tenant_session ex_later)"
    "active_session_count (system_scheduler ex_served) \<noteq> UINT32_MAX"
    by (simp_all add: fresh_in_def ex_env_fields ex_served_def ex_sys_def ex_store_def ex_level_def)
  from hwfq_complete_correct [OF ex_served_inv(1) this, of "Some ex_work" 0 1 300]
  obtain ev s' where "hwfq_complete ex_later (Some ex_work) 0 1 300 ex_served = Some (Inr (), ev, s')" "hwfq_inv s' (remove1 1 [1])"
    "in_flight_work_size (flight s') = in_flight_work_size (flight ex_served) - if_work_size (the (if_entries (flight ex_served) 1))"
    unfolding ex_served_target option.case by blast
  then show ?thesis by (intro exI [of _ ev] exI [of _ s']) (simp add: ex_served_def)
qed

text \<open>
  C6. \<open>hwfq_check_timeouts\<close> ends: it takes exactly the overdue entries out of the work in flight, keeps the
  others in their order, answers their number and calls the timeout callback, when it is set, once for each of
  them, the last first; nothing else of the library changes.
\<close>

theorem check_timeouts_correct:
  assumes "hwfq_inv s xs"
  shows "\<exists>s'. hwfq_check_timeouts now s = Some (of_nat (length (filter (overdue now (flight s)) xs)),
      (if session_timeout_set (hwfq_cfg s) then map (timeout_event (flight s)) (rev (filter (overdue now (flight s)) xs)) else []) @
      (if (0 :: u32) < of_nat (length (filter (overdue now (flight s)) xs)) \<and> has_capacity s' \<and>
         queued (system_scheduler s) \<noteq> {} \<and> session_available_set (hwfq_cfg s) then [Session_available] else []), s') \<and>
    hwfq_inv s' (filter (\<lambda>a. \<not> overdue now (flight s) a) xs) \<and> s' = s\<lparr>flight := flight s'\<rparr> \<and>
    if_info (flight s') = if_info (flight s) |` (- set (filter (overdue now (flight s)) xs))"
proof (rule hwfq_check_timeouts_ok [OF assms refl, of now])
  fix s'
  assume *: "hwfq_check_timeouts now s = Some (of_nat (length (filter (overdue now (flight s)) xs)),
      (if session_timeout_set (hwfq_cfg s) then map (timeout_event (flight s)) (rev (filter (overdue now (flight s)) xs)) else []) @
      (if (0 :: u32) < of_nat (length (filter (overdue now (flight s)) xs)) \<and> has_capacity s' \<and>
         queued (system_scheduler s) \<noteq> {} \<and> session_available_set (hwfq_cfg s) then [Session_available] else []), s')"
    "hwfq_inv s' (filter (\<lambda>a. \<not> overdue now (flight s) a) xs)" "s' = s\<lparr>flight := flight s'\<rparr>"
    "if_info (flight s') = if_info (flight s) |` (- set (filter (overdue now (flight s)) xs))"
  show ?thesis by (rule exI [of _ s'], intro conjI, rule *(1), rule *(2), rule *(3), rule *(4))
qed

lemma check_timeouts_correct_witness:
  "\<exists>ev s'. hwfq_check_timeouts 300 ex_served = Some (1, ev, s') \<and> Session_timeout 0 1 7 4096 10 \<in> set ev \<and> hwfq_inv s' []"
proof -
  have o: "filter (overdue 300 (flight ex_served)) [1] = [1]" "filter (\<lambda>a. \<not> overdue 300 (flight ex_served) a) [1] = []"
    by (simp_all add: overdue_def is_timed_out_def ex_served_def)
  have e: "timeout_event (flight ex_served) 1 = Session_timeout 0 1 7 4096 10" "session_timeout_set (hwfq_cfg ex_served)"
    by (simp_all add: timeout_event_def if_info_def if_data_def ex_served_def ex_flow_def ex_tenant_def ex_new_def ex_cfg_def)
  show ?thesis
    using check_timeouts_correct [OF ex_served_inv(1), of 300] unfolding o
    by (elim exE conjE) (simp add: e(2) e(1) [unfolded One_nat_def])
qed

text \<open>
  C12. A time-out is not an end for the flow: \<open>hwfq_check_timeouts\<close> neither lowers the backlog of the flow
  nor calls the cleanup function of the session, so that a flow whose work timed out keeps its backlog and
  \<open>hwfq_remove_flow\<close> goes on refusing to remove it.
\<close>

theorem timed_out_flow_stays:
  assumes "hwfq_inv s xs" "tenant_of i s = Some (a, t)" "shares (flow_scheduler t) f \<noteq> None"
    "slot_of (entries (flow_scheduler t)) (unat f) = Some e" "0 < current_backlog (stats e)"
    "hwfq_check_timeouts now s = Some (n, ev, s')"
  shows "hwfq_remove_flow i f s' = Some (Inl HWFQ_ERR_TENANT_HAS_BACKLOG, s') \<and> (\<forall>fn d. Cleanup fn d \<notin> set ev)"
proof (rule hwfq_check_timeouts_ok [OF assms(1) refl, of now])
  fix u
  let ?gone = "filter (overdue now (flight s)) xs"
  assume run: "hwfq_check_timeouts now s = Some (of_nat (length ?gone),
      (if session_timeout_set (hwfq_cfg s) then map (timeout_event (flight s)) (rev ?gone) else []) @
      (if (0 :: u32) < of_nat (length ?gone) \<and> has_capacity u \<and> queued (system_scheduler s) \<noteq> {} \<and>
         session_available_set (hwfq_cfg s) then [Session_available] else []), u)"
    and inv: "hwfq_inv u (filter (\<lambda>a. \<not> overdue now (flight s) a) xs)" and u: "u = s\<lparr>flight := flight u\<rparr>"
  have s': "s' = u" and ev: "set ev \<subseteq> timeout_event (flight s) ` UNIV \<union> {Session_available}"
    using run assms(6) by (auto split: if_splits)
  have "tenants u = tenants s" "tenant_heap u = tenant_heap s" by (subst u, simp)+
  then have "tenant_of i u = tenant_of i s" unfolding tenant_of_def by (simp only:)
  then have t: "tenant_of i u = Some (a, t)" using assms(2) by (simp only:)
  have "hwfq_remove_flow i f u = Some (Inl HWFQ_ERR_TENANT_HAS_BACKLOG, u)"
  proof (cases rule: hwfq_remove_flow_cases [OF inv, of i f, case_names range missing busy removed])
    case (busy a' t' e')
    then show ?thesis by simp
  next
    case (removed a' t' e' fs' s'')
    then show ?thesis using t assms(4,5) by simp
  next
    case missing
    then show ?thesis using t assms(3) by simp
  next
    case range
    have "unat i < length (tenants u)" using t by (simp add: tenant_of_def split: if_splits)
    then show ?thesis using range(1) tables_okD(1) [OF hwfq_invD(1) [OF inv]] by (simp add: word_le_nat_alt)
  qed
  moreover have "Cleanup fn d \<notin> set ev" for fn d
  proof
    assume "Cleanup fn d \<in> set ev"
    then obtain b where "Cleanup fn d = timeout_event (flight s) b" using ev by auto
    then show False by (simp add: timeout_event_def split: prod.splits)
  qed
  ultimately show ?thesis by (simp add: s')
qed

lemma ex_served_flow:
  assumes "tenant_heap ex_served 1 = Some t"
  shows "tenant_of 0 ex_served = Some (1, t)" "shares (flow_scheduler t) 1 \<noteq> None"
    "slot_of (entries (flow_scheduler t)) 1 = Some (ex_entry 1 (ex_stats\<lparr>total_wait_time_ns := 100\<rparr>) 0)"
proof -
  have t: "entries (flow_scheduler t) = entries (ex_flows (ex_stats\<lparr>total_wait_time_ns := 100\<rparr>) 0)"
    using assms by (auto simp: ex_served_def ex_tenant_config_def)
  show "tenant_of 0 ex_served = Some (1, t)"
    using assms by (simp add: tenant_of_def) (simp add: ex_served_def ex_flow_def ex_tenant_def)
  show slot: "slot_of (entries (flow_scheduler t)) 1 = Some (ex_entry 1 (ex_stats\<lparr>total_wait_time_ns := 100\<rparr>) 0)"
    by (simp add: t slot_of_def ex_flows_def ex_store_def ex_level_def)
  show "shares (flow_scheduler t) 1 \<noteq> None"
    using slot by (simp add: shares_def ex_entry_def)
qed

lemma timed_out_flow_stays_witness:
  "\<exists>n ev s'. hwfq_check_timeouts 300 ex_served = Some (n, ev, s') \<and>
     hwfq_remove_flow 0 1 s' = Some (Inl HWFQ_ERR_TENANT_HAS_BACKLOG, s')"
proof -
  obtain t where t: "tenant_heap ex_served 1 = Some t" by (auto simp: ex_served_def)
  obtain n ev s' where run: "hwfq_check_timeouts 300 ex_served = Some (n, ev, s')"
    by (rule hwfq_check_timeouts_ok [OF ex_served_inv(1) refl, of 300]) (rule that)
  have "0 < current_backlog (stats (ex_entry 1 (ex_stats\<lparr>total_wait_time_ns := 100\<rparr>) 0))"
    by (simp add: ex_entry_def ex_stats_def)
  with timed_out_flow_stays [OF ex_served_inv(1) ex_served_flow(1,2) [OF t] _ _ run] ex_served_flow(3) [OF t]
  show ?thesis using run by auto
qed

section \<open>Tenants\<close>

text \<open>
  C10. With at most 32768 bins configured and an allocator that answers NULL or fresh memory, \<open>hwfq_add_tenant\<close> either refuses, with the code that the first violated condition gives
  (\<open>add_tenant_refusal\<close>) and without any change, or runs out of memory or IDs, or adds a tenant under an ID
  that was not in use: with its allocation, no flows and no backlog, its rate booked against the capacity.
  No other tenant and no work changes.
\<close>

theorem hwfq_add_tenant_correct:
  assumes "hwfq_inv s xs" "cfg_fits (hwfq_cfg s)" "\<And>a. fst mem = Some a \<Longrightarrow> tenant_heap s a = None"
  shows "\<exists>ret s'. hwfq_add_tenant mem alloc s = Some (ret, s') \<and> hwfq_inv s' xs \<and> pending s' = pending s \<and>
    (case ret of
       Inl err \<Rightarrow> add_tenant_refusal alloc s = Some err \<and> s' = s \<or>
         add_tenant_refusal alloc s = None \<and> err = HWFQ_ERR_NO_MEMORY \<and> tenant_heap s' = tenant_heap s \<and>
         (\<not> all_memory mem \<or> cfg_max_flows_per_tenant (hwfq_cfg s) = UINT32_MAX \<or>
          2 ^ 30 \<le> card (live_ids (entries (system_scheduler s))))
     | Inr i \<Rightarrow> add_tenant_refusal alloc s = None \<and> i < cfg_max_tenants (hwfq_cfg s) \<and> tenant_of i s = None \<and>
         (\<exists>r a t. alloc = Some r \<and> tenant_heap s a = None \<and> tenant_heap s' = (tenant_heap s)(a \<mapsto> t) \<and>
            tenant_id t = i \<and> tenant_allocation t = r \<and> queued (flow_scheduler t) = {} \<and>
            shares (flow_scheduler t) = Map.empty \<and> \<not> has_backlog t \<and>
            hwfq_allocated_rate_capacity s' = hwfq_allocated_rate_capacity s + rate_part r \<and>
            num_configured_tenants s' = num_configured_tenants s + 1))"
proof (cases rule: hwfq_add_tenant_cases [where mem = mem and alloc = alloc, OF assms(1,2) assms(3),
      case_names unused refused no_memory added])
  case (unused a)
  then show "fst mem = Some a" .
next
  case (refused err)
  then show ?thesis using assms(1) by simp
next
  case (no_memory s')
  have same: "tenant_heap s' = tenant_heap s" by (subst no_memory(6)) simp
  show ?thesis
    by (intro exI conjI, rule no_memory(3)) (simp_all only: no_memory(1,2,4,5) same sum.case simp_thms)
next
  case (added r i a t s')
  show ?thesis
    by (intro exI conjI, rule added(3), rule added(4), rule added(5), simp only: sum.case, intro conjI,
        rule added(1), rule added(6), rule added(7), rule exI [of _ r], rule exI [of _ a], rule exI [of _ t])
      (simp only: added(2,8-15,19,20) simp_thms)
qed

lemma hwfq_add_tenant_correct_witness:
  "hwfq_inv ex_tenant [] \<and> tenant_of 0 ex_new = None \<and> num_configured_tenants ex_tenant = num_configured_tenants ex_new + 1"
  using hwfq_add_tenant_correct [OF ex_new_inv _ ex_tenant_allowed, of ex_mem "Some (Weight 1)"]
  by (simp add: ex_tenant_run ex_configs ex_cfg_fits') blast

text \<open>
  C9. \<open>hwfq_remove_tenant\<close> refuses an ID out of range, an unknown tenant and a tenant with a registered
  backlog, without any change.  Otherwise the tenant is gone: its allocation is given back, and of the work
  still waiting in its flows each context is freed and its user's cleanup function called, once.  There may be
  such work, although the header excludes it: the guard looks at \<open>has_backlog\<close>, which is false when work was
  queued and the tenant could not be registered for want of memory.
\<close>

theorem hwfq_remove_tenant_correct:
  assumes "hwfq_inv s xs"
  shows "\<exists>ret ev s'. hwfq_remove_tenant i s = Some (ret, ev, s') \<and> hwfq_inv s' xs \<and>
    (case ret of
       Inl err \<Rightarrow> ev = [] \<and> s' = s \<and>
         (err = HWFQ_ERR_INVALID_ARG \<and> cfg_max_tenants (hwfq_cfg s) \<le> i \<or>
          err = HWFQ_ERR_NOT_FOUND \<and> tenant_of i s = None \<or>
          err = HWFQ_ERR_TENANT_HAS_BACKLOG \<and> (\<exists>a t. tenant_of i s = Some (a, t) \<and> has_backlog t))
     | Inr u \<Rightarrow> \<exists>a t cs. tenant_of i s = Some (a, t) \<and> \<not> has_backlog t \<and> distinct cs \<and>
         set cs = contexts_of (flow_scheduler t) \<and> ev = cleanup_events (context_heap s) cs \<and>
         pending s' = pending s - set cs \<and> context_heap s' = context_heap s |` (- set cs) \<and>
         tenant_heap s' = (tenant_heap s)(a := None) \<and>
         shares (system_scheduler s') = (shares (system_scheduler s))(i := None) \<and>
         hwfq_allocated_rate_capacity s' = hwfq_allocated_rate_capacity s - rate_part (tenant_allocation t) \<and>
         num_configured_tenants s' = num_configured_tenants s - 1 \<and> flight s' = flight s)"
proof (cases rule: hwfq_remove_tenant_cases [OF assms, of i, case_names range missing busy removed])
  case range
  then show ?thesis using assms by simp
next
  case missing
  then show ?thesis using assms by simp
next
  case (busy a t)
  then show ?thesis using assms by auto
next
  case (removed a t cs s')
  show ?thesis
    by (intro exI conjI, rule removed(5), rule removed(6), simp only: sum.case,
        rule exI [of _ a], rule exI [of _ t], rule exI [of _ cs])
      (simp only: removed(1-4,7-13) simp_thms)
qed

lemma hwfq_remove_tenant_correct_witness:
  "\<exists>s'. hwfq_remove_tenant 0 ex_unregistered = Some (Inr (), [Cleanup 3 7], s') \<and> pending s' = {} \<and>
    tenant_heap s' = Map.empty \<and> num_configured_tenants s' = 0"
proof -
  obtain t where h: "tenant_heap ex_unregistered = [1 \<mapsto> t]" and n: "tenant_id t = 0" "\<not> has_backlog t"
    by (rule that [of "the (tenant_heap ex_unregistered 1)"]) (simp_all add: ex_unregistered_def ex_tenant_config_def)
  have t: "tenant_of 0 ex_unregistered = Some (1, t)"
    using tenant_of_iff [OF hwfq_invD(1) [OF ex_unregistered_inv(1)]] n(1) by (simp add: h)
  have c: "contexts_of (flow_scheduler t) = {1}"
    using ex_unregistered_inv(2) by (auto simp: pending_def h split: if_splits)
  have m: "num_configured_tenants ex_unregistered = 1" "\<not> cfg_max_tenants (hwfq_cfg ex_unregistered) \<le> 0"
    by (simp_all add: ex_unregistered_def ex_queued_def ex_flow_def ex_tenant_def ex_new_def ex_cfg_def)
  obtain ret ev s' where run: "hwfq_remove_tenant 0 ex_unregistered = Some (ret, ev, s')" and
    cases: "case ret of
       Inl err \<Rightarrow> ev = [] \<and> s' = ex_unregistered \<and>
         (err = HWFQ_ERR_INVALID_ARG \<and> cfg_max_tenants (hwfq_cfg ex_unregistered) \<le> 0 \<or>
          err = HWFQ_ERR_NOT_FOUND \<and> tenant_of 0 ex_unregistered = None \<or>
          err = HWFQ_ERR_TENANT_HAS_BACKLOG \<and> (\<exists>a t. tenant_of 0 ex_unregistered = Some (a, t) \<and> has_backlog t))
     | Inr u \<Rightarrow> \<exists>a t cs. tenant_of 0 ex_unregistered = Some (a, t) \<and> \<not> has_backlog t \<and> distinct cs \<and>
         set cs = contexts_of (flow_scheduler t) \<and> ev = cleanup_events (context_heap ex_unregistered) cs \<and>
         pending s' = pending ex_unregistered - set cs \<and> context_heap s' = context_heap ex_unregistered |` (- set cs) \<and>
         tenant_heap s' = (tenant_heap ex_unregistered)(a := None) \<and>
         shares (system_scheduler s') = (shares (system_scheduler ex_unregistered))(0 := None) \<and>
         hwfq_allocated_rate_capacity s' = hwfq_allocated_rate_capacity ex_unregistered - rate_part (tenant_allocation t) \<and>
         num_configured_tenants s' = num_configured_tenants ex_unregistered - 1 \<and> flight s' = flight ex_unregistered"
    using hwfq_remove_tenant_correct [OF ex_unregistered_inv(1), of 0] by blast
  obtain u where "ret = Inr u" using cases t n(2) m(2) by (cases ret) auto
  with cases t c m(1) obtain cs where u: "ret = Inr u" and cs: "distinct cs" "set cs = {1}"
      "ev = cleanup_events (context_heap ex_unregistered) cs" "pending s' = {}"
      "tenant_heap s' = (tenant_heap ex_unregistered)(1 := None)" "num_configured_tenants s' = 0"
    by (simp add: ex_unregistered_inv(2)) blast
  have "cs = [1]" using cs(1,2) by (cases cs; cases "tl cs") auto
  then have "ev = [Cleanup 3 7]" using cs(3) by (simp add: cleanup_events_def ex_unregistered_def ex_queued_def)
  then show ?thesis using run u cs(4-6) by (simp add: h)
qed

text \<open>
  C11. \<open>hwfq_destroy\<close> releases what the queues and tables still reach: the context of every waiting unit of
  work is freed and its user's cleanup function called, once, every tenant, every entry of the work in flight
  and every session queued at the system level is freed.  No other context is: one that a failed requeue took
  out of the queues without freeing it stays allocated.
\<close>

theorem hwfq_destroy_correct:
  assumes "hwfq_inv s xs"
  shows "\<exists>cs s'. distinct cs \<and> set cs = pending s \<and> hwfq_destroy s = Some (cleanup_events (context_heap s) cs, s') \<and>
    tenant_heap s' = Map.empty \<and> context_heap s' = context_heap s |` (- pending s) \<and> if_entries (flight s') = Map.empty \<and>
    sessions (system_scheduler s') = without (queued (system_scheduler s)) (sessions (system_scheduler s))"
  using hwfq_destroy_ok [OF assms] by metis

lemma hwfq_destroy_correct_witness: "\<exists>s'. hwfq_destroy ex_queued = Some ([Cleanup 3 7], s') \<and> tenant_heap s' = Map.empty"
proof -
  obtain cs s' where cs: "distinct cs" "set cs = {1}"
      "hwfq_destroy ex_queued = Some (cleanup_events (context_heap ex_queued) cs, s')" "tenant_heap s' = Map.empty"
    using hwfq_destroy_correct [OF ex_queued_inv(1)] unfolding ex_queued_inv(2) by blast
  have "cs = [1]" using cs(1,2) by (cases cs; cases "tl cs") auto
  then show ?thesis using cs(3,4) by (simp add: cleanup_events_def ex_queued_def)
qed

end
