(* ===== verification/Async_Worker.thy ===== *)
theory Async_Worker
  imports HWFQ_Example
begin

text \<open>
  A client of the library with two threads: \<^verbatim>\<open>examples/async_worker.c\<close>.  The main thread sets the
  scheduler up and enqueues work; the worker sleeps on a condition variable, drains the scheduler, completes
  what it took and counts it.

  A step of a thread is one call of the library, which holds the scheduler's mutex, or one access to the
  shared variables; a schedule is the list of the steps in the order in which they happen.  The wait has a
  timeout and may return at any time, so that neither the signal nor the mutex that guards it restricts the
  schedules, and \<open>on_session_available\<close>, which only signals, has no effect on the state.
\<close>

section \<open>Setting up\<close>

definition async_config :: hwfq_config where
  "async_config = \<lparr>cfg_max_tenants = 100, cfg_max_flows_per_tenant = 1000, cfg_max_total_flows = 10000,
     cfg_num_groups = 16, cfg_bins_per_group = 2048, cfg_total_capacity = 10000, enable_statistics = True,
     session_available_set = True, session_timeout_set = False\<rparr>"

text \<open>The tenants with their weights, and one flow for each tenant; the first failure ends the loop.\<close>

fun async_add_tenants ::
  "(add_tenant_mem \<times> u32) list \<Rightarrow> hwfq_scheduler \<Rightarrow> ((hwfq_error + u32 list) \<times> hwfq_scheduler) option"
where
  "async_add_tenants [] s = Some (Inr [], s)"
| "async_add_tenants ((mem, w) # ws) s = do {
     (ret, s) \<leftarrow> hwfq_add_tenant mem (Some (Weight w)) s;
     case ret of
       Inl err \<Rightarrow> Some (Inl err, s)
     | Inr i \<Rightarrow> do { (ret, s) \<leftarrow> async_add_tenants ws s; Some (map_sum id ((#) i) ret, s) }
   }"

fun async_add_flows ::
  "((bool \<times> bool) \<times> u32) list \<Rightarrow> hwfq_scheduler \<Rightarrow> ((hwfq_error + u32 list) \<times> hwfq_scheduler) option"
where
  "async_add_flows [] s = Some (Inr [], s)"
| "async_add_flows ((mem, i) # is) s = do {
     (ret, s) \<leftarrow> hwfq_add_flow mem i (Some (Weight 100)) s;
     case ret of
       Inl err \<Rightarrow> Some (Inl err, s)
     | Inr f \<Rightarrow> do { (ret, s) \<leftarrow> async_add_flows is s; Some (map_sum id ((#) f) ret, s) }
   }"

text \<open>\<open>Inl\<close> is an exit with code 1, after \<open>hwfq_destroy\<close>, which answers the callbacks it made.\<close>

definition async_setup ::
  "bool \<times> bool \<times> (bool \<times> bool \<times> bool) \<times> bool \<Rightarrow> (nat \<Rightarrow> add_tenant_mem) \<Rightarrow> (nat \<Rightarrow> bool \<times> bool) \<Rightarrow>
   (event list + hwfq_scheduler \<times> u32 list \<times> u32 list) option"
where
  "async_setup mem tenant_mem flow_mem = do {
     ret \<leftarrow> hwfq_init mem (Some async_config);
     case ret of
       Inl err \<Rightarrow> Some (Inl [])
     | Inr s \<Rightarrow> do {
         (ret, s) \<leftarrow> async_add_tenants (map (\<lambda>k. (tenant_mem k, [100, 50, 25] ! k)) [0..<3]) s;
         case ret of
           Inl err \<Rightarrow> do { (ev, _) \<leftarrow> hwfq_destroy s; Some (Inl ev) }
         | Inr tenant_ids \<Rightarrow> do {
             (ret, s) \<leftarrow> async_add_flows (map (\<lambda>k. (flow_mem k, tenant_ids ! k)) [0..<3]) s;
             case ret of
               Inl err \<Rightarrow> do { (ev, _) \<leftarrow> hwfq_destroy s; Some (Inl ev) }
             | Inr flow_ids \<Rightarrow> Some (Inr (s, tenant_ids, flow_ids))
           }
       }
   }"

text \<open>The work of the main thread, interleaved over the tenants; \<open>clock\<close> gives the timestamps.\<close>

definition async_jobs :: "u32 list \<Rightarrow> u32 list \<Rightarrow> (nat \<Rightarrow> nat \<Rightarrow> u64) \<Rightarrow> (u32 \<times> u32 \<times> hwfq_session) list" where
  "async_jobs tenant_ids flow_ids clock = concat (map (\<lambda>i. map (\<lambda>k. (tenant_ids ! k, flow_ids ! k,
     \<lparr>sn_user_data = of_nat (k * 1000 + i), sn_work_size = 100, sn_timestamp = clock i k, sn_timeout_ns = 0,
       sn_cleanup_fn = None\<rparr>)) [0..<3]) [0..<500])"

section \<open>The threads\<close>

datatype worker_pc =
    Loop_test \<comment> \<open>\<open>while (atomic_load(&g_running))\<close>\<close>
  | Sleeping \<comment> \<open>in \<open>pthread_cond_timedwait\<close>\<close>
  | Woken \<comment> \<open>the test of \<open>g_running\<close> after the wait\<close>
  | Draining \<comment> \<open>\<open>while (hwfq_dequeue(...) == HWFQ_SUCCESS)\<close>\<close>
  | Counting
  | Adding \<comment> \<open>\<open>atomic_fetch_add(&g_processed_count, 1)\<close>\<close>
  | Completing
  | Exited

datatype main_pc =
    Enqueuing "(u32 \<times> u32 \<times> hwfq_session) list"
  | Watching \<comment> \<open>\<open>while (atomic_load(&g_processed_count) < 1000)\<close>\<close>
  | Stopping
  | Joining
  | Joined

record async =
  g_scheduler :: hwfq_scheduler
  g_running :: bool
  g_processed_count :: u32
  g_tenant_counts :: "u32 list"
  worker :: worker_pc
  worker_work :: hwfq_session \<comment> \<open>the worker's variables \<open>work\<close>, \<open>tid\<close> and \<open>fid\<close>\<close>
  worker_tid :: u32
  worker_fid :: u32
  main_thread :: main_pc

text \<open>What a step answers: the call of the library it made, if any, with the outcome and the callbacks.\<close>

type_synonym calls = "(hwfq_call \<times> outcome \<times> event list) list"

definition library_call :: "hwfq_call \<Rightarrow> async \<Rightarrow> (outcome \<times> calls \<times> async) option" where
  "library_call c a = do {
     ((r, ev), s) \<leftarrow> hwfq_step c (g_scheduler a);
     Some (r, [(c, r, ev)], a\<lparr>g_scheduler := s\<rparr>)
   }"

text \<open>A step of the worker; \<open>env\<close> and \<open>now\<close> are the allocator and the clock of its call.\<close>

definition worker_step :: "env \<Rightarrow> u64 \<Rightarrow> async \<Rightarrow> (calls \<times> async) option" where
  "worker_step env now a =
     (case worker a of
        Loop_test \<Rightarrow> Some ([], a\<lparr>worker := (if g_running a then Sleeping else Exited)\<rparr>)
      | Sleeping \<Rightarrow> Some ([], a\<lparr>worker := Woken\<rparr>)
      | Woken \<Rightarrow> Some ([], a\<lparr>worker := (if g_running a then Draining else Exited)\<rparr>)
      | Draining \<Rightarrow> do {
          (r, l, a) \<leftarrow> library_call (Dequeue env) a;
          case r of
            Work (Inr (d, w, ts, i, f)) \<Rightarrow> Some (l, a\<lparr>worker_work := (worker_work a)\<lparr>sn_user_data := d,
              sn_work_size := w, sn_timestamp := ts\<rparr>, worker_tid := i, worker_fid := f, worker := Counting\<rparr>)
          | _ \<Rightarrow> Some (l, a\<lparr>worker := Loop_test\<rparr>)
        }
      | Counting \<Rightarrow>
          if worker_tid a < 3 then do {
            n \<leftarrow> arr_get (g_tenant_counts a) (unat (worker_tid a));
            ns \<leftarrow> arr_set (g_tenant_counts a) (unat (worker_tid a)) (n + 1);
            Some ([], a\<lparr>g_tenant_counts := ns, worker := Adding\<rparr>)
          } else Some ([], a\<lparr>worker := Adding\<rparr>)
      | Adding \<Rightarrow> Some ([], a\<lparr>g_processed_count := g_processed_count a + 1, worker := Completing\<rparr>)
      | Completing \<Rightarrow> do {
          (_, l, a) \<leftarrow> library_call (Complete env (Some (worker_work a)) (worker_tid a) (worker_fid a) now) a;
          Some (l, a\<lparr>worker := Draining\<rparr>)
        }
      | Exited \<Rightarrow> Some ([], a))"

text \<open>A step of the main thread; in \<open>Watching\<close> and \<open>Joining\<close> it may stay where it is.\<close>

definition main_step :: "env \<Rightarrow> async \<Rightarrow> (calls \<times> async) option" where
  "main_step env a =
     (case main_thread a of
        Enqueuing [] \<Rightarrow> Some ([], a\<lparr>main_thread := Watching\<rparr>)
      | Enqueuing ((i, f, w) # js) \<Rightarrow> do {
          (_, l, a) \<leftarrow> library_call (Enqueue env i f (Some w)) a;
          Some (l, a\<lparr>main_thread := Enqueuing js\<rparr>)
        }
      | Watching \<Rightarrow> Some ([], if g_processed_count a < 1000 then a else a\<lparr>main_thread := Stopping\<rparr>)
      | Stopping \<Rightarrow> Some ([], a\<lparr>g_running := False, main_thread := Joining\<rparr>)
      | Joining \<Rightarrow> Some ([], if worker a = Exited then a\<lparr>main_thread := Joined\<rparr> else a)
      | Joined \<Rightarrow> Some ([], a))"

datatype action = Worker env u64 | Main env

fun async_step :: "action \<Rightarrow> async \<Rightarrow> (calls \<times> async) option" where
  "async_step (Worker env now) a = worker_step env now a"
| "async_step (Main env) a = main_step env a"

definition async_start :: "hwfq_scheduler \<Rightarrow> hwfq_session \<Rightarrow> u32 \<Rightarrow> u32 \<Rightarrow> (u32 \<times> u32 \<times> hwfq_session) list \<Rightarrow> async" where
  "async_start s w i f js = \<lparr>g_scheduler = s, g_running = True, g_processed_count = 0, g_tenant_counts = [0, 0, 0],
     worker = Loop_test, worker_work = w, worker_tid = i, worker_fid = f, main_thread = Enqueuing js\<rparr>"

section \<open>The work in the worker's hands\<close>

text \<open>
  The calls of the library, with what they do to the work; the work in flight changes only where the call
  says so.
\<close>

lemma hwfq_step_ok:
  assumes "system_inv s xs" "allowed c s"
  obtains r ev s' xs' F where "hwfq_step c s = Some ((r, ev), s')" "system_inv s' xs'"
    "size (waiting s') + size (handed_out r) \<le> size (waiting s) + size (accepted c r)"
    "flying s' xs' + F = flying s xs + handed_out r" "ended c (r, ev) F"
proof -
  obtain r ev s' xs' where step: "exec c s = Some (r, ev, s')" and ok: "step_ok c r ev s xs s' xs'"
    by (rule exec_ok [OF assms])
  obtain D F where bal: "waiting s' + handed_out r + D = waiting s + accepted c r"
      "flying s' xs' + F = flying s xs + handed_out r" "ended c (r, ev) F" and inv: "system_inv s' xs'"
    using ok unfolding step_ok_def balance_def by blast
  have "size (waiting s' + handed_out r + D) = size (waiting s + accepted c r)" by (simp only: bal(1))
  then show thesis by (intro that [OF hwfq_step_Some [OF step] inv _ bal(2,3)]) simp
qed

text \<open>When one unit of work is in flight, completing it succeeds and leaves none.\<close>

lemma complete_in_hand:
  assumes inv: "system_inv s xs" and ok: "allowed (Complete env (Some w) i f now) s"
    and hand: "flying s xs = {#(i, f, sn_user_data w, z)#}"
  obtains ev s' where "hwfq_step (Complete env (Some w) i f now) s = Some ((Code (Inr ()), ev), s')"
    "system_inv s' []" "waiting s' = waiting s"
proof -
  have h: "hwfq_inv s xs" "cfg_fits (hwfq_cfg s)" using inv by (simp_all add: system_inv_def)
  have a: "fresh_in (system_scheduler s) (env_tenant_session env)" "active_session_count (system_scheduler s) \<noteq> UINT32_MAX"
    using ok env_freshD(1) by (auto simp: has_room_def)
  obtain b where xs: "xs = [b]" and b: "entry_work (if_info (flight s) b) = (i, f, sn_user_data w, z)"
    using hand by (auto simp: flying_def dest: msed_map_invR)
  have "b \<in> dom (if_entries (flight s))" using hwfq_invD(4) [OF h(1)] by (simp add: flight_ok_def xs)
  then obtain e where e: "if_entries (flight s) b = Some e" by blast
  then have "if_tenant_id e = i" "if_flow_id e = f" "if_user_data e = sn_user_data w"
    using b by (simp_all add: if_info_def entry_work_def if_data_def)
  then have t: "target (Some w) i f (flight s) xs = Some b" by (simp add: target_def if_match_def xs e Let_def)
  show thesis
  proof (cases rule: hwfq_complete_cases [OF h(1) a, of "Some w" i f now, case_names missing completed])
    case missing
    with t show thesis by simp
  next
    case (completed a e s')
    have "exec (Complete env (Some w) i f now) s = Some (Code (Inr ()),
        if has_capacity s' \<and> (queued (system_scheduler s) \<noteq> {} \<or> tenant_waits i s) \<and> session_available_set (hwfq_cfg s)
        then [Session_available] else [], s')" using completed(3) by simp
    moreover have "system_inv s' []"
      using completed(1,4,10) t xs h(2) by (simp add: system_inv_def)
    moreover have "waiting s' = waiting s" by (rule waiting_same [OF completed(5)]) (simp add: completed(9))
    ultimately show thesis by (rule that [OF hwfq_step_Some])
  qed
qed

definition in_hand :: "async \<Rightarrow> work multiset" where
  "in_hand a = (if worker a \<in> {Counting, Adding, Completing}
     then {#(worker_tid a, worker_fid a, sn_user_data (worker_work a), sn_work_size (worker_work a))#} else {#})"

text \<open>The main thread clears \<open>g_running\<close> before it joins, and has joined only a worker that left its loop.\<close>

definition main_ok :: "async \<Rightarrow> bool" where
  "main_ok a \<longleftrightarrow> (g_running a \<longleftrightarrow> main_thread a \<noteq> Joining \<and> main_thread a \<noteq> Joined) \<and>
     (main_thread a = Joined \<longrightarrow> worker a = Exited)"

definition async_inv :: "async \<Rightarrow> addr list \<Rightarrow> bool" where
  "async_inv a xs \<longleftrightarrow> system_inv (g_scheduler a) xs \<and> flying (g_scheduler a) xs = in_hand a \<and>
     length (g_tenant_counts a) = 3 \<and> main_ok a"

text \<open>The counters, with the unit of work the worker has taken and not counted yet.\<close>

definition processed :: "async \<Rightarrow> u32" where
  "processed a = g_processed_count a + (if worker a \<in> {Counting, Adding} then 1 else 0)"

definition tenant_tally :: "nat \<Rightarrow> async \<Rightarrow> u32" where
  "tenant_tally k a = g_tenant_counts a ! k + (if worker a = Counting \<and> unat (worker_tid a) = k then 1 else 0)"

definition of_tenant :: "nat \<Rightarrow> work multiset \<Rightarrow> work multiset" where
  "of_tenant k W = {#x \<in># W. unat (fst x) = k#}"

fun finishes :: "hwfq_call \<Rightarrow> outcome \<Rightarrow> bool" where
  "finishes (Complete env w i f now) r \<longleftrightarrow> r = Code (Inr ())"
| "finishes c r \<longleftrightarrow> True"

text \<open>The call a thread makes in its next step.\<close>

fun next_call :: "action \<Rightarrow> async \<Rightarrow> hwfq_call option" where
  "next_call (Worker env now) a =
     (case worker a of
        Draining \<Rightarrow> Some (Dequeue env)
      | Completing \<Rightarrow> Some (Complete env (Some (worker_work a)) (worker_tid a) (worker_fid a) now)
      | _ \<Rightarrow> None)"
| "next_call (Main env) a =
     (case main_thread a of Enqueuing ((i, f, w) # js) \<Rightarrow> Some (Enqueue env i f (Some w)) | _ \<Rightarrow> None)"

definition async_allowed :: "action \<Rightarrow> async \<Rightarrow> bool" where
  "async_allowed act a \<longleftrightarrow> (case next_call act a of None \<Rightarrow> True | Some c \<Rightarrow> allowed c (g_scheduler a))"

text \<open>What a step of the program does, \<open>l\<close> being the calls it makes.\<close>

definition async_step_law :: "async \<Rightarrow> calls \<Rightarrow> async \<Rightarrow> bool" where
  "async_step_law a l a' \<longleftrightarrow>
     run hwfq_step (map fst l) (g_scheduler a) = Some (l, g_scheduler a') \<and>
     may_run hwfq_step allowed (map fst l) (g_scheduler a) \<and>
     (\<forall>(c, r) \<in> set l. finishes c (fst r)) \<and>
     processed a' = processed a + of_nat (size (total given_out l)) \<and>
     (\<forall>k < 3. tenant_tally k a' = tenant_tally k a + of_nat (size (of_tenant k (total given_out l))))"

lemma async_quiet:
  assumes "async_inv a xs" "g_scheduler a' = g_scheduler a" "in_hand a' = in_hand a" "length (g_tenant_counts a') = 3"
    "processed a' = processed a" "\<And>k. k < 3 \<Longrightarrow> tenant_tally k a' = tenant_tally k a" "main_ok a'"
  shows "async_inv a' xs \<and> async_step_law a [] a'"
  using assms by (simp add: async_inv_def async_step_law_def of_tenant_def)

lemma async_call:
  assumes "allowed c (g_scheduler a)" "hwfq_step c (g_scheduler a) = Some ((r, ev), g_scheduler a')"
    and "finishes c r" "processed a' = processed a + of_nat (size (handed_out r))"
    "\<And>k. k < 3 \<Longrightarrow> tenant_tally k a' = tenant_tally k a + of_nat (size (of_tenant k (handed_out r)))"
  shows "async_step_law a [(c, r, ev)] a'"
  using assms by (simp add: async_step_law_def given_out_def)

section \<open>Every step\<close>

lemma async_allowedD: "async_allowed act a \<Longrightarrow> next_call act a = Some c \<Longrightarrow> allowed c (g_scheduler a)"
  by (simp add: async_allowed_def)

lemma no_accepted: "accepted (Dequeue env) r = {#}" "accepted (Complete env w i f now) r = {#}"
  by (cases r; simp)+

lemma enqueue_hands_nothing:
  assumes "exec (Enqueue env i f work) s = Some (r, ev, s')"
  shows "handed_out r = {#}"
  using assms by (cases "hwfq_enqueue env i f work s") auto

lemma complete_hands_nothing:
  assumes "exec (Complete env w i f now) s = Some (r, ev, s')"
  shows "handed_out r = {#}"
  using assms by (cases "hwfq_complete env w i f now s") auto

lemma hwfq_stepD: "hwfq_step c s = Some ((r, ev), s') \<Longrightarrow> exec c s = Some (r, ev, s')"
  by (auto simp: hwfq_step_def)

lemma draining_step:
  assumes inv: "async_inv a xs" and w: "worker a = Draining" and ok: "allowed (Dequeue env) (g_scheduler a)"
  obtains l a' xs' where "worker_step env now a = Some (l, a')" "async_inv a' xs'" "async_step_law a l a'"
    "size (waiting (g_scheduler a')) + (if worker a' = Counting then 1 else 0) \<le> size (waiting (g_scheduler a))"
    "worker a' = Counting \<or> worker a' = Loop_test" "g_running a' = g_running a"
proof -
  have h: "system_inv (g_scheduler a) xs" "flying (g_scheduler a) xs = {#}" "length (g_tenant_counts a) = 3" "main_ok a"
    using inv w by (simp_all add: async_inv_def in_hand_def)
  obtain r ev s' xs' F where step: "hwfq_step (Dequeue env) (g_scheduler a) = Some ((r, ev), s')" and
    s': "system_inv s' xs'" "size (waiting s') + size (handed_out r) \<le> size (waiting (g_scheduler a)) + size (accepted (Dequeue env) r)"
      "flying s' xs' + F = flying (g_scheduler a) xs + handed_out r" "ended (Dequeue env) (r, ev) F"
    by (rule hwfq_step_ok [OF h(1) ok])
  have F: "flying s' xs' = handed_out r" using s'(3,4) h(2) by simp
  have z: "size (waiting s') + size (handed_out r) \<le> size (waiting (g_scheduler a))" using s'(2) by (simp add: no_accepted)
  show thesis
  proof (cases "handed_out r = {#}")
    case True
    let ?a = "a\<lparr>g_scheduler := s', worker := Loop_test\<rparr>"
    have run: "worker_step env now a = Some ([(Dequeue env, r, ev)], ?a)"
      using True by (cases r rule: handed_out.cases) (simp_all add: worker_step_def library_call_def w step)
    show thesis
    proof (rule that [OF run])
      show "async_inv ?a xs'" using s'(1) F True h(3,4) w by (simp add: async_inv_def in_hand_def main_ok_def)
      show "async_step_law a [(Dequeue env, r, ev)] ?a"
        by (rule async_call [OF ok]) (use step in \<open>simp_all add: True processed_def tenant_tally_def of_tenant_def w\<close>)
    qed (use z in simp_all)
  next
    case False
    then obtain d n ts i f where r: "r = Work (Inr (d, n, ts, i, f))" by (cases r rule: handed_out.cases) auto
    let ?a = "a\<lparr>g_scheduler := s', worker_work := (worker_work a)\<lparr>sn_user_data := d, sn_work_size := n, sn_timestamp := ts\<rparr>,
      worker_tid := i, worker_fid := f, worker := Counting\<rparr>"
    have run: "worker_step env now a = Some ([(Dequeue env, r, ev)], ?a)"
      by (simp add: worker_step_def library_call_def w step r)
    show thesis
    proof (rule that [OF run])
      show "async_inv ?a xs'" using s'(1) F h(3,4) w by (simp add: async_inv_def in_hand_def r main_ok_def)
      show "async_step_law a [(Dequeue env, r, ev)] ?a"
        by (rule async_call [OF ok]) (use step in \<open>simp_all add: r processed_def tenant_tally_def of_tenant_def w\<close>)
    qed (use z in \<open>simp_all add: r\<close>)
  qed
qed

lemma completing_step:
  assumes inv: "async_inv a xs" and w: "worker a = Completing"
    and ok: "allowed (Complete env (Some (worker_work a)) (worker_tid a) (worker_fid a) now) (g_scheduler a)"
  obtains l a' where "worker_step env now a = Some (l, a')" "async_inv a' []" "async_step_law a l a'"
    "waiting (g_scheduler a') = waiting (g_scheduler a)" "worker a' = Draining" "g_running a' = g_running a"
proof -
  have h: "system_inv (g_scheduler a) xs" "length (g_tenant_counts a) = 3"
    "flying (g_scheduler a) xs = {#(worker_tid a, worker_fid a, sn_user_data (worker_work a), sn_work_size (worker_work a))#}"
    "main_ok a"
    using inv w by (simp_all add: async_inv_def in_hand_def)
  obtain ev s' where step: "hwfq_step (Complete env (Some (worker_work a)) (worker_tid a) (worker_fid a) now) (g_scheduler a) =
      Some ((Code (Inr ()), ev), s')" "system_inv s' []" "waiting s' = waiting (g_scheduler a)"
    by (rule complete_in_hand [OF h(1) ok h(3)])
  let ?a = "a\<lparr>g_scheduler := s', worker := Draining\<rparr>"
  show thesis
  proof (rule that)
    show "worker_step env now a = Some ([(Complete env (Some (worker_work a)) (worker_tid a) (worker_fid a) now,
        Code (Inr ()), ev)], ?a)" by (simp add: worker_step_def library_call_def w step(1))
    show "async_inv ?a []" using step(2) h(2,4) w by (simp add: async_inv_def in_hand_def flying_def main_ok_def)
    show "async_step_law a [(Complete env (Some (worker_work a)) (worker_tid a) (worker_fid a) now, Code (Inr ()), ev)] ?a"
      by (rule async_call [OF ok]) (use step(1) in \<open>simp_all add: processed_def tenant_tally_def of_tenant_def w\<close>)
  qed (simp_all add: step(3))
qed

text \<open>
  The rank of the worker's next step once \<open>g_running\<close> is false: each of its steps makes it smaller, until
  it has left the loop.
\<close>

definition worker_rank :: "async \<Rightarrow> nat" where
  "worker_rank a = (let n = size (waiting (g_scheduler a)) in
     case worker a of Exited \<Rightarrow> 0 | Loop_test \<Rightarrow> 1 | Woken \<Rightarrow> 1 | Sleeping \<Rightarrow> 2 | Draining \<Rightarrow> 4 * n + 2
       | Completing \<Rightarrow> 4 * n + 3 | Adding \<Rightarrow> 4 * n + 4 | Counting \<Rightarrow> 4 * n + 5)"

lemma worker_step_ok:
  assumes inv: "async_inv a xs" and ok: "async_allowed (Worker env now) a"
  obtains (step) l a' xs' where "worker_step env now a = Some (l, a')" "async_inv a' xs'" "async_step_law a l a'"
    "g_running a' = g_running a" "\<not> g_running a \<Longrightarrow> worker_rank a' \<le> worker_rank a - 1"
proof -
  have len: "length (g_tenant_counts a) = 3" "main_ok a" using inv by (simp_all add: async_inv_def)
  note quiet = async_quiet [OF inv]
  show thesis
  proof (cases "worker a")
    case Draining
    obtain l a' xs' where s: "worker_step env now a = Some (l, a')" "async_inv a' xs'" "async_step_law a l a'"
      "size (waiting (g_scheduler a')) + (if worker a' = Counting then 1 else 0) \<le> size (waiting (g_scheduler a))"
      "worker a' = Counting \<or> worker a' = Loop_test" "g_running a' = g_running a"
      by (rule draining_step [OF inv Draining async_allowedD [OF ok], where now = now]) (use Draining in simp)
    show thesis by (rule step [OF s(1-3,6)]) (use s(4,5) Draining in \<open>auto simp: worker_rank_def Let_def\<close>)
  next
    case Completing
    obtain l a' where s: "worker_step env now a = Some (l, a')" "async_inv a' []" "async_step_law a l a'"
      "waiting (g_scheduler a') = waiting (g_scheduler a)" "worker a' = Draining" "g_running a' = g_running a"
      by (rule completing_step [OF inv Completing async_allowedD [OF ok]]) (use Completing in simp)
    show thesis by (rule step [OF s(1-3,6)]) (use s(4,5) Completing in \<open>simp add: worker_rank_def\<close>)
  next
    case Counting
    define k where "k = unat (worker_tid a)"
    have lt: "worker_tid a < 3 \<longleftrightarrow> k < 3" by (simp add: word_less_nat_alt k_def)
    let ?a = "a\<lparr>g_tenant_counts := (if k < 3 then (g_tenant_counts a)[k := g_tenant_counts a ! k + 1] else g_tenant_counts a),
      worker := Adding\<rparr>"
    have run: "worker_step env now a = Some ([], ?a)"
      using len by (simp add: worker_step_def Counting lt k_def arr_get_def arr_set_def)
    have "async_inv ?a xs \<and> async_step_law a [] ?a"
      by (rule quiet) (use len in \<open>auto simp: in_hand_def processed_def tenant_tally_def Counting main_ok_def k_def nth_list_update\<close>)
    then show thesis by (intro step [OF run]) (auto simp: worker_rank_def Counting)
  next
    case Adding
    let ?a = "a\<lparr>g_processed_count := g_processed_count a + 1, worker := Completing\<rparr>"
    have run: "worker_step env now a = Some ([], ?a)" by (simp add: worker_step_def Adding)
    have "async_inv ?a xs \<and> async_step_law a [] ?a"
      by (rule quiet) (use len in \<open>simp_all add: in_hand_def processed_def tenant_tally_def Adding main_ok_def\<close>)
    then show thesis by (intro step [OF run]) (auto simp: worker_rank_def Adding)
  next
    case Loop_test
    let ?a = "a\<lparr>worker := (if g_running a then Sleeping else Exited)\<rparr>"
    have run: "worker_step env now a = Some ([], ?a)" by (simp add: worker_step_def Loop_test)
    have "async_inv ?a xs \<and> async_step_law a [] ?a"
      by (rule quiet) (use len in \<open>simp_all add: in_hand_def processed_def tenant_tally_def Loop_test main_ok_def\<close>)
    then show thesis by (intro step [OF run]) (auto simp: worker_rank_def Loop_test)
  next
    case Woken
    let ?a = "a\<lparr>worker := (if g_running a then Draining else Exited)\<rparr>"
    have run: "worker_step env now a = Some ([], ?a)" by (simp add: worker_step_def Woken)
    have "async_inv ?a xs \<and> async_step_law a [] ?a"
      by (rule quiet) (use len in \<open>simp_all add: in_hand_def processed_def tenant_tally_def Woken main_ok_def\<close>)
    then show thesis by (intro step [OF run]) (auto simp: worker_rank_def Woken)
  next
    case Sleeping
    let ?a = "a\<lparr>worker := Woken\<rparr>"
    have run: "worker_step env now a = Some ([], ?a)" by (simp add: worker_step_def Sleeping)
    have "async_inv ?a xs \<and> async_step_law a [] ?a"
      by (rule quiet) (use len in \<open>simp_all add: in_hand_def processed_def tenant_tally_def Sleeping main_ok_def\<close>)
    then show thesis by (intro step [OF run]) (auto simp: worker_rank_def Sleeping)
  next
    case Exited
    have run: "worker_step env now a = Some ([], a)" by (simp add: worker_step_def Exited)
    have "async_inv a xs \<and> async_step_law a [] a" by (rule quiet) (use len in \<open>simp_all add: main_ok_def\<close>)
    then show thesis by (intro step [OF run]) (auto simp: worker_rank_def Exited)
  qed
qed

text \<open>The main thread: a call changes only the scheduler, and none of its steps touches the worker's variables.\<close>

lemma enqueue_work_step:
  assumes inv: "async_inv a xs" and m: "main_thread a = Enqueuing ((i, f, w) # js)"
    and ok: "allowed (Enqueue env i f (Some w)) (g_scheduler a)"
  obtains l a' xs' where "main_step env a = Some (l, a')" "async_inv a' xs'" "async_step_law a l a'"
    "worker a' = worker a"
proof -
  have h: "system_inv (g_scheduler a) xs" "flying (g_scheduler a) xs = in_hand a" "length (g_tenant_counts a) = 3" "main_ok a"
    using inv by (simp_all add: async_inv_def)
  obtain r ev s' xs' F where step: "hwfq_step (Enqueue env i f (Some w)) (g_scheduler a) = Some ((r, ev), s')" and
    s': "system_inv s' xs'" "flying s' xs' + F = flying (g_scheduler a) xs + handed_out r"
      "ended (Enqueue env i f (Some w)) (r, ev) F"
    by (rule hwfq_step_ok [OF h(1) ok])
  have none: "handed_out r = {#}" by (rule enqueue_hands_nothing [OF hwfq_stepD [OF step]])
  have F: "flying s' xs' = in_hand a" using s'(2,3) h(2) none by simp
  let ?a = "a\<lparr>g_scheduler := s', main_thread := Enqueuing js\<rparr>"
  show thesis
  proof (rule that)
    show "main_step env a = Some ([(Enqueue env i f (Some w), r, ev)], ?a)"
      by (simp add: main_step_def library_call_def m step)
    show "async_inv ?a xs'" using s'(1) F h(3,4) m by (simp add: async_inv_def in_hand_def main_ok_def)
    show "async_step_law a [(Enqueue env i f (Some w), r, ev)] ?a"
      by (rule async_call [OF ok]) (use step in \<open>simp_all add: none processed_def tenant_tally_def of_tenant_def\<close>)
  qed simp
qed

lemma main_step_ok:
  assumes inv: "async_inv a xs" and ok: "async_allowed (Main env) a"
  obtains (step) l a' xs' where "main_step env a = Some (l, a')" "async_inv a' xs'" "async_step_law a l a'"
    "\<not> g_running a \<Longrightarrow> \<not> g_running a' \<and> worker_rank a' = worker_rank a"
proof (cases "\<exists>j js. main_thread a = Enqueuing (j # js)")
  case True
  then obtain i f w js where m: "main_thread a = Enqueuing ((i, f, w) # js)" by auto
  obtain l a' xs' where s: "main_step env a = Some (l, a')" "async_inv a' xs'" "async_step_law a l a'"
    by (rule enqueue_work_step [OF inv m async_allowedD [OF ok]]) (use m in simp_all)
  have "g_running a" using inv m by (simp add: async_inv_def main_ok_def)
  then show thesis by (intro step [OF s]) simp
next
  case False
  have len: "length (g_tenant_counts a) = 3" "main_ok a" using inv by (simp_all add: async_inv_def)
  let ?a = "a\<lparr>g_running := g_running a \<and> main_thread a \<noteq> Stopping,
    main_thread := (case main_thread a of
        Enqueuing js \<Rightarrow> Watching
      | Watching \<Rightarrow> if g_processed_count a < 1000 then Watching else Stopping
      | Stopping \<Rightarrow> Joining
      | Joining \<Rightarrow> if worker a = Exited then Joined else Joining
      | Joined \<Rightarrow> Joined)\<rparr>"
  have run: "main_step env a = Some ([], ?a)"
    using False len(2) by (auto simp: main_step_def main_ok_def split: main_pc.split list.split)
  have ok: "async_inv ?a xs \<and> async_step_law a [] ?a"
    by (rule async_quiet [OF inv])
      (use len False in \<open>auto simp: in_hand_def processed_def tenant_tally_def main_ok_def split: main_pc.split\<close>)
  show thesis by (rule step [OF run ok [THEN conjunct1] ok [THEN conjunct2]]) (simp add: worker_rank_def)
qed

definition is_worker :: "action \<Rightarrow> bool" where
  "is_worker act \<longleftrightarrow> (\<exists>env now. act = Worker env now)"

lemma async_step_ok:
  assumes "async_inv a xs" "async_allowed act a"
  obtains (step) l a' xs' where "async_step act a = Some (l, a')" "async_inv a' xs'" "async_step_law a l a'"
    "\<not> g_running a \<Longrightarrow> \<not> g_running a' \<and> worker_rank a' \<le> worker_rank a - (if is_worker act then 1 else 0)"
proof (cases act)
  case (Worker env now)
  with assms obtain l a' xs' where "worker_step env now a = Some (l, a')" "async_inv a' xs'" "async_step_law a l a'"
    "g_running a' = g_running a" "\<not> g_running a \<Longrightarrow> worker_rank a' \<le> worker_rank a - 1"
    by (metis worker_step_ok)
  then show thesis using Worker by (intro step) (auto simp: is_worker_def)
next
  case (Main env)
  with assms obtain l a' xs' where "main_step env a = Some (l, a')" "async_inv a' xs'" "async_step_law a l a'"
    "\<not> g_running a \<Longrightarrow> \<not> g_running a' \<and> worker_rank a' = worker_rank a"
    by (metis main_step_ok)
  then show thesis using Main by (intro step) (auto simp: is_worker_def)
qed

section \<open>Every schedule\<close>

lemma async_step_law_trans:
  assumes "async_step_law a l a'" "async_step_law a' l' a''"
  shows "async_step_law a (l @ l') a''"
  using assms by (auto simp: async_step_law_def run_append may_run_append of_tenant_def)

lemma async_run_ok:
  assumes "async_inv a xs" "may_run async_step async_allowed acts a"
  obtains tr a' xs' where "run async_step acts a = Some (tr, a')" "async_inv a' xs'"
    "async_step_law a (concat (map snd tr)) a'"
    "\<not> g_running a \<Longrightarrow> worker_rank a' \<le> worker_rank a - length (filter is_worker acts)"
  using assms
proof (induction acts arbitrary: a xs thesis)
  case Nil
  show thesis by (rule Nil.prems(1)) (use Nil.prems(2) in \<open>auto simp: async_step_law_def of_tenant_def\<close>)
next
  case (Cons act acts)
  have ok: "async_allowed act a" using Cons.prems(3) by simp
  obtain l a1 ys where one: "async_step act a = Some (l, a1)" "async_inv a1 ys" "async_step_law a l a1"
    "\<not> g_running a \<Longrightarrow> \<not> g_running a1 \<and> worker_rank a1 \<le> worker_rank a - (if is_worker act then 1 else 0)"
    using async_step_ok [OF Cons.prems(2) ok] by metis
  have "may_run async_step async_allowed acts a1" using Cons.prems(3) one(1) by simp
  from Cons.IH [OF _ one(2) this]
  obtain tr a2 zs where rest: "run async_step acts a1 = Some (tr, a2)" "async_inv a2 zs"
    "async_step_law a1 (concat (map snd tr)) a2"
    "\<not> g_running a1 \<Longrightarrow> worker_rank a2 \<le> worker_rank a1 - length (filter is_worker acts)" by metis
  show thesis
  proof (rule Cons.prems(1))
    show "run async_step (act # acts) a = Some ((act, l) # tr, a2)" using one(1) rest(1) by simp
    show "async_step_law a (concat (map snd ((act, l) # tr))) a2"
      using async_step_law_trans [OF one(3) rest(3)] by simp
    show "worker_rank a2 \<le> worker_rank a - length (filter is_worker (act # acts))" if "\<not> g_running a"
      using one(4) [OF that] rest(4) by (auto split: if_splits)
  qed (rule rest(2))
qed

text \<open>The start, with a scheduler that holds no work.\<close>

lemma async_start_inv: "system_inv s [] \<Longrightarrow> async_inv (async_start s w i f js) []"
  by (simp add: async_inv_def async_start_def in_hand_def flying_def main_ok_def)

section \<open>The setup\<close>

definition idle :: "hwfq_scheduler \<Rightarrow> bool" where
  "idle s \<longleftrightarrow> system_inv s [] \<and> waiting s = {#}"

lemma idle_step:
  assumes "idle s" "exec c s = Some (r, ev, s')" "allowed c s" "accepted c r = {#}"
  shows "idle s'"
proof -
  have h: "system_inv s []" "waiting s = {#}" using assms(1) by (simp_all add: idle_def)
  obtain r1 ev1 s1 xs F where "hwfq_step c s = Some ((r1, ev1), s1)" and s1: "system_inv s1 xs"
    "size (waiting s1) + size (handed_out r1) \<le> size (waiting s) + size (accepted c r1)"
    "flying s1 xs + F = flying s [] + handed_out r1"
    by (rule hwfq_step_ok [OF h(1) assms(3)])
  then have eq: "r1 = r" "s1 = s'" using hwfq_step_Some [OF assms(2)] by simp_all
  have "handed_out r = {#}" "waiting s' = {#}" using s1(2) h(2) assms(4) by (simp_all add: eq)
  moreover from this(1) have "xs = []" using s1(3) by (simp add: eq flying_def)
  ultimately show ?thesis using s1(1) by (simp add: idle_def eq)
qed

lemma add_tenant_heap:
  assumes "hwfq_add_tenant mem alloc s = Some (r, s')" "fst mem \<noteq> Some b"
  shows "tenant_heap s' b = tenant_heap s b"
  using assms
  by (cases mem) (auto simp: hwfq_add_tenant_def put_tenant_def Let_def split: option.splits sum.splits if_splits bind_splits prod.splits)


lemma async_tenants_ok:
  assumes "idle s" "\<forall>x \<in> set ws. \<forall>a. fst (fst x) = Some a \<longrightarrow> tenant_heap s a = None"
    "distinct (filter (\<lambda>a. a \<noteq> None) (map (\<lambda>x. fst (fst x)) ws))"
  shows "\<exists>ret s'. async_add_tenants ws s = Some (ret, s') \<and> idle s'"
  using assms
proof (induction ws arbitrary: s)
  case Nil
  then show ?case by simp
next
  case (Cons x ws)
  obtain mem w where x: "x = (mem, w)" by (cases x)
  have ok: "allowed (Add_tenant mem (Some (Weight w))) s" using Cons.prems(2) by (simp add: x)
  have inv: "system_inv s []" using Cons.prems(1) by (simp add: idle_def)
  obtain r ev s1 where e: "exec (Add_tenant mem (Some (Weight w))) s = Some (r, ev, s1)" by (rule exec_ok [OF inv ok])
  then obtain ret where add: "hwfq_add_tenant mem (Some (Weight w)) s = Some (ret, s1)"
    by (cases "hwfq_add_tenant mem (Some (Weight w)) s") auto
  have i: "idle s1" by (rule idle_step [OF Cons.prems(1) e ok]) simp
  show ?case
  proof (cases ret)
    case (Inl err)
    then show ?thesis using add i by (simp add: x)
  next
    case (Inr k)
    have fresh: "\<forall>x \<in> set ws. \<forall>a. fst (fst x) = Some a \<longrightarrow> tenant_heap s1 a = None"
    proof (intro ballI allI impI)
      fix y a assume y: "y \<in> set ws" "fst (fst y) = Some a"
      then have "fst mem \<noteq> Some a" using Cons.prems(3) by (force simp: x)
      from add_tenant_heap [OF add this] show "tenant_heap s1 a = None" using Cons.prems(2) y by simp
    qed
    have "distinct (filter (\<lambda>a. a \<noteq> None) (map (\<lambda>x. fst (fst x)) ws))" using Cons.prems(3) by (cases "fst mem") (simp_all add: x)
    then obtain ret' s2 where "async_add_tenants ws s1 = Some (ret', s2)" "idle s2" using Cons.IH [OF i fresh] by blast
    then show ?thesis using add Inr by (simp add: x)
  qed
qed

lemma async_flows_ok:
  assumes "idle s"
  shows "\<exists>ret s'. async_add_flows ws s = Some (ret, s') \<and> idle s'"
  using assms
proof (induction ws arbitrary: s)
  case Nil
  then show ?case by simp
next
  case (Cons x ws)
  obtain mem i where x: "x = (mem, i)" by (cases x)
  have inv: "system_inv s []" using Cons.prems(1) by (simp add: idle_def)
  obtain r ev s1 where e: "exec (Add_flow mem i (Some (Weight 100))) s = Some (r, ev, s1)"
    by (rule exec_ok [OF inv, of "Add_flow mem i (Some (Weight 100))"]) simp_all
  then obtain ret where add: "hwfq_add_flow mem i (Some (Weight 100)) s = Some (ret, s1)"
    by (cases "hwfq_add_flow mem i (Some (Weight 100)) s") auto
  have i: "idle s1" by (rule idle_step [OF Cons.prems(1) e]) simp_all
  show ?case
  proof (cases ret)
    case (Inl err)
    then show ?thesis using add i by (simp add: x)
  next
    case (Inr k)
    obtain ret' s2 where "async_add_flows ws s1 = Some (ret', s2)" "idle s2" using Cons.IH [OF i] by blast
    then show ?thesis using add Inr by (simp add: x)
  qed
qed

lemma async_setup_ok:
  assumes "distinct (filter (\<lambda>a. a \<noteq> None) (map (\<lambda>k. fst (tenant_mem k)) [0..<3]))"
  obtains (failed) "async_setup mem tenant_mem flow_mem = Some (Inl [])"
    | (ready) s ts fs where "async_setup mem tenant_mem flow_mem = Some (Inr (s, ts, fs))" "idle s"
proof (cases rule: hwfq_init_cases [of async_config mem, case_names unused invalid no_memory created])
  case unused
  then show ?case by (simp add: cfg_fits_def with_defaults_def async_config_def)
next
  case invalid
  then show thesis by (intro failed) (simp add: async_setup_def)
next
  case no_memory
  then show thesis by (intro failed) (simp add: async_setup_def)
next
  case (created s)
  have destroyed: thesis
    if "idle s'" "async_setup mem tenant_mem flow_mem = do { (ev, _) \<leftarrow> hwfq_destroy s'; Some (Inl ev) }" for s'
  proof -
    have inv: "hwfq_inv s' []" and none: "waiting s' = {#}" using that(1) by (simp_all add: idle_def system_inv_def)
    have "mset_set (pending s') = {#}" using none by (simp add: waiting_def)
    then have "pending s' = {}" using finite_pending [OF inv] unfolding mset_set_empty_iff by blast
    then obtain s'' where "hwfq_destroy s' = Some ([], s'')"
      using hwfq_destroy_ok [OF inv] by (force simp: cleanup_events_def)
    with that(2) show thesis by (intro failed) simp
  qed
  have i: "idle s" using created(6,7,10) by (simp add: idle_def system_inv_def waiting_def cfg_fits_def with_defaults_def async_config_def)
  let ?ws = "map (\<lambda>k. (tenant_mem k, [100, 50, 25] ! k)) [0..<3]"
  obtain ret s1 where add: "async_add_tenants ?ws s = Some (ret, s1)" "idle s1"
  proof -
    have "distinct (filter (\<lambda>a. a \<noteq> None) (map (\<lambda>x. fst (fst x)) ?ws))" using assms by (simp only: map_map comp_def fst_conv)
    then have "\<exists>ret s'. async_add_tenants ?ws s = Some (ret, s') \<and> idle s'"
      by (intro async_tenants_ok [OF i]) (simp_all only: created(8) not_None_eq simp_thms ball_triv)
    then show thesis using that by blast
  qed
  show thesis
  proof (cases ret)
    case (Inl err)
    then show thesis using created(5) add by (intro destroyed [OF add(2)]) (simp add: async_setup_def)
  next
    case (Inr ts)
    obtain ret' s2 where flows: "async_add_flows (map (\<lambda>k. (flow_mem k, ts ! k)) [0..<3]) s1 = Some (ret', s2)" "idle s2"
      using async_flows_ok [OF add(2)] by blast
    show thesis
    proof (cases ret')
      case (Inl err)
      then show thesis using created(5) add flows Inr by (intro destroyed [OF flows(2)]) (simp add: async_setup_def)
    next
      case (Inr fs)
      then show thesis using created(5) add flows \<open>ret = Inr ts\<close> by (intro ready [OF _ flows(2)]) (simp add: async_setup_def)
    qed
  qed
qed

section \<open>The properties of the program\<close>

text \<open>
  Setting up is defined whatever the allocator answers: it either ends the program, with everything
  released and no callback made, or gives a scheduler that keeps the invariant of the library and holds no
  work, provided the allocator gives no address to two tenants.
\<close>

theorem async_setup_correct:
  assumes "distinct (filter (\<lambda>a. a \<noteq> None) (map (\<lambda>k. fst (tenant_mem k)) [0..<3]))"
  shows "async_setup mem tenant_mem flow_mem = Some (Inl []) \<or>
    (\<exists>s ts fs. async_setup mem tenant_mem flow_mem = Some (Inr (s, ts, fs)) \<and> idle s)"
  by (rule async_setup_ok [OF assms, of mem flow_mem]) blast+

lemma async_setup_correct_witness:
  "async_setup (True, True, (True, True, True), False) (\<lambda>k. (Some k, (True, True), (True, True, True), (True, True)))
     (\<lambda>_. (True, True)) \<noteq> None"
  using async_setup_correct [of "\<lambda>k. (Some k, (True, True), (True, True, True), (True, True))"
      "(True, True, (True, True, True), False)" "\<lambda>_. (True, True)"]
  by (auto simp: numeral_3_eq_3)

text \<open>
  C14. From a scheduler without work, and as long as each call of the library meets its conditions (fresh memory,
  no counter of sessions full, no queued start time \<open>UINT64_MAX\<close> at a dequeue), however the steps of the two
  threads interleave, the program is defined and keeps the invariant of the
  library; its calls are a run of the library, in which every \<open>hwfq_complete\<close> succeeds: exactly the unit of
  work the worker has taken and not yet completed is in flight.  What was handed out and what still waits is
  contained in what was enqueued, and the counters, with the unit not yet counted, tell how much was handed
  out, in all and for each tenant.
\<close>

theorem async_worker_correct:
  assumes "idle s" "may_run async_step async_allowed acts (async_start s w i f js)"
  shows "\<exists>tr a xs calls. run async_step acts (async_start s w i f js) = Some (tr, a) \<and> calls = concat (map snd tr) \<and>
    run hwfq_step (map fst calls) s = Some (calls, g_scheduler a) \<and> (\<forall>(c, r) \<in> set calls. finishes c (fst r)) \<and>
    async_inv a xs \<and> flying (g_scheduler a) xs = in_hand a \<and>
    waiting (g_scheduler a) + total given_out calls \<subseteq># total taken_in calls \<and>
    processed a = of_nat (size (total given_out calls)) \<and>
    (\<forall>k < 3. tenant_tally k a = of_nat (size (of_tenant k (total given_out calls))))"
proof -
  let ?a = "async_start s w i f js"
  have s: "system_inv s []" "waiting s = {#}" "g_scheduler ?a = s" using assms(1) by (simp_all add: idle_def async_start_def)
  obtain tr a xs where r: "run async_step acts ?a = Some (tr, a)" "async_inv a xs" "async_step_law ?a (concat (map snd tr)) a"
    by (rule async_run_ok [OF async_start_inv [OF s(1)] assms(2)])
  let ?l = "concat (map snd tr)"
  note law = r(3) [unfolded async_step_law_def s(3)]
  have "waiting (g_scheduler a) + total given_out ?l \<subseteq># total taken_in ?l"
    using client.gives_from_gets [OF s(1) _ s(2)] law by blast
  moreover have "processed ?a = 0" "\<And>k. k < 3 \<Longrightarrow> tenant_tally k ?a = 0"
    by (auto simp: processed_def tenant_tally_def async_start_def less_Suc_eq numeral_3_eq_3)
  ultimately show ?thesis using r(1,2) law by (intro exI [of _ tr] exI [of _ a] exI [of _ xs] exI [of _ ?l]) (simp add: async_inv_def)
qed

abbreviation ex_schedule :: "action list" where
  "ex_schedule \<equiv> [Main ex_env, Worker ex_later 0, Worker ex_later 0, Worker ex_later 0, Worker ex_later 0,
     Worker ex_later 0, Worker ex_later 0]"

abbreviation ex_async :: async where
  "ex_async \<equiv> async_start ex_flow ex_work 0 0 [(0, 1, ex_work)]"

lemma ex_idle: "idle ex_flow"
  using ex_flow_inv ex_flow_ready(3) by (simp add: idle_def system_inv_def waiting_def ex_configs ex_cfg_fits')

lemmas eval_async = async_start_def async_allowed_def worker_step_def main_step_def library_call_def ex_steps
  arr_get_def arr_set_def

lemma ex_schedule_run:
  "run async_step ex_schedule ex_async =
     Some (zip ex_schedule [[(Enqueue ex_env 0 1 (Some ex_work), Code (Inr ()), [Session_available])], [], [], [],
         [(Dequeue ex_later, Work (Inr (7, 4096, 100, 0, 1)), [])], [], []],
       \<lparr>g_scheduler = ex_served, g_running = True, g_processed_count = 1, g_tenant_counts = [1, 0, 0],
         worker = Completing, worker_work = ex_work\<lparr>sn_user_data := 7, sn_work_size := 4096, sn_timestamp := 100\<rparr>, worker_tid = 0, worker_fid = 1,
         main_thread = Enqueuing []\<rparr>)"
  by (simp add: eval_async)

lemma ex_schedule_allowed: "may_run async_step async_allowed ex_schedule ex_async"
  by (simp add: eval_async ex_flow_ready ex_queued_ready)

lemma async_worker_correct_witness:
  "\<exists>xs. system_inv ex_served xs \<and> flying ex_served xs = {#(0, 1, 7, 4096)#}"
  using async_worker_correct [OF ex_idle ex_schedule_allowed] unfolding ex_schedule_run
  by (auto simp: async_inv_def in_hand_def ex_work_def)

text \<open>
  C15. Once \<open>g_running\<close> is false the worker leaves its loop, whatever the main thread does meanwhile, as long as
  each call of the library meets its conditions: after
  at most four steps for each unit of work that waits, and five more.  \<open>pthread_join\<close> returns.
\<close>

theorem async_worker_stops:
  assumes "async_inv a xs" "\<not> g_running a" "may_run async_step async_allowed acts a"
    "4 * size (waiting (g_scheduler a)) + 5 \<le> length (filter is_worker acts)"
  shows "\<exists>tr a' ys. run async_step acts a = Some (tr, a') \<and> async_inv a' ys \<and> worker a' = Exited"
proof -
  obtain tr a' ys where r: "run async_step acts a = Some (tr, a')" "async_inv a' ys"
    "async_step_law a (concat (map snd tr)) a'"
    "\<not> g_running a \<Longrightarrow> worker_rank a' \<le> worker_rank a - length (filter is_worker acts)"
    using async_run_ok [OF assms(1,3)] by metis
  have "worker_rank a \<le> 4 * size (waiting (g_scheduler a)) + 5" by (simp add: worker_rank_def Let_def split: worker_pc.split)
  with r(4) assms(2,4) have "worker_rank a' = 0" by simp
  then have "worker a' = Exited" by (simp add: worker_rank_def Let_def split: worker_pc.splits)
  with r(1,2) show ?thesis by blast
qed

lemma async_worker_stops_witness:
  "\<exists>tr a' ys. run async_step (replicate 5 (Worker ex_later 0)) (ex_async\<lparr>g_running := False, worker := Sleeping, main_thread := Joining\<rparr>) =
     Some (tr, a') \<and> async_inv a' ys \<and> worker a' = Exited"
proof (rule async_worker_stops [of _ "[]"])
  show "async_inv (ex_async\<lparr>g_running := False, worker := Sleeping, main_thread := Joining\<rparr>) []"
    using ex_idle by (simp add: idle_def async_inv_def async_start_def in_hand_def flying_def main_ok_def)
  show "may_run async_step async_allowed (replicate 5 (Worker ex_later 0))
      (ex_async\<lparr>g_running := False, worker := Sleeping, main_thread := Joining\<rparr>)"
    by (simp add: eval_async eval_nat_numeral)
  show "4 * size (waiting (g_scheduler (ex_async\<lparr>g_running := False, worker := Sleeping, main_thread := Joining\<rparr>))) + 5
      \<le> length (filter is_worker (replicate 5 (Worker ex_later 0)))"
    using ex_idle by (simp add: idle_def async_start_def is_worker_def eval_nat_numeral)
qed (simp add: async_start_def)

end
