(* ===== verification/Tracked_Allocator.thy ===== *)
theory Tracked_Allocator
  imports Ledger
begin

text \<open>
  The allocator of \<^verbatim>\<open>examples/custom_allocator.c\<close>, which a client passes to the library as \<open>alloc_fn\<close> and
  \<open>free_fn\<close>: it stores the size of a block in front of it and keeps count of what is in use, so that the
  program can report a leak.

  \<open>malloc\<close> is a parameter: the address it answers, or none.  \<open>headers\<close> are the \<open>size_t\<close> objects that
  \<open>tracked_alloc\<close> writes at these addresses; the block a client gets starts behind its header.
\<close>

section \<open>The allocator\<close>

record memory_tracker =
  total_allocated :: u64
  total_freed :: u64
  current_usage :: u64
  peak_usage :: u64
  alloc_count :: u64
  free_count :: u64

record tracked_heap =
  g_memory_tracker :: memory_tracker
  headers :: "u64 \<Rightarrow> u64 option"

definition reset_memory_tracker :: "tracked_heap \<Rightarrow> tracked_heap" where
  "reset_memory_tracker h = h\<lparr>g_memory_tracker := \<lparr>total_allocated = 0, total_freed = 0, current_usage = 0,
     peak_usage = 0, alloc_count = 0, free_count = 0\<rparr>\<rparr>"

text \<open>\<open>malloc\<close> gets \<open>sizeof(size_t) + n\<close>; the answer of a call is the client's pointer, 0 for NULL.\<close>

definition tracked_alloc :: "(u64 \<Rightarrow> u64 option) \<Rightarrow> u64 \<Rightarrow> tracked_heap \<Rightarrow> u64 \<times> tracked_heap" where
  "tracked_alloc malloc n h =
     (case malloc (8 + n) of
        None \<Rightarrow> (0, h)
      | Some p \<Rightarrow>
          let h = h\<lparr>headers := (headers h)(p \<mapsto> n)\<rparr>;
              m = g_memory_tracker h;
              m = m\<lparr>total_allocated := total_allocated m + n, current_usage := current_usage m + n,
                alloc_count := alloc_count m + 1\<rparr>;
              m = (if peak_usage m < current_usage m then m\<lparr>peak_usage := current_usage m\<rparr> else m)
          in (p + 8, h\<lparr>g_memory_tracker := m\<rparr>))"

text \<open>\<open>None\<close> is a pointer in front of which there is no header.\<close>

definition tracked_free :: "u64 \<Rightarrow> tracked_heap \<Rightarrow> tracked_heap option" where
  "tracked_free ptr h =
     (if ptr = 0 then Some h
      else do {
        n \<leftarrow> headers h (ptr - 8);
        let m = g_memory_tracker h;
        let m = m\<lparr>total_freed := total_freed m + n, current_usage := current_usage m - n,
          free_count := free_count m + 1\<rparr>;
        Some (h\<lparr>g_memory_tracker := m, headers := (headers h)(ptr - 8 := None)\<rparr>)
      })"

text \<open>The exit code of the program: 1 when memory is still in use at its end.\<close>

definition leak_detected :: "tracked_heap \<Rightarrow> bool" where
  "leak_detected h \<longleftrightarrow> 0 < current_usage (g_memory_tracker h)"

section \<open>Its calls\<close>

datatype memory_call = Alloc "u64 \<Rightarrow> u64 option" u64 | Free u64

fun memory_step :: "memory_call \<Rightarrow> tracked_heap \<Rightarrow> (u64 \<times> tracked_heap) option" where
  "memory_step (Alloc malloc n) h = Some (tracked_alloc malloc n h)"
| "memory_step (Free ptr) h = map_option (Pair 0) (tracked_free ptr h)"

text \<open>
  \<open>malloc\<close> answers memory that is not in use and not at the end of the address space, which has room for all
  the blocks; no request is so large that adding the size of the header wraps; a client frees only what it got.
\<close>

fun memory_allowed :: "memory_call \<Rightarrow> tracked_heap \<Rightarrow> bool" where
  "memory_allowed (Alloc malloc n) h \<longleftrightarrow> (\<forall>p. malloc (8 + n) = Some p \<longrightarrow>
     headers h p = None \<and> p + 8 \<noteq> 0 \<and> 8 + unat n < 2 ^ 64 \<and> unat (current_usage (g_memory_tracker h)) + unat n < 2 ^ 64)"
| "memory_allowed (Free ptr) h \<longleftrightarrow> ptr = 0 \<or> headers h (ptr - 8) \<noteq> None"

definition in_use :: "(u64 \<Rightarrow> u64 option) \<Rightarrow> nat" where
  "in_use H = (\<Sum>p \<in> dom H. unat (the (H p)))"

definition tracked_inv :: "tracked_heap \<Rightarrow> bool" where
  "tracked_inv h \<longleftrightarrow> (let m = g_memory_tracker h in
     unat (current_usage m) = in_use (headers h) \<and> current_usage m \<le> peak_usage m \<and>
     total_allocated m = total_freed m + current_usage m \<and>
     alloc_count m = free_count m + of_nat (card (dom (headers h))) \<and> (\<forall>p \<in> dom (headers h). p + 8 \<noteq> 0))"

text \<open>The pointers the client holds, and how a call changes them.\<close>

definition live_blocks :: "tracked_heap \<Rightarrow> u64 multiset" where
  "live_blocks h = image_mset (\<lambda>p. p + 8) (mset_set (dom (headers h)))"

fun blocks_given :: "memory_call \<Rightarrow> u64 \<Rightarrow> u64 multiset" where
  "blocks_given (Alloc malloc n) r = (if r = 0 then {#} else {#r#})"
| "blocks_given (Free ptr) r = {#}"

fun blocks_returned :: "memory_call \<Rightarrow> u64 \<Rightarrow> u64 multiset" where
  "blocks_returned (Free ptr) r = (if ptr = 0 then {#} else {#ptr#})"
| "blocks_returned (Alloc malloc n) r = {#}"

lemma finite_headers: "finite (dom (H :: u64 \<Rightarrow> u64 option))"
  by (rule finite_subset [OF subset_UNIV]) simp

lemma in_use_insert: "H p = None \<Longrightarrow> in_use (H(p \<mapsto> n)) = in_use H + unat n"
  by (auto simp: in_use_def finite_headers domIff intro!: sum.cong)

lemma in_use_zero: "in_use H = 0 \<longleftrightarrow> (\<forall>p n. H p = Some n \<longrightarrow> n = 0)"
  by (force simp: in_use_def finite_headers unat_eq_zero)

lemma in_use_remove: "H p = Some n \<Longrightarrow> in_use H = in_use (H(p := None)) + unat n"
  using in_use_insert [of "H(p := None)" p n] by (simp add: fun_upd_idem)

lemma card_insert: "H p = None \<Longrightarrow> card (dom (H(p \<mapsto> n))) = Suc (card (dom (H :: u64 \<Rightarrow> u64 option)))"
  by (simp add: finite_headers domIff)

lemma card_remove: "H p = Some n \<Longrightarrow> card (dom (H :: u64 \<Rightarrow> u64 option)) = Suc (card (dom (H(p := None))))"
  using card_insert [of "H(p := None)" p n] by (simp add: fun_upd_idem)

lemma live_insert: "headers h p = None \<Longrightarrow> headers h' = (headers h)(p \<mapsto> n) \<Longrightarrow> live_blocks h' = live_blocks h + {#p + 8#}"
  by (simp add: live_blocks_def finite_headers domIff)

lemma live_remove: "headers h p = Some n \<Longrightarrow> headers h' = (headers h)(p := None) \<Longrightarrow> live_blocks h' + {#p + 8#} = live_blocks h"
  using live_insert [of h' p h n] by (simp add: fun_eq_iff)

lemma alloc_step:
  assumes inv: "tracked_inv h" and ok: "memory_allowed (Alloc malloc n) h"
  obtains r h' where "tracked_alloc malloc n h = (r, h')" "tracked_inv h'"
    "live_blocks h' = live_blocks h + blocks_given (Alloc malloc n) r"
proof (cases "malloc (8 + n)")
  case None
  then show thesis using inv by (intro that [of 0 h]) (simp_all add: tracked_alloc_def)
next
  case (Some p)
  define m where "m = g_memory_tracker h"
  have p: "headers h p = None" "p + 8 \<noteq> 0" "unat (current_usage m) + unat n < 2 ^ 64"
    using ok Some by (simp_all add: m_def)
  have sum: "unat (current_usage m + n) = unat (current_usage m) + unat n" by (rule unat_add_no_wrap) (use p(3) in simp)
  obtain h' where run: "tracked_alloc malloc n h = (p + 8, h')" and h': "headers h' = (headers h)(p \<mapsto> n)"
      "total_allocated (g_memory_tracker h') = total_allocated m + n" "total_freed (g_memory_tracker h') = total_freed m"
      "current_usage (g_memory_tracker h') = current_usage m + n" "alloc_count (g_memory_tracker h') = alloc_count m + 1"
      "free_count (g_memory_tracker h') = free_count m" "current_usage (g_memory_tracker h') \<le> peak_usage (g_memory_tracker h')"
    by (rule that [of "snd (tracked_alloc malloc n h)"]) (auto simp: tracked_alloc_def Some Let_def m_def)
  have "tracked_inv h'"
    using inv p h' sum by (auto simp: tracked_inv_def Let_def in_use_insert card_insert m_def ac_simps simp del: dom_fun_upd split: if_splits)
  then show thesis using p(2) live_insert [OF p(1) h'(1)] by (intro that [OF run]) simp_all
qed

lemma free_step:
  assumes inv: "tracked_inv h" and ok: "memory_allowed (Free ptr) h"
  obtains h' where "tracked_free ptr h = Some h'" "tracked_inv h'"
    "live_blocks h' + blocks_returned (Free ptr) 0 = live_blocks h"
proof (cases "ptr = 0")
  case True
  then show thesis using inv by (intro that [of h]) (simp_all add: tracked_free_def)
next
  case False
  define m where "m = g_memory_tracker h"
  obtain n where n: "headers h (ptr - 8) = Some n" using ok False by auto
  have m: "unat (current_usage m) = in_use (headers h)" "current_usage m \<le> peak_usage m"
    "total_allocated m = total_freed m + current_usage m" "alloc_count m = free_count m + of_nat (card (dom (headers h)))"
    "\<forall>p \<in> dom (headers h). p + 8 \<noteq> 0"
    using inv by (simp_all add: tracked_inv_def Let_def m_def)
  let ?h = "h\<lparr>g_memory_tracker := m\<lparr>total_freed := total_freed m + n, current_usage := current_usage m - n,
    free_count := free_count m + 1\<rparr>, headers := (headers h)(ptr - 8 := None)\<rparr>"
  have run: "tracked_free ptr h = Some ?h" using n False by (simp add: tracked_free_def m_def Let_def)
  have le: "n \<le> current_usage m" using m(1) in_use_remove [of "headers h", OF n] by (simp add: word_le_nat_alt)
  have dif: "unat (current_usage m - n) = unat (current_usage m) - unat n" by (rule unat_sub [OF le])
  have "current_usage m - n \<le> current_usage m" using dif by (simp add: word_le_nat_alt)
  then have "current_usage m - n \<le> peak_usage m" using m(2) by simp
  then have "tracked_inv ?h"
    using m dif in_use_remove [of "headers h", OF n] card_remove [of "headers h", OF n] by (simp add: tracked_inv_def Let_def)
  moreover have "live_blocks ?h + {#ptr - 8 + 8#} = live_blocks h" by (rule live_remove [OF n]) simp
  ultimately show thesis using False by (intro that [OF run]) simp_all
qed

text \<open>The allocator is a ledger of blocks.\<close>

interpretation memory: ledger memory_step memory_allowed "\<lambda>h (g :: unit). tracked_inv h" live_blocks "\<lambda>h g. {#}"
  blocks_given blocks_returned "\<lambda>c r D. D = {#}" "\<lambda>c r F. F = blocks_returned c r"
proof unfold_locales
  fix h c and g :: unit
  assume inv: "tracked_inv h" and ok: "memory_allowed c h"
  show "\<exists>r h' (g' :: unit) D F. memory_step c h = Some (r, h') \<and> tracked_inv h' \<and>
      live_blocks h' + blocks_returned c r + D = live_blocks h + blocks_given c r \<and> D = {#} \<and>
      {#} + F = {#} + blocks_returned c r \<and> F = blocks_returned c r"
  proof (cases c)
    case (Alloc malloc n)
    with inv ok obtain r h' where "tracked_alloc malloc n h = (r, h')" "tracked_inv h'"
      "live_blocks h' = live_blocks h + blocks_given c r" by (metis alloc_step)
    then show ?thesis using Alloc by simp
  next
    case (Free ptr)
    with inv ok obtain h' where "tracked_free ptr h = Some h'" "tracked_inv h'"
      "live_blocks h' + blocks_returned c 0 = live_blocks h" by (metis free_step)
    then show ?thesis using Free by simp
  qed
qed

section \<open>What the program may conclude\<close>

text \<open>
  C40. After any calls of the allocator from a reset, in which the client frees only what it got and \<open>malloc\<close>
  answers NULL or memory that is not in use, within an address space in which sizes do not wrap: the blocks
  the client holds are those it was given and did not return, \<open>current_usage\<close> is the sum of their sizes and
  at most \<open>peak_usage\<close>, the totals and the counts differ by what is in use, and the program reports a leak
  exactly when a block of a positive size was not returned.
\<close>

theorem leak_check_correct:
  assumes "headers h = Map.empty" "may_run memory_step memory_allowed calls (reset_memory_tracker h)"
  shows "\<exists>tr h'. run memory_step calls (reset_memory_tracker h) = Some (tr, h') \<and>
    live_blocks h' + total blocks_returned tr = total blocks_given tr \<and>
    unat (current_usage (g_memory_tracker h')) = in_use (headers h') \<and>
    current_usage (g_memory_tracker h') \<le> peak_usage (g_memory_tracker h') \<and>
    total_allocated (g_memory_tracker h') = total_freed (g_memory_tracker h') + current_usage (g_memory_tracker h') \<and>
    alloc_count (g_memory_tracker h') = free_count (g_memory_tracker h') + of_nat (size (live_blocks h')) \<and>
    (leak_detected h' \<longleftrightarrow> (\<exists>p n. headers h' p = Some n \<and> n \<noteq> 0))"
proof -
  let ?h = "reset_memory_tracker h"
  have start: "tracked_inv ?h" "live_blocks ?h = {#}"
    using assms(1) by (simp_all add: tracked_inv_def reset_memory_tracker_def in_use_def live_blocks_def Let_def)
  obtain tr h' where r: "run memory_step calls ?h = Some (tr, h')" "tracked_inv h'"
      "live_blocks h' + total blocks_returned tr = live_blocks ?h + total blocks_given tr"
  proof -
    obtain tr h' where r: "run memory_step calls ?h = Some (tr, h')" "tracked_inv h'"
      using memory.run_law [OF start(1) assms(2)] by auto
    have "live_blocks h' + total blocks_returned tr = live_blocks ?h + total blocks_given tr"
      by (rule memory.lossless [OF start(1) assms(2) r(1)])
    with r show thesis by (rule that)
  qed
  have sz: "size (live_blocks h') = card (dom (headers h'))" by (simp add: live_blocks_def)
  have "current_usage (g_memory_tracker h') = 0 \<longleftrightarrow> in_use (headers h') = 0"
    using r(2) by (metis tracked_inv_def unat_0 unat_eq_zero)
  then have "leak_detected h' \<longleftrightarrow> (\<exists>p n. headers h' p = Some n \<and> n \<noteq> 0)"
    by (simp add: leak_detected_def in_use_zero word_neq_0_conv [symmetric])
  with r start(2) sz show ?thesis by (intro exI [of _ tr] exI [of _ h']) (simp add: tracked_inv_def Let_def)
qed

abbreviation ex_memory_calls :: "memory_call list" where
  "ex_memory_calls \<equiv> [Alloc (\<lambda>_. Some 96) 24, Alloc (\<lambda>_. Some 512) 100, Alloc (\<lambda>_. None) 7, Free 104, Free 0]"

abbreviation ex_memory :: tracked_heap where
  "ex_memory \<equiv> \<lparr>g_memory_tracker = \<lparr>total_allocated = 1, total_freed = 2, current_usage = 3, peak_usage = 4,
     alloc_count = 5, free_count = 6\<rparr>, headers = Map.empty\<rparr>"

lemma ex_memory_run:
  "run memory_step ex_memory_calls (reset_memory_tracker ex_memory) = Some (zip ex_memory_calls [104, 520, 0, 0, 0],
     \<lparr>g_memory_tracker = \<lparr>total_allocated = 124, total_freed = 24, current_usage = 100, peak_usage = 124,
        alloc_count = 2, free_count = 1\<rparr>, headers = [512 \<mapsto> 100]\<rparr>)"
  by (simp add: tracked_alloc_def tracked_free_def reset_memory_tracker_def Let_def fun_upd_twist)

lemma leak_check_correct_witness:
  "leak_detected \<lparr>g_memory_tracker = \<lparr>total_allocated = 124, total_freed = 24, current_usage = 100, peak_usage = 124,
     alloc_count = 2, free_count = 1\<rparr>, headers = [512 \<mapsto> 100]\<rparr>"
proof -
  have "may_run memory_step memory_allowed ex_memory_calls (reset_memory_tracker ex_memory)"
    by (simp add: tracked_alloc_def tracked_free_def reset_memory_tracker_def Let_def)
  from leak_check_correct [OF _ this] show ?thesis unfolding ex_memory_run by auto
qed

end
