(* ===== verification/Spec2Isabelle.thy ===== *)
theory Spec2Isabelle
  imports Flow_Trie Level_Runs HWFQ_Properties Async_Worker Tracked_Allocator
begin

text \<open>
  A model of the hierarchical weighted fair queueing scheduler, a C library that shares the capacity of a
  device among tenants and, inside a tenant, among its flows, by two levels of WF2Q+.

  \<^bold>\<open>The program and its theories.\<close>  Paths are relative to \<^verbatim>\<open>src/\<close>; the definitions have the names of the C
  functions, and a function that holds loops is split into one definition per loop.

  \<^item> \<^verbatim>\<open>HWFQ_Prelude\<close>, \<^verbatim>\<open>HWFQ_Types\<close>: words, error codes, checked array access; allocations, statistics
    and entries (\<^verbatim>\<open>include/hwfq.h\<close>, \<^verbatim>\<open>src/hwfq_group_scheduler_internal.h\<close>).
  \<^item> \<^verbatim>\<open>Bit_Arrays\<close>: the compiler's bit builtins, bitmaps in word arrays and the loops over their bits.
  \<^item> \<^verbatim>\<open>Flow_Trie\<close>: \<^verbatim>\<open>src/hwfq_flow_trie.c\<close>, the four-level bitmap of flow IDs.
  \<^item> \<^verbatim>\<open>Chunked_Entries\<close>: \<^verbatim>\<open>src/hwfq_chunked_entries.c\<close>, storage that gives out the IDs of tenants and flows
    and keeps their entries in chunks of 1024 slots.
  \<^item> \<^verbatim>\<open>Session_Lists\<close>: the intrusive, sorted, doubly linked lists of sessions on a heap.
  \<^item> \<^verbatim>\<open>Calendar\<close>: \<^verbatim>\<open>src/hwfq_group_calendar.c\<close>, the calendar queue: bins selected by group and finish time, two
    levels of bitmaps over the bins, the search for the eligible session with the least finish time.
  \<^item> \<^verbatim>\<open>Group_Scheduler\<close>, \<^verbatim>\<open>Group_Queue\<close>: \<^verbatim>\<open>src/hwfq_group_scheduler.c\<close>, one level of WF2Q+: the first has the
    definitions and the configuration of entries and rates, the second what enqueue, dequeue, the virtual time
    and the rebase do.  \<^verbatim>\<open>Level_Runs\<close> has the sequences of calls on one level.
  \<^item> \<^verbatim>\<open>In_Flight\<close>: the hash table and the list of the work handed out (\<^verbatim>\<open>src/hwfq_scheduler.c\<close>).
  \<^item> \<^verbatim>\<open>HWFQ_State\<close>: the state of \<^verbatim>\<open>src/hwfq_internal.h\<close>: the configuration, the table of tenants, the system
    level, the work in flight, and the heaps of tenants and of flow contexts.
  \<^item> \<^verbatim>\<open>HWFQ_Config\<close>: \<^verbatim>\<open>src/hwfq_config.c\<close>, creation, destruction, tenants, flows, capacity and statistics.
  \<^item> \<^verbatim>\<open>HWFQ_Scheduler\<close>: \<^verbatim>\<open>src/hwfq_scheduler.c\<close>, enqueue, dequeue, complete, cancel and time-outs over both
    levels.  The user data of a session of the system level is a tenant, that of a session of a tenant's level
    a flow context.
  \<^item> \<^verbatim>\<open>HWFQ_Invariant\<close>: what holds between two calls, \<open>hwfq_inv\<close>.
  \<^item> \<^verbatim>\<open>HWFQ_Scheduling\<close>, \<^verbatim>\<open>HWFQ_Completion\<close>, \<^verbatim>\<open>HWFQ_Tenants\<close>, \<^verbatim>\<open>HWFQ_Statistics\<close>: for every public function a
    lemma \<open>hwfq_..._cases\<close> (or \<open>..._ok\<close>) with one case per branch: what it answers, that the invariant is kept,
    and what becomes of the tenants, the waiting work and the work in flight.
  \<^item> \<^verbatim>\<open>HWFQ_System\<close>: the public functions as calls of one transition function \<open>exec\<close>, and what each does to
    the work.
  \<^item> \<^verbatim>\<open>HWFQ_Example\<close>: a run of the library evaluated call by call.
  \<^item> \<^verbatim>\<open>HWFQ_Properties\<close>: the properties of the whole library.
  \<^item> \<^verbatim>\<open>Async_Worker\<close>: \<^verbatim>\<open>examples/async_worker.c\<close>, a client with two threads that share the scheduler: their steps,
    and what holds for every schedule of them.
  \<^item> \<^verbatim>\<open>Tracked_Allocator\<close>: the allocator of \<^verbatim>\<open>examples/custom_allocator.c\<close>, which counts what is in use.

  \<^bold>\<open>Interfaces.\<close>  \<^verbatim>\<open>Id_Allocator\<close> is the contract of a component that gives out IDs (interpreted by the trie
  and by the chunked storage), \<^verbatim>\<open>Session_Queue\<close> that of a queue of sessions (interpreted by the calendar),
  \<^verbatim>\<open>Ledger\<close> that of a component that takes things in, holds them and hands them out (interpreted by the
  library, for work, and by the tracking allocator, for blocks of memory).

  \<^bold>\<open>Conventions.\<close>  A C function is a HOL function from the objects behind its arguments to an option:
  \<^term>\<open>None\<close> is undefined behaviour or a loop that does not end, so a theorem that a call answers \<open>Some\<close> is
  memory safety and termination at once.  A function that returns a code and writes an out-parameter returns a
  sum; the guards for a NULL handle and for NULL out-parameters have no counterpart, because the handle is the
  state itself and the out-parameters are the result.  Callbacks into the client are the list of events that
  a call returns.  The answers of the allocator and of the clock are arguments of the call that asks for them.
  A pointer to an entry of a tenant or flow is its ID; sessions, tenants, contexts and in-flight entries are
  objects of maps from addresses, so that a use after \<open>free\<close> is undefined.  The rate estimates in \<open>double\<close> are
  kept as the expression that computes them.

  \<^bold>\<open>What is shown.\<close>
  \<^item> Memory safety and termination: \<open>hwfq_inv\<close> holds after \<open>hwfq_init\<close> and is kept by every call; every run of
    calls under the hypotheses below is defined (\<open>runs_defined\<close>).  Loops over lists and bitmaps are \<open>partial_function\<close>s or have a measure,
    and are shown to end under the invariants.
  \<^item> The work is conserved over every run (\<open>runs_conserve_work\<close>): what was accepted waits, was handed out or
    was lost by a call as \<open>dropped\<close> says; what was handed out is in flight or was ended by a call as \<open>ended\<close>
    says.  On one level, every accepted session is queued, was handed out or was removed
    (\<open>level_conserves_sessions\<close>).
  \<^item> What every public function that changes the state does on every branch; the order of service: at both levels, of the
    eligible sessions (start time reached) whose finish time is below \<open>UINT64_MAX\<close>, the one with the least
    finish time (\<open>hwfq_dequeue_correct\<close>, \<open>calendar_find_min_correct\<close>), and that a
    dequeue succeeds when work can be handed out (\<open>dequeue_work_conserving\<close>).
  \<^item> The two ID allocators refine a set of IDs, the calendar a set of sessions, the in-flight table a sequence.
  \<^item> A client built on the library: however its two threads interleave, every completion succeeds and the
    counters tell what was handed out (\<open>async_worker_correct\<close>), and the worker ends (\<open>async_worker_stops\<close>).
  \<^item> Where 64 or 32 bits are not enough: the capacity check, the overbooking check, the virtual time of an
    idle level, sessions whose start or finish time saturates.

  \<^bold>\<open>Hypotheses.\<close>  \<open>env_fresh\<close>: the allocator answers NULL or an address not in use.  \<open>has_room\<close>: no level has
  \<open>2 ^ 32 - 1\<close> sessions.  \<open>times_fit\<close>: no queued session has the start time \<open>2 ^ 64 - 1\<close>; a level keeps its
  order over a rebase only then (\<open>rebase_stale_minimum\<close> shows what happens otherwise).  \<open>cfg_fits\<close>: groups times bins is at most 32768, the number of bins that the 32
  words of the group bitmap can address; beyond it the search does not see all bins.

  \<^bold>\<open>Not modelled.\<close>  The mutexes: every call is one step, which is what the lock around each function body
  gives; the callbacks that the C code makes after unlocking are events at the end of that step.  The contents
  of the memory a failed allocation would have used.  \<^verbatim>\<open>examples/basic_config.c\<close>, the \<open>main\<close> of
  \<^verbatim>\<open>examples/custom_allocator.c\<close> and the test programs: straight lines of calls of the functions modelled here,
  with printing, fixtures and timing between them.  The header files beyond their types, constants and inline
  functions hold declarations and comments only.
\<close>

end
